(* ===== verification/Nachos_Prelude.thy ===== *)
theory Nachos_Prelude
  imports Main "HOL-Library.Word" "HOL-Library.Signed_Division"
begin

text \<open>
  Shared vocabulary of the Nachos development.

  \<^item> The result type: every \<open>ASSERT\<close> of the sources, every read or write outside an array and
    every use of a null or dangling pointer is a value \<open>Inl e\<close>; a normal return is \<open>Inr x\<close>.
    \<open>bindE\<close> sequences two fallible computations, \<open>bindO\<close> two that may also fail to return.
  \<^item> The arithmetic helpers of \<open>threads/utility.h\<close> (\<open>divRoundDown\<close>, \<open>divRoundUp\<close>) and C's
    truncating division.
  \<^item> Arrays as lists: \<open>arr_get\<close> and \<open>arr_set\<close> take a C \<open>int\<close> index and fail outside the array.
  \<^item> The locale \<open>step_invariant\<close>: what holds at the start and is kept by every step holds in all reachable states.
  \<^item> The collections \<open>nachos_simps\<close> (unfolding rules for the result type and arrays) and
    \<open>nachos_dests\<close> (inversion of successful runs), used by the component theories.
\<close>

unbundle bit_operations_syntax

named_theorems nachos_simps "unfolding rules of the result type and of arrays"
named_theorems nachos_dests "inversion rules of successful runs"

section \<open>Results\<close>

datatype nachos_error =
    AssertFailed     \<comment> \<open>the macro ASSERT of utility.h: print a message and abort\<close>
  | OutOfBounds      \<comment> \<open>an array access outside the array (undefined in C++)\<close>
  | BadPointer       \<comment> \<open>a null or dangling pointer is dereferenced (undefined in C++)\<close>
  | MachineHalted    \<comment> \<open>Interrupt::Halt, which never returns\<close>
  | DivideTrap       \<comment> \<open>the host's division traps: the quotient does not fit (undefined in C++)\<close>

type_synonym 'a result = "nachos_error + 'a"

definition bindE :: "'e + 'a \<Rightarrow> ('a \<Rightarrow> 'e + 'b) \<Rightarrow> 'e + 'b" where
  "bindE r f = (case r of Inl e \<Rightarrow> Inl e | Inr x \<Rightarrow> f x)"

text \<open>The same for a computation that may not return, which yields \<open>None\<close>.\<close>

definition bindO :: "'a result option \<Rightarrow> ('a \<Rightarrow> 'b result option) \<Rightarrow> 'b result option" where
  "bindO r f = Option.bind r (\<lambda>x. case x of Inl e \<Rightarrow> Some (Inl e) | Inr y \<Rightarrow> f y)"

definition ASSERT :: "bool \<Rightarrow> unit result" where
  "ASSERT c = (if c then Inr () else Inl AssertFailed)"

definition deref :: "'a option \<Rightarrow> 'a result" where
  "deref p = (case p of None \<Rightarrow> Inl BadPointer | Some x \<Rightarrow> Inr x)"

definition is_ok :: "'e + 'a \<Rightarrow> bool" where
  "is_ok r \<longleftrightarrow> (case r of Inl _ \<Rightarrow> False | Inr _ \<Rightarrow> True)"

section \<open>Integer helpers of utility.h\<close>

definition divRoundDown :: "int \<Rightarrow> int \<Rightarrow> int" where
  "divRoundDown n s = n sdiv s"

definition divRoundUp :: "int \<Rightarrow> int \<Rightarrow> int" where
  "divRoundUp n s = n sdiv s + (if n smod s > 0 then 1 else 0)"

section \<open>C arrays\<close>

definition arr_get :: "'a list \<Rightarrow> int \<Rightarrow> 'a result" where
  "arr_get xs i = (if 0 \<le> i \<and> i < int (length xs) then Inr (xs ! nat i) else Inl OutOfBounds)"

definition arr_set :: "'a list \<Rightarrow> int \<Rightarrow> 'a \<Rightarrow> 'a list result" where
  "arr_set xs i v = (if 0 \<le> i \<and> i < int (length xs) then Inr (xs[nat i := v]) else Inl OutOfBounds)"

section \<open>Counting loops\<close>

text \<open>
  \<open>for (int i = a; i < b; i++) body\<close> with a bound \<open>b\<close> that the body does not change; the body maps the
  state and may fail, which ends the loop.
\<close>

function forE :: "int \<Rightarrow> int \<Rightarrow> (int \<Rightarrow> 's \<Rightarrow> 's result) \<Rightarrow> 's \<Rightarrow> 's result" where
  "forE a b f s = (if a < b then bindE (f a s) (forE (a + 1) b f) else Inr s)"
  by pat_completeness auto
termination by (relation "measure (\<lambda>(a, b, _). nat (b - a))") auto

section \<open>Bytes of a word\<close>

text \<open>A 32-bit word in memory and on disk: four bytes, least significant first (the host is little endian).\<close>

definition word_to_bytes :: "32 word \<Rightarrow> 8 word list" where
  "word_to_bytes w = [ucast w, ucast (drop_bit 8 w), ucast (drop_bit 16 w), ucast (drop_bit 24 w)]"

definition bytes_to_word :: "8 word list \<Rightarrow> 32 word" where
  "bytes_to_word bs =
     ucast (bs ! 0) OR push_bit 8 (ucast (bs ! 1)) OR push_bit 16 (ucast (bs ! 2)) OR push_bit 24 (ucast (bs ! 3))"

section \<open>Lemmas on results\<close>

lemma bindE_Inr [simp, nachos_simps]: "bindE (Inr x) f = f x"
  by (simp add: bindE_def)

lemma bindE_Inl [simp, nachos_simps]: "bindE (Inl e) f = Inl e"
  by (simp add: bindE_def)

lemma bindE_assoc: "bindE (bindE r f) g = bindE r (\<lambda>x. bindE (f x) g)"
  by (cases r) auto

lemma bindE_eq_Inr [nachos_dests]: "bindE r f = Inr y \<longleftrightarrow> (\<exists>x. r = Inr x \<and> f x = Inr y)"
  by (cases r) auto

lemma bindE_eq_Inl: "bindE r f = Inl e \<longleftrightarrow> r = Inl e \<or> (\<exists>x. r = Inr x \<and> f x = Inl e)"
  by (cases r) auto

lemma bindE_cong [fundef_cong]:
  "r = r' \<Longrightarrow> (\<And>x. r' = Inr x \<Longrightarrow> f x = f' x) \<Longrightarrow> bindE r f = bindE r' f'"
  by (cases r') auto

lemma bindO_simps [simp]: "bindO (Some (Inr x)) f = f x" "bindO (Some (Inl e)) f = Some (Inl e)" "bindO None f = None"
  by (simp_all add: bindO_def)

lemma bindO_Inr: "bindO r f = Some (Inr y) \<longleftrightarrow> (\<exists>x. r = Some (Inr x) \<and> f x = Some (Inr y))"
  by (cases r; auto simp: bindO_def split: sum.splits)

lemma ASSERT_eq_Inr [simp, nachos_simps]: "ASSERT c = Inr u \<longleftrightarrow> c"
  by (simp add: ASSERT_def)

lemma ASSERT_eq_Inl [simp, nachos_simps]: "ASSERT c = Inl e \<longleftrightarrow> \<not> c \<and> e = AssertFailed"
  by (auto simp: ASSERT_def)

lemma ASSERT_True [simp, nachos_simps]: "c \<Longrightarrow> ASSERT c = Inr ()"
  by (simp add: ASSERT_def)

lemma ASSERT_False [simp, nachos_simps]: "\<not> c \<Longrightarrow> ASSERT c = Inl AssertFailed"
  by (simp add: ASSERT_def)

lemma deref_simps [simp, nachos_simps]: "deref None = Inl BadPointer" "deref (Some x) = Inr x"
  by (simp_all add: deref_def)

lemma deref_eq_Inr [simp]: "deref p = Inr x \<longleftrightarrow> p = Some x"
  by (cases p) auto

lemma is_ok_simps [simp]: "is_ok (Inr x)" "\<not> is_ok (Inl e)"
  by (simp_all add: is_ok_def)

lemma is_ok_iff: "is_ok r \<longleftrightarrow> (\<exists>x. r = Inr x)"
  by (cases r) auto

section \<open>Lemmas on loops\<close>

declare forE.simps [simp del]

lemma forE_done [simp]: "b \<le> a \<Longrightarrow> forE a b f s = Inr s"
  by (simp add: forE.simps)

lemma forE_step: "a < b \<Longrightarrow> forE a b f s = bindE (f a s) (forE (a + 1) b f)"
  by (simp add: forE.simps [of a b f s])

lemma forE_split: "a \<le> b \<Longrightarrow> b \<le> c \<Longrightarrow> forE a c f s = bindE (forE a b f s) (forE b c f)"
proof (induction a b f s rule: forE.induct)
  case (1 a b f s)
  show ?case
  proof (cases "a < b")
    case True
    then have "forE a c f s = bindE (f a s) (forE (a + 1) c f)" using 1 by (intro forE_step) simp
    also have "\<dots> = bindE (f a s) (\<lambda>t. bindE (forE (a + 1) b f t) (forE b c f))"
      by (rule bindE_cong [OF refl]) (use 1 True in simp)
    finally show ?thesis using True by (simp add: forE_step bindE_assoc)
  qed (use 1 in simp)
qed

text \<open>The invariant rule: every iteration succeeds and carries the invariant to the next index.\<close>

lemma forE_invariant:
  assumes "P a s" "a \<le> b"
    and "\<And>i t. a \<le> i \<Longrightarrow> i < b \<Longrightarrow> P i t \<Longrightarrow> \<exists>t'. f i t = Inr t' \<and> P (i + 1) t'"
  shows "\<exists>t. forE a b f s = Inr t \<and> P b t"
  using assms
proof (induction a b f s rule: forE.induct)
  case (1 a b f s)
  show ?case
  proof (cases "a < b")
    case True
    with "1.prems"(3) [of a s] "1.prems"(1) obtain t where t: "f a s = Inr t" "P (a + 1) t" by auto
    have "\<exists>t'. forE (a + 1) b f t = Inr t' \<and> P b t'"
      using True t "1.prems"(3) by (intro "1.IH") auto
    then show ?thesis using True t by (simp add: forE_step)
  next
    case False
    with "1.prems" show ?thesis by (simp add: forE.simps)
  qed
qed

section \<open>Lemmas on bytes\<close>

lemma length_word_to_bytes [simp]: "length (word_to_bytes w) = 4"
  by (simp add: word_to_bytes_def)

lemma bytes_to_word_to_bytes [simp]: "bytes_to_word (word_to_bytes w) = w"
proof (rule bit_word_eqI)
  fix n assume n: "n < LENGTH(32)"
  have "n < 8 \<or> 8 \<le> n \<and> n < 16 \<or> 16 \<le> n \<and> n < 24 \<or> 24 \<le> n" by linarith
  then show "bit (bytes_to_word (word_to_bytes w)) n = bit w n"
    using n by (auto simp: bytes_to_word_def word_to_bytes_def bit_or_iff bit_push_bit_iff
        bit_unsigned_iff bit_drop_bit_eq not_le)
qed

section \<open>Lemmas on arithmetic\<close>

lemma sdiv_nonneg: "0 \<le> n \<Longrightarrow> 0 < s \<Longrightarrow> (n::int) sdiv s = n div s"
  by (cases "n = 0") (simp_all add: signed_divide_int_def)

lemma smod_nonneg: "0 \<le> n \<Longrightarrow> 0 < s \<Longrightarrow> (n::int) smod s = n mod s"
  by (cases "n = 0") (simp_all add: signed_modulo_int_def)

lemma divRoundDown_nonneg: "0 \<le> n \<Longrightarrow> 0 < s \<Longrightarrow> divRoundDown n s = n div s"
  by (simp add: divRoundDown_def sdiv_nonneg)

lemma divRoundUp_nonneg:
  assumes "0 \<le> n" "0 < s"
  shows "divRoundUp n s = (n + s - 1) div s"
proof -
  let ?q = "n div s" and ?r = "n mod s"
  have n: "n = ?q * s + ?r" and r: "0 \<le> ?r" "?r < s"
    using assms by (auto simp: div_mult_mod_eq)
  have "(n + s - 1) div s = (if ?r > 0 then ?q + 1 else ?q)"
  proof (cases "?r > 0")
    case True
    have "(n + s - 1) = (?q + 1) * s + (?r - 1)" using n by (simp add: algebra_simps)
    moreover have "((?q + 1) * s + (?r - 1)) div s = ?q + 1"
    proof -
      have "(?r - 1) div s = 0" using True r by (intro div_pos_pos_trivial) auto
      then show ?thesis using assms by simp
    qed
    ultimately have "(n + s - 1) div s = ?q + 1" by metis
    then show ?thesis using True by simp
  next
    case False
    with r have "n + s - 1 = ?q * s + (s - 1)" using n by simp
    moreover have "(?q * s + (s - 1)) div s = ?q"
      using assms by simp
    ultimately have "(n + s - 1) div s = ?q" by metis
    then show ?thesis using False by simp
  qed
  then show ?thesis using assms by (simp add: divRoundUp_def sdiv_nonneg smod_nonneg)
qed

lemma sint_in_range: "- (2 ^ 31) \<le> k \<Longrightarrow> k < 2 ^ 31 \<Longrightarrow> sint (word_of_int k :: 32 word) = k"
  by (simp add: signed_of_int signed_take_bit_int_eq_self)

lemma divRoundUp_bounds:
  assumes "0 \<le> n" "0 < s"
  shows "n \<le> divRoundUp n s * s" "divRoundUp n s * s < n + s"
proof -
  have d: "divRoundUp n s = (n + s - 1) div s" using assms by (rule divRoundUp_nonneg)
  have e: "(n + s - 1) div s * s + (n + s - 1) mod s = n + s - 1" by simp
  have "0 \<le> (n + s - 1) mod s" "(n + s - 1) mod s < s" using assms by auto
  with e show "n \<le> divRoundUp n s * s" "divRoundUp n s * s < n + s" unfolding d by linarith+
qed

lemma divRoundUp_ge0: "0 \<le> n \<Longrightarrow> 0 < s \<Longrightarrow> 0 \<le> divRoundUp n s"
  by (simp add: divRoundUp_nonneg pos_imp_zdiv_nonneg_iff)

section \<open>Lemmas on arrays\<close>

lemma arr_get_ok [simp]: "0 \<le> i \<Longrightarrow> i < int (length xs) \<Longrightarrow> arr_get xs i = Inr (xs ! nat i)"
  by (simp add: arr_get_def)

lemma arr_get_eq_Inr: "arr_get xs i = Inr x \<longleftrightarrow> 0 \<le> i \<and> i < int (length xs) \<and> x = xs ! nat i"
  by (auto simp: arr_get_def)

lemma arr_set_ok [simp]: "0 \<le> i \<Longrightarrow> i < int (length xs) \<Longrightarrow> arr_set xs i v = Inr (xs[nat i := v])"
  by (simp add: arr_set_def)

lemma arr_set_eq_Inr: "arr_set xs i v = Inr ys \<longleftrightarrow> 0 \<le> i \<and> i < int (length xs) \<and> ys = xs[nat i := v]"
  by (auto simp: arr_set_def)

lemma arr_get_of_nat [simp]: "n < length xs \<Longrightarrow> arr_get xs (int n) = Inr (xs ! n)"
  by (simp add: arr_get_def)

lemma arr_set_of_nat: "n < length xs \<Longrightarrow> arr_set xs (int n) v = Inr (xs[n := v])"
  by (simp add: arr_set_def)

lemma arr_get_arr_set:
  "arr_set xs i v = Inr ys \<Longrightarrow> arr_get ys j = (if i = j then Inr v else arr_get xs j)"
  by (auto simp: arr_set_eq_Inr arr_get_def nth_list_update split: if_splits)

section \<open>Invariants of step relations\<close>

text \<open>What holds at the start and is kept by every step holds in every reachable state.\<close>

locale step_invariant =
  fixes start :: 's and step :: "'s \<Rightarrow> 's \<Rightarrow> bool" and inv :: "'s \<Rightarrow> bool"
  assumes inv_start: "inv start"
    and inv_step: "inv s \<Longrightarrow> step s s' \<Longrightarrow> inv s'"
begin

lemma inv_reachable: "step\<^sup>*\<^sup>* start s \<Longrightarrow> inv s"
  by (induction rule: rtranclp_induct) (auto intro: inv_start inv_step)

end

end
