(* ===== verification/Linked_List.thy ===== *)
theory Linked_List
  imports Nachos_Prelude "HOL-Library.Multiset"
begin

text \<open>
  The singly linked list of \<open>threads/list.h\<close>, modelled at the level of its pointers.

  A heap maps addresses to \<open>ListElement\<close>s; a \<open>List\<close> object holds the two pointers \<open>first\<close> and
  \<open>last\<close>. Each operation takes the heap and the list object and returns both updated. The address
  that \<open>new ListNode\<close> hands out is an argument of the operations that allocate; the lemmas assume
  only that it is not in use. \<open>Item()\<close>, the value returned by \<open>Remove\<close> on an empty list, is the
  null pointer at every use in the program and is modelled as \<open>None\<close>.

  The second half relates the pointer structure to plain lists of key/item pairs
  (\<open>lapp\<close>, \<open>lprep\<close>, \<open>lins\<close>, \<open>lrem\<close>), which the other components use for their \<open>List<T>\<close> members.
\<close>

section \<open>Data structures\<close>

type_synonym addr = nat

record 'a ListElement =
  le_next :: "addr option"
  le_key :: int
  le_item :: 'a

type_synonym 'a heap = "addr \<Rightarrow> 'a ListElement option"

record List =
  ls_first :: "addr option"
  ls_last :: "addr option"

section \<open>Operations of list.h\<close>

definition new_ListElement :: "'a \<Rightarrow> int \<Rightarrow> 'a ListElement" where
  "new_ListElement anItem sortKey = \<lparr>le_next = None, le_key = sortKey, le_item = anItem\<rparr>"

definition new_List :: List where
  "new_List = \<lparr>ls_first = None, ls_last = None\<rparr>"

definition IsEmpty :: "List \<Rightarrow> bool" where
  "IsEmpty l \<longleftrightarrow> ls_first l = None"

text \<open>The assignment \<open>p->next = q\<close>.\<close>

definition set_next :: "'a heap \<Rightarrow> addr option \<Rightarrow> addr option \<Rightarrow> 'a heap result" where
  "set_next h p q =
     bindE (deref p) (\<lambda>a. bindE (deref (h a)) (\<lambda>e. Inr (h(a \<mapsto> e\<lparr>le_next := q\<rparr>))))"

definition Append :: "'a heap \<Rightarrow> List \<Rightarrow> addr \<Rightarrow> 'a \<Rightarrow> ('a heap \<times> List) result" where
  "Append h l element item =
     (let h1 = h(element \<mapsto> new_ListElement item 0) in
      if IsEmpty l then Inr (h1, l\<lparr>ls_first := Some element, ls_last := Some element\<rparr>)
      else bindE (set_next h1 (ls_last l) (Some element))
             (\<lambda>h2. Inr (h2, l\<lparr>ls_last := Some element\<rparr>)))"

definition Prepend :: "'a heap \<Rightarrow> List \<Rightarrow> addr \<Rightarrow> 'a \<Rightarrow> ('a heap \<times> List) result" where
  "Prepend h l element item =
     (let h1 = h(element \<mapsto> new_ListElement item 0) in
      if IsEmpty l then Inr (h1, l\<lparr>ls_first := Some element, ls_last := Some element\<rparr>)
      else bindE (set_next h1 (Some element) (ls_first l))
             (\<lambda>h2. Inr (h2, l\<lparr>ls_first := Some element\<rparr>)))"

text \<open>
  The loop of \<open>SortedInsert\<close>. It returns the element after which the new one goes, or \<open>None\<close> when
  the walk reaches the end of the list; on a cyclic heap it does not return.
\<close>

partial_function (option) insert_walk ::
  "'a heap \<Rightarrow> int \<Rightarrow> addr \<Rightarrow> (addr option) result option" where
  "insert_walk h sortKey ptr =
     (case h ptr of
        None \<Rightarrow> Some (Inl BadPointer)
      | Some e \<Rightarrow>
          (case le_next e of
             None \<Rightarrow> Some (Inr None)
           | Some nx \<Rightarrow>
               (case h nx of
                  None \<Rightarrow> Some (Inl BadPointer)
                | Some e' \<Rightarrow>
                    if sortKey < le_key e' then Some (Inr (Some ptr))
                    else insert_walk h sortKey nx)))"

definition SortedInsert ::
  "'a heap \<Rightarrow> List \<Rightarrow> addr \<Rightarrow> 'a \<Rightarrow> int \<Rightarrow> ('a heap \<times> List) result option" where
  "SortedInsert h l element item sortKey =
     (let h1 = h(element \<mapsto> new_ListElement item sortKey) in
      case ls_first l of
        None \<Rightarrow> Some (Inr (h1, l\<lparr>ls_first := Some element, ls_last := Some element\<rparr>))
      | Some f \<Rightarrow>
          (case h1 f of
             None \<Rightarrow> Some (Inl BadPointer)
           | Some ef \<Rightarrow>
               if sortKey < le_key ef then
                 Some (bindE (set_next h1 (Some element) (ls_first l))
                         (\<lambda>h2. Inr (h2, l\<lparr>ls_first := Some element\<rparr>)))
               else
                 (case insert_walk h1 sortKey f of
                    None \<Rightarrow> None
                  | Some (Inl e) \<Rightarrow> Some (Inl e)
                  | Some (Inr (Some ptr)) \<Rightarrow>
                      Some (bindE (deref (h1 ptr)) (\<lambda>e.
                            bindE (set_next h1 (Some element) (le_next e)) (\<lambda>h2.
                            bindE (set_next h2 (Some ptr) (Some element)) (\<lambda>h3. Inr (h3, l)))))
                  | Some (Inr None) \<Rightarrow>
                      Some (bindE (set_next h1 (ls_last l) (Some element))
                              (\<lambda>h2. Inr (h2, l\<lparr>ls_last := Some element\<rparr>))))))"

text \<open>
  \<open>SortedRemove\<close> returns the removed item and key (\<open>None\<close> for an empty list) and frees the element.
\<close>

definition SortedRemove ::
  "'a heap \<Rightarrow> List \<Rightarrow> ((int \<times> 'a) option \<times> 'a heap \<times> List) result" where
  "SortedRemove h l =
     (case ls_first l of
        None \<Rightarrow> Inr (None, h, l)
      | Some element \<Rightarrow>
          bindE (deref (h element)) (\<lambda>e.
            let l' = (if ls_first l = ls_last l then l\<lparr>ls_first := None, ls_last := None\<rparr>
                      else l\<lparr>ls_first := le_next e\<rparr>)
            in Inr (Some (le_key e, le_item e), h(element := None), l')))"

definition Remove :: "'a heap \<Rightarrow> List \<Rightarrow> ('a option \<times> 'a heap \<times> List) result" where
  "Remove h l = bindE (SortedRemove h l) (\<lambda>(r, h', l'). Inr (map_option snd r, h', l'))"

text \<open>\<open>Apply\<close> calls its argument on every item in order; the model returns those items.\<close>

partial_function (option) apply_walk :: "'a heap \<Rightarrow> addr option \<Rightarrow> 'a list result option" where
  "apply_walk h ptr =
     (case ptr of
        None \<Rightarrow> Some (Inr [])
      | Some a \<Rightarrow>
          (case h a of
             None \<Rightarrow> Some (Inl BadPointer)
           | Some e \<Rightarrow>
               Option.bind (apply_walk h (le_next e))
                 (\<lambda>r. Some (bindE r (\<lambda>xs. Inr (le_item e # xs))))))"

definition Apply :: "'a heap \<Rightarrow> List \<Rightarrow> 'a list result option" where
  "Apply h l = apply_walk h (ls_first l)"

text \<open>The destructor removes elements until the list is empty.\<close>

partial_function (option) delete_List :: "'a heap \<Rightarrow> List \<Rightarrow> ('a heap \<times> List) result option" where
  "delete_List h l =
     (if IsEmpty l then Some (Inr (h, l))
      else case Remove h l of
             Inl e \<Rightarrow> Some (Inl e)
           | Inr r \<Rightarrow> delete_List (fst (snd r)) (snd (snd r)))"

section \<open>The abstract list\<close>

text \<open>
  The contents of a \<open>List<T>\<close> object as a sequence of key/item pairs, with the effect of each
  operation on it. \<open>Append\<close> and \<open>Prepend\<close> use the key 0, as the code does.
\<close>

type_synonym 'a nlist = "(int \<times> 'a) list"

definition lapp :: "'a nlist \<Rightarrow> 'a \<Rightarrow> 'a nlist" where
  "lapp xs x = xs @ [(0, x)]"

definition lprep :: "'a nlist \<Rightarrow> 'a \<Rightarrow> 'a nlist" where
  "lprep xs x = (0, x) # xs"

fun lins :: "'a nlist \<Rightarrow> 'a \<Rightarrow> int \<Rightarrow> 'a nlist" where
  "lins [] x k = [(k, x)]"
| "lins ((k', y) # xs) x k = (if k < k' then (k, x) # (k', y) # xs else (k', y) # lins xs x k)"

fun lrem :: "'a nlist \<Rightarrow> (int \<times> 'a) option \<times> 'a nlist" where
  "lrem [] = (None, [])"
| "lrem (e # xs) = (Some e, xs)"

definition keys_sorted :: "'a nlist \<Rightarrow> bool" where
  "keys_sorted xs = sorted (map fst xs)"

section \<open>Representation\<close>

text \<open>\<open>lseg h p as q\<close>: following \<open>next\<close> from \<open>p\<close> visits the addresses \<open>as\<close> and arrives at \<open>q\<close>.\<close>

fun lseg :: "'a heap \<Rightarrow> addr option \<Rightarrow> addr list \<Rightarrow> addr option \<Rightarrow> bool" where
  "lseg h p [] q = (p = q)"
| "lseg h p (a # as) q =
     (p = Some a \<and> (case h a of None \<Rightarrow> False | Some e \<Rightarrow> lseg h (le_next e) as q))"

fun cells :: "'a heap \<Rightarrow> addr list \<Rightarrow> 'a nlist" where
  "cells h [] = []"
| "cells h (a # as) = (case h a of None \<Rightarrow> cells h as | Some e \<Rightarrow> (le_key e, le_item e) # cells h as)"

text \<open>
  The invariant of a \<open>List\<close> object: \<open>first\<close> starts a chain of distinct elements that ends in a null
  pointer, and \<open>last\<close> is the final one of them.
\<close>

definition list_rep :: "'a heap \<Rightarrow> List \<Rightarrow> addr list \<Rightarrow> 'a nlist \<Rightarrow> bool" where
  "list_rep h l as xs \<longleftrightarrow>
     lseg h (ls_first l) as None \<and> distinct as \<and> cells h as = xs \<and>
     ls_last l = (if as = [] then None else Some (last as))"

section \<open>Chains of elements\<close>

lemma lseg_append: "lseg h p (as @ bs) q \<longleftrightarrow> (\<exists>r. lseg h p as r \<and> lseg h r bs q)"
  by (induction as arbitrary: p) (auto split: option.splits)

lemma lseg_upd_other [simp]: "a \<notin> set as \<Longrightarrow> lseg (h(a := v)) p as q = lseg h p as q"
  by (induction as arbitrary: p) (auto split: option.splits)

lemma cells_upd_other [simp]: "a \<notin> set as \<Longrightarrow> cells (h(a := v)) as = cells h as"
  by (induction as) (auto split: option.splits)

lemma cells_append [simp]: "cells h (as @ bs) = cells h as @ cells h bs"
  by (induction as) (auto split: option.splits)

lemma lseg_dom: "lseg h p as q \<Longrightarrow> a \<in> set as \<Longrightarrow> \<exists>e. h a = Some e"
  by (induction as arbitrary: p) (auto split: option.splits)

lemma lseg_fresh: "lseg h p as q \<Longrightarrow> h a = None \<Longrightarrow> a \<notin> set as"
  using lseg_dom by fastforce

lemma lseg_Some_Cons: "lseg h (Some p) as None \<Longrightarrow> \<exists>bs. as = p # bs"
  by (cases as) auto

lemma lseg_splice:
  assumes "lseg h f (us @ p # vs) None" "distinct (us @ p # vs)"
    and "el \<notin> set (us @ p # vs)" "h p = Some e"
  shows "lseg (h(el \<mapsto> n\<lparr>le_next := le_next e\<rparr>, p \<mapsto> e\<lparr>le_next := Some el\<rparr>)) f (us @ p # el # vs) None"
  using assms by (auto simp: lseg_append)

lemma cells_splice:
  assumes "distinct (us @ p # vs)" "el \<notin> set (us @ p # vs)" "h p = Some e"
  shows "cells (h(el \<mapsto> n\<lparr>le_next := q\<rparr>, p \<mapsto> e\<lparr>le_next := r\<rparr>)) (us @ p # el # vs) =
         cells h (us @ [p]) @ (le_key n, le_item n) # cells h vs"
  using assms by auto

text \<open>Splicing a fresh element in after \<open>p\<close>, for the whole list object.\<close>

lemma list_rep_splice:
  assumes rep: "list_rep h l (us @ p # vs) xs" and fresh: "h el = None" and p: "h p = Some e"
    and l': "l' = l\<lparr>ls_last := (if vs = [] then Some el else ls_last l)\<rparr>"
  shows "list_rep (h(el \<mapsto> n\<lparr>le_next := le_next e\<rparr>, p \<mapsto> e\<lparr>le_next := Some el\<rparr>)) l'
           (us @ p # el # vs) (cells h (us @ [p]) @ (le_key n, le_item n) # cells h vs)"
proof -
  have seg: "lseg h (ls_first l) (us @ p # vs) None" and d: "distinct (us @ p # vs)"
    and lst: "ls_last l = Some (last (us @ p # vs))"
    using rep by (auto simp: list_rep_def)
  have nin: "el \<notin> set (us @ p # vs)" using seg fresh by (rule lseg_fresh)
  show ?thesis
    unfolding list_rep_def
    using lseg_splice [of h "ls_first l" us p vs el e n]
      cells_splice [of us p vs el h e "le_next e" n "Some el"] seg d nin p lst l' by auto
qed

section \<open>The abstract operations\<close>

lemma lins_middle:
  "\<forall>(k', y) \<in> set us. \<not> k < k' \<Longrightarrow> k < kv \<Longrightarrow>
   lins (us @ (kv, v) # vs) x k = us @ (k, x) # (kv, v) # vs"
  by (induction us) auto

lemma lins_end: "\<forall>(k', y) \<in> set us. \<not> k < k' \<Longrightarrow> lins us x k = us @ [(k, x)]"
  by (induction us) auto

lemma mset_lins [simp]: "mset (lins xs x k) = add_mset (k, x) (mset xs)"
  by (induction xs x k rule: lins.induct) auto

lemma set_lins [simp]: "set (lins xs x k) = insert (k, x) (set xs)"
  by (induction xs x k rule: lins.induct) auto

lemma length_lins [simp]: "length (lins xs x k) = Suc (length xs)"
  by (induction xs x k rule: lins.induct) auto

lemma lins_ne [simp]: "lins xs x k \<noteq> []"
  by (induction xs x k rule: lins.induct) auto

lemma keys_sorted_lins: "keys_sorted xs \<Longrightarrow> keys_sorted (lins xs x k)"
  unfolding keys_sorted_def
  by (induction xs x k rule: lins.induct) (auto simp: image_iff dest: bspec)

lemma keys_sorted_lrem: "keys_sorted xs \<Longrightarrow> keys_sorted (snd (lrem xs))"
  by (cases xs) (auto simp: keys_sorted_def)

lemma keys_sorted_Nil [simp]: "keys_sorted []"
  by (simp add: keys_sorted_def)

lemma keys_sorted_Cons: "keys_sorted ((k, x) # xs) \<longleftrightarrow> (\<forall>(k', y) \<in> set xs. k \<le> k') \<and> keys_sorted xs"
  by (auto simp: keys_sorted_def)

text \<open>Elements of equal key keep their order of insertion: the new element goes behind them.\<close>

lemma lins_stable:
  "keys_sorted xs \<Longrightarrow> filter (\<lambda>(k', _). k' = k) (lins xs x k) = filter (\<lambda>(k', _). k' = k) xs @ [(k, x)]"
proof (induction xs x k rule: lins.induct)
  case (1 x k)
  then show ?case by simp
next
  case (2 k' y xs x k)
  show ?case
  proof (cases "k < k'")
    case True
    have "\<forall>(k'', _) \<in> set xs. k' \<le> k''" using "2.prems" by (simp add: keys_sorted_Cons)
    then have "filter (\<lambda>(k'', _). k'' = k) xs = []" using True by (auto simp: filter_empty_conv)
    then show ?thesis using True by simp
  next
    case False
    then show ?thesis using 2 by (simp add: keys_sorted_Cons)
  qed
qed

section \<open>The pointer operations implement the abstract ones\<close>

lemma new_List_rep: "list_rep h new_List [] []"
  by (simp add: list_rep_def new_List_def)

lemma IsEmpty_rep: "list_rep h l as xs \<Longrightarrow> IsEmpty l \<longleftrightarrow> xs = []"
  by (cases as) (auto simp: list_rep_def IsEmpty_def split: option.splits)

lemma list_rep_empty: "list_rep h l as xs \<Longrightarrow> IsEmpty l \<Longrightarrow> as = []"
  by (cases as) (auto simp: list_rep_def IsEmpty_def)

lemma list_rep_single: "h el = Some e \<Longrightarrow> le_next e = None \<Longrightarrow>
  list_rep h (l\<lparr>ls_first := Some el, ls_last := Some el\<rparr>) [el] [(le_key e, le_item e)]"
  by (simp add: list_rep_def)

lemma set_next_ok [simp]: "h a = Some e \<Longrightarrow> set_next h (Some a) q = Inr (h(a \<mapsto> e\<lparr>le_next := q\<rparr>))"
  by (simp add: set_next_def)

lemma list_rep_last:
  assumes "list_rep h l as xs" "as \<noteq> []"
  obtains us p e where "as = us @ [p]" "ls_last l = Some p" "h p = Some e" "le_next e = None"
proof -
  obtain us p where as: "as = us @ [p]" using assms(2) by (metis append_butlast_last_id)
  with assms(1) have "ls_last l = Some p" "lseg h (ls_first l) (us @ [p]) None"
    by (auto simp: list_rep_def)
  then show ?thesis using as that by (auto simp: lseg_append split: option.splits)
qed

lemma Append_rep:
  assumes rep: "list_rep h l as xs" and fresh: "h el = None"
  shows "\<exists>h' l'. Append h l el x = Inr (h', l') \<and> list_rep h' l' (as @ [el]) (lapp xs x) \<and>
           (\<forall>b. b \<notin> insert el (set as) \<longrightarrow> h' b = h b)"
proof (cases "IsEmpty l")
  case True
  then have "as = []" "xs = []" using rep list_rep_empty IsEmpty_rep by blast+
  then show ?thesis using True
    by (auto simp: Append_def lapp_def new_ListElement_def list_rep_def)
next
  case False
  have ne: "as \<noteq> []" using rep False by (auto simp: list_rep_def IsEmpty_def)
  obtain us p e where p: "as = us @ [p]" "ls_last l = Some p" "h p = Some e" "le_next e = None"
    using rep ne by (rule list_rep_last)
  let ?n = "new_ListElement x 0" and ?l' = "l\<lparr>ls_last := Some el\<rparr>"
  let ?h' = "h(el \<mapsto> ?n\<lparr>le_next := le_next e\<rparr>, p \<mapsto> e\<lparr>le_next := Some el\<rparr>)"
  have "el \<noteq> p" using fresh p(3) by auto
  then have app: "Append h l el x = Inr (?h', ?l')"
    using False p(2,3,4) by (simp add: Append_def new_ListElement_def)
  have rep': "list_rep h l (us @ p # []) xs" using rep p(1) by simp
  have "list_rep ?h' ?l' (us @ p # el # []) (cells h (us @ [p]) @ (le_key ?n, le_item ?n) # cells h [])"
    by (rule list_rep_splice [OF rep' fresh p(3)]) simp
  moreover have "cells h (us @ [p]) = xs" using rep p(1) by (simp add: list_rep_def)
  ultimately have "list_rep ?h' ?l' (us @ p # el # []) (xs @ [(le_key ?n, le_item ?n)])"
    by (simp only: cells.simps)
  then have "list_rep ?h' ?l' (as @ [el]) (lapp xs x)"
    using p(1) by (simp add: lapp_def new_ListElement_def)
  then show ?thesis using app p(1) by auto
qed

lemma list_rep_push:
  assumes rep: "list_rep h l as xs" and fresh: "h el = None" and ne: "as \<noteq> []"
  shows "list_rep (h(el \<mapsto> n\<lparr>le_next := ls_first l\<rparr>)) (l\<lparr>ls_first := Some el\<rparr>) (el # as)
           ((le_key n, le_item n) # xs)"
proof -
  have "el \<notin> set as" using rep fresh lseg_fresh by (fastforce simp: list_rep_def)
  then show ?thesis using rep ne by (simp add: list_rep_def)
qed

lemma Prepend_rep:
  assumes rep: "list_rep h l as xs" and fresh: "h el = None"
  shows "\<exists>h' l'. Prepend h l el x = Inr (h', l') \<and> list_rep h' l' (el # as) (lprep xs x) \<and>
           (\<forall>b. b \<notin> insert el (set as) \<longrightarrow> h' b = h b)"
proof (cases "IsEmpty l")
  case True
  then have "as = []" "xs = []" using rep list_rep_empty IsEmpty_rep by blast+
  then show ?thesis using True
    by (auto simp: Prepend_def lprep_def new_ListElement_def list_rep_def)
next
  case False
  then have "as \<noteq> []" using rep by (auto simp: list_rep_def IsEmpty_def)
  from list_rep_push [OF rep fresh this, of "new_ListElement x 0"] False show ?thesis
    by (auto simp: Prepend_def lprep_def new_ListElement_def)
qed

text \<open>
  The walk of \<open>SortedInsert\<close> returns on every well-formed list, and stops in front of the first
  element with a larger key.
\<close>

lemma cells_key:
  "lseg h p as q \<Longrightarrow> (\<forall>(k, x) \<in> set (cells h as). P k) \<longleftrightarrow> (\<forall>a \<in> set as. P (le_key (the (h a))))"
  by (induction as arbitrary: p) (auto split: option.splits)

lemma insert_walk_end: "h p = Some e \<Longrightarrow> le_next e = None \<Longrightarrow> insert_walk h k p = Some (Inr None)"
  by (simp add: insert_walk.simps)

lemma insert_walk_step:
  "h p = Some e \<Longrightarrow> le_next e = Some nx \<Longrightarrow> h nx = Some e' \<Longrightarrow>
   insert_walk h k p = (if k < le_key e' then Some (Inr (Some p)) else insert_walk h k nx)"
  by (subst insert_walk.simps) simp

lemma insert_walk_spec:
  assumes "lseg h (Some p) (p # as) None"
  shows "(\<exists>us v vs. as = us @ v # vs \<and> (\<forall>b \<in> set us. \<not> k < le_key (the (h b))) \<and>
             k < le_key (the (h v)) \<and> insert_walk h k p = Some (Inr (Some (last (p # us))))) \<or>
         (\<forall>b \<in> set as. \<not> k < le_key (the (h b))) \<and> insert_walk h k p = Some (Inr None)"
  using assms
proof (induction as arbitrary: p)
  case Nil
  then show ?case by (auto simp: insert_walk_end split: option.splits)
next
  case (Cons a as)
  then obtain e e' where e: "h p = Some e" "le_next e = Some a" "h a = Some e'"
    and seg: "lseg h (Some a) (a # as) None" by (auto split: option.splits)
  note step = insert_walk_step [OF e, of k]
  show ?case
  proof (cases "k < le_key e'")
    case True
    then have "a # as = [] @ a # as \<and> (\<forall>b \<in> set []. \<not> k < le_key (the (h b))) \<and>
        k < le_key (the (h a)) \<and> insert_walk h k p = Some (Inr (Some (last (p # []))))"
      using step e by simp
    then show ?thesis by blast
  next
    case False
    with step have w: "insert_walk h k p = insert_walk h k a" by simp
    from Cons.IH [OF seg] show ?thesis
    proof (elim disjE exE conjE)
      fix us v vs
      assume "as = us @ v # vs" "\<forall>b \<in> set us. \<not> k < le_key (the (h b))" "k < le_key (the (h v))"
        "insert_walk h k a = Some (Inr (Some (last (a # us))))"
      then have "a # as = (a # us) @ v # vs \<and> (\<forall>b \<in> set (a # us). \<not> k < le_key (the (h b))) \<and>
          k < le_key (the (h v)) \<and> insert_walk h k p = Some (Inr (Some (last (p # a # us))))"
        using False e w by simp
      then show ?thesis by blast
    next
      assume "\<forall>b \<in> set as. \<not> k < le_key (the (h b))" "insert_walk h k a = Some (Inr None)"
      then show ?thesis using False e w by simp
    qed
  qed
qed

lemma list_rep_alloc:
  "list_rep h l as xs \<Longrightarrow> h el = None \<Longrightarrow>
   lseg (h(el \<mapsto> n)) (ls_first l) as None \<and> cells (h(el \<mapsto> n)) as = xs \<and> el \<notin> set as"
  using lseg_fresh by (fastforce simp: list_rep_def)

text \<open>The two branches of \<open>SortedInsert\<close> after the loop.\<close>

lemma SortedInsert_after:
  assumes rep: "list_rep h l (us @ p # vs) xs" and fresh: "h el = None" and vs: "vs \<noteq> []"
    and first: "ls_first l = Some f" "h f = Some ef" "\<not> k < le_key ef"
    and walk: "insert_walk (h(el \<mapsto> new_ListElement x k)) k f = Some (Inr (Some p))"
  shows "\<exists>h'. SortedInsert h l el x k = Some (Inr (h', l)) \<and>
           list_rep h' l (us @ p # el # vs) (cells h (us @ [p]) @ (k, x) # cells h vs) \<and>
           (\<forall>b. b \<notin> insert el (set (us @ p # vs)) \<longrightarrow> h' b = h b)"
proof -
  have nin: "el \<notin> set (us @ p # vs)" using rep fresh by (blast dest: list_rep_alloc)
  obtain e where p: "h p = Some e"
    using rep by (auto simp: list_rep_def lseg_append split: option.splits)
  let ?n = "new_ListElement x k"
  let ?h' = "h(el \<mapsto> ?n\<lparr>le_next := le_next e\<rparr>, p \<mapsto> e\<lparr>le_next := Some el\<rparr>)"
  have "f \<noteq> el" using first(2) fresh by auto
  then have "SortedInsert h l el x k = Some (Inr (?h', l))"
    using first walk p nin by (simp add: SortedInsert_def new_ListElement_def)
  moreover have "list_rep ?h' l (us @ p # el # vs)
      (cells h (us @ [p]) @ (le_key ?n, le_item ?n) # cells h vs)"
    by (rule list_rep_splice [OF rep fresh p]) (simp add: vs)
  ultimately show ?thesis by (auto simp: new_ListElement_def)
qed

lemma SortedInsert_end:
  assumes rep: "list_rep h l as xs" and fresh: "h el = None"
    and first: "ls_first l = Some f" "h f = Some ef" "\<not> k < le_key ef"
    and walk: "insert_walk (h(el \<mapsto> new_ListElement x k)) k f = Some (Inr None)"
  shows "\<exists>h' l'. SortedInsert h l el x k = Some (Inr (h', l')) \<and>
           list_rep h' l' (as @ [el]) (xs @ [(k, x)]) \<and>
           (\<forall>b. b \<notin> insert el (set as) \<longrightarrow> h' b = h b)"
proof -
  have ne: "as \<noteq> []" using rep first(1) by (cases as) (auto simp: list_rep_def)
  obtain us p e where p: "as = us @ [p]" "ls_last l = Some p" "h p = Some e" "le_next e = None"
    using rep ne by (rule list_rep_last)
  let ?n = "new_ListElement x k" and ?l' = "l\<lparr>ls_last := Some el\<rparr>"
  let ?h' = "h(el \<mapsto> ?n\<lparr>le_next := le_next e\<rparr>, p \<mapsto> e\<lparr>le_next := Some el\<rparr>)"
  have "f \<noteq> el" "el \<noteq> p" using first(2) p(3) fresh by auto
  then have "SortedInsert h l el x k = Some (Inr (?h', ?l'))"
    using first walk p by (simp add: SortedInsert_def new_ListElement_def)
  moreover have "list_rep ?h' ?l' (us @ p # el # []) (cells h (us @ [p]) @ (le_key ?n, le_item ?n) # cells h [])"
    using rep p(1) by (intro list_rep_splice [OF _ fresh p(3)]) auto
  moreover have "cells h (us @ [p]) = xs" using rep p(1) by (simp add: list_rep_def)
  ultimately show ?thesis using p(1) by (auto simp: new_ListElement_def)
qed

lemma SortedInsert_front:
  assumes rep: "list_rep h l as xs" and fresh: "h el = None" and ne: "as \<noteq> []"
    and first: "ls_first l = Some f" "h f = Some ef" "k < le_key ef"
  shows "\<exists>h' l'. SortedInsert h l el x k = Some (Inr (h', l')) \<and>
           list_rep h' l' (el # as) ((k, x) # xs) \<and> (\<forall>b. b \<notin> insert el (set as) \<longrightarrow> h' b = h b)"
proof -
  have "f \<noteq> el" using first(2) fresh by auto
  with list_rep_push [OF rep fresh ne, of "new_ListElement x k"] first show ?thesis
    by (auto simp: SortedInsert_def new_ListElement_def)
qed

lemma SortedInsert_rep:
  assumes rep: "list_rep h l as xs" and fresh: "h el = None"
  shows "\<exists>h' l' as'. SortedInsert h l el x k = Some (Inr (h', l')) \<and>
           list_rep h' l' as' (lins xs x k) \<and> set as' = insert el (set as) \<and>
           (\<forall>b. b \<notin> insert el (set as) \<longrightarrow> h' b = h b)"
proof (cases as)
  case Nil
  let ?h' = "h(el \<mapsto> new_ListElement x k)" and ?l' = "l\<lparr>ls_first := Some el, ls_last := Some el\<rparr>"
  have "SortedInsert h l el x k = Some (Inr (?h', ?l'))" "list_rep ?h' ?l' [el] (lins xs x k)"
    using rep Nil by (auto simp: list_rep_def SortedInsert_def new_ListElement_def)
  then show ?thesis using Nil by (intro exI [of _ ?h'] exI [of _ ?l'] exI [of _ "[el]"]) simp
next
  case (Cons f bs)
  with rep obtain ef where f: "ls_first l = Some f" "h f = Some ef"
    by (auto simp: list_rep_def split: option.splits)
  have xs: "xs = (le_key ef, le_item ef) # cells h bs"
    using rep Cons f by (auto simp: list_rep_def)
  let ?h1 = "h(el \<mapsto> new_ListElement x k)"
  have alloc: "lseg ?h1 (ls_first l) as None" "cells ?h1 as = xs" "el \<notin> set as"
    using list_rep_alloc [OF rep fresh] by blast+
  then have seg: "lseg ?h1 (Some f) (f # bs) None" using f Cons by simp
  have seg': "lseg h (le_next ef) bs None" using rep Cons f by (auto simp: list_rep_def)
  show ?thesis
  proof (cases "k < le_key ef")
    case True
    with SortedInsert_front [OF rep fresh _ f] Cons xs show ?thesis by fastforce
  next
    case False
    have keys: "\<And>b. b \<in> set bs \<Longrightarrow> le_key (the (?h1 b)) = le_key (the (h b))"
      using alloc(3) Cons by auto
    from insert_walk_spec [OF seg, of k] show ?thesis
    proof (elim disjE exE conjE)
      fix us v vs
      assume bs: "bs = us @ v # vs" and le: "\<forall>b \<in> set us. \<not> k < le_key (the (?h1 b))"
        and v: "k < le_key (the (?h1 v))" and w: "insert_walk ?h1 k f = Some (Inr (Some (last (f # us))))"
      obtain ws p where split: "f # us = ws @ [p]" by (metis append_butlast_last_id list.distinct(1))
      then have last: "last (f # us) = p" by (metis last_snoc)
      have as: "as = ws @ p # v # vs" using Cons bs split
        by (metis Cons_eq_appendI append.assoc append_Nil)
      have rep': "list_rep h l (ws @ p # v # vs) xs" using rep as by simp
      have w': "insert_walk ?h1 k f = Some (Inr (Some p))" using w last by (simp only:)
      obtain h' where
        h': "SortedInsert h l el x k = Some (Inr (h', l))"
          "list_rep h' l (ws @ p # el # v # vs) (cells h (ws @ [p]) @ (k, x) # cells h (v # vs))"
          "\<forall>b. b \<notin> insert el (set (ws @ p # v # vs)) \<longrightarrow> h' b = h b"
        using SortedInsert_after [OF rep' fresh list.distinct(2) f False w'] by blast
      have segs: "\<exists>r. lseg h (le_next ef) us r \<and> lseg h r (v # vs) None"
        using seg' bs by (simp add: lseg_append)
      then obtain ev where ev: "h v = Some ev" by (auto split: option.splits)
      have "\<forall>(k', y) \<in> set (cells h us). \<not> k < k'"
      proof -
        obtain r where r: "lseg h (le_next ef) us r" using segs by blast
        have "\<forall>b \<in> set us. \<not> k < le_key (the (h b))" using le keys bs by simp
        then show ?thesis using cells_key [OF r, of "\<lambda>k'. \<not> k < k'"] by simp
      qed
      moreover have "k < le_key ev" using v keys [of v] bs ev by simp
      ultimately have "lins xs x k = (le_key ef, le_item ef) # cells h us @ (k, x) # cells h (v # vs)"
        using lins_middle [of "(le_key ef, le_item ef) # cells h us" k "le_key ev"] xs bs False ev
        by simp
      also have "\<dots> = cells h (ws @ [p]) @ (k, x) # cells h (v # vs)"
        unfolding split [symmetric] using f by simp
      finally have "list_rep h' l (ws @ p # el # v # vs) (lins xs x k)" using h'(2) by (simp only:)
      then show ?thesis using h'(1,3) unfolding as
        by (intro exI [of _ h'] exI [of _ l] exI [of _ "ws @ p # el # v # vs"]) auto
    next
      assume le: "\<forall>b \<in> set bs. \<not> k < le_key (the (?h1 b))" and w: "insert_walk ?h1 k f = Some (Inr None)"
      have "\<forall>(k', y) \<in> set xs. \<not> k < k'"
        using seg' le keys cells_key [of h "le_next ef" bs _ "\<lambda>k'. \<not> k < k'"] False xs by auto
      then have "lins xs x k = xs @ [(k, x)]" by (rule lins_end)
      with SortedInsert_end [OF rep fresh f False w] show ?thesis by fastforce
    qed
  qed
qed

lemma SortedRemove_rep:
  assumes "list_rep h l as xs"
  shows "\<exists>h' l'. SortedRemove h l = Inr (fst (lrem xs), h', l') \<and> list_rep h' l' (tl as) (snd (lrem xs)) \<and>
           (\<forall>b. b \<notin> set as \<longrightarrow> h' b = h b) \<and> (as \<noteq> [] \<longrightarrow> h' (hd as) = None)"
proof (cases as)
  case Nil
  then show ?thesis using assms by (auto simp: list_rep_def SortedRemove_def)
next
  case (Cons a bs)
  with assms obtain e where a: "ls_first l = Some a" "h a = Some e" "lseg h (le_next e) bs None"
    by (auto simp: list_rep_def split: option.splits)
  have d: "a \<notin> set bs" "distinct bs" and lst: "ls_last l = Some (last as)"
    using assms Cons by (auto simp: list_rep_def)
  have xs: "xs = (le_key e, le_item e) # cells h bs" using assms Cons a by (auto simp: list_rep_def)
  show ?thesis
  proof (cases "bs = []")
    case True
    then show ?thesis using Cons a lst xs by (auto simp: SortedRemove_def list_rep_def)
  next
    case False
    then have "last bs \<noteq> a" using d by auto
    then show ?thesis using Cons a lst xs d False by (auto simp: SortedRemove_def list_rep_def)
  qed
qed

lemma Remove_rep:
  assumes "list_rep h l as xs"
  shows "\<exists>h' l'. Remove h l = Inr (map_option snd (fst (lrem xs)), h', l') \<and>
           list_rep h' l' (tl as) (snd (lrem xs)) \<and>
           (\<forall>b. b \<notin> set as \<longrightarrow> h' b = h b) \<and> (as \<noteq> [] \<longrightarrow> h' (hd as) = None)"
  using SortedRemove_rep [OF assms] by (force simp: Remove_def)

lemma apply_walk_lseg: "lseg h p as None \<Longrightarrow> apply_walk h p = Some (Inr (map snd (cells h as)))"
proof (induction as arbitrary: p)
  case Nil
  then show ?case by (simp add: apply_walk.simps)
next
  case (Cons a as)
  then obtain e where "p = Some a" "h a = Some e" "apply_walk h (le_next e) = Some (Inr (map snd (cells h as)))"
    by (auto split: option.splits)
  then show ?case by (simp add: apply_walk.simps [of h "Some a"])
qed

lemma Apply_rep: "list_rep h l as xs \<Longrightarrow> Apply h l = Some (Inr (map snd xs))"
  by (auto simp: list_rep_def Apply_def apply_walk_lseg)

lemma delete_List_rep:
  "list_rep h l as xs \<Longrightarrow>
   \<exists>h' l'. delete_List h l = Some (Inr (h', l')) \<and> IsEmpty l' \<and>
     (\<forall>b. h' b = (if b \<in> set as then None else h b))"
proof (induction as arbitrary: h l xs)
  case Nil
  then show ?case by (auto simp: list_rep_def IsEmpty_def delete_List.simps)
next
  case (Cons a as)
  obtain h1 l1 where r: "Remove h l = Inr (map_option snd (fst (lrem xs)), h1, l1)"
    "list_rep h1 l1 as (snd (lrem xs))" "\<forall>b. b \<notin> set (a # as) \<longrightarrow> h1 b = h b" "h1 a = None"
    using Remove_rep [OF Cons.prems] by auto
  have "\<not> IsEmpty l" using Cons.prems by (auto simp: list_rep_def IsEmpty_def)
  then have step: "delete_List h l = delete_List h1 l1" using r(1) by (simp add: delete_List.simps [of h l])
  from Cons.IH [OF r(2)] obtain h' l' where
    "delete_List h1 l1 = Some (Inr (h', l'))" "IsEmpty l'" "\<forall>b. h' b = (if b \<in> set as then None else h1 b)"
    by blast
  with step r(3,4) show ?case by auto
qed

section \<open>The queue contract\<close>

text \<open>
  Ready lists, semaphore queues and mailboxes use a \<open>List\<close> through \<open>Append\<close> and \<open>Remove\<close> only. The
  contract they rely on is first in, first out; a fresh name stands for the cell that \<open>new\<close> returns.
\<close>

datatype ('n, 'a) queue_op = Enq 'n 'a | Deq

fun run_queue ::
  "('s \<Rightarrow> 'n \<Rightarrow> 'a \<Rightarrow> 's result) \<Rightarrow> ('s \<Rightarrow> ('a option \<times> 's) result) \<Rightarrow>
   ('n, 'a) queue_op list \<Rightarrow> 's \<Rightarrow> ('a option list \<times> 's) result" where
  "run_queue enq deq [] s = Inr ([], s)"
| "run_queue enq deq (Enq n x # ops) s = bindE (enq s n x) (run_queue enq deq ops)"
| "run_queue enq deq (Deq # ops) s =
     bindE (deq s) (\<lambda>(r, s'). bindE (run_queue enq deq ops s') (\<lambda>(rs, t). Inr (r # rs, t)))"

fun spec_queue :: "('n, 'a) queue_op list \<Rightarrow> 'a list \<Rightarrow> 'a option list \<times> 'a list" where
  "spec_queue [] xs = ([], xs)"
| "spec_queue (Enq n x # ops) xs = spec_queue ops (xs @ [x])"
| "spec_queue (Deq # ops) [] = (let (rs, ys) = spec_queue ops [] in (None # rs, ys))"
| "spec_queue (Deq # ops) (x # xs) = (let (rs, ys) = spec_queue ops xs in (Some x # rs, ys))"

fun op_names :: "('n, 'a) queue_op list \<Rightarrow> 'n list" where
  "op_names [] = []"
| "op_names (Enq n x # ops) = n # op_names ops"
| "op_names (Deq # ops) = op_names ops"

locale fifo_queue =
  fixes rep :: "'s \<Rightarrow> 'a list \<Rightarrow> bool"
    and fresh :: "'s \<Rightarrow> 'n \<Rightarrow> bool"
    and enq :: "'s \<Rightarrow> 'n \<Rightarrow> 'a \<Rightarrow> 's result"
    and deq :: "'s \<Rightarrow> ('a option \<times> 's) result"
  assumes enq_ok: "rep s xs \<Longrightarrow> fresh s n \<Longrightarrow>
      \<exists>s'. enq s n x = Inr s' \<and> rep s' (xs @ [x]) \<and> (\<forall>m. fresh s m \<longrightarrow> m \<noteq> n \<longrightarrow> fresh s' m)"
    and deq_Cons: "rep s (x # xs) \<Longrightarrow>
      \<exists>s'. deq s = Inr (Some x, s') \<and> rep s' xs \<and> (\<forall>m. fresh s m \<longrightarrow> fresh s' m)"
    and deq_Nil: "rep s [] \<Longrightarrow> deq s = Inr (None, s)"
begin

lemma run_refines_spec:
  "rep s xs \<Longrightarrow> distinct (op_names ops) \<Longrightarrow> \<forall>n \<in> set (op_names ops). fresh s n \<Longrightarrow>
   \<exists>s'. run_queue enq deq ops s = Inr (fst (spec_queue ops xs), s') \<and> rep s' (snd (spec_queue ops xs))"
proof (induction ops xs arbitrary: s rule: spec_queue.induct)
  case (1 xs)
  then show ?case by simp
next
  case (2 n x ops xs)
  from enq_ok [OF "2.prems"(1), of n x] "2.prems" obtain s1 where
    "enq s n x = Inr s1" "rep s1 (xs @ [x])" "\<forall>m \<in> set (op_names ops). fresh s1 m" by fastforce
  with "2.IH" [of s1] "2.prems"(2) show ?case by auto
next
  case (3 ops)
  from deq_Nil [OF "3.prems"(1)] "3.IH" [of s] "3.prems" show ?case by (auto split: prod.splits)
next
  case (4 ops x xs)
  from deq_Cons [OF "4.prems"(1)] "4.prems" obtain s1 where
    "deq s = Inr (Some x, s1)" "rep s1 xs" "\<forall>m \<in> set (op_names ops). fresh s1 m" by fastforce
  with "4.IH" [of s1] "4.prems"(2) show ?case by (auto split: prod.splits)
qed

end

definition lq_rep :: "'a heap \<times> List \<Rightarrow> 'a list \<Rightarrow> bool" where
  "lq_rep s xs \<longleftrightarrow> (\<exists>as ys. list_rep (fst s) (snd s) as ys \<and> map snd ys = xs)"

definition lq_fresh :: "'a heap \<times> List \<Rightarrow> addr \<Rightarrow> bool" where
  "lq_fresh s n \<longleftrightarrow> fst s n = None"

definition lq_enq :: "'a heap \<times> List \<Rightarrow> addr \<Rightarrow> 'a \<Rightarrow> ('a heap \<times> List) result" where
  "lq_enq s n x = Append (fst s) (snd s) n x"

definition lq_deq :: "'a heap \<times> List \<Rightarrow> ('a option \<times> 'a heap \<times> List) result" where
  "lq_deq s = Remove (fst s) (snd s)"

lemma lq_enq_ok:
  assumes "lq_rep s xs" "lq_fresh s n"
  shows "\<exists>s'. lq_enq s n x = Inr s' \<and> lq_rep s' (xs @ [x]) \<and>
           (\<forall>m. lq_fresh s m \<longrightarrow> m \<noteq> n \<longrightarrow> lq_fresh s' m)"
proof -
  obtain h l where s: "s = (h, l)" by fastforce
  from assms s obtain as ys where rep: "list_rep h l as ys" "map snd ys = xs" and fr: "h n = None"
    by (auto simp: lq_rep_def lq_fresh_def)
  from Append_rep [OF rep(1) fr, of x] obtain h' l' where
    app: "Append h l n x = Inr (h', l')" "list_rep h' l' (as @ [n]) (lapp ys x)"
      "\<forall>b. b \<notin> insert n (set as) \<longrightarrow> h' b = h b" by blast
  have keep: "h' b = None" if "h b = None" "b \<noteq> n" for b
    using that app(3) list_rep_alloc [OF rep(1) that(1)] by auto
  have "lq_rep (h', l') (xs @ [x])" unfolding lq_rep_def using app(2) rep(2)
    by (intro exI [of _ "as @ [n]"] exI [of _ "lapp ys x"]) (simp add: lapp_def)
  then show ?thesis using app(1) s keep by (simp add: lq_enq_def lq_fresh_def)
qed

lemma lq_deq_Cons:
  assumes "lq_rep s (x # xs)"
  shows "\<exists>s'. lq_deq s = Inr (Some x, s') \<and> lq_rep s' xs \<and> (\<forall>m. lq_fresh s m \<longrightarrow> lq_fresh s' m)"
proof -
  obtain h l where s: "s = (h, l)" by fastforce
  from assms s obtain as k ys where rep: "list_rep h l as ((k, x) # ys)" "map snd ys = xs"
    by (auto simp: lq_rep_def map_eq_Cons_conv)
  from Remove_rep [OF rep(1)] obtain h' l' where
    rm: "Remove h l = Inr (Some x, h', l')" "list_rep h' l' (tl as) ys"
      "\<forall>b. b \<notin> set as \<longrightarrow> h' b = h b" by auto
  have "h' b = None" if "h b = None" for b
    using that rm(3) list_rep_alloc [OF rep(1) that] by auto
  moreover have "lq_rep (h', l') xs" unfolding lq_rep_def using rm(2) rep(2) by auto
  ultimately show ?thesis using rm(1) s by (simp add: lq_deq_def lq_fresh_def)
qed

lemma lq_deq_Nil: "lq_rep s [] \<Longrightarrow> lq_deq s = Inr (None, s)"
  by (cases s) (auto simp: lq_rep_def lq_deq_def Remove_def SortedRemove_def
      dest: IsEmpty_rep [THEN iffD2] simp: IsEmpty_def)

interpretation lq: fifo_queue lq_rep lq_fresh lq_enq lq_deq
  by unfold_locales (rule lq_enq_ok lq_deq_Cons lq_deq_Nil, assumption+)+

section \<open>Properties\<close>



text \<open>
  \<open>SortedInsert\<close> on a well-formed list always returns, keeps the list well formed, touches no cell
  outside it, and keeps its keys sorted, adding exactly the new pair behind all pairs of equal key.
\<close>

theorem SortedInsert_correct:
  assumes "list_rep h l as xs" "keys_sorted xs" "h el = None"
  shows "\<exists>h' l' as' ys. SortedInsert h l el x k = Some (Inr (h', l')) \<and> list_rep h' l' as' ys \<and>
           keys_sorted ys \<and> mset ys = add_mset (k, x) (mset xs) \<and>
           filter (\<lambda>(k', _). k' = k) ys = filter (\<lambda>(k', _). k' = k) xs @ [(k, x)] \<and>
           (\<forall>b. b \<notin> insert el (set as) \<longrightarrow> h' b = h b)"
proof -
  obtain h' l' as' where "SortedInsert h l el x k = Some (Inr (h', l'))" "list_rep h' l' as' (lins xs x k)"
    "\<forall>b. b \<notin> insert el (set as) \<longrightarrow> h' b = h b"
    using SortedInsert_rep [OF assms(1,3), of x k] by blast
  then show ?thesis
    using keys_sorted_lins [OF assms(2), of x k] lins_stable [OF assms(2), of k x] mset_lins [of xs x k]
    by (intro exI [of _ h'] exI [of _ l'] exI [of _ as'] exI [of _ "lins xs x k"]) simp
qed

theorem SortedInsert_correct_witness:
  "\<exists>h' l' as' ys. SortedInsert [7 \<mapsto> \<lparr>le_next = None, le_key = 3, le_item = CHR ''a''\<rparr>]
       \<lparr>ls_first = Some 7, ls_last = Some 7\<rparr> 8 (CHR ''b'') 3 = Some (Inr (h', l')) \<and>
     list_rep h' l' as' ys \<and> filter (\<lambda>(k', _). k' = 3) ys = [(3, CHR ''a''), (3, CHR ''b'')]"
  using SortedInsert_correct [of "[7 \<mapsto> \<lparr>le_next = None, le_key = 3, le_item = CHR ''a''\<rparr>]"
      "\<lparr>ls_first = Some 7, ls_last = Some 7\<rparr>" "[7]" "[(3, CHR ''a'')]" 8 "CHR ''b''" 3]
  by (auto simp: list_rep_def keys_sorted_def)

text \<open>
  The destructor of a well-formed list terminates, leaves the list empty, frees every element of
  the list and no other cell.
\<close>

theorem delete_List_frees_all:
  assumes "list_rep h l as xs"
  shows "\<exists>h' l'. delete_List h l = Some (Inr (h', l')) \<and> IsEmpty l' \<and>
           (\<forall>b. h' b = (if b \<in> set as then None else h b))"
  using delete_List_rep [OF assms] .

theorem delete_List_frees_all_witness:
  "\<exists>h' l'. delete_List [4 \<mapsto> \<lparr>le_next = None, le_key = 0, le_item = True\<rparr>]
      \<lparr>ls_first = Some 4, ls_last = Some 4\<rparr> = Some (Inr (h', l')) \<and> h' 4 = None"
  using delete_List_frees_all [of "[4 \<mapsto> \<lparr>le_next = None, le_key = 0, le_item = True\<rparr>]"
      "\<lparr>ls_first = Some 4, ls_last = Some 4\<rparr>" "[4]" "[(0, True)]"]
  by (auto simp: list_rep_def)

end
