(* ===== verification/Bit_Map.thy ===== *)
theory Bit_Map
  imports Nachos_Prelude
begin

text \<open>
  The bitmap of \<open>userprog/bitmap.cc\<close>: an array of 32-bit words of which the first \<open>numBits\<close> bits
  record which disk sectors, memory frames or table entries are in use. The contents of the array
  that \<open>new unsigned int[numWords]\<close> returns are an argument of the constructor.

  A bitmap is seen by its clients through the locale \<open>allocator\<close>: a set of allocated numbers below a
  capacity. Its lemma on repeated allocation is what the address spaces and the file headers use.
\<close>

unbundle bit_operations_syntax

section \<open>Data and operations\<close>

abbreviation (input) BitsInWord :: int where "BitsInWord \<equiv> 32"

record BitMap =
  numBits :: int
  numWords :: int
  bm_map :: "32 word list"

text \<open>The mask \<open>1 << (which % BitsInWord)\<close>.\<close>

definition bit_mask :: "int \<Rightarrow> 32 word" where
  "bit_mask which = push_bit (nat (which smod BitsInWord)) 1"

definition Mark :: "BitMap \<Rightarrow> int \<Rightarrow> BitMap result" where
  "Mark bm which =
     bindE (ASSERT (which \<ge> 0 \<and> which < numBits bm)) (\<lambda>_.
     bindE (arr_get (bm_map bm) (which sdiv BitsInWord)) (\<lambda>w.
     bindE (arr_set (bm_map bm) (which sdiv BitsInWord) (w OR bit_mask which)) (\<lambda>m.
     Inr (bm\<lparr>bm_map := m\<rparr>))))"

definition Clear :: "BitMap \<Rightarrow> int \<Rightarrow> BitMap result" where
  "Clear bm which =
     bindE (ASSERT (which \<ge> 0 \<and> which < numBits bm)) (\<lambda>_.
     bindE (arr_get (bm_map bm) (which sdiv BitsInWord)) (\<lambda>w.
     bindE (arr_set (bm_map bm) (which sdiv BitsInWord) (w AND NOT (bit_mask which))) (\<lambda>m.
     Inr (bm\<lparr>bm_map := m\<rparr>))))"

definition Test :: "BitMap \<Rightarrow> int \<Rightarrow> bool result" where
  "Test bm which =
     bindE (ASSERT (which \<ge> 0 \<and> which < numBits bm)) (\<lambda>_.
     bindE (arr_get (bm_map bm) (which sdiv BitsInWord)) (\<lambda>w.
     Inr (w AND bit_mask which \<noteq> 0)))"

definition new_BitMap :: "(nat \<Rightarrow> 32 word) \<Rightarrow> int \<Rightarrow> BitMap result" where
  "new_BitMap garbage nitems =
     (let nw = divRoundUp nitems BitsInWord in
      forE 0 nitems (\<lambda>i bm. Clear bm i)
        \<lparr>numBits = nitems, numWords = nw, bm_map = map garbage [0..<nat nw]\<rparr>)"

text \<open>The loop of \<open>Find\<close>, from index \<open>i\<close>.\<close>

function find_from :: "BitMap \<Rightarrow> int \<Rightarrow> (int \<times> BitMap) result" where
  "find_from bm i =
     (if i < numBits bm then
        bindE (Test bm i) (\<lambda>t.
          if \<not> t then bindE (Mark bm i) (\<lambda>bm'. Inr (i, bm'))
          else find_from bm (i + 1))
      else Inr (- 1, bm))"
  by pat_completeness auto
termination by (relation "measure (\<lambda>(bm, i). nat (numBits bm - i))") auto

definition Find :: "BitMap \<Rightarrow> (int \<times> BitMap) result" where
  "Find bm = find_from bm 0"

definition NumClear :: "BitMap \<Rightarrow> int result" where
  "NumClear bm =
     forE 0 (numBits bm) (\<lambda>i count. bindE (Test bm i) (\<lambda>t. Inr (if \<not> t then count + 1 else count))) 0"

text \<open>\<open>Print\<close> writes the numbers of the set bits; the model returns them.\<close>

definition Print_BitMap :: "BitMap \<Rightarrow> int list result" where
  "Print_BitMap bm =
     forE 0 (numBits bm) (\<lambda>i out. bindE (Test bm i) (\<lambda>t. Inr (if t then out @ [i] else out))) []"

section \<open>Invariant and abstraction\<close>

definition bm_inv :: "BitMap \<Rightarrow> bool" where
  "bm_inv bm \<longleftrightarrow> 0 \<le> numBits bm \<and> numWords bm = divRoundUp (numBits bm) BitsInWord \<and>
     int (length (bm_map bm)) = numWords bm"

definition bit_at :: "BitMap \<Rightarrow> int \<Rightarrow> bool" where
  "bit_at bm i = bit (bm_map bm ! nat (i div 32)) (nat (i mod 32))"

text \<open>The set of marked numbers.\<close>

definition bm_used :: "BitMap \<Rightarrow> int set" where
  "bm_used bm = {i. 0 \<le> i \<and> i < numBits bm \<and> bit_at bm i}"

lemma bm_index:
  assumes "bm_inv bm" "0 \<le> i" "i < numBits bm"
  shows "0 \<le> i div 32" "i div 32 < int (length (bm_map bm))"
proof -
  have "numBits bm \<le> divRoundUp (numBits bm) 32 * 32"
    using assms(1) by (intro divRoundUp_bounds) (auto simp: bm_inv_def)
  then show "i div 32 < int (length (bm_map bm))" using assms by (simp add: bm_inv_def)
qed (use assms in simp)

lemma bit_mask_bit: "0 \<le> i \<Longrightarrow> bit (bit_mask i) n \<longleftrightarrow> n = nat (i mod 32)"
proof -
  assume "0 \<le> i"
  moreover have "nat (i mod 32) < 32" by (simp add: nat_less_iff)
  ultimately show ?thesis by (auto simp: bit_mask_def smod_nonneg bit_exp_iff)
qed

lemma and_bit_mask: "0 \<le> i \<Longrightarrow> w AND bit_mask i \<noteq> 0 \<longleftrightarrow> bit w (nat (i mod 32))"
proof -
  assume i: "0 \<le> i"
  have "w AND bit_mask i \<noteq> 0 \<longleftrightarrow> (\<exists>n. bit (w AND bit_mask i) n)"
    using bit_imp_le_length [of "w AND bit_mask i"] by (auto simp: bit_eq_iff)
  then show ?thesis using i by (auto simp: bit_and_iff bit_mask_bit)
qed

lemma same_bit:
  fixes i j :: int
  assumes "0 \<le> i" "0 \<le> j"
  shows "nat (j div 32) = nat (i div 32) \<and> nat (j mod 32) = nat (i mod 32) \<longleftrightarrow> j = i"
proof
  assume "nat (j div 32) = nat (i div 32) \<and> nat (j mod 32) = nat (i mod 32)"
  moreover have "0 \<le> i div 32" "0 \<le> j div 32" using assms by simp_all
  ultimately have "j div 32 = i div 32" "j mod 32 = i mod 32" by (simp_all add: eq_nat_nat_iff)
  then show "j = i" by (metis div_mult_mod_eq)
qed simp

lemma bit_at_update:
  assumes "bm_inv bm" "0 \<le> i" "i < numBits bm" "0 \<le> j" "j < numBits bm"
    and "\<And>n. n \<noteq> nat (i mod 32) \<Longrightarrow> bit w n = bit (bm_map bm ! nat (i div 32)) n"
  shows "bit_at (bm\<lparr>bm_map := (bm_map bm)[nat (i div 32) := w]\<rparr>) j =
           (if j = i then bit w (nat (i mod 32)) else bit_at bm j)"
  using bm_index [OF assms(1,2,3)] assms same_bit [of i j]
  by (auto simp: bit_at_def nth_list_update)

lemma Test_eq:
  "bm_inv bm \<Longrightarrow> 0 \<le> i \<Longrightarrow> i < numBits bm \<Longrightarrow> Test bm i = Inr (i \<in> bm_used bm)"
  using bm_index [of bm i]
  by (simp add: Test_def sdiv_nonneg and_bit_mask bm_used_def bit_at_def)

lemma Test_bounds: "\<not> (0 \<le> i \<and> i < numBits bm) \<Longrightarrow> Test bm i = Inl AssertFailed"
  by (auto simp: Test_def)

lemma Mark_eq:
  assumes "bm_inv bm" "0 \<le> i" "i < numBits bm"
  shows "\<exists>bm'. Mark bm i = Inr bm' \<and> bm_inv bm' \<and> numBits bm' = numBits bm \<and>
           bm_used bm' = insert i (bm_used bm)"
proof -
  let ?w = "(bm_map bm ! nat (i div 32)) OR bit_mask i"
  let ?bm = "bm\<lparr>bm_map := (bm_map bm)[nat (i div 32) := ?w]\<rparr>"
  have "Mark bm i = Inr ?bm" using assms bm_index [OF assms] by (simp add: Mark_def sdiv_nonneg)
  moreover have "bm_used ?bm = insert i (bm_used bm)"
    using assms bit_at_update [OF assms, of _ ?w] by (auto simp: bm_used_def bit_or_iff bit_mask_bit)
  ultimately show ?thesis using assms by (auto simp: bm_inv_def)
qed

lemma Clear_eq:
  assumes "bm_inv bm" "0 \<le> i" "i < numBits bm"
  shows "\<exists>bm'. Clear bm i = Inr bm' \<and> bm_inv bm' \<and> numBits bm' = numBits bm \<and>
           bm_used bm' = bm_used bm - {i}"
proof -
  let ?w = "(bm_map bm ! nat (i div 32)) AND NOT (bit_mask i)"
  let ?bm = "bm\<lparr>bm_map := (bm_map bm)[nat (i div 32) := ?w]\<rparr>"
  have len: "nat (i mod 32) < 32" by (simp add: nat_less_iff)
  have same: "bit ?w n = bit (bm_map bm ! nat (i div 32)) n" if "n \<noteq> nat (i mod 32)" for n
    using that assms by (auto simp: bit_and_iff bit_not_iff bit_mask_bit dest: bit_imp_le_length)
  have "Clear bm i = Inr ?bm" using assms bm_index [OF assms] by (simp add: Clear_def sdiv_nonneg)
  moreover have "bit_at ?bm j \<longleftrightarrow> j \<noteq> i \<and> bit_at bm j" if "0 \<le> j" "j < numBits bm" for j
    using bit_at_update [OF assms that same] assms by (simp add: bit_and_iff bit_not_iff bit_mask_bit)
  then have "bm_used ?bm = bm_used bm - {i}" by (auto simp: bm_used_def)
  ultimately show ?thesis using assms by (auto simp: bm_inv_def)
qed

section \<open>Allocation and counting\<close>

declare find_from.simps [simp del]

lemma find_from_spec:
  assumes "bm_inv bm" "0 \<le> i" "\<forall>j. 0 \<le> j \<and> j < i \<longrightarrow> j < numBits bm \<longrightarrow> j \<in> bm_used bm"
  shows "(\<exists>k bm'. find_from bm i = Inr (k, bm') \<and> 0 \<le> k \<and> k < numBits bm \<and> k \<notin> bm_used bm \<and>
             (\<forall>j. 0 \<le> j \<and> j < k \<longrightarrow> j \<in> bm_used bm) \<and>
             bm_inv bm' \<and> numBits bm' = numBits bm \<and> bm_used bm' = insert k (bm_used bm)) \<or>
         find_from bm i = Inr (- 1, bm) \<and> bm_used bm = {0..<numBits bm}"
  using assms
proof (induction bm i rule: find_from.induct)
  case (1 bm i)
  show ?case
  proof (cases "i < numBits bm")
    case False
    then have "bm_used bm = {0..<numBits bm}" using "1.prems"(3) by (auto simp: bm_used_def)
    then show ?thesis using False by (simp add: find_from.simps)
  next
    case True
    note t = Test_eq [OF "1.prems"(1,2) True]
    show ?thesis
    proof (cases "i \<in> bm_used bm")
      case False
      from Mark_eq [OF "1.prems"(1,2) True] obtain bm' where
        "Mark bm i = Inr bm'" "bm_inv bm'" "numBits bm' = numBits bm" "bm_used bm' = insert i (bm_used bm)"
        by blast
      then show ?thesis
        using False True t "1.prems" by (intro disjI1 exI [of _ i] exI [of _ bm']) (simp add: find_from.simps)
    next
      case used: True
      then have eq: "find_from bm i = find_from bm (i + 1)" using True t by (simp add: find_from.simps [of bm i])
      have pre: "\<forall>j. 0 \<le> j \<and> j < i + 1 \<longrightarrow> j < numBits bm \<longrightarrow> j \<in> bm_used bm"
        using "1.prems"(3) used by (metis zless_add1_eq)
      show ?thesis unfolding eq
        by (rule "1.IH" [OF True t]) (use used "1.prems"(1,2) pre in auto)
    qed
  qed
qed

lemma no_index_below_0: "\<forall>j. 0 \<le> j \<and> j < (0::int) \<longrightarrow> P j" by auto

lemmas Find_spec = find_from_spec [of _ 0, folded Find_def, OF _ order_refl no_index_below_0]

lemma Find_free:
  assumes "bm_inv bm" "bm_used bm \<noteq> {0..<numBits bm}"
  shows "\<exists>k bm'. Find bm = Inr (k, bm') \<and> 0 \<le> k \<and> k < numBits bm \<and> k \<notin> bm_used bm \<and>
           (\<forall>j. 0 \<le> j \<and> j < k \<longrightarrow> j \<in> bm_used bm) \<and>
           bm_inv bm' \<and> numBits bm' = numBits bm \<and> bm_used bm' = insert k (bm_used bm)"
  using Find_spec [OF assms(1)] assms(2) by (elim disjE) auto

lemma Find_full:
  assumes "bm_inv bm" "bm_used bm = {0..<numBits bm}"
  shows "Find bm = Inr (- 1, bm)"
  using Find_spec [OF assms(1)] assms(2) by (elim disjE exE conjE) auto

lemma bm_used_subset: "bm_used bm \<subseteq> {0..<numBits bm}"
  by (auto simp: bm_used_def)

lemma finite_bm_used [simp]: "finite (bm_used bm)"
  by (rule finite_subset [OF bm_used_subset]) simp

lemma int_interval_Suc: "0 \<le> i \<Longrightarrow> {0..<i + 1} = insert i {0..<(i::int)}"
  by auto

lemma NumClear_eq:
  assumes "bm_inv bm"
  shows "NumClear bm = Inr (numBits bm - int (card (bm_used bm)))"
proof -
  let ?f = "\<lambda>i count. bindE (Test bm i) (\<lambda>t. Inr (if \<not> t then count + 1 else count))"
  let ?P = "\<lambda>i (c::int). c = i - int (card (bm_used bm \<inter> {0..<i}))"
  have "\<exists>t. forE 0 (numBits bm) ?f 0 = Inr t \<and> ?P (numBits bm) t"
  proof (rule forE_invariant [where P = ?P])
    fix i t assume i: "0 \<le> i" "i < numBits bm" and t: "?P i t"
    have "bm_used bm \<inter> {0..<i + 1} = (if i \<in> bm_used bm then insert i (bm_used bm \<inter> {0..<i}) else bm_used bm \<inter> {0..<i})"
      using i(1) by (auto simp: int_interval_Suc)
    then show "\<exists>t'. ?f i t = Inr t' \<and> ?P (i + 1) t'"
      using Test_eq [OF assms i] t by simp
  qed (use assms in \<open>auto simp: bm_inv_def\<close>)
  moreover have "bm_used bm \<inter> {0..<numBits bm} = bm_used bm" using bm_used_subset by blast
  ultimately show ?thesis by (auto simp: NumClear_def)
qed

lemma new_BitMap_eq:
  assumes "0 \<le> n"
  shows "\<exists>bm. new_BitMap garbage n = Inr bm \<and> bm_inv bm \<and> numBits bm = n \<and> bm_used bm = {}"
proof -
  let ?bm = "\<lparr>numBits = n, numWords = divRoundUp n 32, bm_map = map garbage [0..<nat (divRoundUp n 32)]\<rparr>"
  let ?P = "\<lambda>i bm. bm_inv bm \<and> numBits bm = n \<and> (\<forall>j. j < i \<longrightarrow> j \<notin> bm_used bm)"
  have "\<exists>t. forE 0 n (\<lambda>i bm. Clear bm i) ?bm = Inr t \<and> ?P n t"
  proof (rule forE_invariant [where P = ?P])
    show "?P 0 ?bm" using assms divRoundUp_ge0 [OF assms, of 32] by (auto simp: bm_inv_def bm_used_def)
  next
    fix i t assume i: "0 \<le> i" "i < n" and P: "?P i t"
    with Clear_eq [of t i] obtain t' where
      "Clear t i = Inr t'" "bm_inv t'" "numBits t' = n" "bm_used t' = bm_used t - {i}" by auto
    then show "\<exists>t'. Clear t i = Inr t' \<and> ?P (i + 1) t'" using P by auto
  qed (rule assms)
  then show ?thesis using bm_used_subset by (fastforce simp: new_BitMap_def)
qed

section \<open>The allocator contract\<close>

text \<open>\<open>n\<close> successive calls of an allocation operation.\<close>

primrec alloc_n :: "('s \<Rightarrow> (int \<times> 's) result) \<Rightarrow> nat \<Rightarrow> 's \<Rightarrow> (int list \<times> 's) result" where
  "alloc_n alloc 0 s = Inr ([], s)"
| "alloc_n alloc (Suc n) s =
     bindE (alloc s) (\<lambda>(i, s'). bindE (alloc_n alloc n s') (\<lambda>(ks, t). Inr (i # ks, t)))"

locale allocator =
  fixes inv :: "'s \<Rightarrow> bool" and cap :: "'s \<Rightarrow> int" and used :: "'s \<Rightarrow> int set"
    and alloc :: "'s \<Rightarrow> (int \<times> 's) result" and release :: "'s \<Rightarrow> int \<Rightarrow> 's result"
    and clear_count :: "'s \<Rightarrow> int result"
  assumes used_in_range: "inv s \<Longrightarrow> used s \<subseteq> {0..<cap s}"
    and cap_nonneg: "inv s \<Longrightarrow> 0 \<le> cap s"
    and alloc_free: "inv s \<Longrightarrow> used s \<noteq> {0..<cap s} \<Longrightarrow>
      \<exists>i s'. alloc s = Inr (i, s') \<and> i \<in> {0..<cap s} - used s \<and>
        inv s' \<and> cap s' = cap s \<and> used s' = insert i (used s)"
    and alloc_full: "inv s \<Longrightarrow> used s = {0..<cap s} \<Longrightarrow> alloc s = Inr (- 1, s)"
    and release_ok: "inv s \<Longrightarrow> i \<in> {0..<cap s} \<Longrightarrow>
      \<exists>s'. release s i = Inr s' \<and> inv s' \<and> cap s' = cap s \<and> used s' = used s - {i}"
    and clear_count_ok: "inv s \<Longrightarrow> clear_count s = Inr (cap s - int (card (used s)))"
begin

lemma finite_used: "inv s \<Longrightarrow> finite (used s)"
  by (rule finite_subset [OF used_in_range]) auto

lemma card_used: "inv s \<Longrightarrow> int (card (used s)) \<le> cap s"
  using card_mono [OF _ used_in_range, of s] cap_nonneg [of s] by simp

lemma not_full: "inv s \<Longrightarrow> 0 < cap s - int (card (used s)) \<Longrightarrow> used s \<noteq> {0..<cap s}"
  using cap_nonneg [of s] by (auto split: if_splits)

lemma alloc_n_ok:
  "inv s \<Longrightarrow> int n \<le> cap s - int (card (used s)) \<Longrightarrow>
   \<exists>ks s'. alloc_n alloc n s = Inr (ks, s') \<and> length ks = n \<and> distinct ks \<and>
     set ks \<subseteq> {0..<cap s} - used s \<and> inv s' \<and> cap s' = cap s \<and> used s' = used s \<union> set ks"
proof (induction n arbitrary: s)
  case 0
  then show ?case by auto
next
  case (Suc n)
  from alloc_free [OF Suc.prems(1) not_full] Suc.prems obtain i s1 where
    s1: "alloc s = Inr (i, s1)" "i \<in> {0..<cap s} - used s" "inv s1" "cap s1 = cap s"
      "used s1 = insert i (used s)" by fastforce
  have "int n \<le> cap s1 - int (card (used s1))"
    using s1 Suc.prems finite_used [OF Suc.prems(1)] by simp
  from Suc.IH [OF s1(3) this] obtain ks s' where
    "alloc_n alloc n s1 = Inr (ks, s')" "length ks = n" "distinct ks"
    "set ks \<subseteq> {0..<cap s1} - used s1" "inv s'" "cap s' = cap s1" "used s' = used s1 \<union> set ks" by blast
  with s1 show ?case by (intro exI [of _ "i # ks"] exI [of _ s']) auto
qed

end

interpretation bm: allocator bm_inv numBits bm_used Find Clear NumClear
proof unfold_locales
  fix s assume inv: "bm_inv s"
  show "bm_used s \<subseteq> {0..<numBits s}" by (rule bm_used_subset)
  show "0 \<le> numBits s" using inv by (simp add: bm_inv_def)
  show "\<exists>i s'. Find s = Inr (i, s') \<and> i \<in> {0..<numBits s} - bm_used s \<and>
      bm_inv s' \<and> numBits s' = numBits s \<and> bm_used s' = insert i (bm_used s)"
    if "bm_used s \<noteq> {0..<numBits s}" using Find_free [OF inv that] by auto
  show "Find s = Inr (- 1, s)" if "bm_used s = {0..<numBits s}" using Find_full [OF inv that] .
  show "\<exists>s'. Clear s i = Inr s' \<and> bm_inv s' \<and> numBits s' = numBits s \<and> bm_used s' = bm_used s - {i}"
    if "i \<in> {0..<numBits s}" for i using Clear_eq [OF inv, of i] that by simp
  show "NumClear s = Inr (numBits s - int (card (bm_used s)))" using inv by (rule NumClear_eq)
qed

section \<open>Properties\<close>

text \<open>
  The constructor of a bitmap, whatever the storage it got contains, returns a bitmap with no bit
  set: \<open>Test\<close> answers false for every index in range and \<open>NumClear\<close> counts them all.
\<close>

theorem new_BitMap_all_clear:
  assumes "0 \<le> n"
  shows "\<exists>bm. new_BitMap garbage n = Inr bm \<and> bm_inv bm \<and> NumClear bm = Inr n \<and>
           (\<forall>i \<in> {0..<n}. Test bm i = Inr False)"
proof -
  obtain bm where bm: "new_BitMap garbage n = Inr bm" "bm_inv bm" "numBits bm = n" "bm_used bm = {}"
    using new_BitMap_eq [OF assms] by blast
  then show ?thesis using NumClear_eq [OF bm(2)] Test_eq [OF bm(2)] by auto
qed

theorem new_BitMap_all_clear_witness:
  "\<exists>bm. new_BitMap (\<lambda>i. 4294967295) 40 = Inr bm \<and> NumClear bm = Inr 40 \<and> Test bm 39 = Inr False"
  using new_BitMap_all_clear [of 40 "\<lambda>i. 4294967295"] by fastforce

text \<open>
  (C32) \<open>Find\<close> on a bitmap with a clear bit returns the least clear index and marks exactly that bit;
  the number of clear bits falls by one. On a full bitmap it returns -1 and changes nothing.
\<close>

theorem Find_allocates_first_clear:
  assumes "bm_inv bm"
  shows "(\<exists>k bm'. Find bm = Inr (k, bm') \<and> Test bm k = Inr False \<and>
             (\<forall>j. 0 \<le> j \<and> j < k \<longrightarrow> Test bm j = Inr True) \<and>
             (\<forall>j. 0 \<le> j \<and> j < numBits bm \<longrightarrow> Test bm' j = (if j = k then Inr True else Test bm j)) \<and>
             bindE (NumClear bm') (\<lambda>c. Inr (c + 1)) = NumClear bm \<and> bm_inv bm') \<or>
         Find bm = Inr (- 1, bm) \<and> NumClear bm = Inr 0"
proof (cases "bm_used bm = {0..<numBits bm}")
  case True
  have "0 \<le> numBits bm" using assms by (simp add: bm_inv_def)
  then show ?thesis using Find_full [OF assms True] NumClear_eq [OF assms] True by simp
next
  case False
  from Find_free [OF assms this] obtain k bm' where
    k: "Find bm = Inr (k, bm')" "0 \<le> k" "k < numBits bm" "k \<notin> bm_used bm"
      "\<forall>j. 0 \<le> j \<and> j < k \<longrightarrow> j \<in> bm_used bm" "bm_inv bm'" "numBits bm' = numBits bm"
      "bm_used bm' = insert k (bm_used bm)" by blast
  then show ?thesis using NumClear_eq [OF assms] NumClear_eq [OF k(6)] Test_eq [OF assms] Test_eq [OF k(6)]
    by (intro disjI1 exI [of _ k] exI [of _ bm']) auto
qed

theorem Find_allocates_first_clear_witness:
  "Find \<lparr>numBits = 3, numWords = 1, bm_map = [1]\<rparr> = Inr (1, \<lparr>numBits = 3, numWords = 1, bm_map = [3]\<rparr>) \<and>
   Test \<lparr>numBits = 3, numWords = 1, bm_map = [1]\<rparr> 1 = Inr False"
proof -
  let ?b = "\<lparr>numBits = 3, numWords = 1, bm_map = [1 :: 32 word]\<rparr>"
  have "bm_inv ?b" by (simp add: bm_inv_def divRoundUp_nonneg)
  have "Find ?b = Inr (1, \<lparr>numBits = 3, numWords = 1, bm_map = [3]\<rparr>)" by code_simp
  then show ?thesis using Find_allocates_first_clear [OF \<open>bm_inv ?b\<close>] by auto
qed

text \<open>
  Requesting \<open>n\<close> numbers from a bitmap with at least \<open>n\<close> clear bits, by \<open>n\<close> calls of \<open>Find\<close>, gives \<open>n\<close>
  distinct indices, none of which was marked before, and marks exactly those in addition.
\<close>

theorem Find_repeated_distinct:
  assumes "bm_inv bm" "NumClear bm = Inr c" "int n \<le> c"
  shows "\<exists>ks bm'. alloc_n Find n bm = Inr (ks, bm') \<and> length ks = n \<and> distinct ks \<and>
           (\<forall>i \<in> set ks. Test bm i = Inr False) \<and> NumClear bm' = Inr (c - int n) \<and>
           (\<forall>j. 0 \<le> j \<and> j < numBits bm \<longrightarrow> Test bm' j = (if j \<in> set ks then Inr True else Test bm j))"
proof -
  have c: "c = numBits bm - int (card (bm_used bm))" using assms NumClear_eq by force
  obtain ks bm' where r: "alloc_n Find n bm = Inr (ks, bm')" "length ks = n" "distinct ks"
      "set ks \<subseteq> {0..<numBits bm} - bm_used bm" "bm_inv bm'" "numBits bm' = numBits bm"
      "bm_used bm' = bm_used bm \<union> set ks"
    using bm.alloc_n_ok [OF assms(1), of n] c assms(3) by blast
  have "card (bm_used bm') = card (bm_used bm) + n"
    using r card_Un_disjoint [of "bm_used bm" "set ks"] distinct_card [of ks] by auto
  then have "NumClear bm' = Inr (c - int n)" using NumClear_eq [OF r(5)] r(6) c by simp
  moreover have "\<forall>i \<in> set ks. Test bm i = Inr False" using Test_eq [OF assms(1)] r(4) by auto
  moreover have "\<forall>j. 0 \<le> j \<and> j < numBits bm \<longrightarrow> Test bm' j = (if j \<in> set ks then Inr True else Test bm j)"
    using Test_eq [OF assms(1)] Test_eq [OF r(5)] r(6,7) by auto
  ultimately show ?thesis using r(1,2,3) by blast
qed

theorem Find_repeated_distinct_witness:
  "\<exists>ks bm'. alloc_n Find 2 \<lparr>numBits = 3, numWords = 1, bm_map = [2]\<rparr> = Inr (ks, bm') \<and>
     distinct ks \<and> NumClear bm' = Inr 0"
proof -
  let ?b = "\<lparr>numBits = 3, numWords = 1, bm_map = [2 :: 32 word]\<rparr>"
  have "bm_inv ?b" by (simp add: bm_inv_def divRoundUp_nonneg)
  moreover have "NumClear ?b = Inr 2" by code_simp
  ultimately show ?thesis using Find_repeated_distinct [of ?b 2 2] by auto
qed

end
