(* ===== verification/Interrupts.thy ===== *)
theory Interrupts
  imports Linked_List
begin

text \<open>
  The simulated interrupt hardware: \<open>machine/interrupt.cc\<close>, \<open>machine/stats.cc\<close>, \<open>machine/timer.cc\<close> and
  the timer handler of \<open>threads/system.cc\<close>.

  The state holds the interrupt object, the statistics and a component \<open>kern\<close> for everything that
  handlers may change besides (the CPU, the devices, the kernel). A pending interrupt names its
  handler together with its argument; what calling a handler does is the argument \<open>call\<close>, the effect
  of \<open>machine->DelayedLoad(0, 0)\<close> is \<open>hook\<close>, and \<open>currentThread->Yield()\<close> is \<open>yield\<close>. The pending
  list is the key/item list of \<open>Linked_List\<close>, sorted by due time. Tick counters are integers.

  The loop \<open>while (CheckIfDue(false))\<close> ends because a handler can only schedule later interrupts; the
  locale \<open>device_handlers\<close> states what is required of the handlers, and the timer device fulfils it.
\<close>

section \<open>Data structures\<close>

datatype IntStatus = IntOff | IntOn

datatype MachineStatus = IdleMode | SystemMode | UserMode

datatype IntType = TimerInt | DiskInt | ConsoleWriteInt | ConsoleReadInt | NetworkSendInt | NetworkRecvInt

record 'h PendingInterrupt =
  pi_handler :: 'h
  pi_when :: int
  pi_type :: IntType

record Statistics =
  totalTicks :: int
  idleTicks :: int
  systemTicks :: int
  userTicks :: int
  numDiskReads :: int
  numDiskWrites :: int
  numConsoleCharsRead :: int
  numConsoleCharsWritten :: int
  numPageFaults :: int
  numPacketsSent :: int
  numPacketsRecvd :: int

definition new_Statistics :: Statistics where
  "new_Statistics =
     \<lparr>totalTicks = 0, idleTicks = 0, systemTicks = 0, userTicks = 0, numDiskReads = 0, numDiskWrites = 0,
      numConsoleCharsRead = 0, numConsoleCharsWritten = 0, numPageFaults = 0, numPacketsSent = 0,
      numPacketsRecvd = 0\<rparr>"

abbreviation (input) UserTick :: int where "UserTick \<equiv> 1"
abbreviation (input) SystemTick :: int where "SystemTick \<equiv> 10"
abbreviation (input) TimerTicks :: int where "TimerTicks \<equiv> 100"

record ('h, 'k) sim =
  int_level :: IntStatus
  pending :: "'h PendingInterrupt nlist"
  inHandler :: bool
  yieldOnReturn :: bool
  int_status :: MachineStatus
  stats :: Statistics
  kern :: 'k

type_synonym ('h, 'k) handler_call = "'h \<Rightarrow> ('h, 'k) sim \<Rightarrow> ('h, 'k) sim result"

section \<open>Operations of interrupt.cc\<close>

definition new_Interrupt :: "Statistics \<Rightarrow> 'k \<Rightarrow> ('h, 'k) sim" where
  "new_Interrupt st k =
     \<lparr>int_level = IntOff, pending = [], inHandler = False, yieldOnReturn = False,
      int_status = SystemMode, stats = st, kern = k\<rparr>"

definition new_PendingInterrupt :: "'h \<Rightarrow> int \<Rightarrow> IntType \<Rightarrow> 'h PendingInterrupt" where
  "new_PendingInterrupt func time kind = \<lparr>pi_handler = func, pi_when = time, pi_type = kind\<rparr>"

definition ChangeLevel :: "IntStatus \<Rightarrow> ('h, 'k) sim \<Rightarrow> ('h, 'k) sim" where
  "ChangeLevel now s = s\<lparr>int_level := now\<rparr>"

definition YieldOnReturn :: "('h, 'k) sim \<Rightarrow> ('h, 'k) sim" where
  "YieldOnReturn s = s\<lparr>yieldOnReturn := True\<rparr>"

definition setStatus :: "MachineStatus \<Rightarrow> ('h, 'k) sim \<Rightarrow> ('h, 'k) sim" where
  "setStatus st s = s\<lparr>int_status := st\<rparr>"

definition Schedule :: "'h \<Rightarrow> int \<Rightarrow> IntType \<Rightarrow> ('h, 'k) sim \<Rightarrow> ('h, 'k) sim result" where
  "Schedule handler fromNow type s =
     (let when = totalTicks (stats s) + fromNow;
          toOccur = new_PendingInterrupt handler when type in
      bindE (ASSERT (fromNow > 0)) (\<lambda>_. Inr (s\<lparr>pending := lins (pending s) toOccur when\<rparr>)))"

definition CheckIfDue ::
  "('h, 'k) handler_call \<Rightarrow> ('k \<Rightarrow> 'k) \<Rightarrow> bool \<Rightarrow> ('h, 'k) sim \<Rightarrow> (bool \<times> ('h, 'k) sim) result" where
  "CheckIfDue call hook advanceClock s =
     bindE (ASSERT (int_level s = IntOff)) (\<lambda>_.
       case lrem (pending s) of
         (None, _) \<Rightarrow> Inr (False, s)
       | (Some (when, toOccur), rest) \<Rightarrow>
           if \<not> advanceClock \<and> when > totalTicks (stats s) then
             Inr (False, s\<lparr>pending := lins rest toOccur when\<rparr>)
           else
             let st = (if when > totalTicks (stats s)
                       then (stats s)\<lparr>idleTicks := idleTicks (stats s) + (when - totalTicks (stats s)),
                                      totalTicks := when\<rparr>
                       else stats s)
             in if int_status s = IdleMode \<and> pi_type toOccur = TimerInt \<and> rest = [] then
                  Inr (False, s\<lparr>pending := lins rest toOccur when, stats := st\<rparr>)
                else
                  bindE (call (pi_handler toOccur)
                           (s\<lparr>pending := rest, stats := st, kern := hook (kern s),
                              inHandler := True, int_status := SystemMode\<rparr>))
                    (\<lambda>s'. Inr (True, s'\<lparr>int_status := int_status s, inHandler := False\<rparr>)))"

text \<open>\<open>while (CheckIfDue(false)) ;\<close>\<close>

partial_function (option) due_loop ::
  "('h, 'k) handler_call \<Rightarrow> ('k \<Rightarrow> 'k) \<Rightarrow> ('h, 'k) sim \<Rightarrow> ('h, 'k) sim result option" where
  "due_loop call hook s =
     (case CheckIfDue call hook False s of
        Inl e \<Rightarrow> Some (Inl e)
      | Inr r \<Rightarrow> if fst r then due_loop call hook (snd r) else Some (Inr (snd r)))"

text \<open>The clock update at the start of \<open>OneTick\<close>.\<close>

definition advance_tick :: "MachineStatus \<Rightarrow> Statistics \<Rightarrow> Statistics" where
  "advance_tick status st =
     (if status = SystemMode
      then st\<lparr>totalTicks := totalTicks st + SystemTick, systemTicks := systemTicks st + SystemTick\<rparr>
      else st\<lparr>totalTicks := totalTicks st + UserTick, userTicks := userTicks st + UserTick\<rparr>)"

definition OneTick ::
  "('h, 'k) handler_call \<Rightarrow> ('k \<Rightarrow> 'k) \<Rightarrow> (('h, 'k) sim \<Rightarrow> ('h, 'k) sim result option) \<Rightarrow>
   ('h, 'k) sim \<Rightarrow> ('h, 'k) sim result option" where
  "OneTick call hook yield s =
     Option.bind (due_loop call hook
         (ChangeLevel IntOff (s\<lparr>stats := advance_tick (int_status s) (stats s)\<rparr>))) (\<lambda>r.
       case r of
         Inl e \<Rightarrow> Some (Inl e)
       | Inr s1 \<Rightarrow>
           let s2 = ChangeLevel IntOn s1 in
           if yieldOnReturn s2 then
             Option.bind (yield (s2\<lparr>yieldOnReturn := False, int_status := SystemMode\<rparr>))
               (\<lambda>r. Some (bindE r (\<lambda>s3. Inr (s3\<lparr>int_status := int_status s\<rparr>))))
           else Some (Inr s2))"

definition SetLevel ::
  "('h, 'k) handler_call \<Rightarrow> ('k \<Rightarrow> 'k) \<Rightarrow> (('h, 'k) sim \<Rightarrow> ('h, 'k) sim result option) \<Rightarrow>
   IntStatus \<Rightarrow> ('h, 'k) sim \<Rightarrow> (IntStatus \<times> ('h, 'k) sim) result option" where
  "SetLevel call hook yield now s =
     (let old = int_level s in
      if \<not> (now = IntOff \<or> \<not> inHandler s) then Some (Inl AssertFailed)
      else let s1 = ChangeLevel now s in
        if now = IntOn \<and> old = IntOff then
          Option.bind (OneTick call hook yield s1) (\<lambda>r. Some (bindE r (\<lambda>s2. Inr (old, s2))))
        else Some (Inr (old, s1)))"

definition Enable ::
  "('h, 'k) handler_call \<Rightarrow> ('k \<Rightarrow> 'k) \<Rightarrow> (('h, 'k) sim \<Rightarrow> ('h, 'k) sim result option) \<Rightarrow>
   ('h, 'k) sim \<Rightarrow> ('h, 'k) sim result option" where
  "Enable call hook yield s =
     Option.bind (SetLevel call hook yield IntOn s) (\<lambda>r. Some (bindE r (\<lambda>(_, s'). Inr s')))"

text \<open>\<open>Halt\<close> prints the statistics and leaves the program through \<open>Cleanup\<close>.\<close>

definition Halt :: "('h, 'k) sim \<Rightarrow> ('h, 'k) sim result" where
  "Halt s = Inl MachineHalted"

definition Idle ::
  "('h, 'k) handler_call \<Rightarrow> ('k \<Rightarrow> 'k) \<Rightarrow> ('h, 'k) sim \<Rightarrow> ('h, 'k) sim result option" where
  "Idle call hook s =
     (case CheckIfDue call hook True (s\<lparr>int_status := IdleMode\<rparr>) of
        Inl e \<Rightarrow> Some (Inl e)
      | Inr (True, s1) \<Rightarrow>
          Option.bind (due_loop call hook s1) (\<lambda>r.
            Some (bindE r (\<lambda>s2. Inr (s2\<lparr>yieldOnReturn := False, int_status := SystemMode\<rparr>))))
      | Inr (False, s1) \<Rightarrow> Some (Halt s1))"

text \<open>\<open>DumpState\<close> prints the time, the level and the pending interrupts; the model returns them.\<close>

definition DumpState :: "('h, 'k) sim \<Rightarrow> int \<times> IntStatus \<times> (IntType \<times> int) list" where
  "DumpState s = (totalTicks (stats s), int_level s, map (\<lambda>(_, p). (pi_type p, pi_when p)) (pending s))"

section \<open>The timer device\<close>

text \<open>
  The fields of the \<open>Timer\<close> object; \<open>Random()\<close> draws the next number of a sequence \<open>rnd\<close> of
  nonnegative integers (the C function \<open>rand\<close> returns values from 0 to \<open>RAND_MAX\<close>), counted by \<open>tm_draws\<close>.
\<close>

record Timer =
  tm_randomize :: bool
  tm_draws :: nat

datatype timer_handler = TimerHandler

definition Random :: "(nat \<Rightarrow> nat) \<Rightarrow> Timer \<Rightarrow> int \<times> Timer" where
  "Random rnd t = (int (rnd (tm_draws t)), t\<lparr>tm_draws := Suc (tm_draws t)\<rparr>)"

definition TimeOfNextInterrupt :: "(nat \<Rightarrow> nat) \<Rightarrow> Timer \<Rightarrow> int \<times> Timer" where
  "TimeOfNextInterrupt rnd t =
     (if tm_randomize t then let (r, t') = Random rnd t in (1 + r smod (TimerTicks * 2), t')
      else (TimerTicks, t))"

definition TimerInterruptHandler :: "('h, 'k) sim \<Rightarrow> ('h, 'k) sim" where
  "TimerInterruptHandler s = (if int_status s \<noteq> IdleMode then YieldOnReturn s else s)"

definition new_Timer ::
  "(nat \<Rightarrow> nat) \<Rightarrow> bool \<Rightarrow> (timer_handler, Timer) sim \<Rightarrow> (timer_handler, Timer) sim result" where
  "new_Timer rnd doRandom s =
     (let (next, t) = TimeOfNextInterrupt rnd ((kern s)\<lparr>tm_randomize := doRandom\<rparr>)
      in Schedule TimerHandler next TimerInt (s\<lparr>kern := t\<rparr>))"

definition TimerExpired ::
  "(nat \<Rightarrow> nat) \<Rightarrow> (timer_handler, Timer) sim \<Rightarrow> (timer_handler, Timer) sim result" where
  "TimerExpired rnd s =
     (let (next, t) = TimeOfNextInterrupt rnd (kern s) in
      bindE (Schedule TimerHandler next TimerInt (s\<lparr>kern := t\<rparr>)) (\<lambda>s'. Inr (TimerInterruptHandler s')))"

fun timer_call :: "(nat \<Rightarrow> nat) \<Rightarrow> (timer_handler, Timer) handler_call" where
  "timer_call rnd TimerHandler s = TimerExpired rnd s"

section \<open>Invariant\<close>

text \<open>
  The pending list is sorted by due time, every entry carries its own due time as key, and the clock
  is the sum of the idle, system and user ticks.
\<close>

definition int_inv :: "('h, 'k) sim \<Rightarrow> bool" where
  "int_inv s \<longleftrightarrow> keys_sorted (pending s) \<and> (\<forall>(w, p) \<in> set (pending s). pi_when p = w) \<and>
     totalTicks (stats s) = idleTicks (stats s) + systemTicks (stats s) + userTicks (stats s)"

definition due :: "('h, 'k) sim \<Rightarrow> nat" where
  "due s = length (filter (\<lambda>(w, _). w \<le> totalTicks (stats s)) (pending s))"

text \<open>\<open>s'\<close> has the pending interrupts of \<open>s\<close> and possibly some later ones, at the same time.\<close>

definition adds_later :: "('h, 'k) sim \<Rightarrow> ('h, 'k) sim \<Rightarrow> bool" where
  "adds_later s s' \<longleftrightarrow> int_inv s' \<and> int_level s' = int_level s \<and>
     totalTicks (stats s') = totalTicks (stats s) \<and>
     (\<exists>new. mset (pending s') = mset (pending s) + new \<and> (\<forall>q \<in># new. totalTicks (stats s) < fst q))"

text \<open>Only the timer is pending; \<open>CheckIfDue\<close> does not fire it while the machine idles.\<close>

definition lone_timer :: "('h, 'k) sim \<Rightarrow> bool" where
  "lone_timer s \<longleftrightarrow> length (pending s) = 1 \<and> pi_type (snd (hd (pending s))) = TimerInt"

lemma lone_timer_iff: "lone_timer s \<longleftrightarrow> (\<exists>w p. pending s = [(w, p)] \<and> pi_type p = TimerInt)"
  by (cases "pending s") (auto simp: lone_timer_def)

lemma due_mset: "due s = size (filter_mset (\<lambda>(w, _). w \<le> totalTicks (stats s)) (mset (pending s)))"
  unfolding due_def by (simp flip: mset_filter)

lemma adds_later_due: "adds_later s s' \<Longrightarrow> due s' = due s"
  unfolding adds_later_def due_mset by fastforce

lemma lins_hd_sorted: "keys_sorted ((w, p) # rest) \<Longrightarrow> \<forall>(w', _) \<in> set rest. w < w' \<Longrightarrow> lins rest p w = (w, p) # rest"
  by (cases rest) auto

lemma mset_lins_pop: "pending s = (w, p) # rest \<Longrightarrow> mset (lins rest p w) = mset (pending s)"
  by simp

lemma int_inv_pop: "int_inv s \<Longrightarrow> pending s = q # rest \<Longrightarrow> int_inv (s\<lparr>pending := rest\<rparr>)"
  by (cases q) (auto simp: int_inv_def keys_sorted_Cons)

lemma int_inv_lins:
  "int_inv s \<Longrightarrow> pi_when p = w \<Longrightarrow> int_inv (s\<lparr>pending := lins (pending s) p w\<rparr>)"
  by (auto simp: int_inv_def keys_sorted_lins)

lemma int_inv_upd [simp]:
  "int_inv (s\<lparr>int_status := st\<rparr>) = int_inv s" "int_inv (s\<lparr>inHandler := b\<rparr>) = int_inv s"
  "int_inv (s\<lparr>yieldOnReturn := b\<rparr>) = int_inv s" "int_inv (s\<lparr>kern := k\<rparr>) = int_inv s"
  "int_inv (s\<lparr>int_level := l\<rparr>) = int_inv s"
  by (simp_all add: int_inv_def)

lemma due_upd [simp]:
  "due (s\<lparr>int_status := st\<rparr>) = due s" "due (s\<lparr>inHandler := b\<rparr>) = due s"
  "due (s\<lparr>yieldOnReturn := b\<rparr>) = due s" "due (s\<lparr>kern := k\<rparr>) = due s" "due (s\<lparr>int_level := l\<rparr>) = due s"
  by (simp_all add: due_def)

lemma int_inv_advance: "int_inv s \<Longrightarrow> int_inv (s\<lparr>stats := advance_tick (int_status s) (stats s)\<rparr>)"
  by (auto simp: int_inv_def advance_tick_def)

lemma totalTicks_advance:
  "totalTicks (advance_tick st t) = totalTicks t + (if st = SystemMode then SystemTick else UserTick)"
  by (simp add: advance_tick_def)

lemma due_0_iff: "due s = 0 \<longleftrightarrow> (\<forall>(w, p) \<in> set (pending s). totalTicks (stats s) < w)"
  by (auto simp: due_def filter_empty_conv not_le)

lemma not_due_hd:
  "int_inv s \<Longrightarrow> pending s = (w, p) # rest \<Longrightarrow> totalTicks (stats s) < w \<Longrightarrow> due s = 0"
  by (auto simp: due_0_iff int_inv_def keys_sorted_Cons)

text \<open>\<open>CheckIfDue(false)\<close>: when nothing is due it answers false and keeps the pending interrupts.\<close>

lemma CheckIfDue_none:
  assumes "int_inv s" "int_level s = IntOff" "due s = 0"
  shows "\<exists>ps. CheckIfDue call hook False s = Inr (False, s\<lparr>pending := ps\<rparr>) \<and>
           mset ps = mset (pending s) \<and> int_inv (s\<lparr>pending := ps\<rparr>)"
proof (cases "pending s")
  case Nil
  then show ?thesis using assms by (intro exI [of _ "[]"]) (simp add: CheckIfDue_def int_inv_def)
next
  case (Cons q rest)
  obtain w p where q: "q = (w, p)" by fastforce
  have "totalTicks (stats s) < w" using assms(3) Cons q by (simp add: due_0_iff)
  moreover have "int_inv (s\<lparr>pending := lins rest p w\<rparr>)"
    using int_inv_lins [OF int_inv_pop [OF assms(1) Cons], of p w] assms(1) Cons q
    by (simp add: int_inv_def)
  ultimately show ?thesis
    using assms Cons q by (intro exI [of _ "lins rest p w"]) (simp add: CheckIfDue_def)
qed

lemma CheckIfDue_fire:
  assumes "int_level s = IntOff" "pending s = (w, p) # rest" "adv \<or> w \<le> totalTicks (stats s)"
    "\<not> (int_status s = IdleMode \<and> pi_type p = TimerInt \<and> rest = [])"
    and st: "st = (if w > totalTicks (stats s)
           then (stats s)\<lparr>idleTicks := idleTicks (stats s) + (w - totalTicks (stats s)), totalTicks := w\<rparr>
           else stats s)"
  shows "CheckIfDue call hook adv s =
           bindE (call (pi_handler p) (s\<lparr>pending := rest, stats := st, kern := hook (kern s),
                    inHandler := True, int_status := SystemMode\<rparr>))
             (\<lambda>s'. Inr (True, s'\<lparr>int_status := int_status s, inHandler := False\<rparr>))"
  using assms by (auto simp: CheckIfDue_def Let_def)

section \<open>What handlers may do\<close>

locale device_handlers =
  fixes call :: "('h, 'k) handler_call" and hook :: "'k \<Rightarrow> 'k"
  assumes call_ok: "int_inv s \<Longrightarrow> \<exists>s'. call h s = Inr s' \<and> adds_later s s'"
begin

lemma fire_due:
  assumes "int_inv s" "int_level s = IntOff" "due s \<noteq> 0" "int_status s = IdleMode \<longrightarrow> \<not> lone_timer s"
  shows "\<exists>s'. CheckIfDue call hook False s = Inr (True, s') \<and> int_inv s' \<and> int_level s' = IntOff \<and>
           int_status s' = int_status s \<and> totalTicks (stats s') = totalTicks (stats s) \<and> due s = Suc (due s')"
proof -
  obtain w p rest where ps: "pending s = (w, p) # rest"
    using assms(3) by (cases "pending s") (auto simp: due_def)
  have w: "w \<le> totalTicks (stats s)" using not_due_hd [OF assms(1) ps] assms(3) by force
  let ?t = "s\<lparr>pending := rest, stats := stats s, kern := hook (kern s), inHandler := True, int_status := SystemMode\<rparr>"
  have "int_inv ?t" using int_inv_pop [OF assms(1) ps] by simp
  from call_ok [OF this, of "pi_handler p"] obtain t' where
    t': "call (pi_handler p) ?t = Inr t'" "adds_later ?t t'" by blast
  have "due ?t = due (s\<lparr>pending := rest\<rparr>)" by simp
  then have "due s = Suc (due t')" using adds_later_due [OF t'(2)] ps w by (simp add: due_def)
  then show ?thesis
    using CheckIfDue_fire [of s w p rest False "stats s" call hook] assms(2,4) ps w t'
    by (auto simp: adds_later_def lone_timer_iff)
qed

lemma due_loop_ends:
  assumes "int_inv s" "int_level s = IntOff"
  shows "\<exists>s'. due_loop call hook s = Some (Inr s') \<and> int_inv s' \<and> int_level s' = IntOff \<and>
           int_status s' = int_status s \<and> totalTicks (stats s') = totalTicks (stats s) \<and>
           (due s' = 0 \<or> int_status s = IdleMode \<and> lone_timer s')"
  using assms
proof (induction "due s" arbitrary: s)
  case 0
  from CheckIfDue_none [OF "0.prems"(1,2) "0.hyps" [symmetric], of call hook] obtain ps where
    c: "CheckIfDue call hook False s = Inr (False, s\<lparr>pending := ps\<rparr>)" "mset ps = mset (pending s)"
      "int_inv (s\<lparr>pending := ps\<rparr>)" by blast
  then have "due (s\<lparr>pending := ps\<rparr>) = 0" using "0.hyps" by (simp add: due_mset)
  then show ?case using c "0.prems" by (simp add: due_loop.simps)
next
  case (Suc n)
  show ?case
  proof (cases "int_status s = IdleMode \<and> lone_timer s")
    case True
    then obtain w p where "pending s = [(w, p)]" "pi_type p = TimerInt"
      by (auto simp: lone_timer_iff)
    then have "CheckIfDue call hook False s = Inr (False, s)"
      using Suc.prems(2) True by (simp add: CheckIfDue_def)
    then show ?thesis using True Suc.prems by (simp add: due_loop.simps)
  next
    case False
    with fire_due [OF Suc.prems(1,2)] Suc.hyps(2) obtain s1 where
      s1: "CheckIfDue call hook False s = Inr (True, s1)" "int_inv s1" "int_level s1 = IntOff"
        "int_status s1 = int_status s" "totalTicks (stats s1) = totalTicks (stats s)" "due s = Suc (due s1)"
      by fastforce
    then have "due_loop call hook s = due_loop call hook s1" by (simp add: due_loop.simps [of call hook s])
    with Suc.hyps(1) [of s1] s1 Suc.hyps(2) show ?thesis by simp
  qed
qed

lemma OneTick_runs_due:
  assumes "int_inv s" "int_status s \<noteq> IdleMode"
  shows "\<exists>s'. int_inv s' \<and> due s' = 0 \<and> int_level s' = IntOn \<and> int_status s' = int_status s \<and>
           totalTicks (stats s') = totalTicks (stats s) + (if int_status s = SystemMode then 10 else 1) \<and>
           OneTick call hook yield s =
             (if yieldOnReturn s' then
                Option.bind (yield (s'\<lparr>yieldOnReturn := False, int_status := SystemMode\<rparr>))
                  (\<lambda>r. Some (bindE r (\<lambda>s3. Inr (s3\<lparr>int_status := int_status s\<rparr>))))
              else Some (Inr s'))"
proof -
  let ?s = "ChangeLevel IntOff (s\<lparr>stats := advance_tick (int_status s) (stats s)\<rparr>)"
  have "int_inv ?s" "int_level ?s = IntOff"
    using int_inv_advance [OF assms(1)] by (simp_all add: ChangeLevel_def)
  from due_loop_ends [OF this] assms(2) obtain s1 where
    "due_loop call hook ?s = Some (Inr s1)" "int_inv s1" "int_status s1 = int_status s"
    "totalTicks (stats s1) = totalTicks (advance_tick (int_status s) (stats s))" "due s1 = 0"
    by (auto simp: ChangeLevel_def)
  then show ?thesis
    by (intro exI [of _ "ChangeLevel IntOn s1"])
      (simp add: OneTick_def totalTicks_advance ChangeLevel_def [of IntOn])
qed

text \<open>\<open>Idle\<close> moves the clock to the first pending interrupt.\<close>

lemma Idle_advances:
  assumes "int_inv s" "int_level s = IntOff" "pending s = (w, p) # rest" "\<not> lone_timer s"
  shows "\<exists>s'. Idle call hook s = Some (Inr s') \<and> int_inv s' \<and> int_level s' = IntOff \<and>
           int_status s' = SystemMode \<and> \<not> yieldOnReturn s' \<and>
           totalTicks (stats s') = max w (totalTicks (stats s)) \<and> (due s' = 0 \<or> lone_timer s')"
proof -
  let ?s = "s\<lparr>int_status := IdleMode\<rparr>" and ?t = "totalTicks (stats s)"
  let ?st = "if w > ?t then (stats s)\<lparr>idleTicks := idleTicks (stats s) + (w - ?t), totalTicks := w\<rparr> else stats s"
  let ?u = "?s\<lparr>pending := rest, stats := ?st, kern := hook (kern ?s), inHandler := True, int_status := SystemMode\<rparr>"
  have "int_inv ?u" using assms(1,3) by (auto simp: int_inv_def keys_sorted_Cons)
  from call_ok [OF this, of "pi_handler p"] obtain u where
    u: "call (pi_handler p) ?u = Inr u" "adds_later ?u u" by blast
  let ?v = "u\<lparr>int_status := IdleMode, inHandler := False\<rparr>"
  have "\<not> (int_status ?s = IdleMode \<and> pi_type p = TimerInt \<and> rest = [])"
    using assms(3,4) by (auto simp: lone_timer_iff)
  then have fire: "CheckIfDue call hook True ?s = Inr (True, ?v)"
    using CheckIfDue_fire [of ?s w p rest True ?st call hook] u assms(2,3) by simp
  have "int_inv ?v" "int_level ?v = IntOff" using u(2) assms(2) by (simp_all add: adds_later_def)
  from due_loop_ends [OF this] obtain s1 where
    s1: "due_loop call hook ?v = Some (Inr s1)" "int_inv s1" "int_level s1 = IntOff"
      "totalTicks (stats s1) = totalTicks (stats u)" "due s1 = 0 \<or> lone_timer s1" by auto
  have "totalTicks (stats u) = max w ?t" using u(2) by (auto simp: adds_later_def max_def)
  then show ?thesis using fire s1
    by (intro exI [of _ "s1\<lparr>yieldOnReturn := False, int_status := SystemMode\<rparr>"])
      (simp add: Idle_def lone_timer_def)
qed

end

lemma Idle_halts:
  assumes "int_level s = IntOff" "pending s = [] \<or> lone_timer s"
  shows "Idle call hook s = Some (Inl MachineHalted)"
  using assms by (auto simp: Idle_def CheckIfDue_def Halt_def lone_timer_iff)

section \<open>The timer fulfils the contract\<close>

lemma TimeOfNextInterrupt_range:
  "TimeOfNextInterrupt rnd t = (n, t') \<Longrightarrow> 0 < n \<and> n \<le> 200"
  by (auto simp: TimeOfNextInterrupt_def Random_def smod_nonneg split: if_splits)

lemma Schedule_adds_later:
  assumes "int_inv s" "0 < n"
  shows "\<exists>s'. Schedule h n ty s = Inr s' \<and> adds_later s s' \<and> pending s' =
           lins (pending s) (new_PendingInterrupt h (totalTicks (stats s) + n) ty) (totalTicks (stats s) + n)"
proof -
  let ?w = "totalTicks (stats s) + n"
  let ?p = "new_PendingInterrupt h ?w ty"
  let ?s = "s\<lparr>pending := lins (pending s) ?p ?w\<rparr>"
  have "Schedule h n ty s = Inr ?s" using assms by (simp add: Schedule_def Let_def)
  moreover have "int_inv ?s" using assms(1) by (rule int_inv_lins) (simp add: new_PendingInterrupt_def)
  then have "adds_later s ?s" using assms(2) by (auto simp: adds_later_def)
  ultimately show ?thesis by auto
qed

lemma TimerExpired_ok:
  assumes "int_inv s"
  shows "\<exists>s'. TimerExpired rnd s = Inr s' \<and> adds_later s s'"
proof -
  obtain n t where n: "TimeOfNextInterrupt rnd (kern s) = (n, t)" by fastforce
  have "int_inv (s\<lparr>kern := t\<rparr>)" using assms by simp
  from Schedule_adds_later [OF this, of n TimerHandler TimerInt] TimeOfNextInterrupt_range [OF n]
  obtain s' where "Schedule TimerHandler n TimerInt (s\<lparr>kern := t\<rparr>) = Inr s'" "adds_later s s'"
    by (auto simp: adds_later_def)
  then show ?thesis
    using n by (auto simp: TimerExpired_def TimerInterruptHandler_def YieldOnReturn_def adds_later_def)
qed

lemma timer_call_ok: "int_inv s \<Longrightarrow> \<exists>s'. timer_call rnd h s = Inr s' \<and> adds_later s s'"
  using TimerExpired_ok by (cases h) simp

interpretation timer: device_handlers "timer_call rnd" hook for rnd hook
  by unfold_locales (rule timer_call_ok)

lemma boot_timer:
  "\<exists>s. new_Timer rnd b (new_Interrupt new_Statistics t) = Inr s \<and> int_inv s \<and> lone_timer s \<and>
     int_level s = IntOff \<and> int_status s = SystemMode"
proof -
  let ?s = "new_Interrupt new_Statistics t"
  obtain n t' where n: "TimeOfNextInterrupt rnd ((kern ?s)\<lparr>tm_randomize := b\<rparr>) = (n, t')" by fastforce
  have inv: "int_inv (?s\<lparr>kern := t'\<rparr>)"
    by (simp add: int_inv_def new_Interrupt_def new_Statistics_def)
  have "0 < n" using TimeOfNextInterrupt_range [OF n] by simp
  then show ?thesis
    using n Schedule_adds_later [OF inv, of n TimerHandler TimerInt]
    by (auto simp: new_Timer_def Schedule_def adds_later_def lone_timer_def new_Interrupt_def
        new_PendingInterrupt_def Let_def)
qed

section \<open>Properties\<close>

text \<open>
  (C27) \<open>OneTick\<close> with handlers that keep the clock and only add later interrupts: the loop over due
  interrupts ends; the clock advances by 10 ticks in system mode and by 1 otherwise; afterwards no
  pending interrupt is due, interrupts are on, the pending list is sorted and the clock is still the
  sum of idle, system and user ticks; then \<open>Yield\<close> is called exactly if a handler asked for it.
\<close>

theorem OneTick_fires_all_due:
  assumes handlers: "\<And>h s. int_inv s \<Longrightarrow> \<exists>s'. call h s = Inr s' \<and> adds_later s s'"
    and "int_inv s" "int_status s \<noteq> IdleMode"
  shows "\<exists>s'. int_inv s' \<and> due s' = 0 \<and> int_level s' = IntOn \<and> int_status s' = int_status s \<and>
           totalTicks (stats s') = totalTicks (stats s) + (if int_status s = SystemMode then 10 else 1) \<and>
           OneTick call hook yield s =
             (if yieldOnReturn s' then
                Option.bind (yield (s'\<lparr>yieldOnReturn := False, int_status := SystemMode\<rparr>))
                  (\<lambda>r. Some (bindE r (\<lambda>s3. Inr (s3\<lparr>int_status := int_status s\<rparr>))))
              else Some (Inr s'))"
proof -
  have "device_handlers call" using handlers by unfold_locales
  then show ?thesis using assms(2,3) by (rule device_handlers.OneTick_runs_due)
qed

theorem OneTick_fires_all_due_witness:
  "\<exists>s s'. new_Timer (\<lambda>n. n) True (new_Interrupt new_Statistics \<lparr>tm_randomize = False, tm_draws = 3\<rparr>) = Inr s \<and>
     OneTick (timer_call (\<lambda>n. n)) (\<lambda>k. k) (\<lambda>t. Some (Inr t)) s = Some (Inr s') \<and> due s = 0"
proof -
  obtain s where s: "new_Timer (\<lambda>n. n) True (new_Interrupt new_Statistics \<lparr>tm_randomize = False, tm_draws = 3\<rparr>) = Inr s"
    "int_inv s" "int_status s = SystemMode" using boot_timer by blast
  have "\<exists>s'. OneTick (timer_call (\<lambda>n. n)) (\<lambda>k. k) (\<lambda>t. Some (Inr t)) s = Some (Inr s')"
    using OneTick_fires_all_due [where call = "timer_call (\<lambda>n. n)" and hook = "\<lambda>k. k"
        and yield = "\<lambda>t. Some (Inr t)", OF timer_call_ok s(2)] s(3)
    by (auto split: if_splits)
  moreover have "due s = 0" using s(1)
    by (auto simp: new_Timer_def TimeOfNextInterrupt_def Random_def Schedule_def due_def new_Interrupt_def
        new_Statistics_def new_PendingInterrupt_def smod_nonneg)
  ultimately show ?thesis using s(1) by blast
qed

text \<open>
  \<open>Idle\<close> with the timer device: if nothing but a timer interrupt (or nothing at all) is pending the
  machine halts; otherwise the call returns with the clock moved exactly to the first pending
  interrupt (or unchanged when that one was overdue) and every due interrupt handled, except for a
  timer interrupt that has become the only one pending.
\<close>

theorem Idle_advances_to_next_interrupt:
  assumes "int_inv s" "int_level s = IntOff"
  shows "(if pending s = [] \<or> lone_timer s then Idle (timer_call rnd) hook s = Some (Inl MachineHalted)
          else \<exists>s'. Idle (timer_call rnd) hook s = Some (Inr s') \<and> int_inv s' \<and> int_status s' = SystemMode \<and>
                 totalTicks (stats s') = max (fst (hd (pending s))) (totalTicks (stats s)) \<and>
                 (due s' = 0 \<or> lone_timer s'))"
proof (cases "pending s = [] \<or> lone_timer s")
  case True
  then show ?thesis using Idle_halts [OF assms(2)] by simp
next
  case False
  then obtain w p rest where "pending s = (w, p) # rest" "\<not> lone_timer s" by (cases "pending s") auto
  then show ?thesis using timer.Idle_advances [OF assms, of w p rest rnd hook] by fastforce
qed

theorem Idle_advances_to_next_interrupt_witness:
  "\<exists>s. new_Timer (\<lambda>n. n) True (new_Interrupt new_Statistics \<lparr>tm_randomize = False, tm_draws = 3\<rparr>) = Inr s \<and>
     Idle (timer_call (\<lambda>n. n)) (\<lambda>k. k) s = Some (Inl MachineHalted)"
proof -
  obtain s where s: "new_Timer (\<lambda>n. n) True (new_Interrupt new_Statistics \<lparr>tm_randomize = False, tm_draws = 3\<rparr>) = Inr s"
    "int_inv s" "lone_timer s" "int_level s = IntOff" using boot_timer by blast
  from Idle_advances_to_next_interrupt [OF s(2,4), of "\<lambda>n. n" "\<lambda>k. k"] s(1,3) show ?thesis by auto
qed

end
