(* ===== verification/Kernel_Threads.thy ===== *)
theory Kernel_Threads
  imports Linked_List
begin

text \<open>
  Threads, the scheduler and the synchronisation objects: \<open>threads/thread.cc\<close>, \<open>threads/scheduler.cc\<close>,
  \<open>threads/synch.cc\<close> and \<open>threads/synchlist.h\<close>.

  The kernel is a uniprocessor: one thread runs, and control passes to another one in \<open>Thread::Sleep\<close>,
  in \<open>Thread::Yield\<close> and when the timer interrupt makes the running thread yield, which can happen
  wherever interrupts are enabled. A thread is therefore modelled by the kernel code it still has
  to execute, a list of \<open>kop\<close>s: each \<open>kop\<close> is a piece of code that runs with interrupts disabled (such as
  the body of \<open>Semaphore::P\<close>) or touches only data of the running thread. \<open>exec_op\<close> runs one of them;
  the step relation \<open>kstep\<close> interleaves them with timer preemption, device interrupts and idling.
  \<open>AfterSwitch\<close> stands for the code of \<open>Scheduler::Run\<close> behind \<open>SWITCH\<close>, which a thread executes when it
  gets the processor back, and \<open>PLoop\<close> for the loop test of \<open>P\<close> after the \<open>Sleep\<close> in its body.

  Objects are named by numbers. The mutex of lock \<open>l\<close> is the semaphore \<open>LockSem l\<close>, the semaphore that
  \<open>Condition::Wait\<close> creates is a \<open>WaitSem\<close>; both are private to \<open>synch.cc\<close>. A \<open>SynchList\<close> numbered \<open>n\<close>
  owns lock \<open>n\<close> and condition \<open>n\<close>. Execution stacks and the saved registers are not modelled.
\<close>

section \<open>Data structures\<close>

type_synonym tid = nat

datatype semid = UserSem nat | LockSem nat | WaitSem nat

datatype ThreadStatus = JUST_CREATED | RUNNING | READY | BLOCKED

record Semaphore =
  sem_value :: int
  sem_queue :: "tid nlist"

datatype kop =
    AfterSwitch                  \<comment> \<open>Scheduler::Run behind SWITCH\<close>
  | PEnter semid                 \<comment> \<open>Semaphore::P\<close>
  | PLoop semid                  \<comment> \<open>Semaphore::P, after Sleep\<close>
  | VOp semid                    \<comment> \<open>Semaphore::V\<close>
  | DestroyOp nat                \<comment> \<open>Semaphore::Destroy\<close>
  | DeleteSem nat                \<comment> \<open>delete of a semaphore created by NewSem\<close>
  | DeleteWaiter nat             \<comment> \<open>delete waiter in Condition::Wait\<close>
  | SetHolder nat                \<comment> \<open>Lock::Acquire behind P\<close>
  | ReleaseOp nat                \<comment> \<open>Lock::Release\<close>
  | WaitOp nat nat               \<comment> \<open>Condition::Wait (condition, lock)\<close>
  | SignalOp nat nat             \<comment> \<open>Condition::Signal\<close>
  | BroadcastOp nat nat          \<comment> \<open>the loop of Condition::Broadcast\<close>
  | SLPush nat int               \<comment> \<open>list->Append in SynchList::Append\<close>
  | SLTake nat                   \<comment> \<open>the loop and list->Remove in SynchList::Remove\<close>
  | YieldOp                      \<comment> \<open>Thread::Yield\<close>
  | ForkOp                       \<comment> \<open>new Thread and Thread::Fork\<close>
  | FinishOp                     \<comment> \<open>Thread::Finish\<close>
  | NewSem nat                   \<comment> \<open>the constructors; a semaphore's first value is not negative\<close>
  | NewLock
  | NewCond
  | NewSynchList

record kstate =
  currentThread :: tid
  idling :: bool                          \<comment> \<open>the running thread is in the loop of Sleep\<close>
  th_status :: "tid \<Rightarrow> ThreadStatus"
  readyList :: "tid nlist"
  threadToBeDestroyed :: "tid option"
  threads :: "tid \<Rightarrow> kop list option"     \<comment> \<open>the existing threads\<close>
  sems :: "semid \<Rightarrow> Semaphore option"
  lockHolder :: "nat \<Rightarrow> tid option option" \<comment> \<open>the existing locks and their holders\<close>
  waitQueue :: "nat \<Rightarrow> semid nlist option" \<comment> \<open>the existing conditions\<close>
  slists :: "nat \<Rightarrow> int nlist option"
  retval :: "tid \<Rightarrow> int option"           \<comment> \<open>the item a thread got from SynchList::Remove\<close>

section \<open>The scheduler\<close>

definition thread_setStatus :: "tid \<Rightarrow> ThreadStatus \<Rightarrow> kstate \<Rightarrow> kstate" where
  "thread_setStatus t st s = s\<lparr>th_status := (th_status s)(t := st)\<rparr>"

text \<open>The kernel code the running thread executes next.\<close>

definition set_ops :: "kop list \<Rightarrow> kstate \<Rightarrow> kstate" where
  "set_ops ops s = s\<lparr>threads := (threads s)(currentThread s \<mapsto> ops)\<rparr>"

definition ReadyToRun :: "tid \<Rightarrow> kstate \<Rightarrow> kstate" where
  "ReadyToRun t s = (thread_setStatus t READY s)\<lparr>readyList := lapp (readyList s) t\<rparr>"

definition FindNextToRun :: "kstate \<Rightarrow> tid option \<times> kstate" where
  "FindNextToRun s = (map_option snd (fst (lrem (readyList s))), s\<lparr>readyList := snd (lrem (readyList s))\<rparr>)"

text \<open>\<open>Run\<close> up to \<open>SWITCH\<close>; what follows it is left for the old thread to execute later.\<close>

definition Run :: "tid \<Rightarrow> kstate \<Rightarrow> kstate result" where
  "Run nextThread s =
     bindE (deref (threads s (currentThread s))) (\<lambda>ops.
       Inr (thread_setStatus nextThread RUNNING
              ((set_ops (AfterSwitch # ops) s)\<lparr>currentThread := nextThread, idling := False\<rparr>)))"

definition after_switch :: "kop list \<Rightarrow> kstate \<Rightarrow> kstate result" where
  "after_switch rest s =
     (case threadToBeDestroyed s of
        None \<Rightarrow> Inr (set_ops rest s)
      | Some t \<Rightarrow>
          bindE (ASSERT (t \<noteq> currentThread s)) (\<lambda>_.
            Inr ((set_ops rest s)\<lparr>threads := (threads (set_ops rest s))(t := None),
                                 threadToBeDestroyed := None\<rparr>)))"

section \<open>Threads\<close>

text \<open>The loop of \<open>Sleep\<close>: run the next ready thread, or idle until an interrupt makes one ready.\<close>

definition sleep_loop :: "kstate \<Rightarrow> kstate result" where
  "sleep_loop s =
     (case FindNextToRun s of
        (None, s') \<Rightarrow> Inr (s'\<lparr>idling := True\<rparr>)
      | (Some t, s') \<Rightarrow> Run t s')"

definition Sleep :: "kstate \<Rightarrow> kstate result" where
  "Sleep s = sleep_loop (thread_setStatus (currentThread s) BLOCKED s)"

definition Yield :: "kstate \<Rightarrow> kstate result" where
  "Yield s =
     (case FindNextToRun s of
        (None, s') \<Rightarrow> Inr s'
      | (Some t, s') \<Rightarrow> Run t (ReadyToRun (currentThread s') s'))"

definition Finish :: "kstate \<Rightarrow> kstate result" where
  "Finish s = Sleep (s\<lparr>threadToBeDestroyed := Some (currentThread s)\<rparr>)"

text \<open>A new thread starts in \<open>ThreadRoot\<close>, which enables interrupts and calls the forked function.\<close>

definition Fork :: "tid \<Rightarrow> kstate \<Rightarrow> kstate" where
  "Fork t s = ReadyToRun t (s\<lparr>threads := (threads s)(t \<mapsto> [])\<rparr>)"

section \<open>Semaphores, locks and conditions\<close>

definition Semaphore_P :: "semid \<Rightarrow> kop list \<Rightarrow> kstate \<Rightarrow> kstate result" where
  "Semaphore_P m rest s =
     bindE (deref (sems s m)) (\<lambda>sem.
       if sem_value sem = 0 then
         Sleep (set_ops (PLoop m # rest)
                  (s\<lparr>sems := (sems s)(m \<mapsto> sem\<lparr>sem_queue := lapp (sem_queue sem) (currentThread s)\<rparr>)\<rparr>))
       else
         Inr (set_ops rest (s\<lparr>sems := (sems s)(m \<mapsto> sem\<lparr>sem_value := sem_value sem - 1\<rparr>)\<rparr>)))"

definition Semaphore_V :: "semid \<Rightarrow> kstate \<Rightarrow> kstate result" where
  "Semaphore_V m s =
     bindE (deref (sems s m)) (\<lambda>sem.
       let q' = snd (lrem (sem_queue sem));
           s' = (case fst (lrem (sem_queue sem)) of None \<Rightarrow> s | Some (_, t) \<Rightarrow> ReadyToRun t s)
       in Inr (s'\<lparr>sems := (sems s')(m \<mapsto> \<lparr>sem_value = sem_value sem + 1, sem_queue = q'\<rparr>)\<rparr>))"

fun ready_all :: "tid nlist \<Rightarrow> kstate \<Rightarrow> kstate" where
  "ready_all [] s = s"
| "ready_all ((_, t) # q) s = ready_all q (ReadyToRun t s)"

definition Semaphore_Destroy :: "semid \<Rightarrow> kstate \<Rightarrow> kstate result" where
  "Semaphore_Destroy m s =
     bindE (deref (sems s m)) (\<lambda>sem.
       Inr ((ready_all (sem_queue sem) s)\<lparr>sems := (sems s)(m \<mapsto> sem\<lparr>sem_queue := []\<rparr>)\<rparr>))"

definition delete_sem :: "semid \<Rightarrow> kop list \<Rightarrow> kstate \<Rightarrow> kstate result" where
  "delete_sem m rest s =
     bindE (deref (sems s m)) (\<lambda>_. Inr (set_ops rest (s\<lparr>sems := (sems s)(m := None)\<rparr>)))"

definition isHeldByCurrentThread :: "nat \<Rightarrow> kstate \<Rightarrow> bool result" where
  "isHeldByCurrentThread l s = bindE (deref (lockHolder s l)) (\<lambda>h. Inr (h = Some (currentThread s)))"

text \<open>\<open>ASSERT( isHeldByCurrentThread() )\<close>\<close>

definition assert_held :: "nat \<Rightarrow> kstate \<Rightarrow> unit result" where
  "assert_held l s = bindE (isHeldByCurrentThread l s) ASSERT"

definition Release :: "nat \<Rightarrow> kop list \<Rightarrow> kstate \<Rightarrow> kstate result" where
  "Release l rest s =
     bindE (assert_held l s) (\<lambda>_.
       Inr (set_ops (VOp (LockSem l) # rest) (s\<lparr>lockHolder := (lockHolder s)(l \<mapsto> None)\<rparr>)))"

definition Acquire :: "nat \<Rightarrow> kop list" where
  "Acquire l = [PEnter (LockSem l), SetHolder l]"

text \<open>The assignment \<open>lockHolder = currentThread\<close> behind \<open>mutex->P()\<close>.\<close>

definition Acquire_rest :: "nat \<Rightarrow> kop list \<Rightarrow> kstate \<Rightarrow> kstate result" where
  "Acquire_rest l rest s =
     bindE (deref (lockHolder s l)) (\<lambda>_.
       Inr (set_ops rest (s\<lparr>lockHolder := (lockHolder s)(l \<mapsto> Some (currentThread s))\<rparr>)))"

text \<open>\<open>Condition::Wait\<close> up to the release of the lock; \<open>w\<close> is the new semaphore.\<close>

definition Wait :: "nat \<Rightarrow> nat \<Rightarrow> nat \<Rightarrow> kop list \<Rightarrow> kstate \<Rightarrow> kstate result" where
  "Wait w c l rest s =
     bindE (assert_held l s) (\<lambda>_.
     bindE (deref (waitQueue s c)) (\<lambda>q.
       Inr (set_ops (ReleaseOp l # PEnter (WaitSem w) # Acquire l @ DeleteWaiter w # rest)
              (s\<lparr>sems := (sems s)(WaitSem w \<mapsto> \<lparr>sem_value = 0, sem_queue = []\<rparr>),
                 waitQueue := (waitQueue s)(c \<mapsto> lapp q (WaitSem w))\<rparr>))))"

definition Signal :: "nat \<Rightarrow> nat \<Rightarrow> kop list \<Rightarrow> kstate \<Rightarrow> kstate result" where
  "Signal c l rest s =
     bindE (assert_held l s) (\<lambda>_.
     bindE (deref (waitQueue s c)) (\<lambda>q.
       case lrem q of
         (None, _) \<Rightarrow> Inr (set_ops rest s)
       | (Some (_, w), q') \<Rightarrow> Inr (set_ops (VOp w # rest) (s\<lparr>waitQueue := (waitQueue s)(c \<mapsto> q')\<rparr>))))"

definition Broadcast :: "nat \<Rightarrow> nat \<Rightarrow> kop list \<Rightarrow> kstate \<Rightarrow> kstate result" where
  "Broadcast c l rest s =
     bindE (deref (waitQueue s c)) (\<lambda>q.
       Inr (set_ops (if q = [] then rest else SignalOp c l # BroadcastOp c l # rest) s))"

section \<open>Synchronised lists\<close>

definition SynchList_Append :: "nat \<Rightarrow> int \<Rightarrow> kop list" where
  "SynchList_Append n item = Acquire n @ [SLPush n item, SignalOp n n, ReleaseOp n]"

definition SynchList_Remove :: "nat \<Rightarrow> kop list" where
  "SynchList_Remove n = Acquire n @ [SLTake n, ReleaseOp n]"

definition SynchList_Apply :: "nat \<Rightarrow> kop list" where
  "SynchList_Apply n = Acquire n @ [ReleaseOp n]"

definition sl_push :: "nat \<Rightarrow> int \<Rightarrow> kop list \<Rightarrow> kstate \<Rightarrow> kstate result" where
  "sl_push n item rest s =
     bindE (deref (slists s n)) (\<lambda>xs. Inr (set_ops rest (s\<lparr>slists := (slists s)(n \<mapsto> lapp xs item)\<rparr>)))"

definition sl_take :: "nat \<Rightarrow> kop list \<Rightarrow> kstate \<Rightarrow> kstate result" where
  "sl_take n rest s =
     bindE (deref (slists s n)) (\<lambda>xs.
       case lrem xs of
         (None, _) \<Rightarrow> Inr (set_ops (WaitOp n n # SLTake n # rest) s)
       | (Some (_, item), xs') \<Rightarrow>
           Inr (set_ops rest (s\<lparr>slists := (slists s)(n \<mapsto> xs'),
                                retval := (retval s)(currentThread s \<mapsto> item)\<rparr>)))"

section \<open>Constructors\<close>

definition new_Semaphore :: "nat \<Rightarrow> nat \<Rightarrow> kop list \<Rightarrow> kstate \<Rightarrow> kstate result" where
  "new_Semaphore n initialValue rest s =
     Inr (set_ops rest (s\<lparr>sems := (sems s)(UserSem n \<mapsto> \<lparr>sem_value = int initialValue, sem_queue = []\<rparr>)\<rparr>))"

definition new_Lock :: "nat \<Rightarrow> kop list \<Rightarrow> kstate \<Rightarrow> kstate result" where
  "new_Lock n rest s =
     Inr (set_ops rest (s\<lparr>sems := (sems s)(LockSem n \<mapsto> \<lparr>sem_value = 1, sem_queue = []\<rparr>),
                          lockHolder := (lockHolder s)(n \<mapsto> None)\<rparr>))"

definition new_Condition :: "nat \<Rightarrow> kop list \<Rightarrow> kstate \<Rightarrow> kstate result" where
  "new_Condition n rest s = Inr (set_ops rest (s\<lparr>waitQueue := (waitQueue s)(n \<mapsto> [])\<rparr>))"

definition new_SynchList :: "nat \<Rightarrow> kop list \<Rightarrow> kstate \<Rightarrow> kstate result" where
  "new_SynchList n rest s =
     Inr (set_ops rest (s\<lparr>slists := (slists s)(n \<mapsto> []),
                          sems := (sems s)(LockSem n \<mapsto> \<lparr>sem_value = 1, sem_queue = []\<rparr>),
                          lockHolder := (lockHolder s)(n \<mapsto> None),
                          waitQueue := (waitQueue s)(n \<mapsto> [])\<rparr>))"

lemmas constructor_defs [simp] =
  new_Semaphore_def new_Lock_def new_Condition_def new_SynchList_def Acquire_rest_def

section \<open>Execution\<close>

text \<open>
  One piece of kernel code of the running thread; \<open>n\<close> is the name of the object it creates, if any.
\<close>

fun exec_op :: "nat \<Rightarrow> kop \<Rightarrow> kop list \<Rightarrow> kstate \<Rightarrow> kstate result" where
  "exec_op n AfterSwitch rest s = after_switch rest s"
| "exec_op n (PEnter m) rest s = Semaphore_P m rest s"
| "exec_op n (PLoop m) rest s = Semaphore_P m rest s"
| "exec_op n (VOp m) rest s = Semaphore_V m (set_ops rest s)"
| "exec_op n (DestroyOp m) rest s = Semaphore_Destroy (UserSem m) (set_ops rest s)"
| "exec_op n (DeleteSem m) rest s = delete_sem (UserSem m) rest s"
| "exec_op n (DeleteWaiter m) rest s = delete_sem (WaitSem m) rest s"
| "exec_op n (SetHolder l) rest s = Acquire_rest l rest s"
| "exec_op n (ReleaseOp l) rest s = Release l rest s"
| "exec_op n (WaitOp c l) rest s = Wait n c l rest s"
| "exec_op n (SignalOp c l) rest s = Signal c l rest s"
| "exec_op n (BroadcastOp c l) rest s = Broadcast c l rest s"
| "exec_op n (SLPush k item) rest s = sl_push k item rest s"
| "exec_op n (SLTake k) rest s = sl_take k rest s"
| "exec_op n YieldOp rest s = Yield (set_ops rest s)"
| "exec_op n ForkOp rest s = Inr (Fork n (set_ops rest s))"
| "exec_op n FinishOp rest s = Finish (set_ops [] s)"
| "exec_op n (NewSem v) rest s = new_Semaphore n v rest s"
| "exec_op n NewLock rest s = new_Lock n rest s"
| "exec_op n NewCond rest s = new_Condition n rest s"
| "exec_op n NewSynchList rest s = new_SynchList n rest s"

text \<open>The calls a thread can make, and the code they run.\<close>

datatype api =
    CallP nat | CallV nat | CallDestroy nat
  | CallAcquire nat | CallRelease nat
  | CallWait nat nat | CallSignal nat nat | CallBroadcast nat nat
  | CallAppend nat int | CallRemove nat | CallApply nat
  | CallYield | CallFork | CallFinish
  | CallNewSem nat | CallNewLock | CallNewCond | CallNewSynchList

fun api_ops :: "api \<Rightarrow> kop list" where
  "api_ops (CallP m) = [PEnter (UserSem m)]"
| "api_ops (CallV m) = [VOp (UserSem m)]"
| "api_ops (CallDestroy m) = [DestroyOp m, DeleteSem m]"
| "api_ops (CallAcquire l) = Acquire l"
| "api_ops (CallRelease l) = [ReleaseOp l]"
| "api_ops (CallWait c l) = [WaitOp c l]"
| "api_ops (CallSignal c l) = [SignalOp c l]"
| "api_ops (CallBroadcast c l) = [BroadcastOp c l]"
| "api_ops (CallAppend n item) = SynchList_Append n item"
| "api_ops (CallRemove n) = SynchList_Remove n"
| "api_ops (CallApply n) = SynchList_Apply n"
| "api_ops CallYield = [YieldOp]"
| "api_ops CallFork = [ForkOp]"
| "api_ops CallFinish = [FinishOp]"
| "api_ops (CallNewSem v) = [NewSem v]"
| "api_ops CallNewLock = [NewLock]"
| "api_ops CallNewCond = [NewCond]"
| "api_ops CallNewSynchList = [NewSynchList]"

definition fresh_name :: "nat \<Rightarrow> kstate \<Rightarrow> bool" where
  "fresh_name n s \<longleftrightarrow> threads s n = None \<and> sems s (UserSem n) = None \<and> sems s (LockSem n) = None \<and>
     sems s (WaitSem n) = None \<and> lockHolder s n = None \<and> waitQueue s n = None \<and> slists s n = None"

text \<open>Interrupts are disabled between \<open>SWITCH\<close> and the next loop test of \<open>P\<close>.\<close>

fun masked :: "kop list \<Rightarrow> bool" where
  "masked (AfterSwitch # _) = True"
| "masked (PLoop _ # _) = True"
| "masked _ = False"

definition init_kstate :: kstate where
  "init_kstate =
     \<lparr>currentThread = 0, idling = False, th_status = (\<lambda>_. JUST_CREATED)(0 := RUNNING), readyList = [],
      threadToBeDestroyed = None, threads = [0 \<mapsto> []], sems = (\<lambda>_. None), lockHolder = (\<lambda>_. None),
      waitQueue = (\<lambda>_. None), slists = (\<lambda>_. None), retval = (\<lambda>_. None)\<rparr>"

inductive kstep :: "kstate \<Rightarrow> kstate \<Rightarrow> bool" where
  kcall: "\<not> idling s \<Longrightarrow> threads s (currentThread s) = Some [] \<Longrightarrow>
          kstep s (set_ops (api_ops a) s)"
| kexec: "\<not> idling s \<Longrightarrow> threads s (currentThread s) = Some (op # rest) \<Longrightarrow> fresh_name n s \<Longrightarrow>
          exec_op n op rest s = Inr s' \<Longrightarrow> kstep s s'"
| kpreempt: "\<not> idling s \<Longrightarrow> threads s (currentThread s) = Some ops \<Longrightarrow> \<not> masked ops \<Longrightarrow>
          Yield s = Inr s' \<Longrightarrow> kstep s s'"
| kdevice: "threads s (currentThread s) = Some ops \<Longrightarrow> idling s \<or> \<not> masked ops \<Longrightarrow>
          Semaphore_V (UserSem m) s = Inr s' \<Longrightarrow> kstep s s'"
| kwake: "idling s \<Longrightarrow> readyList s \<noteq> [] \<Longrightarrow> sleep_loop s = Inr s' \<Longrightarrow> kstep s s'"

inductive_cases kstepE: "kstep s s'"

inductive reachable :: "kstate \<Rightarrow> bool" where
  reach_init: "reachable init_kstate"
| reach_step: "reachable s \<Longrightarrow> kstep s s' \<Longrightarrow> reachable s'"

section \<open>Invariants\<close>

text \<open>The items of a list, without the keys.\<close>

definition ids :: "'a nlist \<Rightarrow> 'a list" where
  "ids q = map snd q"

lemma ids_simps [simp]:
  "ids [] = []" "ids (e # q) = snd e # ids q" "ids (lapp q x) = ids q @ [x]" "ids q = [] \<longleftrightarrow> q = []"
  by (simp_all add: ids_def lapp_def)

text \<open>The code thread \<open>t\<close> has still to execute, without the code behind \<open>SWITCH\<close>.\<close>

definition strip :: "kop list \<Rightarrow> kop list" where
  "strip ops = dropWhile (\<lambda>k. k = AfterSwitch) ops"

definition ahead :: "kstate \<Rightarrow> tid \<Rightarrow> kop list" where
  "ahead s t = (case threads s t of None \<Rightarrow> [] | Some ops \<Rightarrow> strip ops)"

text \<open>
  The shape of kernel code: \<open>P\<close> on the mutex of a lock is followed by the assignment of the holder, which
  occurs nowhere else, and the test of \<open>P\<close> after \<open>Sleep\<close> and the release of a mutex come first.
\<close>

fun p_on_lock :: "kop \<Rightarrow> nat option" where
  "p_on_lock (PEnter (LockSem l)) = Some l"
| "p_on_lock (PLoop (LockSem l)) = Some l"
| "p_on_lock _ = None"

fun may_follow :: "kop \<Rightarrow> kop \<Rightarrow> bool" where
  "may_follow x (SetHolder l) = (p_on_lock x = Some l)"
| "may_follow x (PLoop _) = False"
| "may_follow x AfterSwitch = False"
| "may_follow x (VOp (LockSem _)) = False"
| "may_follow x _ = (p_on_lock x = None)"

fun wf_ops :: "kop list \<Rightarrow> bool" where
  "wf_ops [] = True"
| "wf_ops [x] = (p_on_lock x = None)"
| "wf_ops (x # y # r) = (may_follow x y \<and> wf_ops (y # r))"

abbreviation ready_set :: "kstate \<Rightarrow> tid set" where
  "ready_set s \<equiv> set (ids (readyList s))"

abbreviation waiting :: "Semaphore \<Rightarrow> tid set" where
  "waiting S \<equiv> set (ids (sem_queue S))"

definition queues_ok :: "kstate \<Rightarrow> bool" where
  "queues_ok s \<longleftrightarrow> (\<forall>m S. sems s m = Some S \<longrightarrow>
     0 \<le> sem_value S \<and> distinct (ids (sem_queue S)) \<and>
     (\<forall>t \<in> waiting S. th_status s t = BLOCKED \<and> (\<exists>r. ahead s t = PLoop m # r)))"

definition thread_set :: "kstate \<Rightarrow> tid set" where
  "thread_set s = dom (threads s)"

definition ready_ok :: "kstate \<Rightarrow> bool" where
  "ready_ok s \<longleftrightarrow> distinct (ids (readyList s)) \<and>
     (\<forall>t \<in> ready_set s. th_status s t = READY \<and> t \<in> thread_set s)"

definition running_ok :: "kstate \<Rightarrow> bool" where
  "running_ok s \<longleftrightarrow> finite (thread_set s) \<and> currentThread s \<in> thread_set s \<and>
     (th_status s (currentThread s) = RUNNING \<longleftrightarrow> \<not> idling s) \<and>
     (\<forall>t \<in> thread_set s. th_status s t = RUNNING \<longrightarrow> t = currentThread s)"

definition zombie_ok :: "kstate \<Rightarrow> bool" where
  "zombie_ok s \<longleftrightarrow> (\<forall>t. threadToBeDestroyed s = Some t \<longrightarrow>
     t \<in> thread_set s \<and> th_status s t = BLOCKED \<and> ahead s t = [])"

definition code_ok :: "kstate \<Rightarrow> bool" where
  "code_ok s \<longleftrightarrow> (\<forall>t. wf_ops (ahead s t))"

definition place_inv :: "kstate \<Rightarrow> bool" where
  "place_inv s \<longleftrightarrow> queues_ok s \<and> ready_ok s \<and> running_ok s \<and> zombie_ok s \<and> code_ok s"

lemma place_invI: "queues_ok s \<Longrightarrow> ready_ok s \<Longrightarrow> running_ok s \<Longrightarrow> zombie_ok s \<Longrightarrow> code_ok s \<Longrightarrow> place_inv s"
  by (simp add: place_inv_def)

lemma place_invD:
  "place_inv s \<Longrightarrow> queues_ok s" "place_inv s \<Longrightarrow> ready_ok s" "place_inv s \<Longrightarrow> running_ok s"
  "place_inv s \<Longrightarrow> zombie_ok s" "place_inv s \<Longrightarrow> code_ok s"
  by (simp_all add: place_inv_def)

lemma running_ok_cong:
  "thread_set s = thread_set s' \<Longrightarrow> currentThread s = currentThread s' \<Longrightarrow> idling s = idling s' \<Longrightarrow>
   th_status s = th_status s' \<Longrightarrow> running_ok s = running_ok s'"
  by (simp only: running_ok_def)

text \<open>Its parts, as rules.\<close>

lemma place_queueD:
  assumes "place_inv s" "sems s m = Some S"
  shows "0 \<le> sem_value S" "distinct (ids (sem_queue S))"
    "t \<in> waiting S \<Longrightarrow> th_status s t = BLOCKED" "t \<in> waiting S \<Longrightarrow> \<exists>r. ahead s t = PLoop m # r"
  using assms by (auto simp: place_inv_def queues_ok_def)

lemma place_readyD:
  assumes "place_inv s"
  shows "distinct (ids (readyList s))" "t \<in> ready_set s \<Longrightarrow> th_status s t = READY"
    "t \<in> ready_set s \<Longrightarrow> t \<in> thread_set s"
  using assms by (auto simp: place_inv_def ready_ok_def)

lemma place_runningD:
  assumes "place_inv s"
  shows "finite (thread_set s)" "currentThread s \<in> thread_set s"
    "\<not> idling s \<Longrightarrow> th_status s (currentThread s) = RUNNING"
    "idling s \<Longrightarrow> th_status s (currentThread s) \<noteq> RUNNING"
    "t \<in> thread_set s \<Longrightarrow> th_status s t = RUNNING \<Longrightarrow> t = currentThread s"
    "wf_ops (ahead s t)"
  using assms by (auto simp: place_inv_def running_ok_def code_ok_def)

lemma place_zombieD:
  assumes "place_inv s" "threadToBeDestroyed s = Some t"
  shows "t \<in> thread_set s" "th_status s t = BLOCKED" "ahead s t = []"
  using assms by (auto simp: place_inv_def zombie_ok_def)

text \<open>A thread is in one place: waiting, ready or running.\<close>

lemma waiting_not_ready: "place_inv s \<Longrightarrow> sems s m = Some S \<Longrightarrow> t \<in> waiting S \<Longrightarrow> t \<notin> ready_set s"
  using place_queueD(3) place_readyD(2) by fastforce

lemma running_not_waiting:
  "place_inv s \<Longrightarrow> \<not> idling s \<Longrightarrow> sems s m = Some S \<Longrightarrow> currentThread s \<notin> waiting S"
  using place_queueD(3) place_runningD(3) by fastforce

lemma running_not_ready: "place_inv s \<Longrightarrow> \<not> idling s \<Longrightarrow> currentThread s \<notin> ready_set s"
  using place_readyD(2) place_runningD(3) by fastforce

lemma waiting_once:
  assumes "place_inv s" "sems s m = Some S" "sems s m' = Some S'" "t \<in> waiting S" "t \<in> waiting S'"
  shows "m = m'"
  using place_queueD(4) [OF assms(1,2,4)] place_queueD(4) [OF assms(1,3,5)] by auto

lemma waiting_thread:
  assumes "place_inv s" "sems s m = Some S" "t \<in> waiting S"
  shows "t \<in> thread_set s" "threadToBeDestroyed s \<noteq> Some t"
  using place_queueD(4) [OF assms] place_zombieD(3) [OF assms(1), of t]
  by (auto simp: thread_set_def ahead_def split: option.splits)

lemma thread_set_upd [simp]:
  "thread_set (s\<lparr>readyList := x1\<rparr>) = thread_set s" "thread_set (s\<lparr>currentThread := x2\<rparr>) = thread_set s"
  "thread_set (s\<lparr>idling := x3\<rparr>) = thread_set s" "thread_set (s\<lparr>th_status := x4\<rparr>) = thread_set s"
  "thread_set (s\<lparr>sems := x5\<rparr>) = thread_set s" "thread_set (s\<lparr>lockHolder := x6\<rparr>) = thread_set s"
  "thread_set (s\<lparr>waitQueue := x7\<rparr>) = thread_set s" "thread_set (s\<lparr>slists := x8\<rparr>) = thread_set s"
  "thread_set (s\<lparr>retval := x9\<rparr>) = thread_set s" "thread_set (s\<lparr>threadToBeDestroyed := x10\<rparr>) = thread_set s"
  "thread_set (s\<lparr>threads := (threads s)(t \<mapsto> ops)\<rparr>) = insert t (thread_set s)"
  "thread_set (s\<lparr>threads := (threads s)(t := None)\<rparr>) = thread_set s - {t}"
  by (auto simp: thread_set_def)

lemma strip_simps [simp]:
  "strip [] = []" "strip (AfterSwitch # r) = strip r" "k \<noteq> AfterSwitch \<Longrightarrow> strip (k # r) = k # r"
  by (simp_all add: strip_def)

lemma wf_ops_strip: "wf_ops r \<Longrightarrow> r = [] \<or> hd r \<noteq> AfterSwitch \<Longrightarrow> strip r = r"
  by (cases r) auto

lemma may_follow_not [simp]:
  "\<not> may_follow x AfterSwitch" "\<not> may_follow x (PLoop m)" "\<not> may_follow x (VOp (LockSem l))"
  by (cases m, simp_all)

lemma wf_ops_tl: "wf_ops (x # r) \<Longrightarrow> wf_ops r"
  by (cases r) auto

lemma strip_tl: "wf_ops (x # r) \<Longrightarrow> strip r = r"
  by (cases r; cases "hd r = AfterSwitch") auto

text \<open>The rest of the code never starts in the middle of \<open>P\<close>.\<close>

lemma tl_not_PLoop: "wf_ops (x # r) \<Longrightarrow> r \<noteq> PLoop m # r'"
  by (cases r) auto

lemma wf_ops_Cons:
  "wf_ops (x # r) \<longleftrightarrow> wf_ops r \<and> (case r of [] \<Rightarrow> p_on_lock x = None | y # _ \<Rightarrow> may_follow x y)"
  by (cases r) auto

lemma api_ops_wf: "wf_ops (api_ops a)" "strip (api_ops a) = api_ops a"
  by (cases a; simp add: Acquire_def SynchList_Append_def SynchList_Remove_def SynchList_Apply_def)+

section \<open>The scheduler keeps the invariants\<close>

text \<open>The running thread gives up the processor: from there \<open>Sleep\<close> is the loop that \<open>kwake\<close> resumes.\<close>

definition go_idle :: "ThreadStatus \<Rightarrow> kstate \<Rightarrow> kstate" where
  "go_idle st s = (thread_setStatus (currentThread s) st s)\<lparr>idling := True\<rparr>"

lemma sleep_loop_idling: "sleep_loop (s\<lparr>idling := True\<rparr>) = sleep_loop s"
proof (cases "readyList s")
  case Nil
  then show ?thesis by (simp add: sleep_loop_def FindNextToRun_def)
next
  case (Cons a list)
  then show ?thesis
    by (simp add: sleep_loop_def FindNextToRun_def Run_def set_ops_def thread_setStatus_def)
qed

lemma Sleep_go_idle: "Sleep s = sleep_loop (go_idle BLOCKED s)"
  by (simp add: Sleep_def go_idle_def sleep_loop_idling)

lemma Yield_go_idle:
  "Yield s = (if readyList s = [] then Inr s
     else sleep_loop ((go_idle READY s)\<lparr>readyList := lapp (readyList s) (currentThread s)\<rparr>))"
proof (cases "readyList s")
  case Nil
  then show ?thesis by (cases s) (simp add: Yield_def FindNextToRun_def)
next
  case (Cons a list)
  obtain k t where "a = (k, t)" by fastforce
  then show ?thesis using Cons
    by (simp add: Yield_def FindNextToRun_def sleep_loop_def ReadyToRun_def go_idle_def lapp_def
        Run_def set_ops_def thread_setStatus_def)
qed

lemma sleep_loop_cases:
  assumes "sleep_loop s = Inr s'" "currentThread s \<in> thread_set s"
  obtains "readyList s = []" "s' = s\<lparr>idling := True\<rparr>"
  | k t rest ops where "readyList s = (k, t) # rest" "threads s (currentThread s) = Some ops"
    "s' = s\<lparr>readyList := rest, threads := (threads s)(currentThread s \<mapsto> AfterSwitch # ops),
            currentThread := t, idling := False, th_status := (th_status s)(t := RUNNING)\<rparr>"
proof (cases "readyList s")
  case Nil
  then have "s' = s\<lparr>idling := True\<rparr>" using assms
    by (cases s) (simp add: sleep_loop_def FindNextToRun_def)
  then show ?thesis using that(1) Nil by blast
next
  case (Cons a rest)
  obtain k t where a: "a = (k, t)" by fastforce
  obtain ops where ops: "threads s (currentThread s) = Some ops" using assms(2) by (auto simp: thread_set_def)
  have "s' = s\<lparr>readyList := rest, threads := (threads s)(currentThread s \<mapsto> AfterSwitch # ops),
            currentThread := t, idling := False, th_status := (th_status s)(t := RUNNING)\<rparr>"
    using assms(1) Cons a ops
    by (simp add: sleep_loop_def FindNextToRun_def Run_def set_ops_def thread_setStatus_def)
  then show ?thesis using that(2) Cons a ops by blast
qed

lemma ahead_upd [simp]:
  "ahead (s\<lparr>readyList := x1\<rparr>) = ahead s" "ahead (s\<lparr>currentThread := x2\<rparr>) = ahead s"
  "ahead (s\<lparr>idling := x3\<rparr>) = ahead s" "ahead (s\<lparr>th_status := x4\<rparr>) = ahead s"
  "ahead (s\<lparr>sems := x5\<rparr>) = ahead s" "ahead (s\<lparr>lockHolder := x6\<rparr>) = ahead s"
  "ahead (s\<lparr>waitQueue := x7\<rparr>) = ahead s" "ahead (s\<lparr>slists := x8\<rparr>) = ahead s"
  "ahead (s\<lparr>retval := x9\<rparr>) = ahead s" "ahead (s\<lparr>threadToBeDestroyed := x10\<rparr>) = ahead s"
  by (simp_all add: ahead_def fun_eq_iff)

text \<open>What \<open>sleep_loop\<close> does to the parts the invariants look at.\<close>

lemma sleep_loop_frame:
  assumes "sleep_loop s = Inr s'" "currentThread s \<in> thread_set s"
  shows "ahead s' = ahead s" "sems s' = sems s" "lockHolder s' = lockHolder s"
    "thread_set s' = thread_set s" "threadToBeDestroyed s' = threadToBeDestroyed s" "waitQueue s' = waitQueue s"
proof -
  have "ahead s' = ahead s \<and> sems s' = sems s \<and> lockHolder s' = lockHolder s \<and> waitQueue s' = waitQueue s \<and>
      thread_set s' = thread_set s \<and> threadToBeDestroyed s' = threadToBeDestroyed s"
    using assms
  proof (cases rule: sleep_loop_cases)
    case (2 k t rest ops)
    then have "ahead s' u = ahead s u" for u by (simp add: ahead_def)
    moreover have "thread_set s' = thread_set s" using 2 assms(2) by (auto simp: thread_set_def)
    ultimately show ?thesis using 2(3) by auto
  qed simp
  then show "ahead s' = ahead s" "sems s' = sems s" "lockHolder s' = lockHolder s" "waitQueue s' = waitQueue s"
    "thread_set s' = thread_set s" "threadToBeDestroyed s' = threadToBeDestroyed s" by blast+
qed

lemma place_sleep_loop:
  assumes inv: "place_inv s" and idle: "idling s" and res: "sleep_loop s = Inr s'"
  shows "place_inv s'"
proof -
  note fr = sleep_loop_frame [OF res place_runningD(2) [OF inv]]
  from res place_runningD(2) [OF inv] show ?thesis
  proof (cases rule: sleep_loop_cases)
    case 1
    then show ?thesis using inv idle by (cases s) simp
  next
    case (2 k t rest ops)
    have t: "th_status s t = READY" "t \<in> thread_set s" "t \<notin> set (ids rest)"
      using place_readyD [OF inv] 2(1) by auto
    have st: "th_status s' u = (if u = t then RUNNING else th_status s u)" for u using 2(3) by simp
    have "u \<noteq> t" if "sems s m = Some S" "u \<in> waiting S" for u m S
      using place_queueD(3) [OF inv that] t(1) by auto
    then have "queues_ok s'" using place_invD(1) [OF inv] unfolding queues_ok_def fr st by metis
    moreover have "ready_ok s'" using place_invD(2) [OF inv] 2 t(3) unfolding ready_ok_def fr st by auto
    moreover have "running_ok s'" using place_invD(3) [OF inv] 2(3) t(2) idle unfolding running_ok_def fr st
      by auto
    moreover have "zombie_ok s'" using place_zombieD [OF inv] t(1) unfolding zombie_ok_def fr st by auto
    moreover have "code_ok s'" using place_invD(5) [OF inv] by (simp add: code_ok_def fr)
    ultimately show ?thesis by (rule place_invI)
  qed
qed

lemma ahead_set_ops [simp]:
  "ahead (set_ops ops s) t = (if t = currentThread s then strip ops else ahead s t)"
  by (simp add: ahead_def set_ops_def)

lemma set_ops_sel [simp]:
  "currentThread (set_ops ops s) = currentThread s" "idling (set_ops ops s) = idling s"
  "th_status (set_ops ops s) = th_status s" "readyList (set_ops ops s) = readyList s"
  "threadToBeDestroyed (set_ops ops s) = threadToBeDestroyed s" "sems (set_ops ops s) = sems s"
  "lockHolder (set_ops ops s) = lockHolder s" "waitQueue (set_ops ops s) = waitQueue s"
  "slists (set_ops ops s) = slists s"
  "threads (set_ops ops s) = (threads s)(currentThread s \<mapsto> ops)"
  "thread_set (set_ops ops s) = insert (currentThread s) (thread_set s)"
  by (simp_all add: set_ops_def)

lemma place_set_ops:
  assumes inv: "place_inv s" and run: "\<not> idling s" and wf: "wf_ops (strip ops)"
  shows "place_inv (set_ops ops s)"
proof (rule place_invI)
  show "queues_ok (set_ops ops s)"
    using place_invD(1) [OF inv] running_not_waiting [OF inv run] unfolding queues_ok_def by auto
  show "ready_ok (set_ops ops s)" using place_invD(2) [OF inv] by (simp add: ready_ok_def)
  show "running_ok (set_ops ops s)" using place_invD(3) [OF inv] run by (auto simp: running_ok_def)
  show "zombie_ok (set_ops ops s)"
    using place_zombieD [OF inv] place_runningD(3) [OF inv run] by (auto simp: zombie_ok_def)
  show "code_ok (set_ops ops s)" using place_runningD(6) [OF inv] wf by (simp add: code_ok_def)
qed

lemma place_other [simp]:
  "place_inv (s\<lparr>lockHolder := x1\<rparr>) = place_inv s" "place_inv (s\<lparr>waitQueue := x2\<rparr>) = place_inv s"
  "place_inv (s\<lparr>slists := x3\<rparr>) = place_inv s" "place_inv (s\<lparr>retval := x4\<rparr>) = place_inv s"
  by (simp_all add: place_inv_def queues_ok_def ready_ok_def running_ok_def zombie_ok_def code_ok_def)

lemma place_sems:
  assumes inv: "place_inv s" and S': "0 \<le> sem_value S'" "distinct (ids (sem_queue S'))"
    "\<forall>t \<in> waiting S'. th_status s t = BLOCKED \<and> (\<exists>r. ahead s t = PLoop m # r)"
  shows "place_inv (s\<lparr>sems := (sems s)(m \<mapsto> S')\<rparr>)"
  using place_invD [OF inv] S'
  by (intro place_invI) (simp_all add: queues_ok_def ready_ok_def running_ok_def zombie_ok_def code_ok_def)

lemma place_del_sem: "place_inv s \<Longrightarrow> place_inv (s\<lparr>sems := (sems s)(m := None)\<rparr>)"
  by (simp add: place_inv_def queues_ok_def ready_ok_def running_ok_def zombie_ok_def code_ok_def)

lemma ReadyToRun_sel [simp]:
  "currentThread (ReadyToRun t s) = currentThread s" "idling (ReadyToRun t s) = idling s"
  "threads (ReadyToRun t s) = threads s" "sems (ReadyToRun t s) = sems s"
  "lockHolder (ReadyToRun t s) = lockHolder s" "ahead (ReadyToRun t s) = ahead s"
  "th_status (ReadyToRun t s) = (th_status s)(t := READY)"
  "threadToBeDestroyed (ReadyToRun t s) = threadToBeDestroyed s"
  "readyList (ReadyToRun t s) = lapp (readyList s) t" "thread_set (ReadyToRun t s) = thread_set s"
  "waitQueue (ReadyToRun t s) = waitQueue s"
  by (simp_all add: ReadyToRun_def thread_setStatus_def ahead_def thread_set_def fun_eq_iff)

text \<open>A thread that is blocked (or new) and in no queue becomes ready.\<close>

lemma place_ready:
  assumes inv: "place_inv s" and t: "t \<in> thread_set s" "th_status s t \<noteq> READY" "th_status s t \<noteq> RUNNING"
    "threadToBeDestroyed s \<noteq> Some t" and q: "\<And>m S. sems s m = Some S \<Longrightarrow> t \<notin> waiting S"
  shows "place_inv (ReadyToRun t s)"
proof (rule place_invI)
  have "t \<notin> ready_set s" using place_readyD(2) [OF inv, of t] t(2) by auto
  then show "ready_ok (ReadyToRun t s)" using place_invD(2) [OF inv] t(1) by (auto simp: ready_ok_def)
  show "queues_ok (ReadyToRun t s)"
    using place_invD(1) [OF inv] q unfolding queues_ok_def ReadyToRun_sel fun_upd_apply by metis
  show "running_ok (ReadyToRun t s)"
    using place_invD(3) [OF inv] t(3) by (auto simp: running_ok_def)
  show "zombie_ok (ReadyToRun t s)" using place_zombieD [OF inv] t(4) by (auto simp: zombie_ok_def)
  show "code_ok (ReadyToRun t s)" using place_invD(5) [OF inv] by (simp add: code_ok_def)
qed

lemma go_idle_sel [simp]:
  "idling (go_idle st s)" "sems (go_idle st s) = sems s" "readyList (go_idle st s) = readyList s"
  "currentThread (go_idle st s) = currentThread s" "ahead (go_idle st s) = ahead s"
  "lockHolder (go_idle st s) = lockHolder s" "threadToBeDestroyed (go_idle st s) = threadToBeDestroyed s"
  "th_status (go_idle st s) = (th_status s)(currentThread s := st)" "threads (go_idle st s) = threads s"
  "thread_set (go_idle st s) = thread_set s" "waitQueue (go_idle st s) = waitQueue s"
  by (simp_all add: go_idle_def thread_setStatus_def)

lemma place_block:
  assumes inv: "place_inv s" and run: "\<not> idling s"
  shows "place_inv (go_idle BLOCKED s)"
proof (rule place_invI)
  show "queues_ok (go_idle BLOCKED s)" using place_invD(1) [OF inv] unfolding queues_ok_def by auto
  show "ready_ok (go_idle BLOCKED s)"
    using place_invD(2) [OF inv] running_not_ready [OF inv run] by (auto simp: ready_ok_def)
  show "running_ok (go_idle BLOCKED s)" using place_invD(3) [OF inv] by (auto simp: running_ok_def)
  show "zombie_ok (go_idle BLOCKED s)" using place_zombieD [OF inv] by (auto simp: zombie_ok_def)
  show "code_ok (go_idle BLOCKED s)" using place_invD(5) [OF inv] by (simp add: code_ok_def)
qed

lemma place_requeue:
  assumes inv: "place_inv s" and run: "\<not> idling s"
  shows "place_inv ((go_idle READY s)\<lparr>readyList := lapp (readyList s) (currentThread s)\<rparr>)" (is "place_inv ?u")
proof (rule place_invI)
  show "queues_ok ?u"
    using place_invD(1) [OF inv] running_not_waiting [OF inv run] unfolding queues_ok_def by auto
  show "ready_ok ?u"
    using place_invD(2) [OF inv] running_not_ready [OF inv run] place_runningD(2) [OF inv]
    by (auto simp: ready_ok_def)
  show "running_ok ?u" using place_invD(3) [OF inv] by (auto simp: running_ok_def)
  show "zombie_ok ?u"
    using place_zombieD [OF inv] place_runningD(3) [OF inv run] by (auto simp: zombie_ok_def)
  show "code_ok ?u" using place_invD(5) [OF inv] by (simp add: code_ok_def)
qed

lemma place_Yield:
  assumes inv: "place_inv s" and run: "\<not> idling s" and res: "Yield s = Inr s'"
  shows "place_inv s'"
proof (cases "readyList s = []")
  case True
  then show ?thesis using res inv by (simp add: Yield_go_idle)
next
  case False
  then show ?thesis using res place_sleep_loop [OF place_requeue [OF inv run]] by (simp add: Yield_go_idle)
qed

lemma go_idle_sems:
  "go_idle st (set_ops ops (s\<lparr>sems := x\<rparr>)) = (go_idle st (set_ops ops s))\<lparr>sems := x\<rparr>"
  by (cases s) (simp add: go_idle_def thread_setStatus_def set_ops_def)

text \<open>The two branches of \<open>P\<close> and of \<open>V\<close>, with the changes in an order that suits the invariants.\<close>

lemma Semaphore_P_block:
  assumes "sems s m = Some S" "sem_value S = 0"
  shows "Semaphore_P m rest s = sleep_loop ((go_idle BLOCKED (set_ops (PLoop m # rest) s))\<lparr>sems :=
           (sems s)(m \<mapsto> S\<lparr>sem_queue := lapp (sem_queue S) (currentThread s)\<rparr>)\<rparr>)"
  using assms by (simp add: Semaphore_P_def Sleep_go_idle go_idle_sems)

lemma Semaphore_P_pass:
  assumes "sems s m = Some S" "sem_value S \<noteq> 0"
  shows "Semaphore_P m rest s =
           Inr ((set_ops rest s)\<lparr>sems := (sems s)(m \<mapsto> S\<lparr>sem_value := sem_value S - 1\<rparr>)\<rparr>)"
  using assms by (cases s) (simp add: Semaphore_P_def set_ops_def)

lemma Semaphore_V_eq:
  assumes "sems s m = Some S"
  shows "Semaphore_V m s =
    Inr (case sem_queue S of
           [] \<Rightarrow> s\<lparr>sems := (sems s)(m \<mapsto> S\<lparr>sem_value := sem_value S + 1\<rparr>)\<rparr>
         | (_, t) # q \<Rightarrow>
             ReadyToRun t (s\<lparr>sems := (sems s)(m \<mapsto> \<lparr>sem_value = sem_value S + 1, sem_queue = q\<rparr>)\<rparr>))"
  using assms
  by (cases s; cases S; cases "sem_queue S")
    (auto simp: Semaphore_V_def ReadyToRun_def thread_setStatus_def Let_def)

lemma Semaphore_P_sem: "Semaphore_P m rest s = Inr s' \<Longrightarrow> \<exists>S. sems s m = Some S"
  by (auto simp: Semaphore_P_def nachos_dests)

lemma Semaphore_V_sem: "Semaphore_V m s = Inr s' \<Longrightarrow> \<exists>S. sems s m = Some S"
  by (auto simp: Semaphore_V_def nachos_dests)

lemma place_Semaphore_P:
  assumes inv: "place_inv s" and run: "\<not> idling s" and wf: "wf_ops (PLoop m # rest)"
    and res: "Semaphore_P m rest s = Inr s'"
  shows "place_inv s'"
proof -
  obtain S where S: "sems s m = Some S" using Semaphore_P_sem [OF res] by blast
  note q = place_queueD [OF inv S]
  have wf': "wf_ops (strip rest)" using wf wf_ops_tl strip_tl by metis
  show ?thesis
  proof (cases "sem_value S = 0")
    case True
    let ?u = "go_idle BLOCKED (set_ops (PLoop m # rest) s)"
    let ?S = "S\<lparr>sem_queue := lapp (sem_queue S) (currentThread s)\<rparr>"
    have u: "place_inv ?u" using place_block place_set_ops [OF inv run, of "PLoop m # rest"] wf run by simp
    have "\<forall>t \<in> waiting ?S. th_status ?u t = BLOCKED \<and> (\<exists>r. ahead ?u t = PLoop m # r)" using q(3,4) by auto
    moreover have "distinct (ids (sem_queue ?S))" using q(2) running_not_waiting [OF inv run S] by simp
    moreover have "0 \<le> sem_value ?S" using q(1) by simp
    ultimately have "place_inv (?u\<lparr>sems := (sems ?u)(m \<mapsto> ?S)\<rparr>)" by (intro place_sems [OF u])
    moreover have "sleep_loop (?u\<lparr>sems := (sems ?u)(m \<mapsto> ?S)\<rparr>) = Inr s'"
      using res Semaphore_P_block [OF S True] by simp
    ultimately show ?thesis by (rule_tac place_sleep_loop) simp_all
  next
    case False
    have "place_inv ((set_ops rest s)\<lparr>sems := (sems (set_ops rest s))(m \<mapsto> S\<lparr>sem_value := sem_value S - 1\<rparr>)\<rparr>)"
      using q False running_not_waiting [OF inv run S]
      by (intro place_sems [OF place_set_ops [OF inv run wf']]) auto
    then show ?thesis using res Semaphore_P_pass [OF S False] by simp
  qed
qed

lemma place_Semaphore_V:
  assumes inv: "place_inv s" and res: "Semaphore_V m s = Inr s'"
  shows "place_inv s'"
proof -
  obtain S where S: "sems s m = Some S" using Semaphore_V_sem [OF res] by blast
  note q = place_queueD [OF inv S]
  show ?thesis
  proof (cases "sem_queue S")
    case Nil
    then have "place_inv (s\<lparr>sems := (sems s)(m \<mapsto> S\<lparr>sem_value := sem_value S + 1\<rparr>)\<rparr>)"
      using q(1) by (intro place_sems [OF inv]) simp_all
    then show ?thesis using res Nil by (simp add: Semaphore_V_eq [OF S])
  next
    case (Cons e r)
    obtain k t where e: "e = (k, t)" by fastforce
    let ?u = "s\<lparr>sems := (sems s)(m \<mapsto> \<lparr>sem_value = sem_value S + 1, sem_queue = r\<rparr>)\<rparr>"
    have t: "t \<in> waiting S" "t \<notin> set (ids r)" using q(2) Cons e by auto
    have "place_inv ?u" using q Cons by (intro place_sems [OF inv]) auto
    moreover have "t \<notin> waiting S'" if "sems ?u m' = Some S'" for m' S'
      using that t waiting_once [OF inv S _ t(1), of m' S'] by (cases "m' = m") auto
    ultimately have "place_inv (ReadyToRun t ?u)"
      using q(3) [OF t(1)] waiting_thread [OF inv S t(1)] by (intro place_ready) simp_all
    then show ?thesis using res Cons e by (simp add: Semaphore_V_eq [OF S])
  qed
qed

lemma ready_all_sems: "(ready_all q s)\<lparr>sems := x\<rparr> = ready_all q (s\<lparr>sems := x\<rparr>)"
proof (induction q s rule: ready_all.induct)
  case (2 k t q s)
  have "(ReadyToRun t s)\<lparr>sems := x\<rparr> = ReadyToRun t (s\<lparr>sems := x\<rparr>)"
    by (cases s) (simp add: ReadyToRun_def thread_setStatus_def)
  then show ?case using 2 by simp
qed simp

lemma place_ready_all:
  "place_inv s \<Longrightarrow> distinct (ids q) \<Longrightarrow>
   \<forall>t \<in> set (ids q). t \<in> thread_set s \<and> th_status s t = BLOCKED \<and> threadToBeDestroyed s \<noteq> Some t \<and>
     (\<forall>m S. sems s m = Some S \<longrightarrow> t \<notin> waiting S) \<Longrightarrow>
   place_inv (ready_all q s)"
proof (induction q s rule: ready_all.induct)
  case (2 k t q s)
  have r: "place_inv (ReadyToRun t s)" using "2.prems" by (intro place_ready) auto
  have "\<forall>u \<in> set (ids q). u \<in> thread_set (ReadyToRun t s) \<and> th_status (ReadyToRun t s) u = BLOCKED \<and>
      threadToBeDestroyed (ReadyToRun t s) \<noteq> Some u \<and> (\<forall>m S. sems (ReadyToRun t s) m = Some S \<longrightarrow> u \<notin> waiting S)"
    using "2.prems"(2,3) by auto
  then show ?case using "2.IH" [OF r] "2.prems"(2) by simp
qed simp

lemma place_Semaphore_Destroy:
  assumes inv: "place_inv s" and res: "Semaphore_Destroy m s = Inr s'"
  shows "place_inv s'"
proof -
  obtain S where S: "sems s m = Some S" using res by (auto simp: Semaphore_Destroy_def nachos_dests)
  let ?u = "s\<lparr>sems := (sems s)(m \<mapsto> S\<lparr>sem_queue := []\<rparr>)\<rparr>"
  note q = place_queueD [OF inv S]
  have u: "place_inv ?u" using q(1) by (intro place_sems [OF inv]) simp_all
  have "t \<notin> waiting S'" if "t \<in> waiting S" "sems ?u m' = Some S'" for t m' S'
    using that waiting_once [OF inv S _ that(1), of m' S'] by (cases "m' = m") auto
  then have "place_inv (ready_all (sem_queue S) ?u)"
    using q(2,3) waiting_thread [OF inv S] by (intro place_ready_all [OF u]) auto
  then show ?thesis using res S by (simp add: Semaphore_Destroy_def ready_all_sems)
qed

lemma place_after_switch:
  assumes inv: "place_inv s" and run: "\<not> idling s" and wf: "wf_ops (strip rest)"
    and res: "after_switch rest s = Inr s'"
  shows "place_inv s'"
proof (cases "threadToBeDestroyed s")
  case None
  then show ?thesis using res place_set_ops [OF inv run wf] by (simp add: after_switch_def)
next
  case (Some t)
  let ?u = "set_ops rest s"
  have u: "place_inv ?u" using place_set_ops [OF inv run wf] .
  note z = place_zombieD [OF inv Some]
  have ne: "t \<noteq> currentThread s" using z(2) place_runningD(3) [OF inv run] by auto
  have s': "s' = ?u\<lparr>threads := (threads ?u)(t := None), threadToBeDestroyed := None\<rparr>"
    using res Some ne by (simp add: after_switch_def)
  have a: "ahead s' x = ahead ?u x" for x using z(3) ne by (auto simp: s' ahead_def set_ops_def)
  have sel: "sems s' = sems ?u" "th_status s' = th_status ?u" "readyList s' = readyList ?u"
    "thread_set s' = thread_set ?u - {t}" "currentThread s' = currentThread ?u" "idling s' = idling ?u"
    "threadToBeDestroyed s' = None" by (auto simp: s' thread_set_def)
  have "t \<notin> ready_set ?u" using place_readyD(2) [OF inv, of t] z(2) by auto
  then show ?thesis
    using place_invD [OF u] ne unfolding place_inv_def queues_ok_def ready_ok_def running_ok_def
      zombie_ok_def code_ok_def a sel by auto
qed

lemma place_Finish:
  assumes inv: "place_inv s" and run: "\<not> idling s" and res: "Finish (set_ops [] s) = Inr s'"
  shows "place_inv s'"
proof -
  let ?v = "go_idle BLOCKED (set_ops [] s)"
  let ?u = "?v\<lparr>threadToBeDestroyed := Some (currentThread s)\<rparr>"
  have v: "place_inv ?v" using place_block place_set_ops [OF inv run, of "[]"] run by simp
  have u: "place_inv ?u"
  proof (rule place_invI)
    show "queues_ok ?u" using place_invD(1) [OF v] by (simp add: queues_ok_def)
    show "ready_ok ?u" using place_invD(2) [OF v] by (simp add: ready_ok_def)
    show "running_ok ?u" using place_invD(3) [OF v] by (rule running_ok_cong [THEN iffD1, rotated -1]) simp_all
    show "zombie_ok ?u" by (simp add: zombie_ok_def)
    show "code_ok ?u" using place_invD(5) [OF v] by (simp add: code_ok_def)
  qed
  have "sleep_loop ?u = Inr s'" using res
    by (cases s) (simp add: Finish_def Sleep_go_idle go_idle_def set_ops_def thread_setStatus_def)
  with u show ?thesis by (rule_tac place_sleep_loop) simp_all
qed

lemma place_Fork:
  assumes inv: "place_inv s" and fr: "threads s n = None"
  shows "place_inv (Fork n s)"
proof -
  have n: "n \<notin> thread_set s" "ahead s n = []" using fr by (auto simp: thread_set_def ahead_def)
  have a: "ahead (Fork n s) t = ahead s t" for t using fr by (simp add: ahead_def Fork_def)
  have sel: "sems (Fork n s) = sems s" "th_status (Fork n s) = (th_status s)(n := READY)"
    "readyList (Fork n s) = lapp (readyList s) n" "thread_set (Fork n s) = insert n (thread_set s)"
    "currentThread (Fork n s) = currentThread s" "idling (Fork n s) = idling s"
    "threadToBeDestroyed (Fork n s) = threadToBeDestroyed s" by (simp_all add: Fork_def)
  have r: "n \<notin> ready_set s" "n \<noteq> currentThread s" using place_readyD(3) [OF inv] place_runningD(2) [OF inv] n by auto
  have q: "n \<notin> waiting S" if "sems s m = Some S" for m S using waiting_thread(1) [OF inv that] n by blast
  show ?thesis
  proof (rule place_invI)
    show "queues_ok (Fork n s)"
      using place_invD(1) [OF inv] q unfolding queues_ok_def a sel fun_upd_apply by metis
    show "ready_ok (Fork n s)" using place_invD(2) [OF inv] r(1) unfolding ready_ok_def sel by auto
    show "running_ok (Fork n s)" using place_invD(3) [OF inv] r(2) unfolding running_ok_def sel by auto
    show "zombie_ok (Fork n s)" using place_zombieD [OF inv] n unfolding zombie_ok_def a sel by auto
    show "code_ok (Fork n s)" using place_runningD(6) [OF inv] unfolding code_ok_def a by simp
  qed
qed

lemma may_follow_cong: "p_on_lock x = p_on_lock x' \<Longrightarrow> may_follow x y = may_follow x' y"
  by (induction x y rule: may_follow.induct) simp_all

lemma wf_ops_replace: "wf_ops (x # r) \<Longrightarrow> p_on_lock x' = p_on_lock x \<Longrightarrow> wf_ops (x' # r)"
  by (cases r) (auto dest: may_follow_cong)

lemma p_on_lock_PLoop [simp]: "p_on_lock (PLoop m) = p_on_lock (PEnter m)"
  by (cases m) auto

lemma wf_ops_push:
  "wf_ops (x # r) \<Longrightarrow> p_on_lock x = None \<Longrightarrow> p_on_lock x' = None \<Longrightarrow> y \<noteq> AfterSwitch \<Longrightarrow>
   (\<And>l. y \<noteq> SetHolder l) \<Longrightarrow> (\<And>m. y \<noteq> PLoop m) \<Longrightarrow> (\<And>l. y \<noteq> VOp (LockSem l)) \<Longrightarrow> p_on_lock y = None \<Longrightarrow>
   wf_ops (x' # y # r)"
  using wf_ops_replace [of x r y] by (induction x' y rule: may_follow.induct) auto

lemma running_code:
  assumes "place_inv s" "threads s (currentThread s) = Some (op # rest)"
  shows "op \<noteq> AfterSwitch \<Longrightarrow> ahead s (currentThread s) = op # rest"
    "op \<noteq> AfterSwitch \<Longrightarrow> wf_ops (op # rest)" "wf_ops (strip rest)"
    "op = AfterSwitch \<Longrightarrow> ahead s (currentThread s) = strip rest"
proof -
  have wf: "wf_ops (strip (op # rest))" using place_runningD(6) [OF assms(1), of "currentThread s"] assms(2)
    by (simp add: ahead_def)
  show "op \<noteq> AfterSwitch \<Longrightarrow> ahead s (currentThread s) = op # rest"
    "op = AfterSwitch \<Longrightarrow> ahead s (currentThread s) = strip rest" using assms(2) by (simp_all add: ahead_def)
  show *: "op \<noteq> AfterSwitch \<Longrightarrow> wf_ops (op # rest)" using wf by simp
  show "wf_ops (strip rest)"
    using wf * strip_tl [of op rest] wf_ops_tl [of op rest] by (cases "op = AfterSwitch") auto
qed

lemma place_Wait_code:
  "wf_ops (x # rest) \<Longrightarrow> p_on_lock x = None \<Longrightarrow>
   wf_ops (ReleaseOp l # PEnter (WaitSem n) # Acquire l @ DeleteWaiter n # rest)"
  using wf_ops_replace [of x rest "DeleteWaiter n"] by (simp add: Acquire_def)

text \<open>The simple assignments, in front of the new code of the running thread.\<close>

lemma set_ops_upd:
  "set_ops ops (s\<lparr>sems := x1\<rparr>) = (set_ops ops s)\<lparr>sems := x1\<rparr>"
  "set_ops ops (s\<lparr>lockHolder := x2\<rparr>) = (set_ops ops s)\<lparr>lockHolder := x2\<rparr>"
  "set_ops ops (s\<lparr>waitQueue := x3\<rparr>) = (set_ops ops s)\<lparr>waitQueue := x3\<rparr>"
  "set_ops ops (s\<lparr>slists := x4\<rparr>) = (set_ops ops s)\<lparr>slists := x4\<rparr>"
  "set_ops ops (s\<lparr>retval := x5\<rparr>) = (set_ops ops s)\<lparr>retval := x5\<rparr>"
  by (cases s; simp add: set_ops_def)+

lemma place_new_sem:
  "place_inv s \<Longrightarrow> 0 \<le> v \<Longrightarrow> place_inv (s\<lparr>sems := (sems s)(m \<mapsto> \<lparr>sem_value = v, sem_queue = []\<rparr>)\<rparr>)"
  by (rule place_sems) simp_all

lemma place_exec_op:
  assumes inv: "place_inv s" and run: "\<not> idling s"
    and code: "threads s (currentThread s) = Some (op # rest)" and fr: "fresh_name n s"
    and res: "exec_op n op rest s = Inr s'"
  shows "place_inv s'"
proof -
  note c = running_code [OF inv code]
  note so = place_set_ops [OF inv run]
  have rest: "place_inv (set_ops rest s)" using so c(3) .
  show ?thesis
  proof (cases op)
    case AfterSwitch
    then show ?thesis using res place_after_switch [OF inv run c(3)] by simp
  next
    case (PEnter m)
    then have "wf_ops (PLoop m # rest)" using c(2) wf_ops_replace [of "PEnter m" rest "PLoop m"] by simp
    then show ?thesis using res PEnter place_Semaphore_P [OF inv run] by simp
  next
    case (PLoop m)
    then show ?thesis using res c(2) place_Semaphore_P [OF inv run] by simp
  next
    case (VOp m)
    then show ?thesis using res place_Semaphore_V [OF rest] by simp
  next
    case (DestroyOp m)
    then show ?thesis using res place_Semaphore_Destroy [OF rest] by simp
  next
    case (DeleteSem m)
    then show ?thesis using res place_del_sem [OF rest, of "UserSem m"]
      by (auto simp: delete_sem_def nachos_dests set_ops_upd)
  next
    case (DeleteWaiter m)
    then show ?thesis using res place_del_sem [OF rest, of "WaitSem m"]
      by (auto simp: delete_sem_def nachos_dests set_ops_upd)
  next
    case (SetHolder l)
    then show ?thesis using res rest by (auto simp: nachos_dests set_ops_upd)
  next
    case (ReleaseOp l)
    then have "wf_ops (VOp (LockSem l) # rest)" using c(2) wf_ops_replace [of op rest "VOp (LockSem l)"] by simp
    then show ?thesis using res ReleaseOp so [of "VOp (LockSem l) # rest"]
      by (auto simp: Release_def nachos_dests set_ops_upd)
  next
    case (WaitOp d l)
    let ?ops = "ReleaseOp l # PEnter (WaitSem n) # Acquire l @ DeleteWaiter n # rest"
    have "wf_ops ?ops" using c(2) WaitOp by (intro place_Wait_code [of op]) auto
    then have "place_inv (set_ops ?ops s)" by (intro so) simp
    from place_new_sem [OF this, of 0 "WaitSem n"] show ?thesis
      using res WaitOp by (auto simp: Wait_def nachos_dests set_ops_upd)
  next
    case (SignalOp d l)
    then have "wf_ops (VOp w # rest)" for w using c(2) wf_ops_replace [of op rest "VOp w"] by simp
    then have v: "place_inv (set_ops (VOp w # rest) s)" for w by (intro so) simp
    obtain q where q: "waitQueue s d = Some q" "assert_held l s = Inr ()"
      using res SignalOp by (auto simp: Signal_def nachos_dests)
    then show ?thesis using res SignalOp rest v by (cases q) (auto simp: Signal_def set_ops_upd)
  next
    case (BroadcastOp d l)
    then have "wf_ops (SignalOp d l # BroadcastOp d l # rest)" using c(2) by simp
    then have "place_inv (set_ops (SignalOp d l # BroadcastOp d l # rest) s)" by (intro so) simp
    then show ?thesis using res BroadcastOp rest
      by (auto simp: Broadcast_def nachos_dests split: if_splits)
  next
    case (SLPush k i)
    then show ?thesis using res rest by (auto simp: sl_push_def nachos_dests set_ops_upd)
  next
    case (SLTake k)
    then have "wf_ops (WaitOp k k # SLTake k # rest)" using c(2) by simp
    then have w: "place_inv (set_ops (WaitOp k k # SLTake k # rest) s)" by (intro so) simp
    obtain xs where "slists s k = Some xs" using res SLTake by (auto simp: sl_take_def nachos_dests)
    then show ?thesis using res SLTake rest w by (cases xs) (auto simp: sl_take_def set_ops_upd)
  next
    case YieldOp
    then show ?thesis using res place_Yield [OF rest] run by simp
  next
    case ForkOp
    have "threads (set_ops rest s) n = None"
      using fr code by (cases "n = currentThread s") (auto simp: fresh_name_def)
    from place_Fork [OF rest this] show ?thesis using res ForkOp by simp
  next
    case FinishOp
    then show ?thesis using res place_Finish [OF inv run] by simp
  next
    case (NewSem v)
    then show ?thesis using res place_new_sem [OF rest, of "int v" "UserSem n"] by (auto simp: set_ops_upd)
  next
    case NewLock
    then show ?thesis using res place_new_sem [OF rest, of 1 "LockSem n"] by (auto simp: set_ops_upd)
  next
    case NewCond
    then show ?thesis using res rest by (auto simp: set_ops_upd)
  next
    case NewSynchList
    then show ?thesis
      using res rest place_new_sem [of "(set_ops rest s)\<lparr>slists := (slists s)(n \<mapsto> [])\<rparr>" 1 "LockSem n"]
      by (auto simp: set_ops_upd)
  qed
qed

lemma place_kstep:
  assumes "place_inv s" "kstep s s'"
  shows "place_inv s'"
  using assms(2)
proof (cases rule: kstep.cases)
  case (kcall a)
  then show ?thesis using place_set_ops [OF assms(1), of "api_ops a"] by (simp add: api_ops_wf)
next
  case (kexec op rest n)
  then show ?thesis using place_exec_op [OF assms(1)] by blast
next
  case (kpreempt ops)
  then show ?thesis using place_Yield [OF assms(1)] by blast
next
  case (kdevice ops m)
  then show ?thesis using place_Semaphore_V [OF assms(1)] by blast
next
  case kwake
  then show ?thesis using place_sleep_loop [OF assms(1)] by blast
qed

lemma place_init: "place_inv init_kstate"
  by (simp add: place_inv_def queues_ok_def ready_ok_def running_ok_def zombie_ok_def code_ok_def
      init_kstate_def thread_set_def ahead_def)

lemma reachable_place: "reachable s \<Longrightarrow> place_inv s"
  by (induction rule: reachable.induct) (auto intro: place_init place_kstep)

end
