(* ===== verification/Synch_Safety.thy ===== *)
theory Synch_Safety
  imports Kernel_Threads
begin

text \<open>
  Safety of the synchronisation objects, over every interleaving of the step relation of
  \<open>Kernel_Threads\<close>: no wakeup of a semaphore is lost (\<open>wake_inv\<close>), a lock is held by one thread at a
  time (\<open>lock_inv\<close>), and the properties of the kernel that follow from these and from \<open>place_inv\<close>.
\<close>

section \<open>No wakeup is lost\<close>

text \<open>Threads that run or are ready and have the loop test of \<open>P\<close> on semaphore \<open>m\<close> in front of them.\<close>

definition active :: "kstate \<Rightarrow> tid set" where
  "active s = ready_set s \<union> (if idling s then {} else {currentThread s})"

definition woken :: "kstate \<Rightarrow> semid \<Rightarrow> tid set" where
  "woken s m = {t \<in> active s. \<exists>r. ahead s t = PLoop m # r}"

definition wake_inv :: "kstate \<Rightarrow> bool" where
  "wake_inv s \<longleftrightarrow> (\<forall>m S. sems s m = Some S \<longrightarrow> sem_queue S \<noteq> [] \<longrightarrow> sem_value S \<le> int (card (woken s m)))"

lemma finite_active [simp]: "finite (active s)"
  by (simp add: active_def)

lemma finite_woken [simp]: "finite (woken s m)"
  by (rule finite_subset [of _ "active s"]) (auto simp: woken_def)

lemma wake_mono:
  assumes "wake_inv s"
    and "\<And>m S'. sems s' m = Some S' \<Longrightarrow> sem_queue S' \<noteq> [] \<Longrightarrow> sem_value S' \<le> 0 \<or>
      (\<exists>S. sems s m = Some S \<and> sem_queue S \<noteq> [] \<and> sem_value S' \<le> sem_value S \<and> woken s m \<subseteq> woken s' m)"
  shows "wake_inv s'"
  unfolding wake_inv_def
proof (intro allI impI)
  fix m S' assume S': "sems s' m = Some S'" "sem_queue S' \<noteq> []"
  from assms(2) [OF this] show "sem_value S' \<le> int (card (woken s' m))"
  proof (elim disjE exE conjE)
    fix S assume S: "sems s m = Some S" "sem_queue S \<noteq> []" "sem_value S' \<le> sem_value S" "woken s m \<subseteq> woken s' m"
    have "card (woken s m) \<le> card (woken s' m)" using S(4) by (intro card_mono) simp_all
    moreover have "sem_value S \<le> int (card (woken s m))" using assms(1) S by (simp add: wake_inv_def)
    ultimately show ?thesis using S(3) by linarith
  qed simp
qed

lemma wake_same_sems: "wake_inv s \<Longrightarrow> sems s' = sems s \<Longrightarrow> (\<And>m. woken s m \<subseteq> woken s' m) \<Longrightarrow> wake_inv s'"
  by (rule wake_mono) auto

lemma active_upd [simp]:
  "active (s\<lparr>sems := x1\<rparr>) = active s" "active (s\<lparr>lockHolder := x2\<rparr>) = active s"
  "active (s\<lparr>waitQueue := x3\<rparr>) = active s" "active (s\<lparr>slists := x4\<rparr>) = active s"
  "active (s\<lparr>retval := x5\<rparr>) = active s" "active (set_ops ops s) = active s"
  "active (s\<lparr>threads := x6\<rparr>) = active s" "active (s\<lparr>threadToBeDestroyed := x7\<rparr>) = active s"
  by (simp_all add: active_def)

lemma active_ready [simp]: "active (ReadyToRun t s) = insert t (active s)"
  by (simp add: active_def)

lemma active_go_idle: "active (go_idle st s) = ready_set s"
  by (simp add: active_def)

lemma sleep_loop_active:
  assumes "place_inv s" "idling s" "sleep_loop s = Inr s'"
  shows "active s' = active s"
  using assms(3) place_runningD(2) [OF assms(1)]
  by (cases rule: sleep_loop_cases) (auto simp: active_def assms(2))

lemma wake_sleep_loop:
  assumes "place_inv s" "idling s" "sleep_loop s = Inr s'"
  shows "wake_inv s' = wake_inv s"
  using sleep_loop_active [OF assms] sleep_loop_frame [OF assms(3) place_runningD(2) [OF assms(1)]]
  by (simp add: wake_inv_def woken_def)

text \<open>New code for the running thread, none of it in the middle of \<open>P\<close>.\<close>

definition no_loop :: "kop list \<Rightarrow> bool" where
  "no_loop ops \<longleftrightarrow> (case ops of PLoop _ # _ \<Rightarrow> False | _ \<Rightarrow> True)"

lemma no_loop_iff: "no_loop ops \<longleftrightarrow> (\<forall>m r. ops \<noteq> PLoop m # r)"
  by (cases ops; cases "hd ops") (auto simp: no_loop_def)

lemma woken_local:
  assumes "no_loop (ahead s (currentThread s))" "\<And>t. t \<noteq> currentThread s \<Longrightarrow> ahead s' t = ahead s t"
    "no_loop (ahead s' (currentThread s))" "active s' - {currentThread s} = active s - {currentThread s}"
  shows "woken s' m = woken s m"
proof (rule set_eqI)
  fix t
  show "t \<in> woken s' m \<longleftrightarrow> t \<in> woken s m"
    using assms by (cases "t = currentThread s") (auto simp: woken_def no_loop_iff)
qed

lemma no_loop_rest: "wf_ops (x # r) \<Longrightarrow> no_loop r"
  by (cases r) (auto simp: no_loop_iff)

lemma wake_Semaphore_P:
  assumes inv: "place_inv s" and wk: "wake_inv s" and run: "\<not> idling s"
    and code: "ahead s (currentThread s) = op # rest" "op = PEnter m \<or> op = PLoop m"
    and res: "Semaphore_P m rest s = Inr s'"
  shows "wake_inv s'"
proof -
  let ?c = "currentThread s"
  obtain S where S: "sems s m = Some S" using Semaphore_P_sem [OF res] by blast
  have wf: "wf_ops (op # rest)" using place_runningD(6) [OF inv, of ?c] code by simp
  have wf': "wf_ops (PLoop m # rest)" using wf_ops_replace [OF wf, of "PLoop m"] code(2) by auto
  have nl: "no_loop rest" "strip rest = rest" using wf no_loop_rest strip_tl by blast+
  have act: "?c \<in> active s" using run by (simp add: active_def)
  show ?thesis
  proof (cases "sem_value S = 0")
    case True
    let ?u = "go_idle BLOCKED (set_ops (PLoop m # rest) s)"
    let ?S = "S\<lparr>sem_queue := lapp (sem_queue S) ?c\<rparr>" and ?v = "?u\<lparr>sems := (sems s)(m \<mapsto>
        S\<lparr>sem_queue := lapp (sem_queue S) ?c\<rparr>)\<rparr>"
    have pl: "place_inv ?v"
      using place_queueD [OF inv S] running_not_waiting [OF inv run S]
      by (intro place_sems [OF place_block [OF place_set_ops [OF inv run]], of _ _ m, simplified]) (use wf' run in auto)
    have "woken s k \<subseteq> woken ?v k" if "k \<noteq> m" for k
      using that code running_not_ready [OF inv run] by (auto simp: woken_def active_def)
    then have "wake_inv ?v" using True by (intro wake_mono [OF wk]) (auto split: if_splits)
    moreover have "sleep_loop ?v = Inr s'" using res Semaphore_P_block [OF S True] by simp
    ultimately show ?thesis using wake_sleep_loop [OF pl] by simp
  next
    case False
    then have s': "s' = (set_ops rest s)\<lparr>sems := (sems s)(m \<mapsto> S\<lparr>sem_value := sem_value S - 1\<rparr>)\<rparr>"
      using res Semaphore_P_pass [OF S False] by simp
    have w: "woken s' k = woken s k - (if op = PLoop k then {?c} else {})" for k
      using nl code by (auto simp: s' woken_def no_loop_iff)
    show ?thesis unfolding wake_inv_def
    proof (intro allI impI)
      fix k S' assume S': "sems s' k = Some S'" "sem_queue S' \<noteq> []"
      show "sem_value S' \<le> int (card (woken s' k))"
      proof (cases "k = m")
        case True
        then have "sem_value S \<le> int (card (woken s m))" "sem_value S' = sem_value S - 1"
          using wk S S' by (auto simp: s' wake_inv_def)
        moreover have "?c \<in> woken s m" if "op = PLoop m" using that act code by (auto simp: woken_def)
        ultimately show ?thesis using True w [of m] by (auto simp: card_Diff_singleton)
      next
        case False
        then have "woken s' k = woken s k" using w [of k] code(2) by auto
        then show ?thesis using wk S' False by (simp add: s' wake_inv_def)
      qed
    qed
  qed
qed

lemma wake_Semaphore_V:
  assumes inv: "place_inv s" and wk: "wake_inv s" and res: "Semaphore_V m s = Inr s'"
  shows "wake_inv s'"
proof -
  obtain S where S: "sems s m = Some S" using Semaphore_V_sem [OF res] by blast
  note q = place_queueD [OF inv S]
  show ?thesis
  proof (cases "sem_queue S")
    case Nil
    then have s': "s' = s\<lparr>sems := (sems s)(m \<mapsto> S\<lparr>sem_value := sem_value S + 1\<rparr>)\<rparr>"
      using res by (simp add: Semaphore_V_eq [OF S])
    show ?thesis using Nil by (intro wake_mono [OF wk]) (auto simp: s' woken_def split: if_splits)
  next
    case (Cons e r)
    obtain k t where e: "e = (k, t)" by fastforce
    have s': "s' = ReadyToRun t (s\<lparr>sems := (sems s)(m \<mapsto> \<lparr>sem_value = sem_value S + 1, sem_queue = r\<rparr>)\<rparr>)"
      using res Cons e by (simp add: Semaphore_V_eq [OF S])
    have t: "t \<in> waiting S" using Cons e by simp
    have nact: "t \<notin> active s"
      using waiting_not_ready [OF inv S t] q(3) [OF t] place_runningD(3) [OF inv] by (auto simp: active_def)
    have w: "woken s' j = (if j = m then insert t (woken s j) else woken s j)" for j
      using q(4) [OF t] by (auto simp: s' woken_def)
    show ?thesis unfolding wake_inv_def
    proof (intro allI impI)
      fix j S' assume S': "sems s' j = Some S'" "sem_queue S' \<noteq> []"
      show "sem_value S' \<le> int (card (woken s' j))"
      proof (cases "j = m")
        case True
        have "t \<notin> woken s m" using nact by (simp add: woken_def)
        moreover have "sem_value S \<le> int (card (woken s m))" using wk S Cons by (simp add: wake_inv_def)
        ultimately show ?thesis using True S' w [of m] by (auto simp: s')
      next
        case False
        then show ?thesis using wk S' w [of j] by (simp add: s' wake_inv_def)
      qed
    qed
  qed
qed

lemma wake_other_ops:
  assumes inv: "place_inv s" and wk: "wake_inv s" and old: "no_loop (ahead s (currentThread s))"
    and sm: "\<And>m S. sems s' m = Some S \<Longrightarrow> sem_queue S \<noteq> [] \<Longrightarrow> sems s m = Some S"
    and ah: "\<And>t. t \<noteq> currentThread s \<Longrightarrow> ahead s' t = ahead s t"
    and new: "no_loop (ahead s' (currentThread s))" and act: "active s' = active s"
  shows "wake_inv s'"
proof (rule wake_mono [OF wk])
  fix m S' assume "sems s' m = Some S'" "sem_queue S' \<noteq> []"
  then show "sem_value S' \<le> 0 \<or> (\<exists>S. sems s m = Some S \<and> sem_queue S \<noteq> [] \<and>
      sem_value S' \<le> sem_value S \<and> woken s m \<subseteq> woken s' m)"
    using sm woken_local [OF old ah new, of m] act by auto
qed

lemma wake_set_ops:
  assumes "place_inv s" "wake_inv s" "no_loop (ahead s (currentThread s))" "no_loop (strip ops)"
  shows "wake_inv (set_ops ops s)"
  using assms by (intro wake_other_ops [OF assms(1-3)]) auto

lemma wake_Yield:
  assumes inv: "place_inv s" and wk: "wake_inv s" and run: "\<not> idling s" and res: "Yield s = Inr s'"
  shows "wake_inv s'"
proof (cases "readyList s = []")
  case True
  then show ?thesis using res wk by (simp add: Yield_go_idle)
next
  case False
  let ?u = "(go_idle READY s)\<lparr>readyList := lapp (readyList s) (currentThread s)\<rparr>"
  have "active ?u = active s" using run by (auto simp: active_def)
  then have "wake_inv ?u" using wk by (intro wake_same_sems [OF wk]) (auto simp: woken_def)
  then show ?thesis using False res wake_sleep_loop [OF place_requeue [OF inv run]] by (simp add: Yield_go_idle)
qed

lemma wake_Finish:
  assumes inv: "place_inv s" and wk: "wake_inv s" and run: "\<not> idling s"
    and old: "no_loop (ahead s (currentThread s))" and res: "Finish (set_ops [] s) = Inr s'"
  shows "wake_inv s'"
proof -
  let ?u = "(go_idle BLOCKED (set_ops [] s))\<lparr>threadToBeDestroyed := Some (currentThread s)\<rparr>"
  have "woken s m \<subseteq> woken ?u m" for m
    using old run by (auto simp: woken_def active_def no_loop_iff)
  then have wu: "wake_inv ?u" by (intro wake_same_sems [OF wk]) simp_all
  have "sleep_loop ?u = Inr s'" using res
    by (cases s) (simp add: Finish_def Sleep_go_idle go_idle_def set_ops_def thread_setStatus_def)
  moreover have "currentThread ?u \<in> thread_set ?u" by simp
  ultimately have "active s' = active ?u" "ahead s' = ahead ?u" "sems s' = sems ?u"
    using sleep_loop_frame [of ?u s'] by (auto elim!: sleep_loop_cases simp: active_def)
  then show ?thesis using wu by (simp add: wake_inv_def woken_def)
qed

lemma ready_all_frame:
  "ahead (ready_all q s) = ahead s" "sems (ready_all q s) = sems s"
  "active s \<subseteq> active (ready_all q s)" "lockHolder (ready_all q s) = lockHolder s"
  "waitQueue (ready_all q s) = waitQueue s" "thread_set (ready_all q s) = thread_set s"
  by (induction q s rule: ready_all.induct)
    (auto simp: ReadyToRun_def [of _ "_ :: kstate"] thread_setStatus_def active_def)

lemma wake_Semaphore_Destroy:
  assumes wk: "wake_inv s" and res: "Semaphore_Destroy m s = Inr s'"
  shows "wake_inv s'"
proof -
  obtain S where S: "sems s m = Some S" using res by (auto simp: Semaphore_Destroy_def nachos_dests)
  have s': "s' = (ready_all (sem_queue S) s)\<lparr>sems := (sems s)(m \<mapsto> S\<lparr>sem_queue := []\<rparr>)\<rparr>"
    using res S by (simp add: Semaphore_Destroy_def)
  have "woken s j \<subseteq> woken s' j" for j
    using ready_all_frame(3) [of s "sem_queue S"] by (auto simp: s' woken_def ready_all_frame(1))
  then show ?thesis by (intro wake_mono [OF wk]) (auto simp: s' split: if_splits)
qed

lemma wake_after_switch:
  assumes inv: "place_inv s" and wk: "wake_inv s" and run: "\<not> idling s"
    and code: "threads s (currentThread s) = Some (AfterSwitch # rest)" and res: "after_switch rest s = Inr s'"
  shows "wake_inv s'"
proof -
  have here: "ahead s (currentThread s) = strip rest" using code by (simp add: ahead_def)
  have "ahead s' t = ahead s t" for t
  proof (cases "threadToBeDestroyed s")
    case (Some z)
    then show ?thesis using res here place_zombieD(3) [OF inv Some]
      by (auto simp: after_switch_def nachos_dests ahead_def set_ops_def)
  qed (use res here in \<open>auto simp: after_switch_def\<close>)
  moreover have "active s' = active s" "sems s' = sems s"
    using res by (auto simp: after_switch_def nachos_dests split: option.splits)
  ultimately show ?thesis using wk by (simp add: wake_inv_def woken_def)
qed

text \<open>The operations that neither block nor wake anyone change the code of the running thread only.\<close>

fun local_op :: "kop \<Rightarrow> bool" where
  "local_op AfterSwitch = False"
| "local_op (PEnter _) = False"
| "local_op (PLoop _) = False"
| "local_op (VOp _) = False"
| "local_op (DestroyOp _) = False"
| "local_op YieldOp = False"
| "local_op ForkOp = False"
| "local_op FinishOp = False"
| "local_op _ = True"

lemma Signal_Inr:
  "Signal c l rest s = Inr s' \<longleftrightarrow> assert_held l s = Inr () \<and>
     (waitQueue s c = Some [] \<and> s' = set_ops rest s \<or>
      (\<exists>k w q. waitQueue s c = Some ((k, w) # q) \<and>
         s' = set_ops (VOp w # rest) (s\<lparr>waitQueue := (waitQueue s)(c \<mapsto> q)\<rparr>)))"
proof (cases "waitQueue s c")
  case (Some q)
  then show ?thesis by (cases q) (auto simp: Signal_def bindE_eq_Inr)
qed (auto simp: Signal_def bindE_eq_Inr)

lemma sl_take_Inr:
  "sl_take n rest s = Inr s' \<longleftrightarrow>
     slists s n = Some [] \<and> s' = set_ops (WaitOp n n # SLTake n # rest) s \<or>
     (\<exists>k x xs. slists s n = Some ((k, x) # xs) \<and>
        s' = set_ops rest (s\<lparr>slists := (slists s)(n \<mapsto> xs), retval := (retval s)(currentThread s \<mapsto> x)\<rparr>))"
proof (cases "slists s n")
  case (Some q)
  then show ?thesis by (cases q) (auto simp: sl_take_def bindE_eq_Inr)
qed (auto simp: sl_take_def)

lemma local_op_effect:
  assumes "local_op op" "exec_op n op rest s = Inr s'" "wf_ops (op # rest)"
  shows "\<exists>ops. threads s' = (threads s)(currentThread s \<mapsto> ops) \<and> (ops = rest \<or> (\<exists>k r. ops = k # r \<and> k \<noteq> AfterSwitch \<and> (\<forall>m. k \<noteq> PLoop m)))"
    and "readyList s' = readyList s" "idling s' = idling s" "currentThread s' = currentThread s"
    and "sems s' m = Some S \<Longrightarrow> sem_queue S \<noteq> [] \<Longrightarrow> sems s m = Some S"
proof -
  have "(\<exists>ops. threads s' = (threads s)(currentThread s \<mapsto> ops) \<and> (ops = rest \<or> (\<exists>k r. ops = k # r \<and> k \<noteq> AfterSwitch \<and> (\<forall>m. k \<noteq> PLoop m)))) \<and>
     readyList s' = readyList s \<and> idling s' = idling s \<and> currentThread s' = currentThread s \<and>
     (sems s' m = Some S \<longrightarrow> sem_queue S \<noteq> [] \<longrightarrow> sems s m = Some S)"
    using assms(1,2)
    by (cases op)
      (auto simp: Release_def Wait_def delete_sem_def Signal_Inr Broadcast_def sl_push_def sl_take_Inr nachos_dests
        set_ops_def split: if_splits)
  then show "\<exists>ops. threads s' = (threads s)(currentThread s \<mapsto> ops) \<and> (ops = rest \<or> (\<exists>k r. ops = k # r \<and> k \<noteq> AfterSwitch \<and> (\<forall>m. k \<noteq> PLoop m)))"
    "readyList s' = readyList s" "idling s' = idling s" "currentThread s' = currentThread s"
    "sems s' m = Some S \<Longrightarrow> sem_queue S \<noteq> [] \<Longrightarrow> sems s m = Some S" by blast+
qed

lemma wake_exec_op:
  assumes inv: "place_inv s" and wk: "wake_inv s" and run: "\<not> idling s"
    and code: "threads s (currentThread s) = Some (op # rest)" and fr: "fresh_name n s"
    and res: "exec_op n op rest s = Inr s'"
  shows "wake_inv s'"
proof -
  note c = running_code [OF inv code]
  have rest: "place_inv (set_ops rest s)" using place_set_ops [OF inv run c(3)] .
  have nl: "no_loop rest" "strip rest = rest" if "op \<noteq> AfterSwitch"
    using c(2) [OF that] no_loop_rest strip_tl by blast+
  have old: "no_loop (ahead s (currentThread s))" if "op \<noteq> AfterSwitch" "\<And>m. op \<noteq> PLoop m"
    using c(1) that by (simp add: no_loop_iff)
  have wrest: "wake_inv (set_ops rest s)" if "op \<noteq> AfterSwitch" "\<And>m. op \<noteq> PLoop m"
    using wake_set_ops [OF inv wk old] nl that by simp
  have P: "wake_inv s'" if "op = PEnter m \<or> op = PLoop m" for m
  proof -
    have "op \<noteq> AfterSwitch" "Semaphore_P m rest s = Inr s'" using that res by auto
    then show ?thesis using wake_Semaphore_P [OF inv wk run c(1) that] by blast
  qed
  have L: "wake_inv s'" if l: "local_op op"
  proof -
    have op: "op \<noteq> AfterSwitch" "\<And>m. op \<noteq> PLoop m" using l by auto
    note e = local_op_effect [OF l res c(2) [OF op(1)]]
    from e(1) obtain ops where ops: "threads s' = (threads s)(currentThread s \<mapsto> ops)"
      "ops = rest \<or> (\<exists>k r. ops = k # r \<and> k \<noteq> AfterSwitch \<and> (\<forall>m. k \<noteq> PLoop m))" by blast
    have "no_loop (strip ops)"
    proof (cases "ops = rest")
      case False
      then show ?thesis using ops(2) by (auto simp: no_loop_iff)
    qed (use nl op in simp)
    then show ?thesis using old [OF op] e(2-5) ops(1)
      by (intro wake_other_ops [OF inv wk]) (auto simp: ahead_def active_def)
  qed
  show ?thesis
  proof (cases op)
    case AfterSwitch
    then show ?thesis using res code wake_after_switch [OF inv wk run] by simp
  next
    case (VOp m)
    then show ?thesis using res wake_Semaphore_V [OF rest wrest] by simp
  next
    case (DestroyOp m)
    then show ?thesis using res wake_Semaphore_Destroy [OF wrest] by simp
  next
    case YieldOp
    then show ?thesis using res wake_Yield [OF rest wrest] run by simp
  next
    case ForkOp
    let ?u = "set_ops rest s"
    have "threads ?u n = None" using fr code by (cases "n = currentThread s") (auto simp: fresh_name_def)
    then have "ahead (Fork n ?u) t = ahead ?u t" for t by (auto simp: Fork_def ahead_def split: if_splits)
    then have "woken ?u m \<subseteq> woken (Fork n ?u) m" for m by (auto simp: woken_def Fork_def)
    then have "wake_inv (Fork n ?u)" using wake_same_sems [of ?u "Fork n ?u"] wrest ForkOp by (simp add: Fork_def)
    then show ?thesis using res ForkOp by simp
  next
    case FinishOp
    then show ?thesis using res wake_Finish [OF inv wk run old] by simp
  qed (use P L in auto)
qed

lemma wake_kstep:
  assumes inv: "place_inv s" and wk: "wake_inv s" and st: "kstep s s'"
  shows "wake_inv s'"
  using st
proof (cases rule: kstep.cases)
  case (kcall a)
  have "no_loop (api_ops a)"
    by (cases a) (auto simp: no_loop_iff Acquire_def SynchList_Append_def SynchList_Remove_def SynchList_Apply_def)
  moreover have "ahead s (currentThread s) = []" using kcall by (simp add: ahead_def)
  ultimately show ?thesis
    using kcall wake_set_ops [OF inv wk, of "api_ops a"] by (simp add: api_ops_wf no_loop_iff)
next
  case (kexec op rest n)
  then show ?thesis using wake_exec_op [OF inv wk] by blast
next
  case (kpreempt ops)
  then show ?thesis using wake_Yield [OF inv wk] by blast
next
  case (kdevice ops m)
  then show ?thesis using wake_Semaphore_V [OF inv wk] by blast
next
  case kwake
  then show ?thesis using wake_sleep_loop [OF inv] wk by simp
qed

lemma reachable_wake: "reachable s \<Longrightarrow> wake_inv s"
proof (induction rule: reachable.induct)
  case reach_init
  then show ?case by (simp add: wake_inv_def init_kstate_def)
next
  case (reach_step s s')
  then show ?case using wake_kstep reachable_place by blast
qed

section \<open>Mutual exclusion of locks\<close>

text \<open>
  Between the \<open>P\<close> of \<open>Acquire\<close> and the \<open>V\<close> of \<open>Release\<close> a thread owns the mutex: it is about to become
  the holder, it is the holder, or it is about to give the mutex back.
\<close>

fun tok :: "nat \<Rightarrow> kop list \<Rightarrow> bool" where
  "tok l (SetHolder l' # _) = (l' = l)"
| "tok l (VOp (LockSem l') # _) = (l' = l)"
| "tok l _ = False"

definition token :: "kstate \<Rightarrow> nat \<Rightarrow> tid set" where
  "token s l = {t. tok l (ahead s t)}"

definition held :: "tid option \<Rightarrow> int" where
  "held h = (case h of None \<Rightarrow> 0 | Some _ \<Rightarrow> 1)"

definition lock_ok :: "kstate \<Rightarrow> nat \<Rightarrow> bool" where
  "lock_ok s l \<longleftrightarrow> (case lockHolder s l of
       None \<Rightarrow> token s l = {} \<and> sems s (LockSem l) = None
     | Some h \<Rightarrow> (case sems s (LockSem l) of
           None \<Rightarrow> False
         | Some S \<Rightarrow> sem_value S + int (card (token s l)) + held h = 1))"

definition waiters_ok :: "kstate \<Rightarrow> bool" where
  "waiters_ok s \<longleftrightarrow> (\<forall>c q. waitQueue s c = Some q \<longrightarrow> set (ids q) \<subseteq> range WaitSem)"

definition lock_inv :: "kstate \<Rightarrow> bool" where
  "lock_inv s \<longleftrightarrow> waiters_ok s \<and> (\<forall>l. lock_ok s l)"

lemma waiters_ok_upd [simp]:
  "waiters_ok (set_ops ops s) = waiters_ok s" "waiters_ok (s\<lparr>sems := x1\<rparr>) = waiters_ok s"
  "waiters_ok (s\<lparr>lockHolder := x2\<rparr>) = waiters_ok s" "waiters_ok (s\<lparr>slists := x3\<rparr>) = waiters_ok s"
  "waiters_ok (s\<lparr>retval := x4\<rparr>) = waiters_ok s" "waiters_ok (go_idle st s) = waiters_ok s"
  "waiters_ok (s\<lparr>threadToBeDestroyed := x5\<rparr>) = waiters_ok s" "waiters_ok (s\<lparr>readyList := x6\<rparr>) = waiters_ok s"
  by (simp_all add: waiters_ok_def)

lemma held_simps [simp]: "held None = 0" "held (Some t) = 1"
  by (simp_all add: held_def)

lemma finite_token: "place_inv s \<Longrightarrow> finite (token s l)"
proof (rule finite_subset)
  show "token s l \<subseteq> thread_set s" by (auto simp: token_def thread_set_def ahead_def split: option.splits)
qed (rule place_runningD(1))

lemma token_same: "ahead s' = ahead s \<Longrightarrow> token s' l = token s l"
  by (simp add: token_def)

lemma token_local:
  assumes "\<And>t. t \<noteq> u \<Longrightarrow> ahead s' t = ahead s t"
  shows "token s' l = token s l - {u} \<union> (if tok l (ahead s' u) then {u} else {})"
proof (rule set_eqI)
  fix x
  show "x \<in> token s' l \<longleftrightarrow> x \<in> token s l - {u} \<union> (if tok l (ahead s' u) then {u} else {})"
    using assms by (cases "x = u") (auto simp: token_def)
qed

lemma token_local_none:
  assumes "\<And>t. t \<noteq> u \<Longrightarrow> ahead s' t = ahead s t" "\<not> tok l (ahead s u)" "\<not> tok l (ahead s' u)"
  shows "token s' l = token s l"
  using token_local [OF assms(1)] assms(2,3) by (auto simp: token_def)

lemma lock_ok_cong:
  "lockHolder s' l = lockHolder s l \<Longrightarrow> token s' l = token s l \<Longrightarrow>
   map_option sem_value (sems s' (LockSem l)) = map_option sem_value (sems s (LockSem l)) \<Longrightarrow>
   lock_ok s' l = lock_ok s l"
  by (auto simp: lock_ok_def split: option.splits)

text \<open>Code behind an operation that is not \<open>P\<close> on a mutex owns no mutex.\<close>

lemma tok_rest: "wf_ops (x # r) \<Longrightarrow> tok l r \<Longrightarrow> p_on_lock x = Some l"
  by (induction l r rule: tok.induct) auto

lemma tok_after_P: "wf_ops (x # r) \<Longrightarrow> p_on_lock x = Some l \<Longrightarrow> tok l' r \<longleftrightarrow> l' = l"
proof (cases r)
  case (Cons y r')
  assume "wf_ops (x # r)" "p_on_lock x = Some l"
  then show ?thesis using Cons by (cases y) (auto elim: may_follow.elims)
qed simp

text \<open>The mutex of a lock, seen through the invariant.\<close>

lemma lock_okD:
  assumes "lock_inv s" "sems s (LockSem l) = Some S"
  obtains h where "lockHolder s l = Some h" "sem_value S + int (card (token s l)) + held h = 1"
  using assms by (auto simp: lock_inv_def lock_ok_def split: option.splits dest: spec [of _ l])

lemma lock_okH:
  assumes "lock_inv s" "lockHolder s l = Some h"
  obtains S where "sems s (LockSem l) = Some S" "sem_value S + int (card (token s l)) + held h = 1"
proof -
  have "lock_ok s l" using assms(1) by (simp add: lock_inv_def)
  then show ?thesis using assms(2) that by (auto simp: lock_ok_def split: option.splits)
qed

lemma lock_okI:
  "lockHolder s l = Some h \<Longrightarrow> sems s (LockSem l) = Some S \<Longrightarrow>
   sem_value S + int (card (token s l)) + held h = 1 \<Longrightarrow> lock_ok s l"
  by (simp add: lock_ok_def)

lemma lock_inv_cong:
  assumes "lock_inv s" "waitQueue s' = waitQueue s" "\<And>l. lockHolder s' l = lockHolder s l"
    "\<And>l. token s' l = token s l"
    "\<And>l. map_option sem_value (sems s' (LockSem l)) = map_option sem_value (sems s (LockSem l))"
  shows "lock_inv s'"
  using assms lock_ok_cong [of s' _ s] by (simp add: lock_inv_def waiters_ok_def)

lemma lock_sleep_loop:
  assumes "lock_inv s" "currentThread s \<in> thread_set s" "sleep_loop s = Inr s'"
  shows "lock_inv s'"
  using sleep_loop_frame [OF assms(3,2)] by (intro lock_inv_cong [OF assms(1)]) (simp_all add: token_def)

lemma lock_Semaphore_P:
  assumes inv: "place_inv s" and lk: "lock_inv s" and run: "\<not> idling s"
    and code: "ahead s (currentThread s) = op # rest" "op = PEnter m \<or> op = PLoop m"
    and res: "Semaphore_P m rest s = Inr s'"
  shows "lock_inv s'"
proof -
  let ?c = "currentThread s"
  obtain S where S: "sems s m = Some S" using Semaphore_P_sem [OF res] by blast
  have wf: "wf_ops (op # rest)" using place_runningD(6) [OF inv, of ?c] code by simp
  have st: "strip rest = rest" using wf strip_tl by blast
  have old: "\<not> tok l (ahead s ?c)" for l using code by auto
  show ?thesis
  proof (cases "sem_value S = 0")
    case True
    let ?v = "(go_idle BLOCKED (set_ops (PLoop m # rest) s))\<lparr>sems :=
        (sems s)(m \<mapsto> S\<lparr>sem_queue := lapp (sem_queue S) ?c\<rparr>)\<rparr>"
    have "token ?v l = token s l" for l
      by (rule token_local_none [of ?c]) (use old in auto)
    then have v: "lock_inv ?v" using S by (intro lock_inv_cong [OF lk]) auto
    have "currentThread ?v \<in> thread_set ?v" by simp
    moreover have "sleep_loop ?v = Inr s'" using res Semaphore_P_block [OF S True] by simp
    ultimately show ?thesis by (rule lock_sleep_loop [OF v])
  next
    case False
    then have s': "s' = (set_ops rest s)\<lparr>sems := (sems s)(m \<mapsto> S\<lparr>sem_value := sem_value S - 1\<rparr>)\<rparr>"
      using res Semaphore_P_pass [OF S False] by simp
    have t: "token s' l = token s l - {?c} \<union> (if tok l rest then {?c} else {})" for l
      using token_local [of ?c s' s l] st by (simp add: s')
    have "lock_ok s' l" for l
    proof (cases "m = LockSem l")
      case True
      then have p: "p_on_lock op = Some l" using code(2) by auto
      obtain h where h: "lockHolder s l = Some h" "sem_value S + int (card (token s l)) + held h = 1"
        using lock_okD [OF lk] S True by blast
      have "?c \<notin> token s l" using old by (simp add: token_def)
      moreover have "token s' l = insert ?c (token s l)"
        using t [of l] tok_after_P [OF wf p, of l] calculation by auto
      ultimately show ?thesis using h True finite_token [OF inv, of l]
        by (intro lock_okI [of _ _ h "S\<lparr>sem_value := sem_value S - 1\<rparr>"]) (auto simp: s')
    next
      case False
      then have "p_on_lock op \<noteq> Some l" using code(2) by (cases m) auto
      then have "\<not> tok l rest" using tok_rest [OF wf] by blast
      then have "token s' l = token s l" using t [of l] old by (auto simp: token_def)
      then have "lock_ok s' l = lock_ok s l" using False by (intro lock_ok_cong) (auto simp: s')
      then show ?thesis using lk by (simp add: lock_inv_def)
    qed
    then show ?thesis using lk by (simp add: lock_inv_def waiters_ok_def s')
  qed
qed

lemma Semaphore_V_fields:
  assumes "sems s m = Some S" "Semaphore_V m s = Inr s'"
  shows "ahead s' = ahead s" "lockHolder s' = lockHolder s" "waitQueue s' = waitQueue s"
    "map_option sem_value (sems s' m') =
       (if m' = m then Some (sem_value S + 1) else map_option sem_value (sems s m'))"
    "thread_set s' = thread_set s"
  using assms(2) unfolding Semaphore_V_eq [OF assms(1)] by (auto split: list.splits)

lemma lock_V_running:
  assumes inv: "place_inv s" and lk: "lock_inv s"
    and code: "ahead s (currentThread s) = VOp m # rest"
    and res: "Semaphore_V m (set_ops rest s) = Inr s'"
  shows "lock_inv s'"
proof -
  let ?c = "currentThread s" and ?u = "set_ops rest s"
  obtain S where S: "sems s m = Some S" using Semaphore_V_sem [OF res] by auto
  then have "sems ?u m = Some S" by simp
  note f = Semaphore_V_fields [OF this res]
  have wf: "wf_ops (VOp m # rest)" using place_runningD(6) [OF inv, of ?c] code by simp
  have "\<not> tok l rest" "strip rest = rest" for l using tok_rest [OF wf] strip_tl [OF wf] by auto
  then have t: "token s' l = token s l - {?c}" for l
    using token_local [of ?c s' s l] f(1) by simp
  have "lock_ok s' l" for l
  proof (cases "m = LockSem l")
    case True
    obtain h where h: "lockHolder s l = Some h" "sem_value S + int (card (token s l)) + held h = 1"
      using lock_okD [OF lk] S True by blast
    have "?c \<in> token s l" using code True by (simp add: token_def)
    then have "Suc (card (token s' l)) = card (token s l)"
      unfolding t using finite_token [OF inv, of l] by (intro card_Suc_Diff1)
    moreover obtain S' where "sems s' (LockSem l) = Some S'" "sem_value S' = sem_value S + 1"
      using f(4) [of m] True by auto
    ultimately show ?thesis using h f(2) by (intro lock_okI [of s' l h S']) auto
  next
    case False
    have "?c \<notin> token s l" using code False by (cases m) (auto simp: token_def)
    then have "token s' l = token s l" using t [of l] by auto
    then have "lock_ok s' l = lock_ok s l" using False f(2,4) by (intro lock_ok_cong) auto
    then show ?thesis using lk by (simp add: lock_inv_def)
  qed
  then show ?thesis using lk f(3) by (simp add: lock_inv_def waiters_ok_def)
qed

lemma lock_local:
  assumes lk: "lock_inv s" and "\<And>t. t \<noteq> currentThread s \<Longrightarrow> ahead s' t = ahead s t"
    "\<And>l. \<not> tok l (ahead s (currentThread s))" "\<And>l. \<not> tok l (ahead s' (currentThread s))"
    "lockHolder s' = lockHolder s" "\<And>l. sems s' (LockSem l) = sems s (LockSem l)" "waiters_ok s'"
  shows "lock_inv s'"
proof -
  have "token s' l = token s l" for l by (rule token_local_none [of "currentThread s"]) (use assms in auto)
  then have "lock_ok s' l = lock_ok s l" for l using assms(5,6) by (intro lock_ok_cong) simp_all
  then show ?thesis using lk assms(7) by (simp add: lock_inv_def)
qed

lemma lock_new_lock:
  assumes lk: "lock_inv s" and new: "lockHolder s n = None"
    and u: "\<And>l. token u l = token s l" "lockHolder u = (lockHolder s)(n \<mapsto> None)"
      "sems u = (sems s)(LockSem n \<mapsto> \<lparr>sem_value = 1, sem_queue = []\<rparr>)" "waiters_ok u"
  shows "lock_inv u"
proof -
  have "token s n = {}" using lk new by (auto simp: lock_inv_def lock_ok_def dest: spec [of _ n])
  then have "lock_ok u n" using u by (intro lock_okI [of _ _ None "\<lparr>sem_value = 1, sem_queue = []\<rparr>"]) simp_all
  moreover have "lock_ok u l = lock_ok s l" if "l \<noteq> n" for l using that u by (intro lock_ok_cong) simp_all
  ultimately show ?thesis using lk u(4) unfolding lock_inv_def by metis
qed

text \<open>The two assignments to \<open>lockHolder\<close> pass the ownership of the mutex on.\<close>

lemma lock_SetHolder:
  assumes inv: "place_inv s" and lk: "lock_inv s"
    and code: "ahead s (currentThread s) = SetHolder l # rest" and ex: "lockHolder s l = Some h"
  shows "h = None" and "lock_inv (set_ops rest (s\<lparr>lockHolder := (lockHolder s)(l \<mapsto> Some (currentThread s))\<rparr>))"
proof -
  let ?c = "currentThread s"
  let ?u = "set_ops rest (s\<lparr>lockHolder := (lockHolder s)(l \<mapsto> Some ?c)\<rparr>)"
  obtain S where S: "sems s (LockSem l) = Some S" "sem_value S + int (card (token s l)) + held h = 1"
    using lock_okH [OF lk ex] .
  have c: "?c \<in> token s l" using code by (simp add: token_def)
  have card: "Suc (card (token s l - {?c})) = card (token s l)"
    using c finite_token [OF inv, of l] by (intro card_Suc_Diff1)
  have "0 \<le> sem_value S" using place_queueD(1) [OF inv S(1)] .
  then show h: "h = None" using S(2) card by (cases h) auto
  have wf: "wf_ops (SetHolder l # rest)" using place_runningD(6) [OF inv, of ?c] code by simp
  have "\<not> tok k rest" "strip rest = rest" for k using tok_rest [OF wf] strip_tl [OF wf] by auto
  then have t: "token ?u k = token s k - {?c}" for k using token_local [of ?c ?u s k] by simp
  have "lock_ok ?u k" for k
  proof (cases "k = l")
    case True
    then show ?thesis using S card h t [of l] by (intro lock_okI [of _ _ "Some ?c" S]) auto
  next
    case False
    then have "?c \<notin> token s k" using code by (simp add: token_def)
    then have "lock_ok ?u k = lock_ok s k" using t [of k] False by (intro lock_ok_cong) auto
    then show ?thesis using lk by (simp add: lock_inv_def)
  qed
  then show "lock_inv ?u" using lk by (simp add: lock_inv_def waiters_ok_def)
qed

lemma lock_Release:
  assumes inv: "place_inv s" and lk: "lock_inv s"
    and code: "ahead s (currentThread s) = ReleaseOp l # rest" and ex: "lockHolder s l = Some (Some t)"
  shows "lock_inv (set_ops (VOp (LockSem l) # rest) (s\<lparr>lockHolder := (lockHolder s)(l \<mapsto> None)\<rparr>))"
proof -
  let ?c = "currentThread s"
  let ?u = "set_ops (VOp (LockSem l) # rest) (s\<lparr>lockHolder := (lockHolder s)(l \<mapsto> None)\<rparr>)"
  obtain S where S: "sems s (LockSem l) = Some S" "sem_value S + int (card (token s l)) + 1 = 1"
    using lock_okH [OF lk ex] by auto
  have c: "?c \<notin> token s k" for k using code by (simp add: token_def)
  have tk: "token ?u k = (if k = l then insert ?c (token s k) else token s k)" for k
    using token_local [of ?c ?u s k] c [of k] by auto
  have "lock_ok ?u k" for k
  proof (cases "k = l")
    case True
    then show ?thesis using S c [of l] tk [of l] finite_token [OF inv, of l]
      by (intro lock_okI [of _ _ None S]) auto
  next
    case False
    then have "lock_ok ?u k = lock_ok s k" using tk [of k] by (intro lock_ok_cong) auto
    then show ?thesis using lk by (simp add: lock_inv_def)
  qed
  then show ?thesis using lk by (simp add: lock_inv_def waiters_ok_def)
qed

lemma lock_Yield:
  assumes inv: "place_inv s" and lk: "lock_inv s" and run: "\<not> idling s" and res: "Yield s = Inr s'"
  shows "lock_inv s'"
proof (cases "readyList s = []")
  case True
  then show ?thesis using res lk by (simp add: Yield_go_idle)
next
  case False
  let ?u = "(go_idle READY s)\<lparr>readyList := lapp (readyList s) (currentThread s)\<rparr>"
  have u: "lock_inv ?u" by (rule lock_inv_cong [OF lk]) (simp_all add: token_def)
  have "currentThread ?u \<in> thread_set ?u" using place_runningD(2) [OF inv] by simp
  moreover have "sleep_loop ?u = Inr s'" using res False by (simp add: Yield_go_idle)
  ultimately show ?thesis by (rule lock_sleep_loop [OF u])
qed

lemma lock_Finish:
  assumes lk: "lock_inv s" and old: "\<And>l. \<not> tok l (ahead s (currentThread s))"
    and res: "Finish (set_ops [] s) = Inr s'"
  shows "lock_inv s'"
proof -
  let ?u = "(go_idle BLOCKED (set_ops [] s))\<lparr>threadToBeDestroyed := Some (currentThread s)\<rparr>"
  have u: "lock_inv ?u" using lk old by (intro lock_local [OF lk]) (auto simp: lock_inv_def waiters_ok_def)
  have "sleep_loop ?u = Inr s'" using res
    by (cases s) (simp add: Finish_def Sleep_go_idle go_idle_def set_ops_def thread_setStatus_def)
  moreover have "currentThread ?u \<in> thread_set ?u" by simp
  ultimately show ?thesis using lock_sleep_loop [OF u] by blast
qed

lemma lock_exec_op:
  assumes inv: "place_inv s" and lk: "lock_inv s" and run: "\<not> idling s"
    and code: "threads s (currentThread s) = Some (op # rest)" and fr: "fresh_name n s"
    and res: "exec_op n op rest s = Inr s'"
  shows "lock_inv s'"
proof -
  let ?c = "currentThread s"
  note c = running_code [OF inv code]
  have wq: "waiters_ok s" using lk by (simp add: lock_inv_def)
  have rest: "strip rest = rest" "\<not> tok l rest" if "op \<noteq> AfterSwitch" "p_on_lock op = None" for l
    using strip_tl [OF c(2)] tok_rest [OF c(2)] that by auto
  have old: "\<not> tok l (ahead s ?c)" if "op \<noteq> AfterSwitch" "\<not> tok l [op]" for l
    using c(1) that by (cases op) (auto elim: tok.elims)
  have keep: "lock_inv (set_ops rest s)" if "op \<noteq> AfterSwitch" "p_on_lock op = None" "\<And>l. \<not> tok l [op]"
    using lk wq rest [OF that(1,2)] old [OF that(1)] that(3)
    by (intro lock_local [OF lk]) auto
  show ?thesis
  proof (cases op)
    case AfterSwitch
    have here: "ahead s ?c = strip rest" using c(4) AfterSwitch .
    have "ahead s' t = ahead s t" for t
    proof (cases "threadToBeDestroyed s")
      case (Some z)
      then show ?thesis using res AfterSwitch here place_zombieD(3) [OF inv Some]
        by (auto simp: after_switch_def nachos_dests ahead_def set_ops_def)
    qed (use res here AfterSwitch in \<open>auto simp: after_switch_def\<close>)
    then have "ahead s' = ahead s" by blast
    moreover have "sems s' = sems s" "lockHolder s' = lockHolder s" "waitQueue s' = waitQueue s"
      using res AfterSwitch by (auto simp: after_switch_def nachos_dests split: option.splits)
    ultimately show ?thesis by (intro lock_inv_cong [OF lk]) (simp_all add: token_def)
  next
    case (PEnter m)
    then show ?thesis using res c(1) lock_Semaphore_P [OF inv lk run, of op rest m] by auto
  next
    case (PLoop m)
    then show ?thesis using res c(1) lock_Semaphore_P [OF inv lk run, of op rest m] by auto
  next
    case (VOp m)
    then show ?thesis using res c(1) lock_V_running [OF inv lk, of m rest] by auto
  next
    case (DestroyOp m)
    let ?u = "set_ops rest s"
    obtain S where S: "sems s (UserSem m) = Some S" using res DestroyOp by (auto simp: Semaphore_Destroy_def nachos_dests)
    then have s': "s' = (ready_all (sem_queue S) ?u)\<lparr>sems := (sems s)(UserSem m \<mapsto> S\<lparr>sem_queue := []\<rparr>)\<rparr>"
      using res DestroyOp by (simp add: Semaphore_Destroy_def)
    have "lock_inv ?u" using keep DestroyOp by simp
    then show ?thesis by (rule lock_inv_cong) (simp_all add: s' ready_all_frame(1,2,4,5) token_def)
  next
    case (SetHolder l)
    then obtain h where h: "lockHolder s l = Some h"
      "s' = set_ops rest (s\<lparr>lockHolder := (lockHolder s)(l \<mapsto> Some ?c)\<rparr>)"
      using res by (auto simp: nachos_dests)
    then show ?thesis using lock_SetHolder(2) [OF inv lk _ h(1), of rest] c(1) SetHolder by simp
  next
    case (ReleaseOp l)
    then obtain h: "lockHolder s l = Some (Some ?c)"
      "s' = set_ops (VOp (LockSem l) # rest) (s\<lparr>lockHolder := (lockHolder s)(l \<mapsto> None)\<rparr>)"
      using res by (auto simp: Release_def assert_held_def isHeldByCurrentThread_def nachos_dests)
    then show ?thesis using lock_Release [OF inv lk _ h(1), of rest] c(1) ReleaseOp by simp
  next
    case (WaitOp d l)
    obtain q where q: "waitQueue s d = Some q" "waitQueue s' = (waitQueue s)(d \<mapsto> lapp q (WaitSem n))"
      using res WaitOp by (auto simp: Wait_def nachos_dests)
    then have "set (ids q) \<subseteq> range WaitSem" using wq by (simp add: waiters_ok_def)
    then have "waiters_ok s'" using wq by (simp add: waiters_ok_def q(2))
    then show ?thesis using WaitOp res wq old rest
      by (intro lock_local [OF lk]) (auto simp: Wait_def nachos_dests)
  next
    case (SignalOp d l)
    from res SignalOp have "Signal d l rest s = Inr s'" by simp
    then consider "s' = set_ops rest s"
      | k w q where "waitQueue s d = Some ((k, w) # q)"
          "s' = set_ops (VOp w # rest) (s\<lparr>waitQueue := (waitQueue s)(d \<mapsto> q)\<rparr>)"
      unfolding Signal_Inr by blast
    then show ?thesis
    proof cases
      case 1
      then show ?thesis using keep SignalOp by simp
    next
      case (2 k w q)
      have sub: "set (ids ((k, w) # q)) \<subseteq> range WaitSem" using wq 2(1) unfolding waiters_ok_def by blast
      then obtain i where w: "w = WaitSem i" by auto
      have "waiters_ok s'" using wq sub by (simp add: 2(2) waiters_ok_def)
      then show ?thesis using old SignalOp w by (intro lock_local [OF lk]) (simp_all add: 2(2))
    qed
  next
    case (BroadcastOp d l)
    then show ?thesis using res wq old rest
      by (intro lock_local [OF lk]) (auto simp: Broadcast_def nachos_dests split: if_splits)
  next
    case (SLTake k)
    then show ?thesis using res wq old rest
      by (intro lock_local [OF lk]) (auto simp: sl_take_Inr)
  next
    case YieldOp
    have "lock_inv (set_ops rest s)" using keep YieldOp by simp
    then show ?thesis using res YieldOp lock_Yield [OF place_set_ops [OF inv run c(3)]] run by simp
  next
    case ForkOp
    let ?u = "set_ops rest s"
    have "threads ?u n = None" using fr code by (cases "n = currentThread s") (auto simp: fresh_name_def)
    then have "ahead (Fork n ?u) t = ahead ?u t" for t by (auto simp: Fork_def ahead_def split: if_splits)
    then have tk: "token (Fork n ?u) l = token ?u l" for l by (simp add: token_def)
    have "lock_inv ?u" using keep ForkOp by simp
    then have "lock_inv (Fork n ?u)" by (rule lock_inv_cong) (simp_all add: tk, simp_all add: Fork_def)
    then show ?thesis using res ForkOp by simp
  next
    case FinishOp
    then show ?thesis using res lock_Finish [OF lk old] by simp
  next
    case NewLock
    then have "lock_inv (set_ops rest s)" using keep by simp
    then show ?thesis
      by (rule lock_new_lock [of _ n]) (use NewLock res fr wq in \<open>auto simp: fresh_name_def set_ops_upd token_def\<close>)
  next
    case NewSynchList
    have u: "lock_inv (set_ops rest s)" using keep NewSynchList by simp
    have "waitQueue s' = (waitQueue s)(n \<mapsto> [])" using NewSynchList res by auto
    then have w: "waiters_ok s'" using wq by (simp add: waiters_ok_def)
    show ?thesis
      by (rule lock_new_lock [OF u, of n])
        (use NewSynchList res fr w in \<open>auto simp: fresh_name_def set_ops_upd token_def\<close>)
  next
    case NewCond
    have "waitQueue s' = (waitQueue s)(n \<mapsto> [])" using NewCond res by auto
    then have "waiters_ok s'" using wq by (simp add: waiters_ok_def)
    then show ?thesis using NewCond res old rest by (intro lock_local [OF lk]) (auto simp: set_ops_upd)
  next
    case (DeleteSem m)
    then show ?thesis using res wq old rest
      by (intro lock_local [OF lk]) (auto simp: delete_sem_def sl_push_def nachos_dests)
  next
    case (DeleteWaiter m)
    then show ?thesis using res wq old rest
      by (intro lock_local [OF lk]) (auto simp: delete_sem_def sl_push_def nachos_dests)
  next
    case (SLPush k i)
    then show ?thesis using res wq old rest
      by (intro lock_local [OF lk]) (auto simp: delete_sem_def sl_push_def nachos_dests)
  next
    case (NewSem v)
    then show ?thesis using res wq old rest
      by (intro lock_local [OF lk]) (auto simp: delete_sem_def sl_push_def nachos_dests)
  qed
qed

lemma lock_kstep:
  assumes inv: "place_inv s" and lk: "lock_inv s" and st: "kstep s s'"
  shows "lock_inv s'"
  using st
proof (cases rule: kstep.cases)
  case (kcall a)
  have "\<not> tok l (api_ops a)" for l
    by (cases a) (simp_all add: Acquire_def SynchList_Append_def SynchList_Remove_def SynchList_Apply_def)
  moreover have "ahead s (currentThread s) = []" using kcall by (simp add: ahead_def)
  ultimately show ?thesis using kcall lk
    by (intro lock_local [OF lk]) (auto simp: api_ops_wf lock_inv_def waiters_ok_def)
next
  case (kexec op rest n)
  then show ?thesis using lock_exec_op [OF inv lk] by blast
next
  case (kpreempt ops)
  then show ?thesis using lock_Yield [OF inv lk] by blast
next
  case (kdevice ops m)
  obtain S where "sems s (UserSem m) = Some S" using Semaphore_V_sem [OF kdevice(3)] by blast
  from Semaphore_V_fields [OF this kdevice(3)] show ?thesis
    by (intro lock_inv_cong [OF lk]) (simp_all add: token_def)
next
  case kwake
  then show ?thesis using lock_sleep_loop [OF lk place_runningD(2) [OF inv]] by blast
qed

lemma reachable_lock: "reachable s \<Longrightarrow> lock_inv s"
proof (induction rule: reachable.induct)
  case reach_init
  then show ?case
    by (simp add: lock_inv_def waiters_ok_def lock_ok_def init_kstate_def token_def ahead_def)
next
  case (reach_step s s')
  then show ?case using lock_kstep reachable_place by blast
qed

section \<open>Executable runs\<close>

text \<open>Sequences of steps as a function, to compute reachable states.\<close>

datatype kevent = ECall api | EExec nat | EPreempt | EDevice nat | EWake

fun kfire :: "kevent \<Rightarrow> kstate \<Rightarrow> kstate option" where
  "kfire (ECall a) s =
     (if \<not> idling s \<and> threads s (currentThread s) = Some [] then Some (set_ops (api_ops a) s) else None)"
| "kfire (EExec n) s =
     (if \<not> idling s \<and> fresh_name n s then
        case threads s (currentThread s) of
          Some (op # rest) \<Rightarrow> (case exec_op n op rest s of Inl _ \<Rightarrow> None | Inr s' \<Rightarrow> Some s')
        | _ \<Rightarrow> None
      else None)"
| "kfire EPreempt s =
     (case threads s (currentThread s) of
        Some ops \<Rightarrow> if \<not> idling s \<and> \<not> masked ops
                    then (case Yield s of Inl _ \<Rightarrow> None | Inr s' \<Rightarrow> Some s') else None
      | None \<Rightarrow> None)"
| "kfire (EDevice m) s =
     (case threads s (currentThread s) of
        Some ops \<Rightarrow> if idling s \<or> \<not> masked ops
                    then (case Semaphore_V (UserSem m) s of Inl _ \<Rightarrow> None | Inr s' \<Rightarrow> Some s') else None
      | None \<Rightarrow> None)"
| "kfire EWake s =
     (if idling s \<and> readyList s \<noteq> [] then (case sleep_loop s of Inl _ \<Rightarrow> None | Inr s' \<Rightarrow> Some s') else None)"

fun krun :: "kevent list \<Rightarrow> kstate \<Rightarrow> kstate option" where
  "krun [] s = Some s"
| "krun (e # es) s = Option.bind (kfire e s) (krun es)"

lemma kfire_kstep: "kfire e s = Some s' \<Longrightarrow> kstep s s'"
  by (cases e) (auto split: if_splits option.splits list.splits sum.splits intro: kstep.intros)

lemma krun_reachable: "reachable s \<Longrightarrow> krun es s = Some s' \<Longrightarrow> reachable s'"
proof (induction es arbitrary: s)
  case (Cons e es)
  then obtain u where "kfire e s = Some u" "krun es u = Some s'" by (auto simp: bind_eq_Some_conv)
  then show ?case using Cons kfire_kstep reach_step by blast
qed simp

lemmas krun_defs = init_kstate_def set_ops_def fresh_name_def Semaphore_P_def Semaphore_V_def Sleep_def
  sleep_loop_def FindNextToRun_def Run_def ReadyToRun_def thread_setStatus_def Fork_def lapp_def
  Yield_def Acquire_def Release_def assert_held_def isHeldByCurrentThread_def after_switch_def
  Semaphore_Destroy_def delete_sem_def Finish_def

lemma krun_Some: "krun es init_kstate = Some s \<Longrightarrow> reachable s"
  using krun_reachable [OF reach_init] .

section \<open>Properties\<close>


text \<open>A run in which thread 1 blocks in \<open>P\<close> while thread 0 continues.\<close>

definition blocked_run :: "kevent list" where
  "blocked_run = [ECall (CallNewSem 0), EExec 7, ECall CallFork, EExec 1, EPreempt,
     ECall (CallP 7), EExec 9, EExec 9]"

lemma blocked_run_result:
  "\<exists>s. krun blocked_run init_kstate = Some s \<and> currentThread s = 0 \<and> \<not> idling s \<and> threads s 0 = Some [] \<and>
     sems s (UserSem 7) = Some \<lparr>sem_value = 0, sem_queue = [(0, 1)]\<rparr> \<and> readyList s = []"
  by (simp add: blocked_run_def krun_defs)




text \<open>
  (C3) Mutual exclusion: in every reachable state at most one thread is past the \<open>P\<close> of \<open>Acquire\<close> and
  has not done the \<open>V\<close> of \<open>Release\<close>; while a thread is recorded as the holder the mutex has value 0, so
  that every other \<open>Acquire\<close> waits.
\<close>

theorem lock_mutual_exclusion:
  assumes "reachable s" "lockHolder s l = Some h"
  shows "card (token s l \<union> set_option h) \<le> 1 \<and>
         (\<exists>S. sems s (LockSem l) = Some S \<and> (sem_value S = 0 \<or> token s l \<union> set_option h = {}) \<and>
            (h \<noteq> None \<longrightarrow> sem_value S = 0 \<and> token s l = {}))"
proof -
  have inv: "place_inv s" using assms(1) by (rule reachable_place)
  obtain S where S: "sems s (LockSem l) = Some S" "sem_value S + int (card (token s l)) + held h = 1"
    using lock_okH [OF reachable_lock [OF assms(1)] assms(2)] .
  have v: "0 \<le> sem_value S" using place_queueD(1) [OF inv S(1)] .
  note fin = finite_token [OF inv, of l]
  show ?thesis
  proof (cases h)
    case None
    then have "card (token s l) \<le> 1" "sem_value S = 0 \<or> card (token s l) = 0" using S(2) v by auto
    then have "card (token s l) \<le> 1" "sem_value S = 0 \<or> token s l = {}" using fin by auto
    then show ?thesis using None S(1) by auto
  next
    case (Some t)
    then have "card (token s l) = 0" "sem_value S = 0" using S(2) v by auto
    then have "token s l = {}" "sem_value S = 0" using fin by auto
    then show ?thesis using Some S(1) by auto
  qed
qed

theorem lock_mutual_exclusion_witness:
  "\<exists>s S. krun [ECall CallNewLock, EExec 4, ECall (CallAcquire 4), EExec 9, EExec 9] init_kstate = Some s \<and>
     lockHolder s 4 = Some (Some 0) \<and> sems s (LockSem 4) = Some S \<and> sem_value S = 0"
proof -
  obtain s where s: "krun [ECall CallNewLock, EExec 4, ECall (CallAcquire 4), EExec 9, EExec 9] init_kstate = Some s"
    "lockHolder s 4 = Some (Some 0)" by (simp add: krun_defs)
  from lock_mutual_exclusion [OF krun_Some [OF s(1)] s(2)] s show ?thesis by auto
qed

lemma exec_op_holder:
  assumes inv: "place_inv s" and lk: "lock_inv s" and code: "threads s (currentThread s) = Some (op # rest)"
    and fr: "fresh_name n s" and res: "exec_op n op rest s = Inr s'" and h: "lockHolder s l = Some (Some t)"
  shows "lockHolder s' l = Some (Some t) \<or> currentThread s = t \<and> lockHolder s' l = Some None"
proof -
  have P: "lockHolder s' = lockHolder s" if r: "Semaphore_P m rest s = Inr s'" for m
  proof -
    obtain S where S: "sems s m = Some S" using Semaphore_P_sem [OF r] by blast
    show ?thesis
    proof (cases "sem_value S = 0")
      case True
      show ?thesis using sleep_loop_frame(3) [OF r [unfolded Semaphore_P_block [OF S True]]] by simp
    qed (use r Semaphore_P_pass [OF S] in auto)
  qed
  show ?thesis
  proof (cases op)
    case AfterSwitch
    then show ?thesis using res h by (auto simp: after_switch_def nachos_dests split: option.splits)
  next
    case (VOp m)
    then show ?thesis using res h Semaphore_V_sem [of m "set_ops rest s" s'] Semaphore_V_fields(2) by fastforce
  next
    case (DestroyOp m)
    then show ?thesis using res h by (auto simp: Semaphore_Destroy_def nachos_dests ready_all_frame(4))
  next
    case (SetHolder k)
    then have "k \<noteq> l" using lock_SetHolder(1) [OF inv lk, of k rest "Some t"] running_code(1) [OF inv code] h by auto
    then show ?thesis using res h SetHolder by (auto simp: nachos_dests)
  next
    case (ReleaseOp k)
    then show ?thesis using res h
      by (auto simp: Release_def assert_held_def isHeldByCurrentThread_def nachos_dests split: if_splits)
  next
    case YieldOp
    then show ?thesis using res h place_runningD(2) [OF inv]
        sleep_loop_frame(3) [of "(go_idle READY (set_ops rest s))\<lparr>readyList := lapp (readyList s) (currentThread s)\<rparr>" s']
      by (auto simp: Yield_go_idle split: if_splits)
  next
    case FinishOp
    let ?u = "(go_idle BLOCKED (set_ops [] s))\<lparr>threadToBeDestroyed := Some (currentThread s)\<rparr>"
    have "sleep_loop ?u = Inr s'" using res FinishOp
      by (cases s) (simp add: Finish_def Sleep_go_idle go_idle_def set_ops_def thread_setStatus_def)
    then show ?thesis using sleep_loop_frame(3) [of ?u s'] h by simp
  qed (use res h fr P in \<open>auto simp: delete_sem_def Wait_def Signal_Inr Broadcast_def sl_push_def sl_take_Inr
        Fork_def nachos_dests fresh_name_def split: if_splits\<close>)
qed

text \<open>
  A lock is never stolen: a step that ends the tenure of a lock's holder is a step of the holder
  itself, and it leaves the lock without holder.
\<close>

theorem lock_released_by_holder_only:
  assumes "reachable s" "kstep s s'" "lockHolder s l = Some (Some t)" "lockHolder s' l \<noteq> Some (Some t)"
  shows "currentThread s = t \<and> \<not> idling s \<and> lockHolder s' l = Some None"
proof -
  have inv: "place_inv s" "lock_inv s" using assms(1) by (auto intro: reachable_place reachable_lock)
  from assms(2) show ?thesis
  proof (cases rule: kstep.cases)
    case (kexec op rest n)
    then show ?thesis using exec_op_holder [OF inv kexec(2,3,4) assms(3)] assms(4) by auto
  next
    case (kpreempt ops)
    then show ?thesis using assms(3,4) place_runningD(2) [OF inv(1)]
        sleep_loop_frame(3) [of "(go_idle READY s)\<lparr>readyList := lapp (readyList s) (currentThread s)\<rparr>" s']
      by (auto simp: Yield_go_idle split: if_splits)
  next
    case (kdevice ops m)
    then show ?thesis using assms(3,4) Semaphore_V_sem Semaphore_V_fields(2) by fastforce
  next
    case kwake
    then show ?thesis using assms(3,4) sleep_loop_frame(3) place_runningD(2) [OF inv(1)] by fastforce
  qed (use assms(3,4) in simp)
qed

theorem lock_released_by_holder_only_witness:
  "\<exists>s s'. krun [ECall CallNewLock, EExec 4, ECall (CallAcquire 4), EExec 9, EExec 9, ECall (CallRelease 4)]
       init_kstate = Some s \<and> kstep s s' \<and> lockHolder s' 4 = Some None \<and> currentThread s = 0"
proof -
  obtain s where s: "krun [ECall CallNewLock, EExec 4, ECall (CallAcquire 4), EExec 9, EExec 9, ECall (CallRelease 4)]
       init_kstate = Some s" "lockHolder s 4 = Some (Some 0)" "\<exists>s'. kfire (EExec 9) s = Some s' \<and> lockHolder s' 4 \<noteq> Some (Some 0)"
    by (simp add: krun_defs)
  then obtain s' where "kstep s s'" "lockHolder s' 4 \<noteq> Some (Some 0)" using kfire_kstep by blast
  from lock_released_by_holder_only [OF krun_Some [OF s(1)] this(1) s(2) this(2)] s(1) this(1)
  show ?thesis by blast
qed

text \<open>
  Destroying a user semaphore with a waiting thread, as \<open>Nachos_SemDestroy\<close> does (\<open>Destroy\<close> and then
  \<open>delete\<close>), makes the woken thread test the value of a deleted semaphore: there is a reachable state
  in which the next code of the running thread dereferences the freed object.
\<close>

theorem semaphore_destroy_use_after_free:
  "\<exists>s op rest. reachable s \<and> threads s (currentThread s) = Some (op # rest) \<and> \<not> idling s \<and>
     (\<forall>n. exec_op n op rest s = Inl BadPointer)"
proof -
  let ?es = "blocked_run @ [ECall (CallDestroy 7), EExec 9, EExec 9, EPreempt, EExec 9]"
  have "\<exists>s op rest. krun ?es init_kstate = Some s \<and> threads s (currentThread s) = Some (op # rest) \<and>
      \<not> idling s \<and> (\<forall>n. exec_op n op rest s = Inl BadPointer)"
    by (simp add: blocked_run_def krun_defs)
  then show ?thesis using krun_Some by blast
qed

end
