(* ===== verification/Machine_Memory.thy ===== *)
theory Machine_Memory
  imports Nachos_Prelude
begin

text \<open>
  The simulated CPU's registers and memory: \<open>machine/machine.cc\<close>, \<open>machine/translate.cc\<close> and
  \<open>machine/translate.h\<close>.

  Registers are 32-bit words, main memory is a list of bytes. The machine translates either through
  the linear page table of the running address space, which is where \<open>AddrSpace::RestoreState\<close> lets
  \<open>machine->pageTable\<close> point (\<open>tlb = None\<close>), or through the TLB (\<open>tlb = Some ts\<close>); so exactly one of the
  two pointers is set, as the assertions in \<open>Translate\<close> require. \<open>spaceTable\<close> is
  \<open>currentThread->space->getPageTable()\<close>, whose \<open>use\<close> bit \<open>Translate\<close> sets in both cases.
  The host is little endian, so \<open>WordToHost\<close> and its siblings are the identity.

  What happens in the kernel on an exception (\<open>ExceptionHandler\<close>) is the argument \<open>trap\<close>.
\<close>

unbundle bit_operations_syntax

section \<open>Data structures\<close>

abbreviation (input) PageSize :: int where "PageSize \<equiv> 128"
abbreviation (input) NumPhysPages :: int where "NumPhysPages \<equiv> 32"
abbreviation (input) MemorySize :: int where "MemorySize \<equiv> 4096"

abbreviation (input) HiReg :: nat where "HiReg \<equiv> 32"
abbreviation (input) LoReg :: nat where "LoReg \<equiv> 33"
abbreviation (input) PCReg :: nat where "PCReg \<equiv> 34"
abbreviation (input) NextPCReg :: nat where "NextPCReg \<equiv> 35"
abbreviation (input) PrevPCReg :: nat where "PrevPCReg \<equiv> 36"
abbreviation (input) LoadReg :: nat where "LoadReg \<equiv> 37"
abbreviation (input) LoadValueReg :: nat where "LoadValueReg \<equiv> 38"
abbreviation (input) BadVAddrReg :: nat where "BadVAddrReg \<equiv> 39"
abbreviation (input) NumTotalRegs :: int where "NumTotalRegs \<equiv> 40"

datatype ExceptionType =
  SyscallException | PageFaultException | ReadOnlyException | BusErrorException
  | AddressErrorException | OverflowException | IllegalInstrException

record TranslationEntry =
  virtualPage :: int
  physicalPage :: int
  te_valid :: bool
  readOnly :: bool
  te_use :: bool
  te_dirty :: bool

record Machine =
  mainMemory :: "8 word list"
  registers :: "32 word list"
  tlb :: "TranslationEntry list option"
  spaceTable :: "TranslationEntry list"

type_synonym trap = "ExceptionType \<Rightarrow> Machine \<Rightarrow> Machine result"

section \<open>Registers\<close>

definition new_Machine :: "TranslationEntry list option \<Rightarrow> Machine" where
  "new_Machine t =
     \<lparr>mainMemory = replicate 4096 0, registers = replicate 40 0,
      tlb = map_option (map (\<lambda>e. e\<lparr>te_valid := False\<rparr>)) t, spaceTable = []\<rparr>"

definition ReadRegister :: "int \<Rightarrow> Machine \<Rightarrow> 32 word result" where
  "ReadRegister num m =
     bindE (ASSERT (num \<ge> 0 \<and> num < NumTotalRegs)) (\<lambda>_. arr_get (registers m) num)"

definition WriteRegister :: "int \<Rightarrow> 32 word \<Rightarrow> Machine \<Rightarrow> Machine result" where
  "WriteRegister num value m =
     bindE (ASSERT (num \<ge> 0 \<and> num < NumTotalRegs)) (\<lambda>_.
     bindE (arr_set (registers m) num value) (\<lambda>r. Inr (m\<lparr>registers := r\<rparr>)))"

text \<open>\<open>registers[i] = v\<close> for the fixed register numbers of the simulator.\<close>

definition set_reg :: "nat \<Rightarrow> 32 word \<Rightarrow> Machine \<Rightarrow> Machine" where
  "set_reg i v m = m\<lparr>registers := (registers m)[i := v]\<rparr>"

abbreviation reg :: "Machine \<Rightarrow> nat \<Rightarrow> 32 word" where
  "reg m i \<equiv> registers m ! i"

definition DelayedLoad :: "32 word \<Rightarrow> 32 word \<Rightarrow> Machine \<Rightarrow> Machine result" where
  "DelayedLoad nextReg nextValue m =
     bindE (arr_set (registers m) (sint (reg m LoadReg)) (reg m LoadValueReg)) (\<lambda>r.
     Inr (set_reg 0 0 (set_reg LoadValueReg nextValue (set_reg LoadReg nextReg (m\<lparr>registers := r\<rparr>)))))"

definition RaiseException :: "trap \<Rightarrow> ExceptionType \<Rightarrow> 32 word \<Rightarrow> Machine \<Rightarrow> Machine result" where
  "RaiseException trap which badVAddr m =
     bindE (DelayedLoad 0 0 (set_reg BadVAddrReg badVAddr m)) (trap which)"

section \<open>Address translation\<close>

text \<open>The search of the TLB, from entry \<open>i\<close>.\<close>

fun tlb_lookup :: "TranslationEntry list \<Rightarrow> int \<Rightarrow> nat \<Rightarrow> nat option" where
  "tlb_lookup [] vpn i = None"
| "tlb_lookup (e # es) vpn i =
     (if te_valid e \<and> virtualPage e = vpn then Some i else tlb_lookup es vpn (Suc i))"

text \<open>The entry \<open>Translate\<close> uses: its index in the table it belongs to, or the exception.\<close>

definition find_entry :: "int \<Rightarrow> Machine \<Rightarrow> ExceptionType + nat" where
  "find_entry vpn m =
     (case tlb m of
        None \<Rightarrow>
          if vpn \<ge> int (length (spaceTable m)) then Inl AddressErrorException
          else if \<not> te_valid (spaceTable m ! nat vpn) then Inl PageFaultException
          else Inr (nat vpn)
      | Some ts \<Rightarrow>
          (case tlb_lookup ts vpn 0 of None \<Rightarrow> Inl PageFaultException | Some i \<Rightarrow> Inr i))"

definition entry_at :: "Machine \<Rightarrow> nat \<Rightarrow> TranslationEntry" where
  "entry_at m i = (case tlb m of None \<Rightarrow> spaceTable m ! i | Some ts \<Rightarrow> ts ! i)"

definition set_entry :: "nat \<Rightarrow> TranslationEntry \<Rightarrow> Machine \<Rightarrow> Machine" where
  "set_entry i e m =
     (case tlb m of
        None \<Rightarrow> m\<lparr>spaceTable := (spaceTable m)[i := e]\<rparr>
      | Some ts \<Rightarrow> m\<lparr>tlb := Some (ts[i := e])\<rparr>)"

text \<open>\<open>currentThread->space->getPageTable()[vpn].use = true\<close>\<close>

definition mark_used :: "int \<Rightarrow> Machine \<Rightarrow> Machine result" where
  "mark_used vpn m =
     bindE (arr_get (spaceTable m) vpn) (\<lambda>e.
     bindE (arr_set (spaceTable m) vpn (e\<lparr>te_use := True\<rparr>)) (\<lambda>t. Inr (m\<lparr>spaceTable := t\<rparr>)))"

text \<open>\<open>if (writing) entry->dirty = true\<close>\<close>

definition mark_dirty :: "bool \<Rightarrow> nat \<Rightarrow> Machine \<Rightarrow> Machine" where
  "mark_dirty writing i m = (if writing then set_entry i ((entry_at m i)\<lparr>te_dirty := True\<rparr>) m else m)"

definition misaligned :: "32 word \<Rightarrow> int \<Rightarrow> bool" where
  "misaligned virtAddr sz \<longleftrightarrow>
     sz = 4 \<and> virtAddr AND 3 \<noteq> 0 \<or> sz = 2 \<and> virtAddr AND 1 \<noteq> 0"

definition Translate ::
  "32 word \<Rightarrow> int \<Rightarrow> bool \<Rightarrow> Machine \<Rightarrow> (ExceptionType + int \<times> Machine) result" where
  "Translate virtAddr sz writing m =
     (if misaligned virtAddr sz then Inr (Inl AddressErrorException)
      else
        let vpn = uint virtAddr div PageSize; offset = uint virtAddr mod PageSize in
        case find_entry vpn m of
          Inl x \<Rightarrow> Inr (Inl x)
        | Inr i \<Rightarrow>
            let entry = entry_at m i; pageFrame = physicalPage entry mod 2 ^ 32 in
            if readOnly entry \<and> writing then Inr (Inl ReadOnlyException)
            else if pageFrame \<ge> NumPhysPages then Inr (Inl BusErrorException)
            else
              bindE (mark_used vpn (set_entry i (entry\<lparr>te_use := True\<rparr>) m)) (\<lambda>m1.
                let physAddr = pageFrame * PageSize + offset in
                bindE (ASSERT (physAddr \<ge> 0 \<and> physAddr + sz \<le> MemorySize)) (\<lambda>_.
                Inr (Inr (physAddr, mark_dirty writing i m1)))))"

section \<open>Reading and writing memory\<close>

definition mem_byte :: "Machine \<Rightarrow> int \<Rightarrow> 8 word" where
  "mem_byte m a = mainMemory m ! nat a"

definition set_byte :: "int \<Rightarrow> 8 word \<Rightarrow> Machine \<Rightarrow> Machine" where
  "set_byte a b m = m\<lparr>mainMemory := (mainMemory m)[nat a := b]\<rparr>"

text \<open>
  The three widths of \<open>ReadMem\<close>: a signed \<open>char\<close>, an \<open>unsigned short\<close> and an \<open>unsigned int\<close>, little endian.
\<close>

definition load_bytes :: "int \<Rightarrow> int \<Rightarrow> Machine \<Rightarrow> 32 word result" where
  "load_bytes a sz m =
     (if sz = 1 then Inr (scast (mem_byte m a))
      else if sz = 2 then Inr (ucast (mem_byte m a) OR push_bit 8 (ucast (mem_byte m (a + 1))))
      else if sz = 4 then
        Inr (bytes_to_word [mem_byte m a, mem_byte m (a + 1), mem_byte m (a + 2), mem_byte m (a + 3)])
      else Inl AssertFailed)"

definition store_bytes :: "int \<Rightarrow> int \<Rightarrow> 32 word \<Rightarrow> Machine \<Rightarrow> Machine result" where
  "store_bytes a sz v m =
     (if sz = 1 then Inr (set_byte a (ucast v) m)
      else if sz = 2 then Inr (set_byte (a + 1) (ucast (drop_bit 8 v)) (set_byte a (ucast v) m))
      else if sz = 4 then
        Inr (set_byte (a + 3) (ucast (drop_bit 24 v)) (set_byte (a + 2) (ucast (drop_bit 16 v))
               (set_byte (a + 1) (ucast (drop_bit 8 v)) (set_byte a (ucast v) m))))
      else Inl AssertFailed)"

text \<open>\<open>ReadMem\<close> returns the value, or \<open>None\<close> after the exception has been handled.\<close>

definition ReadMem :: "trap \<Rightarrow> 32 word \<Rightarrow> int \<Rightarrow> Machine \<Rightarrow> (32 word option \<times> Machine) result" where
  "ReadMem trap addr sz m =
     bindE (Translate addr sz False m) (\<lambda>r.
       case r of
         Inl x \<Rightarrow> bindE (RaiseException trap x addr m) (\<lambda>m'. Inr (None, m'))
       | Inr (physicalAddress, m') \<Rightarrow>
           bindE (load_bytes physicalAddress sz m') (\<lambda>v. Inr (Some v, m')))"

definition WriteMem :: "trap \<Rightarrow> 32 word \<Rightarrow> int \<Rightarrow> 32 word \<Rightarrow> Machine \<Rightarrow> (bool \<times> Machine) result" where
  "WriteMem trap addr sz value m =
     bindE (Translate addr sz True m) (\<lambda>r.
       case r of
         Inl x \<Rightarrow> bindE (RaiseException trap x addr m) (\<lambda>m'. Inr (False, m'))
       | Inr (physicalAddress, m') \<Rightarrow>
           bindE (store_bytes physicalAddress sz value m') (\<lambda>m''. Inr (True, m'')))"

section \<open>Invariant and frame lemmas\<close>

definition machine_wf :: "Machine \<Rightarrow> bool" where
  "machine_wf m \<longleftrightarrow> length (mainMemory m) = 4096 \<and> length (registers m) = 40"

lemma set_entry_sel [simp]:
  "mainMemory (set_entry i e m) = mainMemory m" "registers (set_entry i e m) = registers m"
  "length (spaceTable (set_entry i e m)) = length (spaceTable m)"
  by (auto simp: set_entry_def split: option.splits)

lemma tlb_lookup_bounds: "tlb_lookup ts vpn i = Some j \<Longrightarrow>
  i \<le> j \<and> j < i + length ts \<and> te_valid (ts ! (j - i)) \<and> virtualPage (ts ! (j - i)) = vpn"
proof (induction ts vpn i rule: tlb_lookup.induct)
  case (2 e es vpn i)
  show ?case
  proof (cases "te_valid e \<and> virtualPage e = vpn")
    case False
    with 2 have "Suc i \<le> j \<and> j < Suc i + length es \<and> te_valid (es ! (j - Suc i)) \<and> virtualPage (es ! (j - Suc i)) = vpn"
      by auto
    moreover from this have "(e # es) ! (j - i) = es ! (j - Suc i)" by (simp add: Suc_diff_le nth_Cons')
    ultimately show ?thesis by auto
  qed (use 2 in auto)
qed simp

text \<open>The \<open>use\<close> and \<open>dirty\<close> bits do not influence a lookup.\<close>

definition same_map :: "TranslationEntry \<Rightarrow> TranslationEntry \<Rightarrow> bool" where
  "same_map e e' \<longleftrightarrow> virtualPage e' = virtualPage e \<and> physicalPage e' = physicalPage e \<and>
     te_valid e' = te_valid e \<and> readOnly e' = readOnly e"

definition same_tables :: "Machine \<Rightarrow> Machine \<Rightarrow> bool" where
  "same_tables m m' \<longleftrightarrow> list_all2 same_map (spaceTable m) (spaceTable m') \<and>
     rel_option (list_all2 same_map) (tlb m) (tlb m')"

lemma same_map_refl [simp]: "same_map e e"
  and same_map_trans: "same_map e e' \<Longrightarrow> same_map e' e'' \<Longrightarrow> same_map e e''"
  by (auto simp: same_map_def)

lemma list_same_refl [simp]: "list_all2 same_map ts ts"
  by (simp add: list_all2_refl)

lemma list_same_upd: "i < length ts \<Longrightarrow> same_map (ts ! i) e \<Longrightarrow> list_all2 same_map ts (ts[i := e])"
  by (auto simp: list_all2_conv_all_nth nth_list_update)

lemma same_tables_trans: "same_tables m m' \<Longrightarrow> same_tables m' m'' \<Longrightarrow> same_tables m m''"
  unfolding same_tables_def
  by (auto elim!: option.rel_cases intro: list_all2_trans [OF same_map_trans])

lemma same_tables_refl [simp]: "same_tables m m"
  by (simp add: same_tables_def option.rel_refl)

lemma tlb_lookup_same:
  "list_all2 same_map ts ts' \<Longrightarrow> tlb_lookup ts' vpn i = tlb_lookup ts vpn i"
  by (induction ts ts' arbitrary: i rule: list_all2_induct) (auto simp: same_map_def)

lemma find_entry_same:
  assumes "same_tables m m'" "0 \<le> vpn"
  shows "find_entry vpn m' = find_entry vpn m"
proof -
  have sp: "list_all2 same_map (spaceTable m) (spaceTable m')" using assms(1) by (simp add: same_tables_def)
  then have len: "length (spaceTable m') = length (spaceTable m)" by (simp add: list_all2_lengthD)
  have v: "te_valid (spaceTable m' ! nat vpn) = te_valid (spaceTable m ! nat vpn)"
    if "vpn < int (length (spaceTable m))"
    using list_all2_nthD [OF sp, of "nat vpn"] that assms(2) by (simp add: same_map_def nat_less_iff)
  have "rel_option (list_all2 same_map) (tlb m) (tlb m')" using assms(1) by (simp add: same_tables_def)
  then show ?thesis unfolding find_entry_def len using v
    by (auto elim!: option.rel_cases simp: tlb_lookup_same)
qed

text \<open>The index \<open>find_entry\<close> returns is one of its table, and the entry there is valid.\<close>

lemma find_entry_Inr:
  assumes "find_entry vpn m = Inr i" "0 \<le> vpn"
  shows "(case tlb m of None \<Rightarrow> i = nat vpn \<and> i < length (spaceTable m)
           | Some ts \<Rightarrow> i < length ts \<and> virtualPage (ts ! i) = vpn) \<and> te_valid (entry_at m i)"
  using assms tlb_lookup_bounds [of _ vpn 0 i]
  by (auto simp: find_entry_def entry_at_def split: option.splits if_splits)

lemma entry_at_same: "same_tables m m' \<Longrightarrow> 0 \<le> vpn \<Longrightarrow> find_entry vpn m = Inr i \<Longrightarrow> same_map (entry_at m i) (entry_at m' i)"
  using find_entry_Inr [of vpn m i] unfolding same_tables_def entry_at_def
  by (auto elim!: option.rel_cases intro: list_all2_nthD split: option.splits)

lemma set_entry_same:
  "find_entry vpn m = Inr i \<Longrightarrow> 0 \<le> vpn \<Longrightarrow> same_map (entry_at m i) e \<Longrightarrow> same_tables m (set_entry i e m)"
  using find_entry_Inr [of vpn m i]
  by (auto simp: same_tables_def set_entry_def entry_at_def intro: list_same_upd split: option.splits)

lemma mark_used_ok:
  assumes "mark_used vpn m = Inr m'"
  shows "same_tables m m' \<and> mainMemory m' = mainMemory m \<and> registers m' = registers m \<and>
         0 \<le> vpn \<and> vpn < int (length (spaceTable m))"
  using assms unfolding mark_used_def
  by (auto simp: nachos_dests arr_get_eq_Inr arr_set_eq_Inr same_tables_def option.rel_refl same_map_def
      intro!: list_same_upd)

lemma mark_used_in_range:
  "0 \<le> vpn \<Longrightarrow> vpn < int (length (spaceTable m)) \<Longrightarrow> \<exists>m'. mark_used vpn m = Inr m'"
  by (simp add: mark_used_def)

section \<open>Alignment\<close>

lemma and_mask_zero: "(w AND mask n = 0) \<longleftrightarrow> uint w mod 2 ^ n = 0" for w :: "32 word"
proof -
  have "uint (w AND mask n) = uint w mod 2 ^ n"
    by (simp add: take_bit_eq_mod [symmetric] take_bit_eq_mask [symmetric] unsigned_take_bit_eq)
  then show ?thesis by (metis uint_0_iff unsigned_0)
qed

lemma misaligned_iff: "misaligned w sz \<longleftrightarrow> sz = 4 \<and> uint w mod 4 \<noteq> 0 \<or> sz = 2 \<and> uint w mod 2 \<noteq> 0"
  using and_mask_zero [of w 2] and_mask_zero [of w 1] by (auto simp: misaligned_def mask_eq_exp_minus_1)

lemma fits_aligned:
  fixes x :: int
  assumes "x < 128"
  shows "x + 1 \<le> 128" "x mod 2 = 0 \<Longrightarrow> x + 2 \<le> 128" "x mod 4 = 0 \<Longrightarrow> x + 4 \<le> 128"
  using assms by presburger+

lemma offset_fits:
  assumes "\<not> misaligned w sz" "sz \<in> {1, 2, 4}"
  shows "uint w mod 128 + sz \<le> 128"
proof -
  have "uint w mod 128 mod 4 = uint w mod 4" "uint w mod 128 mod 2 = uint w mod 2"
    by (simp_all add: mod_mod_cancel)
  moreover have "0 \<le> uint w mod 128" "uint w mod 128 < 128" by simp_all
  moreover have "sz = 4 \<longrightarrow> uint w mod 4 = 0" "sz = 2 \<longrightarrow> uint w mod 2 = 0"
    using assms(1) by (auto simp: misaligned_iff)
  ultimately show ?thesis using assms(2) fits_aligned [of "uint w mod 128"] by fastforce
qed

section \<open>Translation\<close>

lemma frame_div: "0 \<le> r \<Longrightarrow> r < 128 \<Longrightarrow> (q * 128 + r) div 128 = (q :: int)"
  by simp

lemma Translate_Inr:
  assumes res: "Translate w sz wr m = Inr (Inr (a, m'))" and sz: "sz \<in> {1, 2, 4}"
  shows "\<exists>i. find_entry (uint w div 128) m = Inr i \<and> te_valid (entry_at m i) \<and>
           \<not> (readOnly (entry_at m i) \<and> wr) \<and> same_tables m m' \<and>
           mainMemory m' = mainMemory m \<and> registers m' = registers m \<and>
           (\<forall>k. 0 \<le> k \<and> k < sz \<longrightarrow> (a + k) div 128 = physicalPage (entry_at m i) mod 2 ^ 32) \<and>
           a = physicalPage (entry_at m i) mod 2 ^ 32 * 128 + uint w mod 128 \<and> 0 \<le> a \<and> a + sz \<le> 4096"
proof -
  let ?v = "uint w div 128"
  have al: "\<not> misaligned w sz" using res by (auto simp: Translate_def split: if_splits)
  obtain i where i: "find_entry ?v m = Inr i"
    using res al by (auto simp: Translate_def Let_def split: sum.splits)
  let ?e = "entry_at m i" and ?m0 = "set_entry i ((entry_at m i)\<lparr>te_use := True\<rparr>) m"
  obtain m1 where m1: "mark_used ?v ?m0 = Inr m1" and ro: "\<not> (readOnly ?e \<and> wr)"
    and a: "a = physicalPage ?e mod 2 ^ 32 * 128 + uint w mod 128" "0 \<le> a" "a + sz \<le> 4096"
    and m': "m' = mark_dirty wr i m1"
    using res al i by (auto simp: Translate_def Let_def nachos_dests split: if_splits)
  have v: "0 \<le> ?v" by (simp add: pos_imp_zdiv_nonneg_iff)
  have s0: "same_tables m ?m0" by (rule set_entry_same [OF i v]) (simp add: same_map_def)
  note u = mark_used_ok [OF m1]
  have s1: "same_tables m m1" using same_tables_trans [OF s0] u by blast
  have "find_entry ?v m1 = Inr i" using find_entry_same [OF s1 v] i by simp
  then have "same_tables m1 m'" using v by (auto simp: m' mark_dirty_def same_map_def intro: set_entry_same)
  then have sm: "same_tables m m'" using same_tables_trans [OF s1] by blast
  have "uint w mod 128 + sz \<le> 128" using offset_fits [OF al sz] .
  then have "(a + k) div 128 = physicalPage ?e mod 2 ^ 32" if "0 \<le> k" "k < sz" for k
    using that frame_div [of "uint w mod 128 + k" "physicalPage ?e mod 2 ^ 32"] by (simp add: a(1) add.assoc)
  then show ?thesis using i ro a sm u find_entry_Inr [OF i v] by (auto simp: m' mark_dirty_def)
qed

text \<open>A second translation of the same address succeeds with the same result.\<close>

lemma Translate_again:
  assumes res: "Translate w sz True m = Inr (Inr (a, m'))" and sz: "sz \<in> {1, 2, 4}" and same: "same_tables m' m''"
  shows "\<exists>m3. Translate w sz False m'' = Inr (Inr (a, m3))"
proof -
  let ?v = "uint w div 128"
  have v: "0 \<le> ?v" by (simp add: pos_imp_zdiv_nonneg_iff)
  obtain i where i: "find_entry ?v m = Inr i" "same_tables m m'" "0 \<le> a" "a + sz \<le> 4096"
    "a = physicalPage (entry_at m i) mod 2 ^ 32 * 128 + uint w mod 128"
    using Translate_Inr [OF res sz] by blast
  have al: "\<not> misaligned w sz" using res by (auto simp: Translate_def split: if_splits)
  have bus: "\<not> physicalPage (entry_at m i) mod 2 ^ 32 \<ge> 32"
    using res al i(1) by (auto simp: Translate_def Let_def split: if_splits)
  have s: "same_tables m m''" using same_tables_trans [OF i(2) same] .
  have i'': "find_entry ?v m'' = Inr i" using find_entry_same [OF s v] i(1) by simp
  have e: "physicalPage (entry_at m'' i) = physicalPage (entry_at m i)"
    using entry_at_same [OF s v i(1)] by (simp add: same_map_def)
  have "?v < int (length (spaceTable m))"
  proof -
    obtain m1 where "mark_used ?v (set_entry i ((entry_at m i)\<lparr>te_use := True\<rparr>) m) = Inr m1"
      using res al i(1) by (auto simp: Translate_def Let_def nachos_dests split: if_splits)
    then show ?thesis using mark_used_ok by fastforce
  qed
  then have "?v < int (length (spaceTable m''))" using s by (auto simp: same_tables_def dest: list_all2_lengthD)
  then obtain m3 where "mark_used ?v (set_entry i ((entry_at m'' i)\<lparr>te_use := True\<rparr>) m'') = Inr m3"
    using mark_used_in_range [OF v, of "set_entry i ((entry_at m'' i)\<lparr>te_use := True\<rparr>) m''"] by auto
  then show ?thesis using al i'' e bus i(3-5) by (simp add: Translate_def Let_def)
qed

section \<open>Bytes\<close>

lemma mem_byte_set_byte:
  "0 \<le> a \<Longrightarrow> a < int (length (mainMemory m)) \<Longrightarrow> 0 \<le> b \<Longrightarrow>
   mem_byte (set_byte a v m) b = (if b = a then v else mem_byte m b)"
  by (auto simp: mem_byte_def set_byte_def nth_list_update)

lemma set_byte_sel [simp]:
  "length (mainMemory (set_byte a v m)) = length (mainMemory m)" "registers (set_byte a v m) = registers m"
  "same_tables m' (set_byte a v m) = same_tables m' m"
  by (simp_all add: set_byte_def same_tables_def)

text \<open>What reading back a value of a given width yields.\<close>

definition narrow :: "int \<Rightarrow> 32 word \<Rightarrow> 32 word" where
  "narrow sz v = (if sz = 1 then scast (ucast v :: 8 word) else if sz = 2 then v AND 0xFFFF else v)"

lemma half_bytes: "(ucast (ucast v :: 8 word) :: 32 word) OR push_bit 8 (ucast (ucast (drop_bit 8 v :: 32 word) :: 8 word)) = v AND 0xFFFF"
  for v :: "32 word"
proof (rule bit_word_eqI)
  fix n assume n: "n < LENGTH(32)"
  have m: "(0xFFFF :: 32 word) = mask 16" by (simp add: mask_eq_exp_minus_1)
  have "n < 8 \<or> 8 \<le> n \<and> n < 16 \<or> 16 \<le> n" by linarith
  then show "bit ((ucast (ucast v :: 8 word) :: 32 word) OR push_bit 8 (ucast (ucast (drop_bit 8 v :: 32 word) :: 8 word))) n = bit (v AND 0xFFFF) n"
    using n unfolding m
    by (auto simp: bit_or_iff bit_and_iff bit_mask_iff bit_push_bit_iff bit_unsigned_iff bit_drop_bit_eq not_le)
qed

lemma store_load:
  assumes "store_bytes a sz v m = Inr m'" "sz \<in> {1, 2, 4}" "0 \<le> a" "a + sz \<le> int (length (mainMemory m))"
    and "mainMemory m'' = mainMemory m'"
  shows "load_bytes a sz m'' = Inr (narrow sz v)"
proof -
  have eq: "mem_byte m'' x = mem_byte m' x" for x using assms(5) by (simp add: mem_byte_def)
  consider "sz = 1" | "sz = 2" | "sz = 4" using assms(2) by blast
  then show ?thesis
  proof cases
    case 1
    then show ?thesis using assms by (auto simp: store_bytes_def load_bytes_def narrow_def eq mem_byte_set_byte)
  next
    case 2
    then have "m' = set_byte (a + 1) (ucast (drop_bit 8 v)) (set_byte a (ucast v) m)"
      using assms(1) by (simp add: store_bytes_def)
    then have "mem_byte m' a = ucast v" "mem_byte m' (a + 1) = ucast (drop_bit 8 v)"
      using assms(3,4) 2 by (simp_all add: mem_byte_set_byte)
    then show ?thesis using 2 half_bytes [of v] by (simp add: load_bytes_def narrow_def eq)
  next
    case 3
    then have "m' = set_byte (a + 3) (ucast (drop_bit 24 v)) (set_byte (a + 2) (ucast (drop_bit 16 v))
               (set_byte (a + 1) (ucast (drop_bit 8 v)) (set_byte a (ucast v) m)))"
      using assms(1) by (simp add: store_bytes_def)
    then have "[mem_byte m' a, mem_byte m' (a + 1), mem_byte m' (a + 2), mem_byte m' (a + 3)] = word_to_bytes v"
      using assms(3,4) 3 by (simp add: mem_byte_set_byte word_to_bytes_def)
    then show ?thesis using 3 by (simp add: load_bytes_def narrow_def eq)
  qed
qed

lemma store_frame:
  assumes "store_bytes a sz v m = Inr m'" "0 \<le> a" "a + sz \<le> int (length (mainMemory m))"
  shows "same_tables m m' \<and> registers m' = registers m \<and> length (mainMemory m') = length (mainMemory m) \<and>
         (\<forall>b. 0 \<le> b \<longrightarrow> b < a \<or> a + sz \<le> b \<longrightarrow> mem_byte m' b = mem_byte m b)"
  using assms by (auto simp: store_bytes_def mem_byte_set_byte split: if_splits)

lemma WriteMem_True:
  assumes "WriteMem trap addr sz v m = Inr (True, m')"
  shows "\<exists>a m1. Translate addr sz True m = Inr (Inr (a, m1)) \<and> store_bytes a sz v m1 = Inr m'"
proof -
  obtain r where r: "Translate addr sz True m = Inr r" using assms by (auto simp: WriteMem_def nachos_dests)
  then obtain p where "r = Inr p" using assms by (cases r) (auto simp: WriteMem_def nachos_dests)
  with r show ?thesis using assms by (cases p) (auto simp: WriteMem_def nachos_dests)
qed

text \<open>A machine whose running program has one page, in frame 5, and no kernel handler.\<close>

definition one_page_machine :: Machine where
  "one_page_machine = (new_Machine None)\<lparr>spaceTable :=
     [\<lparr>virtualPage = 0, physicalPage = 5, te_valid = True, readOnly = False, te_use = False, te_dirty = False\<rparr>]\<rparr>"

definition no_trap :: trap where
  "no_trap x m = Inl MachineHalted"

lemma one_page_wf: "machine_wf one_page_machine"
  by (simp add: machine_wf_def one_page_machine_def new_Machine_def)

lemma one_page_write: "\<exists>m'. WriteMem no_trap 16 4 0xDEADBEEF one_page_machine = Inr (True, m')"
  by (simp add: WriteMem_def Translate_def misaligned_def find_entry_def entry_at_def set_entry_def mark_used_def
      store_bytes_def one_page_machine_def new_Machine_def Let_def)

section \<open>Properties\<close>

text \<open>
  (C33) What \<open>WriteMem\<close> writes, \<open>ReadMem\<close> at the same virtual address and width reads back: all of the
  word for width 4, its low half for width 2, its low byte sign-extended (a C \<open>char\<close>) for width 1.
  This holds for the linear page table and for the TLB.
\<close>

theorem WriteMem_ReadMem_roundtrip:
  assumes "machine_wf m" "WriteMem trap addr sz v m = Inr (True, m')" "sz \<in> {1, 2, 4}"
  shows "\<exists>m''. ReadMem trap' addr sz m' = Inr (Some (narrow sz v), m'')"
proof -
  obtain a m1 where t: "Translate addr sz True m = Inr (Inr (a, m1))" "store_bytes a sz v m1 = Inr m'"
    using WriteMem_True [OF assms(2)] by blast
  obtain a0: "mainMemory m1 = mainMemory m" "0 \<le> a" "a + sz \<le> 4096"
    using Translate_Inr [OF t(1) assms(3)] by blast
  have len: "a + sz \<le> int (length (mainMemory m1))" using a0 assms(1) by (simp add: machine_wf_def)
  have "same_tables m1 m'" using store_frame [OF t(2) a0(2) len] by blast
  from Translate_again [OF t(1) assms(3) this] obtain m3 where
    m3: "Translate addr sz False m' = Inr (Inr (a, m3))" by blast
  have "mainMemory m3 = mainMemory m'" using Translate_Inr [OF m3 assms(3)] by blast
  then have "load_bytes a sz m3 = Inr (narrow sz v)" using store_load [OF t(2) assms(3) a0(2) len] by blast
  then show ?thesis using m3 by (simp add: ReadMem_def)
qed

theorem WriteMem_ReadMem_roundtrip_witness:
  "\<exists>m' m''. WriteMem no_trap 16 4 0xDEADBEEF one_page_machine = Inr (True, m') \<and>
     ReadMem no_trap 16 4 m' = Inr (Some 0xDEADBEEF, m'')"
proof -
  obtain m' where m': "WriteMem no_trap 16 4 0xDEADBEEF one_page_machine = Inr (True, m')"
    using one_page_write by blast
  then show ?thesis using WriteMem_ReadMem_roundtrip [OF one_page_wf m', of no_trap] by (auto simp: narrow_def)
qed

text \<open>
  Memory protection: a successful \<open>WriteMem\<close> goes through a valid entry for the page of the address
  that is not read-only, changes bytes of the frame of that entry only and leaves the registers and
  the mappings of all tables as they were.
\<close>

theorem WriteMem_isolation:
  assumes "machine_wf m" "WriteMem trap addr sz v m = Inr (True, m')" "sz \<in> {1, 2, 4}"
  shows "\<exists>i. find_entry (uint addr div 128) m = Inr i \<and> te_valid (entry_at m i) \<and> \<not> readOnly (entry_at m i) \<and>
           registers m' = registers m \<and> machine_wf m' \<and> same_tables m m' \<and>
           (\<forall>b. 0 \<le> b \<and> b div 128 \<noteq> physicalPage (entry_at m i) mod 2 ^ 32 \<longrightarrow> mem_byte m' b = mem_byte m b)"
proof -
  obtain a m1 where t: "Translate addr sz True m = Inr (Inr (a, m1))" "store_bytes a sz v m1 = Inr m'"
    using WriteMem_True [OF assms(2)] by blast
  obtain i where i: "find_entry (uint addr div 128) m = Inr i" "te_valid (entry_at m i)"
    "\<not> readOnly (entry_at m i)" "same_tables m m1" "mainMemory m1 = mainMemory m" "registers m1 = registers m"
    "\<forall>k. 0 \<le> k \<and> k < sz \<longrightarrow> (a + k) div 128 = physicalPage (entry_at m i) mod 2 ^ 32" "0 \<le> a" "a + sz \<le> 4096"
    using Translate_Inr [OF t(1) assms(3)] by auto
  have len: "a + sz \<le> int (length (mainMemory m1))" using i assms(1) by (simp add: machine_wf_def)
  note f = store_frame [OF t(2) i(8) len]
  have "mem_byte m' b = mem_byte m b" if "0 \<le> b" "b div 128 \<noteq> physicalPage (entry_at m i) mod 2 ^ 32" for b
  proof -
    have "b < a \<or> a + sz \<le> b" using i(7) [rule_format, of "b - a"] that by force
    then show ?thesis using f that(1) i(5) by (auto simp: mem_byte_def)
  qed
  moreover have "same_tables m m'" using same_tables_trans [OF i(4)] f by blast
  ultimately show ?thesis using i f assms(1) by (auto simp: machine_wf_def)
qed

theorem WriteMem_isolation_witness:
  "\<exists>m'. WriteMem no_trap 16 4 0xDEADBEEF one_page_machine = Inr (True, m') \<and>
     registers m' = registers one_page_machine \<and> same_tables one_page_machine m' \<and>
     mem_byte m' 0 = mem_byte one_page_machine 0"
proof -
  obtain m' where m': "WriteMem no_trap 16 4 0xDEADBEEF one_page_machine = Inr (True, m')"
    using one_page_write by blast
  have "physicalPage (entry_at one_page_machine i) mod 2 ^ 32 = 5"
    if "find_entry (uint (16 :: 32 word) div 128) one_page_machine = Inr i" for i
    using that by (simp add: find_entry_def entry_at_def one_page_machine_def new_Machine_def)
  then show ?thesis using WriteMem_isolation [OF one_page_wf m'] m' by force
qed

end
