(* ===== verification/Mips_Sim.thy ===== *)
theory Mips_Sim
  imports Machine_Memory
begin

text \<open>
  The instruction simulator: \<open>machine/mipssim.cc\<close> and \<open>machine/mipssim.h\<close>.

  An opcode is a value of the datatype \<open>opcode\<close>, one constructor per \<open>#define\<close> of the header. Registers
  are 32-bit words; signed comparisons, right shifts and divisions are on their signed reading, as for
  the \<open>int\<close>s of the source, and additions wrap, as they do on the host.
  The switch of \<open>OneInstruction\<close> is \<open>exec_op\<close>: it ends with an exception still to be raised (\<open>Raise\<close>),
  with one that \<open>ReadMem\<close> or \<open>WriteMem\<close> has raised (\<open>Trapped\<close>), or behind the switch with the new value of
  \<open>pcAfter\<close> and the delayed load (\<open>Next\<close>).
\<close>

unbundle bit_operations_syntax

section \<open>Opcodes and decoding\<close>

datatype opcode =
    OP_ADD | OP_ADDI | OP_ADDIU | OP_ADDU | OP_AND | OP_ANDI | OP_BEQ | OP_BGEZ | OP_BGEZAL | OP_BGTZ | OP_BLEZ
  | OP_BLTZ | OP_BLTZAL | OP_BNE | OP_DIV | OP_DIVU | OP_J | OP_JAL | OP_JALR | OP_JR | OP_LB | OP_LBU | OP_LH
  | OP_LHU | OP_LUI | OP_LW | OP_LWL | OP_LWR | OP_MFHI | OP_MFLO | OP_MTHI | OP_MTLO | OP_MULT | OP_MULTU
  | OP_NOR | OP_OR | OP_ORI | OP_RFE | OP_SB | OP_SH | OP_SLL | OP_SLLV | OP_SLT | OP_SLTI | OP_SLTIU | OP_SLTU
  | OP_SRA | OP_SRAV | OP_SRL | OP_SRLV | OP_SUB | OP_SUBU | OP_SW | OP_SWL | OP_SWR | OP_XOR | OP_XORI
  | OP_SYSCALL | OP_UNIMP | OP_RES | SPECIAL | BCOND

datatype format = IFMT | JFMT | RFMT

definition opTable :: "(opcode \<times> format) list" where
  "opTable =
     [(SPECIAL, RFMT), (BCOND, IFMT), (OP_J, JFMT), (OP_JAL, JFMT),
      (OP_BEQ, IFMT), (OP_BNE, IFMT), (OP_BLEZ, IFMT), (OP_BGTZ, IFMT),
      (OP_ADDI, IFMT), (OP_ADDIU, IFMT), (OP_SLTI, IFMT), (OP_SLTIU, IFMT),
      (OP_ANDI, IFMT), (OP_ORI, IFMT), (OP_XORI, IFMT), (OP_LUI, IFMT),
      (OP_UNIMP, IFMT), (OP_UNIMP, IFMT), (OP_UNIMP, IFMT), (OP_UNIMP, IFMT),
      (OP_RES, IFMT), (OP_RES, IFMT), (OP_RES, IFMT), (OP_RES, IFMT),
      (OP_RES, IFMT), (OP_RES, IFMT), (OP_RES, IFMT), (OP_RES, IFMT),
      (OP_RES, IFMT), (OP_RES, IFMT), (OP_RES, IFMT), (OP_RES, IFMT),
      (OP_LB, IFMT), (OP_LH, IFMT), (OP_LWL, IFMT), (OP_LW, IFMT),
      (OP_LBU, IFMT), (OP_LHU, IFMT), (OP_LWR, IFMT), (OP_RES, IFMT),
      (OP_SB, IFMT), (OP_SH, IFMT), (OP_SWL, IFMT), (OP_SW, IFMT),
      (OP_RES, IFMT), (OP_RES, IFMT), (OP_SWR, IFMT), (OP_RES, IFMT),
      (OP_UNIMP, IFMT), (OP_UNIMP, IFMT), (OP_UNIMP, IFMT), (OP_UNIMP, IFMT),
      (OP_RES, IFMT), (OP_RES, IFMT), (OP_RES, IFMT), (OP_RES, IFMT),
      (OP_UNIMP, IFMT), (OP_UNIMP, IFMT), (OP_UNIMP, IFMT), (OP_UNIMP, IFMT),
      (OP_RES, IFMT), (OP_RES, IFMT), (OP_RES, IFMT), (OP_RES, IFMT)]"

definition specialTable :: "opcode list" where
  "specialTable =
     [OP_SLL, OP_RES, OP_SRL, OP_SRA, OP_SLLV, OP_RES, OP_SRLV, OP_SRAV,
      OP_JR, OP_JALR, OP_RES, OP_RES, OP_SYSCALL, OP_UNIMP, OP_RES, OP_RES,
      OP_MFHI, OP_MTHI, OP_MFLO, OP_MTLO, OP_RES, OP_RES, OP_RES, OP_RES,
      OP_MULT, OP_MULTU, OP_DIV, OP_DIVU, OP_RES, OP_RES, OP_RES, OP_RES,
      OP_ADD, OP_ADDU, OP_SUB, OP_SUBU, OP_AND, OP_OR, OP_XOR, OP_NOR,
      OP_RES, OP_RES, OP_SLT, OP_SLTU, OP_RES, OP_RES, OP_RES, OP_RES,
      OP_RES, OP_RES, OP_RES, OP_RES, OP_RES, OP_RES, OP_RES, OP_RES,
      OP_RES, OP_RES, OP_RES, OP_RES, OP_RES, OP_RES, OP_RES, OP_RES]"

record Instruction =
  i_opCode :: opcode
  i_rs :: nat
  i_rt :: nat
  i_rd :: nat
  i_extra :: "32 word"

definition bcond :: "32 word \<Rightarrow> opcode" where
  "bcond v =
     (let i = v AND 0x1f0000 in
      if i = 0 then OP_BLTZ else if i = 0x10000 then OP_BGEZ
      else if i = 0x100000 then OP_BLTZAL else if i = 0x110000 then OP_BGEZAL else OP_UNIMP)"

definition Decode :: "32 word \<Rightarrow> Instruction" where
  "Decode v =
     (let (opc, fmt) = opTable ! unat (drop_bit 26 v AND 0x3f);
          ext = (case fmt of
                   IFMT \<Rightarrow> (let e = v AND 0xffff in if e AND 0x8000 \<noteq> 0 then e OR 0xffff0000 else e)
                 | RFMT \<Rightarrow> drop_bit 6 v AND 0x1f
                 | JFMT \<Rightarrow> v AND 0x3ffffff) in
      \<lparr>i_opCode = (if opc = SPECIAL then specialTable ! unat (v AND 0x3f)
                  else if opc = BCOND then bcond v else opc),
       i_rs = unat (drop_bit 21 v AND 0x1f), i_rt = unat (drop_bit 16 v AND 0x1f),
       i_rd = unat (drop_bit 11 v AND 0x1f), i_extra = ext\<rparr>)"

section \<open>Multiplication\<close>

text \<open>The loop of \<open>Mult\<close>, with \<open>n\<close> iterations left; \<open>a >>= 1\<close> is an arithmetic shift, since \<open>a\<close> is an \<open>int\<close>.\<close>

fun mult_loop :: "nat \<Rightarrow> 32 word \<Rightarrow> 32 word \<Rightarrow> 32 word \<Rightarrow> 32 word \<Rightarrow> 32 word \<Rightarrow> 32 word \<times> 32 word" where
  "mult_loop 0 a bHi bLo hi lo = (hi, lo)"
| "mult_loop (Suc n) a bHi bLo hi lo =
     (let odd = (a AND 1 \<noteq> 0);
          lo' = (if odd then lo + bLo else lo);
          hi' = (if odd then (if lo' < bLo then hi + 1 else hi) + bHi else hi) in
      if odd \<and> a AND 0xfffffffe = 0 then (hi', lo')
      else mult_loop n (signed_drop_bit 1 a)
             (if bLo AND 0x80000000 \<noteq> 0 then push_bit 1 bHi OR 1 else push_bit 1 bHi) (push_bit 1 bLo) hi' lo')"

definition mult_abs :: "bool \<Rightarrow> 32 word \<Rightarrow> 32 word" where
  "mult_abs signedArith a = (if signedArith \<and> sint a < 0 then - a else a)"

definition Mult :: "32 word \<Rightarrow> 32 word \<Rightarrow> bool \<Rightarrow> 32 word \<times> 32 word" where
  "Mult a b signedArith =
     (if a = 0 \<or> b = 0 then (0, 0)
      else
        let negative = (signedArith \<and> ((sint a < 0) \<noteq> (sint b < 0)));
            (hi, lo) = mult_loop 32 (mult_abs signedArith a) 0 (mult_abs signedArith b) 0 0 in
        if negative
        then let hi' = NOT hi; lo' = NOT lo + 1 in (if lo' = 0 then hi' + 1 else hi', lo')
        else (hi, lo))"

section \<open>Instructions\<close>

datatype outcome =
    Raise ExceptionType "32 word"
  | Trapped
  | Next "32 word" nat "32 word"   \<comment> \<open>pcAfter, nextLoadReg, nextLoadValue\<close>

abbreviation (input) SIGN_BIT :: "32 word" where "SIGN_BIT \<equiv> 0x80000000"

definition IndexToAddr :: "32 word \<Rightarrow> 32 word" where
  "IndexToAddr x = push_bit 2 x"

text \<open>\<open>registers[d] = v\<close> and on to the next instruction.\<close>

definition put :: "nat \<Rightarrow> 32 word \<Rightarrow> Machine \<Rightarrow> (outcome \<times> Machine) result" where
  "put d v m = Inr (Next (reg m NextPCReg + 4) 0 0, set_reg d v m)"

text \<open>The instructions that compute one register from others: the register and its value.\<close>

definition alu :: "Instruction \<Rightarrow> Machine \<Rightarrow> (nat \<times> 32 word) option" where
  "alu i m =
     (let s = reg m (i_rs i); t = reg m (i_rt i); x = i_extra i in
      case i_opCode i of
        OP_ADDIU \<Rightarrow> Some (i_rt i, s + x)
      | OP_ADDU \<Rightarrow> Some (i_rd i, s + t)
      | OP_AND \<Rightarrow> Some (i_rd i, s AND t)
      | OP_ANDI \<Rightarrow> Some (i_rt i, s AND (x AND 0xffff))
      | OP_LUI \<Rightarrow> Some (i_rt i, push_bit 16 x)
      | OP_MFHI \<Rightarrow> Some (i_rd i, reg m HiReg)
      | OP_MFLO \<Rightarrow> Some (i_rd i, reg m LoReg)
      | OP_MTHI \<Rightarrow> Some (HiReg, s)
      | OP_MTLO \<Rightarrow> Some (LoReg, s)
      | OP_NOR \<Rightarrow> Some (i_rd i, NOT (s OR t))
      | OP_OR \<Rightarrow> Some (i_rd i, s OR s)
      | OP_ORI \<Rightarrow> Some (i_rt i, s OR (x AND 0xffff))
      | OP_SLL \<Rightarrow> Some (i_rd i, push_bit (unat x) t)
      | OP_SLLV \<Rightarrow> Some (i_rd i, push_bit (unat (s AND 0x1f)) t)
      | OP_SLT \<Rightarrow> Some (i_rd i, if sint s < sint t then 1 else 0)
      | OP_SLTI \<Rightarrow> Some (i_rt i, if sint s < sint x then 1 else 0)
      | OP_SLTIU \<Rightarrow> Some (i_rt i, if s < x then 1 else 0)
      | OP_SLTU \<Rightarrow> Some (i_rd i, if s < t then 1 else 0)
      | OP_SRA \<Rightarrow> Some (i_rd i, signed_drop_bit (unat x) t)
      | OP_SRAV \<Rightarrow> Some (i_rd i, signed_drop_bit (unat (s AND 0x1f)) t)
      | OP_SRL \<Rightarrow> Some (i_rd i, signed_drop_bit (unat x) t)
      | OP_SRLV \<Rightarrow> Some (i_rd i, signed_drop_bit (unat (s AND 0x1f)) t)
      | OP_SUBU \<Rightarrow> Some (i_rd i, s - t)
      | OP_XOR \<Rightarrow> Some (i_rd i, s XOR t)
      | OP_XORI \<Rightarrow> Some (i_rt i, s XOR (x AND 0xffff))
      | _ \<Rightarrow> None)"

definition op_ADD :: "Instruction \<Rightarrow> Machine \<Rightarrow> (outcome \<times> Machine) result" where
  "op_ADD i m =
     (let s = reg m (i_rs i); t = reg m (i_rt i); sum = s + t in
      if \<not> ((s XOR t) AND SIGN_BIT \<noteq> 0) \<and> (s XOR sum) AND SIGN_BIT \<noteq> 0
      then Inr (Raise OverflowException 0, m) else put (i_rd i) sum m)"

definition op_ADDI :: "Instruction \<Rightarrow> Machine \<Rightarrow> (outcome \<times> Machine) result" where
  "op_ADDI i m =
     (let s = reg m (i_rs i); sum = s + i_extra i in
      if \<not> ((s XOR i_extra i) AND SIGN_BIT \<noteq> 0) \<and> (i_extra i XOR sum) AND SIGN_BIT \<noteq> 0
      then Inr (Raise OverflowException 0, m) else put (i_rt i) sum m)"

definition op_SUB :: "Instruction \<Rightarrow> Machine \<Rightarrow> (outcome \<times> Machine) result" where
  "op_SUB i m =
     (let s = reg m (i_rs i); t = reg m (i_rt i); diff = s - t in
      if (s XOR t) AND SIGN_BIT \<noteq> 0 \<and> (s XOR diff) AND SIGN_BIT \<noteq> 0
      then Inr (Raise OverflowException 0, m) else put (i_rd i) diff m)"

text \<open>\<open>/\<close> of \<open>INT_MIN\<close> by \<open>-1\<close> overflows and traps on the host.\<close>

definition op_DIV :: "Instruction \<Rightarrow> Machine \<Rightarrow> (outcome \<times> Machine) result" where
  "op_DIV i m =
     (let s = reg m (i_rs i); t = reg m (i_rt i) in
      if t = 0 then Inr (Next (reg m NextPCReg + 4) 0 0, set_reg HiReg 0 (set_reg LoReg 0 m))
      else if sint s = - (2 ^ 31) \<and> sint t = - 1 then Inl DivideTrap
      else Inr (Next (reg m NextPCReg + 4) 0 0,
                set_reg HiReg (word_of_int (sint s smod sint t)) (set_reg LoReg (word_of_int (sint s sdiv sint t)) m)))"

definition op_DIVU :: "Instruction \<Rightarrow> Machine \<Rightarrow> (outcome \<times> Machine) result" where
  "op_DIVU i m =
     (let s = reg m (i_rs i); t = reg m (i_rt i) in
      Inr (Next (reg m NextPCReg + 4) 0 0,
           if t = 0 then set_reg HiReg 0 (set_reg LoReg 0 m)
           else set_reg HiReg (s mod t) (set_reg LoReg (s div t) m)))"

definition op_MULT :: "bool \<Rightarrow> Instruction \<Rightarrow> Machine \<Rightarrow> (outcome \<times> Machine) result" where
  "op_MULT sg i m =
     (let (hi, lo) = Mult (reg m (i_rs i)) (reg m (i_rt i)) sg in
      Inr (Next (reg m NextPCReg + 4) 0 0, set_reg LoReg lo (set_reg HiReg hi m)))"

text \<open>A conditional branch, and the link register of the \<open>AL\<close> variants.\<close>

definition branch :: "bool \<Rightarrow> Instruction \<Rightarrow> Machine \<Rightarrow> (outcome \<times> Machine) result" where
  "branch taken i m =
     Inr (Next (if taken then reg m NextPCReg + IndexToAddr (i_extra i) else reg m NextPCReg + 4) 0 0, m)"

definition link :: "nat \<Rightarrow> Machine \<Rightarrow> Machine" where
  "link d m = set_reg d (reg m NextPCReg + 4) m"

definition jump :: "Instruction \<Rightarrow> Machine \<Rightarrow> (outcome \<times> Machine) result" where
  "jump i m = Inr (Next ((reg m NextPCReg + 4) AND 0xf0000000 OR IndexToAddr (i_extra i)) 0 0, m)"

definition jump_reg :: "Instruction \<Rightarrow> Machine \<Rightarrow> (outcome \<times> Machine) result" where
  "jump_reg i m = Inr (Next (reg m (i_rs i)) 0 0, m)"

definition eff_addr :: "Instruction \<Rightarrow> Machine \<Rightarrow> 32 word" where
  "eff_addr i m = reg m (i_rs i) + i_extra i"

text \<open>\<open>if (!machine->ReadMem(...)) return;\<close> and the rest of the instruction.\<close>

definition read_then ::
  "trap \<Rightarrow> 32 word \<Rightarrow> int \<Rightarrow> Machine \<Rightarrow> (32 word \<Rightarrow> Machine \<Rightarrow> (outcome \<times> Machine) result) \<Rightarrow> (outcome \<times> Machine) result" where
  "read_then trap addr sz m k =
     bindE (ReadMem trap addr sz m) (\<lambda>(r, m'). case r of None \<Rightarrow> Inr (Trapped, m') | Some v \<Rightarrow> k v m')"

definition load :: "Instruction \<Rightarrow> 32 word \<Rightarrow> Machine \<Rightarrow> (outcome \<times> Machine) result" where
  "load i v m = Inr (Next (reg m NextPCReg + 4) (i_rt i) v, m)"

definition op_LB :: "trap \<Rightarrow> Instruction \<Rightarrow> Machine \<Rightarrow> (outcome \<times> Machine) result" where
  "op_LB trap i m =
     read_then trap (eff_addr i m) 1 m (\<lambda>v.
       load i (if v AND 0x80 \<noteq> 0 \<and> i_opCode i = OP_LB then v OR 0xffffff00 else v AND 0xff))"

definition op_LH :: "trap \<Rightarrow> Instruction \<Rightarrow> Machine \<Rightarrow> (outcome \<times> Machine) result" where
  "op_LH trap i m =
     (let tmp = eff_addr i m in
      if tmp AND 1 \<noteq> 0 then Inr (Raise AddressErrorException tmp, m)
      else read_then trap tmp 2 m (\<lambda>v.
        load i (if v AND 0x8000 \<noteq> 0 \<and> i_opCode i = OP_LH then v OR 0xffff0000 else v AND 0xffff)))"

definition op_LW :: "trap \<Rightarrow> Instruction \<Rightarrow> Machine \<Rightarrow> (outcome \<times> Machine) result" where
  "op_LW trap i m =
     (let tmp = eff_addr i m in
      if tmp AND 3 \<noteq> 0 then Inr (Raise AddressErrorException tmp, m)
      else read_then trap tmp 4 m (load i))"

text \<open>The value a register has once the pending load is done.\<close>

definition pending_value :: "nat \<Rightarrow> Machine \<Rightarrow> 32 word" where
  "pending_value t m = (if reg m LoadReg = of_nat t then reg m LoadValueReg else reg m t)"

definition op_LWL :: "trap \<Rightarrow> Instruction \<Rightarrow> Machine \<Rightarrow> (outcome \<times> Machine) result" where
  "op_LWL trap i m =
     (let tmp = eff_addr i m in
      bindE (ASSERT (tmp AND 3 = 0)) (\<lambda>_.
      read_then trap tmp 4 m (\<lambda>v m'.
        let n = pending_value (i_rt i) m'; k = tmp AND 3 in
        load i (if k = 0 then v
                else if k = 1 then (n AND 0xff) OR push_bit 8 v
                else if k = 2 then (n AND 0xffff) OR push_bit 16 v
                else (n AND 0xffffff) OR push_bit 24 v) m')))"

definition op_LWR :: "trap \<Rightarrow> Instruction \<Rightarrow> Machine \<Rightarrow> (outcome \<times> Machine) result" where
  "op_LWR trap i m =
     (let tmp = eff_addr i m in
      bindE (ASSERT (tmp AND 3 = 0)) (\<lambda>_.
      read_then trap tmp 4 m (\<lambda>v m'.
        let n = pending_value (i_rt i) m'; k = tmp AND 3 in
        load i (if k = 0 then (n AND 0xffffff00) OR (signed_drop_bit 24 v AND 0xff)
                else if k = 1 then (n AND 0xffff0000) OR (signed_drop_bit 16 v AND 0xffff)
                else if k = 2 then (n AND 0xff000000) OR (signed_drop_bit 8 v AND 0xffffff)
                else v) m')))"

definition store :: "trap \<Rightarrow> 32 word \<Rightarrow> int \<Rightarrow> 32 word \<Rightarrow> Machine \<Rightarrow> (outcome \<times> Machine) result" where
  "store trap addr sz v m =
     bindE (WriteMem trap addr sz v m) (\<lambda>(ok, m').
       Inr (if ok then Next (reg m' NextPCReg + 4) 0 0 else Trapped, m'))"

definition op_SWL :: "trap \<Rightarrow> Instruction \<Rightarrow> Machine \<Rightarrow> (outcome \<times> Machine) result" where
  "op_SWL trap i m =
     (let tmp = eff_addr i m in
      bindE (ASSERT (tmp AND 3 = 0)) (\<lambda>_.
      read_then trap (tmp AND NOT 3) 4 m (\<lambda>v m'.
        let t = reg m' (i_rt i); k = tmp AND 3 in
        store trap (tmp AND NOT 3) 4
          (if k = 0 then t
           else if k = 1 then (v AND 0xff000000) OR (signed_drop_bit 8 t AND 0xffffff)
           else if k = 2 then (v AND 0xffff0000) OR (signed_drop_bit 16 t AND 0xffff)
           else (v AND 0xffffff00) OR (signed_drop_bit 24 t AND 0xff)) m')))"

definition op_SWR :: "trap \<Rightarrow> Instruction \<Rightarrow> Machine \<Rightarrow> (outcome \<times> Machine) result" where
  "op_SWR trap i m =
     (let tmp = eff_addr i m in
      bindE (ASSERT (tmp AND 3 = 0)) (\<lambda>_.
      read_then trap (tmp AND NOT 3) 4 m (\<lambda>v m'.
        let t = reg m' (i_rt i); k = tmp AND 3 in
        store trap (tmp AND NOT 3) 4
          (if k = 0 then (v AND 0xffffff) OR push_bit 24 t
           else if k = 1 then (v AND 0xffff) OR push_bit 16 t
           else if k = 2 then (v AND 0xff) OR push_bit 8 t
           else t) m')))"

text \<open>The switch. \<open>OP_RFE\<close> has no case of its own; \<open>SPECIAL\<close> and \<open>BCOND\<close> never leave \<open>Decode\<close>.\<close>

definition exec_op :: "trap \<Rightarrow> Instruction \<Rightarrow> Machine \<Rightarrow> (outcome \<times> Machine) result" where
  "exec_op trap i m =
     (case i_opCode i of
        OP_ADD \<Rightarrow> op_ADD i m
      | OP_ADDI \<Rightarrow> op_ADDI i m
      | OP_BEQ \<Rightarrow> branch (reg m (i_rs i) = reg m (i_rt i)) i m
      | OP_BGEZAL \<Rightarrow> (let m' = link 31 m in branch (\<not> (reg m' (i_rs i) AND SIGN_BIT \<noteq> 0)) i m')
      | OP_BGEZ \<Rightarrow> branch (\<not> (reg m (i_rs i) AND SIGN_BIT \<noteq> 0)) i m
      | OP_BGTZ \<Rightarrow> branch (sint (reg m (i_rs i)) > 0) i m
      | OP_BLEZ \<Rightarrow> branch (sint (reg m (i_rs i)) \<le> 0) i m
      | OP_BLTZAL \<Rightarrow> (let m' = link 31 m in branch (reg m' (i_rs i) AND SIGN_BIT \<noteq> 0) i m')
      | OP_BLTZ \<Rightarrow> branch (reg m (i_rs i) AND SIGN_BIT \<noteq> 0) i m
      | OP_BNE \<Rightarrow> branch (reg m (i_rs i) \<noteq> reg m (i_rt i)) i m
      | OP_DIV \<Rightarrow> op_DIV i m
      | OP_DIVU \<Rightarrow> op_DIVU i m
      | OP_JAL \<Rightarrow> jump i (link 31 m)
      | OP_J \<Rightarrow> jump i m
      | OP_JALR \<Rightarrow> jump_reg i (link (i_rd i) m)
      | OP_JR \<Rightarrow> jump_reg i m
      | OP_LB \<Rightarrow> op_LB trap i m
      | OP_LBU \<Rightarrow> op_LB trap i m
      | OP_LH \<Rightarrow> op_LH trap i m
      | OP_LHU \<Rightarrow> op_LH trap i m
      | OP_LW \<Rightarrow> op_LW trap i m
      | OP_LWL \<Rightarrow> op_LWL trap i m
      | OP_LWR \<Rightarrow> op_LWR trap i m
      | OP_MULT \<Rightarrow> op_MULT True i m
      | OP_MULTU \<Rightarrow> op_MULT False i m
      | OP_SB \<Rightarrow> store trap (eff_addr i m) 1 (reg m (i_rt i)) m
      | OP_SH \<Rightarrow> store trap (eff_addr i m) 2 (reg m (i_rt i)) m
      | OP_SUB \<Rightarrow> op_SUB i m
      | OP_SW \<Rightarrow> store trap (eff_addr i m) 4 (reg m (i_rt i)) m
      | OP_SWL \<Rightarrow> op_SWL trap i m
      | OP_SWR \<Rightarrow> op_SWR trap i m
      | OP_SYSCALL \<Rightarrow> Inr (Raise SyscallException 0, m)
      | OP_RES \<Rightarrow> Inr (Raise IllegalInstrException 0, m)
      | OP_UNIMP \<Rightarrow> Inr (Raise IllegalInstrException 0, m)
      | _ \<Rightarrow> (case alu i m of Some (d, v) \<Rightarrow> put d v m | None \<Rightarrow> Inl AssertFailed))"

text \<open>Behind the switch: the delayed load, then the program counters.\<close>

definition finish_op :: "trap \<Rightarrow> outcome \<Rightarrow> Machine \<Rightarrow> Machine result" where
  "finish_op trap r m =
     (case r of
        Raise x badVAddr \<Rightarrow> RaiseException trap x badVAddr m
      | Trapped \<Rightarrow> Inr m
      | Next pcAfter nextLoadReg nextLoadValue \<Rightarrow>
          bindE (DelayedLoad (of_nat nextLoadReg) nextLoadValue m) (\<lambda>m1.
          Inr (let m2 = set_reg PrevPCReg (reg m1 PCReg) m1;
                   m3 = set_reg PCReg (reg m2 NextPCReg) m2 in
               set_reg NextPCReg pcAfter m3)))"

definition OneInstruction :: "trap \<Rightarrow> Machine \<Rightarrow> Machine result" where
  "OneInstruction trap m =
     bindE (ReadMem trap (reg m PCReg) 4 m) (\<lambda>(raw, m1).
       case raw of
         None \<Rightarrow> Inr m1
       | Some w \<Rightarrow> bindE (exec_op trap (Decode w) m1) (\<lambda>(r, m2). finish_op trap r m2))"

section \<open>Multiplication is exact\<close>

text \<open>The 64-bit number in a pair of registers; \<open>hi32\<close> is the contribution of the upper one.\<close>

definition hi32 :: "32 word \<Rightarrow> 64 word" where
  "hi32 x = word_of_int (uint x * 2 ^ 32)"

definition pair64 :: "32 word \<Rightarrow> 32 word \<Rightarrow> 64 word" where
  "pair64 hi lo = hi32 hi + ucast lo"

lemma hi32_mod: "hi32 (word_of_int k) = word_of_int (k * 2 ^ 32)"
proof -
  have "uint (word_of_int k :: 32 word) * 2 ^ 32 = take_bit 64 (k * 2 ^ 32)"
    by (simp add: uint_word_of_int_eq take_bit_eq_mod mult_mod_left)
  then show ?thesis unfolding hi32_def by (simp only: word_of_int_eq_iff) simp
qed

lemma hi32_add: "hi32 (x + y) = hi32 x + hi32 y"
proof -
  have "hi32 (word_of_int (uint x + uint y)) = hi32 x + hi32 y"
    by (simp only: hi32_mod) (simp add: hi32_def distrib_right)
  then show ?thesis by simp
qed

lemma hi32_1 [simp]: "hi32 1 = 2 ^ 32" and hi32_0 [simp]: "hi32 0 = 0"
  by (simp_all add: hi32_def)

lemma hi32_minus: "hi32 (- x) = - hi32 x"
  using hi32_add [of x "- x"] by (simp add: eq_neg_iff_add_eq_0 add.commute)

lemma lo_add: "(ucast (x + y) :: 64 word) = ucast x + ucast y - (if x + y < y then 2 ^ 32 else 0)"
  for x y :: "32 word"
proof -
  have c: "x + y < y \<longleftrightarrow> uint x + uint y \<ge> 2 ^ 32"
    using uint_lt2p [of x] uint_lt2p [of y] by (auto simp: word_less_def uint_plus_if')
  have "(ucast (x + y) :: 64 word) = word_of_int (uint (x + y))" by (simp add: unsigned_of_int)
  also have "\<dots> = word_of_int (uint x + uint y - (if x + y < y then 2 ^ 32 else 0))"
    unfolding c by (simp add: uint_plus_if')
  finally show ?thesis by (simp add: unsigned_of_int)
qed

lemma pair64_add:
  "pair64 ((if lo + bLo < bLo then hi + 1 else hi) + bHi) (lo + bLo) = pair64 hi lo + pair64 bHi bLo"
  by (simp add: pair64_def hi32_add lo_add)

lemma div_bit: "0 \<le> x \<Longrightarrow> x < 2 * m \<Longrightarrow> x div m = (if m \<le> x then 1 else (0 :: int))"
  by (auto simp: div_pos_geq)

lemma pair64_double:
  "pair64 (if bLo AND 0x80000000 \<noteq> 0 then push_bit 1 bHi OR 1 else push_bit 1 bHi) (push_bit 1 bLo) = 2 * pair64 bHi bLo"
proof -
  have top: "bLo AND 0x80000000 \<noteq> 0 \<longleftrightarrow> bLo + bLo < bLo"
  proof -
    have "bLo AND 0x80000000 \<noteq> 0 \<longleftrightarrow> bit bLo 31"
      using and_exp_eq_0_iff_not_bit [of bLo 31] by simp
    moreover have "bit bLo 31 \<longleftrightarrow> 2 ^ 31 \<le> uint bLo"
    proof -
      have "bit bLo 31 = bit (uint bLo) 31" by (simp add: bit_uint_iff)
      also have "\<dots> = odd (uint bLo div 2 ^ 31)" by (simp add: bit_iff_odd)
      also have "\<dots> \<longleftrightarrow> 2 ^ 31 \<le> uint bLo" using uint_lt2p [of bLo] by (simp add: div_bit)
      finally show ?thesis .
    qed
    moreover have "bLo + bLo < bLo \<longleftrightarrow> 2 ^ 31 \<le> uint bLo"
      unfolding word_less_def uint_plus_if' [of bLo bLo] using uint_lt2p [of bLo] by auto
    ultimately show ?thesis by blast
  qed
  have "push_bit 1 bHi OR 1 = bHi + bHi + 1" "push_bit 1 x = x + x" for x :: "32 word"
    by (simp_all add: push_bit_eq_mult or_one_eq)
  moreover have "pair64 (if bLo + bLo < bLo then bHi + bHi + 1 else bHi + bHi) (bLo + bLo) = 2 * pair64 bHi bLo"
    using pair64_add [of bLo bLo bHi bHi] by (cases "bLo + bLo < bLo") (simp_all only: if_True if_False ac_simps mult_2 mult_2_right)
  ultimately show ?thesis by (simp only: top)
qed

lemma odd_and_1: "a AND 1 \<noteq> 0 \<longleftrightarrow> uint a mod 2 = 1" for a :: "32 word"
proof -
  have "a AND 1 \<noteq> 0 \<longleftrightarrow> bit a 0" by (simp add: and_one_eq bit_0 mod_2_eq_odd)
  also have "\<dots> \<longleftrightarrow> bit (uint a) 0" by (simp only: bit_uint_iff) simp
  finally have "a AND 1 \<noteq> 0 \<longleftrightarrow> bit (uint a) 0" .
  then show ?thesis by (simp add: bit_0 odd_iff_mod_2_eq_one)
qed

lemma only_bit_0: "a AND 1 \<noteq> 0 \<Longrightarrow> a AND 0xfffffffe = 0 \<Longrightarrow> a = 1" for a :: "32 word"
proof -
  assume a: "a AND 1 \<noteq> 0" "a AND 0xfffffffe = 0"
  have all: "(- 1 :: 32 word) = 1 OR 0xfffffffe" by simp
  have "a = a AND (- 1)" by simp
  also have "\<dots> = a AND (1 OR 0xfffffffe)" by (simp only: all)
  also have "\<dots> = a AND 1" using a(2) by (simp only: bit.conj_disj_distrib) simp
  finally show "a = 1" using a(1) by (cases "odd a") (auto simp: and_one_eq mod_2_eq_odd)
qed

lemma sra_low_bits: "n < 32 \<Longrightarrow> uint (signed_drop_bit 1 a) mod 2 ^ n = (uint a div 2) mod 2 ^ n" for a :: "32 word"
proof -
  assume n: "n < 32"
  have "take_bit n (uint (signed_drop_bit 1 a)) = take_bit n (drop_bit 1 (uint a))"
    by (rule bit_eqI) (use n in \<open>auto simp: bit_take_bit_iff bit_uint_iff bit_signed_drop_bit_iff bit_drop_bit_eq\<close>)
  then show ?thesis by (simp add: take_bit_eq_mod drop_bit_eq_div)
qed

lemma mult_loop_spec:
  "n \<le> 32 \<Longrightarrow> mult_loop n a bHi bLo hi lo = (h, l) \<Longrightarrow>
   pair64 h l = pair64 hi lo + pair64 bHi bLo * word_of_int (uint a mod 2 ^ n)"
proof (induction n arbitrary: a bHi bLo hi lo)
  case (Suc n)
  let ?odd = "a AND 1 \<noteq> 0"
  let ?lo = "if ?odd then lo + bLo else lo"
  let ?hi = "if ?odd then (if ?lo < bLo then hi + 1 else hi) + bHi else hi"
  have acc: "pair64 ?hi ?lo = pair64 hi lo + pair64 bHi bLo * word_of_int (uint a mod 2)"
    using odd_and_1 [of a] by (cases ?odd) (auto simp: pair64_add mod_2_eq_odd)
  show ?case
  proof (cases "?odd \<and> a AND 0xfffffffe = 0")
    case True
    have "(1 :: int) mod 2 ^ Suc n = 1" by (rule mod_pos_pos_trivial) (simp_all add: one_less_power del: power_Suc)
    with True have "uint a mod 2 ^ Suc n = uint a mod 2" using only_bit_0 [of a] by auto
    moreover have "h = ?hi" "l = ?lo" using Suc.prems(2) True by (auto simp: Let_def)
    ultimately show ?thesis using acc by (simp del: power_Suc)
  next
    case False
    let ?a = "signed_drop_bit 1 a"
    have "pair64 h l = pair64 ?hi ?lo + 2 * pair64 bHi bLo * word_of_int (uint ?a mod 2 ^ n)"
    proof -
      let ?bHi = "if bLo AND 0x80000000 \<noteq> 0 then push_bit 1 bHi OR 1 else push_bit 1 bHi"
      have "mult_loop n ?a ?bHi (push_bit 1 bLo) ?hi ?lo = (h, l)"
        using Suc.prems(2) unfolding mult_loop.simps(2) Let_def if_not_P [OF False] .
      from Suc.IH [OF _ this] Suc.prems(1) show ?thesis by (simp only: pair64_double)
    qed
    moreover have "uint ?a mod 2 ^ n = (uint a div 2) mod 2 ^ n" using sra_low_bits Suc.prems(1) by simp
    moreover have "uint a mod 2 ^ Suc n = uint a mod 2 + 2 * (uint a div 2 mod 2 ^ n)" 
      using zmod_zmult2_eq [of "2 ^ n" "uint a" 2] by simp
    ultimately show ?thesis using acc by (simp add: algebra_simps)
  qed
qed simp

lemma pair64_uint: "uint (pair64 hi lo) = uint hi * 2 ^ 32 + uint lo"
proof -
  have "pair64 hi lo = word_of_int (uint hi * 2 ^ 32 + uint lo)"
    by (simp add: pair64_def hi32_def unsigned_of_int)
  moreover have "uint hi * 2 ^ 32 + uint lo < 2 ^ 64" using uint_lt2p [of hi] uint_lt2p [of lo] by simp
  ultimately show ?thesis by (simp only: uint_word_of_int_eq take_bit_eq_mod) (simp add: mod_pos_pos_trivial)
qed

lemma pair64_negate:
  "pair64 (if NOT lo + 1 = 0 then NOT hi + 1 else NOT hi) (NOT lo + 1) = - pair64 hi lo"
proof -
  have n: "NOT x + 1 = - x" "NOT x = - x - 1" for x :: "32 word" by (simp_all add: not_eq_complement)
  have "(ucast (- lo) :: 64 word) = (if lo = 0 then 0 else 2 ^ 32 - ucast lo)"
  proof (cases "lo = 0")
    case False
    have "uint lo mod 2 ^ 32 = uint lo" using uint_lt2p [of lo] by simp
    then have "uint (- lo) = 2 ^ 32 - uint lo" using False by (simp add: uint_word_ariths zmod_zminus1_eq_if uint_0_iff)
    moreover have "(ucast (- lo) :: 64 word) = word_of_int (uint (- lo))" by (simp add: unsigned_of_int)
    ultimately have "(ucast (- lo) :: 64 word) = word_of_int (2 ^ 32 - uint lo)" by metis
    then show ?thesis using False by simp
  qed simp
  then show ?thesis unfolding n
    by (cases "lo = 0") (simp_all add: pair64_def hi32_minus hi32_add [of "- hi" "- 1", simplified])
qed

lemma Mult_unsigned_pair: "Mult a b False = (hi, lo) \<Longrightarrow> pair64 hi lo = word_of_int (uint a * uint b)"
  using mult_loop_spec [of 32 a 0 b 0 0 hi lo] uint_lt2p [of a]
  by (auto simp: Mult_def mult_abs_def pair64_def split: if_splits)

lemma mult_abs_uint: "uint (mult_abs True a) = \<bar>sint a\<bar>"
proof (cases "sint a < 0")
  case True
  have "- a = word_of_int (- sint a)" by simp
  then have "uint (- a) = (- sint a) mod 2 ^ 32" by (simp only: uint_word_of_int) simp
  moreover have "- sint a < 2 ^ 32" using sint_greater_eq [of a] by simp
  ultimately show ?thesis using True by (simp add: mult_abs_def)
next
  case False
  have "a = word_of_int (sint a)" by simp
  then have "uint a = sint a mod 2 ^ 32" using uint_word_of_int [of "sint a", where 'a = 32] by simp
  moreover have "sint a < 2 ^ 32" using sint_less [of a] by simp
  ultimately show ?thesis using False by (simp add: mult_abs_def)
qed

lemma Mult_signed_pair: "Mult a b True = (hi, lo) \<Longrightarrow> pair64 hi lo = word_of_int (sint a * sint b)"
proof -
  assume r: "Mult a b True = (hi, lo)"
  obtain h l where hl: "mult_loop 32 (mult_abs True a) 0 (mult_abs True b) 0 0 = (h, l)" by force
  have ub: "(ucast (mult_abs True b) :: 64 word) = word_of_int \<bar>sint b\<bar>"
    unfolding mult_abs_uint [symmetric] by simp
  have p: "pair64 h l = word_of_int (\<bar>sint a\<bar> * \<bar>sint b\<bar>)"
    using mult_loop_spec [OF _ hl] uint_lt2p [of "mult_abs True a"]
    by (auto simp: pair64_def mult_abs_uint ub mult.commute)
  show ?thesis
  proof (cases "a = 0 \<or> b = 0")
    case False
    consider "(sint a < 0) = (sint b < 0)" | "(sint a < 0) \<noteq> (sint b < 0)" by blast
    then show ?thesis
    proof cases
      case 1
      then have "\<bar>sint a\<bar> * \<bar>sint b\<bar> = sint a * sint b" by (auto simp: abs_if)
      then show ?thesis using r hl p 1 False by (simp add: Mult_def)
    next
      case 2
      then have "\<bar>sint a\<bar> * \<bar>sint b\<bar> = - (sint a * sint b)" by (auto simp: abs_if)
      then show ?thesis using r hl p 2 False pair64_negate [of l h] by (auto simp: Mult_def Let_def)
    qed
  qed (use r in \<open>auto simp: Mult_def pair64_def\<close>)
qed

lemma sint_word_of_int_id: "- (2 ^ 63) \<le> k \<Longrightarrow> k < 2 ^ 63 \<Longrightarrow> sint (word_of_int k :: 64 word) = k"
  by (simp add: signed_of_int signed_take_bit_int_eq_self)

lemma sint_prod_bounds: "\<bar>sint a * sint b\<bar> \<le> 2 ^ 62" for a b :: "32 word"
proof -
  have "\<bar>sint a\<bar> \<le> 2 ^ 31" "\<bar>sint b\<bar> \<le> 2 ^ 31"
    using sint_less [of a] sint_greater_eq [of a] sint_less [of b] sint_greater_eq [of b] by auto
  then have "\<bar>sint a\<bar> * \<bar>sint b\<bar> \<le> 2 ^ 31 * 2 ^ 31" by (intro mult_mono) auto
  then show ?thesis by (simp add: abs_mult)
qed

lemma uint_prod_bounds: "uint a * uint b < 2 ^ 64" for a b :: "32 word"
proof -
  have "uint a * uint b \<le> (2 ^ 32 - 1) * (2 ^ 32 - 1)"
    using uint_lt2p [of a] uint_lt2p [of b] by (intro mult_mono) auto
  then show ?thesis by simp
qed

section \<open>Properties of the arithmetic\<close>

text \<open>
  (C34) \<open>Mult\<close> is exact: \<open>hi\<close> and \<open>lo\<close> together are the 64-bit product of the operands, read as signed
  numbers for \<open>MULT\<close> and as unsigned ones for \<open>MULTU\<close>, for all \<open>2\<^sup>6\<^sup>4\<close> pairs of operands, \<open>INT_MIN\<close> included.
\<close>

theorem Mult_exact:
  "(case Mult a b True of (hi, lo) \<Rightarrow> sint (pair64 hi lo) = sint a * sint b) \<and>
   (case Mult a b False of (hi, lo) \<Rightarrow> uint hi * 2 ^ 32 + uint lo = uint a * uint b)"
proof -
  obtain h l where s: "Mult a b True = (h, l)" by force
  have "sint (pair64 h l) = sint a * sint b"
    using Mult_signed_pair [OF s] sint_prod_bounds [of a b] sint_word_of_int_id [of "sint a * sint b"] by auto
  moreover obtain h' l' where u: "Mult a b False = (h', l')" by force
  have "uint (pair64 h' l') = uint a * uint b"
    using Mult_unsigned_pair [OF u] uint_prod_bounds [of a b]
    by (simp only: uint_word_of_int_eq take_bit_eq_mod) (simp add: mod_pos_pos_trivial)
  ultimately show ?thesis using s u by (simp add: pair64_uint)
qed

end
