(* ===== verification/Mips_Exec.thy ===== *)
theory Mips_Exec
  imports Mips_Sim
begin

text \<open>
  Correctness of the simulated instructions (\<open>machine/mipssim.cc\<close>): overflow detection, decoding, the
  invariant of the register file, the load and branch delay slots, and two instructions that
  do not do what the processor does.
\<close>

unbundle bit_operations_syntax

section \<open>Overflow\<close>

lemma sign_bit_iff: "x AND 0x80000000 \<noteq> 0 \<longleftrightarrow> sint x < 0" for x :: "32 word"
  using and_exp_eq_0_iff_not_bit [of x 31] bit_last_iff [of x] by simp

lemma sign_xor: "(x XOR y) AND 0x80000000 \<noteq> 0 \<longleftrightarrow> (sint x < 0) \<noteq> (sint y < 0)" for x y :: "32 word"
  unfolding sign_bit_iff using bit_last_iff [of x] bit_last_iff [of y] bit_last_iff [of "x XOR y"]
  by (simp add: bit_xor_iff)

definition fits32 :: "int \<Rightarrow> bool" where
  "fits32 k \<longleftrightarrow> - (2 ^ 31) \<le> k \<and> k < 2 ^ 31"

lemma sint_fits: "fits32 (sint x)" for x :: "32 word"
  using sint_less [of x] sint_greater_eq [of x] by (simp add: fits32_def)

text \<open>A 32-bit signed number determined up to a multiple of \<open>2\<^sup>3\<^sup>2\<close>.\<close>

lemma sint_of_int_cases:
  fixes k :: int
  assumes "fits32 a" "fits32 b" "k = a + b \<or> k = a - b"
  shows "sint (word_of_int k :: 32 word) = (if k < - (2 ^ 31) then k + 2 ^ 32 else if k \<ge> 2 ^ 31 then k - 2 ^ 32 else k)"
proof -
  let ?x = "sint (word_of_int k :: 32 word)"
  have "word_of_int ?x = (word_of_int k :: 32 word)" by simp
  then have "?x mod 2 ^ 32 = k mod 2 ^ 32" by (simp only: word_of_int_eq_iff take_bit_eq_mod) simp
  then have "2 ^ 32 dvd ?x - k" by (simp only: mod_eq_dvd_iff)
  then obtain j where j: "?x = k + 2 ^ 32 * j" by (metis dvdE diff_eq_eq add.commute)
  have "fits32 ?x" by (rule sint_fits)
  then show ?thesis using assms j by (auto simp: fits32_def)
qed

lemma sint_sum: "sint (s + t) = (if sint s + sint t < - (2 ^ 31) then sint s + sint t + 2 ^ 32
      else if sint s + sint t \<ge> 2 ^ 31 then sint s + sint t - 2 ^ 32 else sint s + sint t)"
  and sint_difference: "sint (s - t) = (if sint s - sint t < - (2 ^ 31) then sint s - sint t + 2 ^ 32
      else if sint s - sint t \<ge> 2 ^ 31 then sint s - sint t - 2 ^ 32 else sint s - sint t)" for s t :: "32 word"
proof -
  have "s + t = word_of_int (sint s + sint t)" "s - t = word_of_int (sint s - sint t)" by simp_all
  then show "sint (s + t) = (if sint s + sint t < - (2 ^ 31) then sint s + sint t + 2 ^ 32
      else if sint s + sint t \<ge> 2 ^ 31 then sint s + sint t - 2 ^ 32 else sint s + sint t)"
    "sint (s - t) = (if sint s - sint t < - (2 ^ 31) then sint s - sint t + 2 ^ 32
      else if sint s - sint t \<ge> 2 ^ 31 then sint s - sint t - 2 ^ 32 else sint s - sint t)"
    using sint_of_int_cases [OF sint_fits sint_fits, of _ s t] by metis+
qed

lemma add_overflow:
  "((sint s < 0) = (sint t < 0) \<and> (sint s < 0) \<noteq> (sint (s + t) < 0)) \<longleftrightarrow> \<not> fits32 (sint s + sint t)"
  "((sint s < 0) \<noteq> (sint t < 0) \<and> (sint s < 0) \<noteq> (sint (s - t) < 0)) \<longleftrightarrow> \<not> fits32 (sint s - sint t)"
  for s t :: "32 word"
  unfolding sint_sum sint_difference using sint_fits [of s] sint_fits [of t] by (auto simp: fits32_def)

text \<open>
  (C35) The trapping instructions \<open>ADD\<close>, \<open>ADDI\<close> and \<open>SUB\<close> raise \<open>OverflowException\<close>, with nothing written,
  exactly when the mathematical result does not fit in 32 bits; otherwise the destination register
  gets that result.
\<close>

theorem overflow_detected:
  "op_ADD i m = (let r = sint (reg m (i_rs i)) + sint (reg m (i_rt i)) in
     if fits32 r then put (i_rd i) (word_of_int r) m else Inr (Raise OverflowException 0, m)) \<and>
   op_ADDI i m = (let r = sint (reg m (i_rs i)) + sint (i_extra i) in
     if fits32 r then put (i_rt i) (word_of_int r) m else Inr (Raise OverflowException 0, m)) \<and>
   op_SUB i m = (let r = sint (reg m (i_rs i)) - sint (reg m (i_rt i)) in
     if fits32 r then put (i_rd i) (word_of_int r) m else Inr (Raise OverflowException 0, m))"
proof (intro conjI)
  let ?s = "reg m (i_rs i)" and ?t = "reg m (i_rt i)" and ?x = "i_extra i"
  show "op_ADD i m = (let r = sint ?s + sint ?t in
     if fits32 r then put (i_rd i) (word_of_int r) m else Inr (Raise OverflowException 0, m))"
    using add_overflow(1) [of ?s ?t] unfolding op_ADD_def Let_def sign_xor by (auto simp del: sint_sum)
  show "op_ADDI i m = (let r = sint ?s + sint ?x in
     if fits32 r then put (i_rt i) (word_of_int r) m else Inr (Raise OverflowException 0, m))"
    using add_overflow(1) [of ?s ?x] unfolding op_ADDI_def Let_def sign_xor by auto
  show "op_SUB i m = (let r = sint ?s - sint ?t in
     if fits32 r then put (i_rd i) (word_of_int r) m else Inr (Raise OverflowException 0, m))"
    using add_overflow(2) [of ?s ?t] unfolding op_SUB_def Let_def sign_xor by auto
qed

section \<open>Decoding\<close>

text \<open>The three instruction formats of the processor.\<close>

definition enc_I :: "6 word \<Rightarrow> 5 word \<Rightarrow> 5 word \<Rightarrow> 16 word \<Rightarrow> 32 word" where
  "enc_I opc s t imm = push_bit 26 (ucast opc) OR push_bit 21 (ucast s) OR push_bit 16 (ucast t) OR ucast imm"

definition enc_R :: "5 word \<Rightarrow> 5 word \<Rightarrow> 5 word \<Rightarrow> 5 word \<Rightarrow> 6 word \<Rightarrow> 32 word" where
  "enc_R s t d shamt funct =
     push_bit 21 (ucast s) OR push_bit 16 (ucast t) OR push_bit 11 (ucast d) OR push_bit 6 (ucast shamt) OR ucast funct"

definition enc_J :: "6 word \<Rightarrow> 26 word \<Rightarrow> 32 word" where
  "enc_J opc target = push_bit 26 (ucast opc) OR ucast target"

lemma small_bit: "bit w n \<Longrightarrow> n < LENGTH('a)" for w :: "'a::len word"
  by (rule bit_imp_le_length)

lemma field_masks: "(0x1f :: 32 word) = mask 5" "(0x3f :: 32 word) = mask 6" "(0xffff :: 32 word) = mask 16"
  "(0x3ffffff :: 32 word) = mask 26"
  by (simp_all add: mask_eq_exp_minus_1)

lemmas field_bits = bit_or_iff bit_and_iff bit_mask_iff bit_push_bit_iff bit_unsigned_iff bit_drop_bit_eq

lemma enc_I_fields:
  "drop_bit 26 (enc_I opc s t imm) AND 0x3f = ucast opc" "drop_bit 21 (enc_I opc s t imm) AND 0x1f = ucast s"
  "drop_bit 16 (enc_I opc s t imm) AND 0x1f = ucast t" "enc_I opc s t imm AND 0xffff = ucast imm"
  unfolding field_masks enc_I_def
  by (rule bit_word_eqI; auto simp: field_bits dest: small_bit)+

lemma enc_R_fields:
  "drop_bit 26 (enc_R s t d h f) AND 0x3f = 0" "drop_bit 21 (enc_R s t d h f) AND 0x1f = ucast s"
  "drop_bit 16 (enc_R s t d h f) AND 0x1f = ucast t" "drop_bit 11 (enc_R s t d h f) AND 0x1f = ucast d"
  "drop_bit 6 (enc_R s t d h f) AND 0x1f = ucast h" "enc_R s t d h f AND 0x3f = ucast f"
  unfolding field_masks enc_R_def
  by (rule bit_word_eqI; auto simp: field_bits dest: small_bit)+

lemma enc_J_fields:
  "drop_bit 26 (enc_J opc target) AND 0x3f = ucast opc" "enc_J opc target AND 0x3ffffff = ucast target"
  unfolding field_masks enc_J_def
  by (rule bit_word_eqI; auto simp: field_bits dest: small_bit)+

lemma sign_extend16:
  "(if (ucast imm :: 32 word) AND 0x8000 \<noteq> 0 then ucast imm OR 0xffff0000 else ucast imm) = (scast imm :: 32 word)"
  for imm :: "16 word"
proof -
  have b: "(ucast imm :: 32 word) AND 0x8000 \<noteq> 0 \<longleftrightarrow> bit imm 15"
    using and_exp_eq_0_iff_not_bit [of "ucast imm :: 32 word" 15] by (simp add: bit_unsigned_iff)
  have m: "(0xffff0000 :: 32 word) = NOT (mask 16)" by (simp add: mask_eq_exp_minus_1)
  show ?thesis unfolding b m
  proof (rule bit_word_eqI)
    fix n assume "n < LENGTH(32)"
    moreover have "n < 15 \<or> n = 15 \<or> 16 \<le> n" by linarith
    ultimately show "bit (if bit imm 15 then (ucast imm :: 32 word) OR NOT (mask 16) else ucast imm) n = bit (scast imm :: 32 word) n"
      by (auto simp: field_bits bit_not_iff bit_signed_iff not_less not_le min_def dest: small_bit)
  qed
qed

lemma opTable_0: "opTable ! 0 = (SPECIAL, RFMT)"
  by (simp add: opTable_def)

lemma unat6_less: "unat x < 64" for x :: "6 word"
  using unsigned_less [of x] by simp

lemma unat5_less: "unat x < 32" for x :: "5 word"
  using unsigned_less [of x] by simp

lemma unat_small [simp]: "unat (ucast x :: 32 word) = unat x" for x :: "5 word"
  using unat5_less [of x] by (simp add: unsigned_ucast_eq take_bit_nat_eq_self)

lemma unat_small6 [simp]: "unat (ucast x :: 32 word) = unat x" for x :: "6 word"
  using unat6_less [of x] by (simp add: unsigned_ucast_eq take_bit_nat_eq_self)

text \<open>
  (C36) \<open>Decode\<close> inverts the encoding of each format: opcode, register fields, sign-extended
  immediate, shift amount and jump target come out as they were put in.
\<close>

theorem Decode_encode:
  assumes I: "opTable ! unat opc = (o1, IFMT)" "o1 \<noteq> BCOND" and J: "opTable ! unat opc' = (o2, JFMT)"
  shows "(let d = Decode (enc_I opc s t imm) in
           i_opCode d = o1 \<and> i_rs d = unat s \<and> i_rt d = unat t \<and> i_extra d = scast imm) \<and>
         (let d = Decode (enc_J opc' target) in i_opCode d = o2 \<and> i_extra d = ucast target) \<and>
         Decode (enc_R s t r shamt funct) =
           \<lparr>i_opCode = specialTable ! unat funct, i_rs = unat s, i_rt = unat t, i_rd = unat r,
            i_extra = ucast shamt\<rparr>"
proof -
  have special: "(opc, IFMT) \<in> set opTable \<Longrightarrow> opc \<noteq> SPECIAL" "(opc, JFMT) \<in> set opTable \<Longrightarrow> opc \<notin> {SPECIAL, BCOND}"
    for opc by (auto simp: opTable_def)
  have len: "unat x < length opTable" for x :: "6 word"
    using unat6_less [of x] by (simp add: opTable_def)
  have "o1 \<noteq> SPECIAL" "o2 \<notin> {SPECIAL, BCOND}"
    using special(1) [of o1] special(2) [of o2] I(1) J nth_mem [OF len [of opc]] nth_mem [OF len [of opc']] by auto
  then show ?thesis
    using I J by (simp add: Decode_def enc_I_fields enc_J_fields enc_R_fields sign_extend16 opTable_0 Let_def)
qed

theorem Decode_encode_witness:
  "opTable ! unat (35 :: 6 word) = (OP_LW, IFMT) \<and> opTable ! unat (3 :: 6 word) = (OP_JAL, JFMT) \<and>
   i_opCode (Decode (enc_I 35 29 8 0xFFFC)) = OP_LW \<and> i_extra (Decode (enc_I 35 29 8 0xFFFC)) = - 4 \<and>
   i_opCode (Decode (enc_J 3 100)) = OP_JAL \<and>
   Decode (enc_R 1 2 3 0 33) = \<lparr>i_opCode = OP_ADDU, i_rs = 1, i_rt = 2, i_rd = 3, i_extra = 0\<rparr>"
proof -
  have t: "opTable ! unat (35 :: 6 word) = (OP_LW, IFMT)" "opTable ! unat (3 :: 6 word) = (OP_JAL, JFMT)"
    "specialTable ! unat (33 :: 6 word) = OP_ADDU"
    by (simp_all add: opTable_def specialTable_def)
  show ?thesis using Decode_encode [OF t(1) _ t(2), of 29 8 "0xFFFC" 100 3 0 33]
    Decode_encode [OF t(1) _ t(2), of 1 2 "0xFFFC" 100 3 0 33] t
    by (simp add: Let_def)
qed

section \<open>The register file\<close>

text \<open>
  Between two instructions register 0 is zero and the pending delayed load names a general purpose
  register. Inside an instruction register 0 may hold something else (\<open>cpu_busy\<close>).
\<close>

definition cpu_busy :: "Machine \<Rightarrow> bool" where
  "cpu_busy m \<longleftrightarrow> machine_wf m \<and> uint (reg m LoadReg) < 32"

definition cpu_wf :: "Machine \<Rightarrow> bool" where
  "cpu_wf m \<longleftrightarrow> cpu_busy m \<and> reg m 0 = 0"

text \<open>What the simulator relies on: the kernel's handler leaves the register file well formed.\<close>

definition trap_ok :: "trap \<Rightarrow> bool" where
  "trap_ok trap \<longleftrightarrow> (\<forall>x m m'. cpu_wf m \<longrightarrow> trap x m = Inr m' \<longrightarrow> cpu_wf m')"

lemma set_reg_sel [simp]:
  "mainMemory (set_reg d v m) = mainMemory m" "spaceTable (set_reg d v m) = spaceTable m"
  "tlb (set_reg d v m) = tlb m" "length (registers (set_reg d v m)) = length (registers m)"
  by (simp_all add: set_reg_def)

lemma reg_set_reg: "d < length (registers m) \<Longrightarrow> reg (set_reg d v m) n = (if n = d then v else reg m n)"
  by (simp add: set_reg_def nth_list_update)

lemma cpu_busy_len: "cpu_busy m \<Longrightarrow> length (registers m) = 40"
  by (simp add: cpu_busy_def machine_wf_def)

lemma cpu_busy_set_reg: "cpu_busy m \<Longrightarrow> d < 40 \<Longrightarrow> d \<noteq> LoadReg \<Longrightarrow> cpu_busy (set_reg d v m)"
  by (simp add: cpu_busy_def machine_wf_def reg_set_reg)

lemma cpu_wf_busy: "cpu_wf m \<Longrightarrow> cpu_busy m"
  by (simp add: cpu_wf_def)

lemma sint_uint_small: "uint x < 32 \<Longrightarrow> sint x = uint x" for x :: "32 word"
proof -
  assume "uint x < 32"
  moreover have "- (2 ^ 31) \<le> uint x" by (rule order_trans [OF _ uint_ge_0]) simp
  ultimately show ?thesis by (simp add: sint_uint signed_take_bit_int_eq_self)
qed

text \<open>The delayed load: it succeeds, and every register but the target and the load registers keeps its value.\<close>

lemma DelayedLoad_ok:
  assumes "cpu_busy m" "uint nr < 32"
  shows "\<exists>m'. DelayedLoad nr nv m = Inr m' \<and> cpu_wf m' \<and> mainMemory m' = mainMemory m \<and>
           spaceTable m' = spaceTable m \<and> tlb m' = tlb m \<and> length (registers m') = 40 \<and>
           (\<forall>n<40. reg m' n = (if n = 0 then 0 else if n = LoadReg then nr else if n = LoadValueReg then nv
                      else if n = unat (reg m LoadReg) then reg m LoadValueReg else reg m n))"
proof -
  have len: "length (registers m) = 40" using assms(1) by (rule cpu_busy_len)
  have l: "unat (reg m LoadReg) < 32" "sint (reg m LoadReg) = int (unat (reg m LoadReg))"
    using assms(1) sint_uint_small [of "reg m LoadReg"] uint_nat [of "reg m LoadReg"]
    by (simp_all only: cpu_busy_def) linarith+
  let ?r = "(registers m)[unat (reg m LoadReg) := reg m LoadValueReg]"
  let ?m = "set_reg 0 0 (set_reg LoadValueReg nv (set_reg LoadReg nr (m\<lparr>registers := ?r\<rparr>)))"
  have "arr_set (registers m) (int (unat (reg m LoadReg))) (reg m LoadValueReg) = Inr ?r"
    by (rule arr_set_of_nat) (use l(1) len in linarith)
  then have "DelayedLoad nr nv m = Inr ?m" unfolding DelayedLoad_def l(2) by (simp only: bindE_Inr)
  moreover have "cpu_wf ?m"
  proof -
    have "length (mainMemory m) = 4096" using assms(1) by (simp add: cpu_busy_def machine_wf_def)
    then show ?thesis using assms(2) len by (simp add: cpu_wf_def cpu_busy_def machine_wf_def reg_set_reg)
  qed
  moreover have "length (registers ?m) = 40" using len by simp
  moreover have "reg ?m n = (if n = 0 then 0 else if n = LoadReg then nr else if n = LoadValueReg then nv
                      else if n = unat (reg m LoadReg) then reg m LoadValueReg else reg m n)" if "n < 40" for n
    using len that by (simp add: reg_set_reg nth_list_update)
  ultimately show ?thesis by (intro exI [of _ ?m]) simp
qed

lemma RaiseException_wf:
  assumes "cpu_busy m" "trap_ok trap" "RaiseException trap x b m = Inr m'"
  shows "cpu_wf m'"
proof -
  have "cpu_busy (set_reg BadVAddrReg b m)" using assms(1) by (simp add: cpu_busy_set_reg)
  from DelayedLoad_ok [OF this, of 0 0] obtain m1 where "DelayedLoad 0 0 (set_reg BadVAddrReg b m) = Inr m1" "cpu_wf m1"
    by auto
  then show ?thesis using assms(2,3) by (auto simp: RaiseException_def trap_ok_def)
qed

lemma cpu_busy_frame: "cpu_busy m \<Longrightarrow> registers m' = registers m \<Longrightarrow> length (mainMemory m') = length (mainMemory m) \<Longrightarrow> cpu_busy m'"
  by (simp add: cpu_busy_def machine_wf_def)

lemma ReadMem_cases:
  assumes "ReadMem trap a sz m = Inr (r, m')" "sz \<in> {1, 2, 4}"
  shows "case r of None \<Rightarrow> (\<exists>x. RaiseException trap x a m = Inr m')
         | Some v \<Rightarrow> registers m' = registers m \<and> mainMemory m' = mainMemory m"
proof -
  obtain t where t: "Translate a sz False m = Inr t" using assms(1) by (auto simp: ReadMem_def nachos_dests)
  show ?thesis
  proof (cases t)
    case (Inl x)
    then show ?thesis using assms(1) t by (auto simp: ReadMem_def nachos_dests)
  next
    case (Inr p)
    obtain pa m1 where p: "p = (pa, m1)" by (cases p)
    then have "registers m1 = registers m \<and> mainMemory m1 = mainMemory m"
      using Translate_Inr [of a sz False m pa m1] t Inr assms(2) by blast
    then show ?thesis using assms(1) t Inr p by (auto simp: ReadMem_def nachos_dests)
  qed
qed

lemma WriteMem_cases:
  assumes "WriteMem trap a sz v m = Inr (ok, m')" "sz \<in> {1, 2, 4}" "machine_wf m"
  shows "if ok then registers m' = registers m \<and> machine_wf m' else \<exists>x. RaiseException trap x a m = Inr m'"
proof -
  obtain t where t: "Translate a sz True m = Inr t" using assms(1) by (auto simp: WriteMem_def nachos_dests)
  show ?thesis
  proof (cases t)
    case (Inl x)
    then show ?thesis using assms(1) t by (auto simp: WriteMem_def nachos_dests)
  next
    case (Inr p)
    obtain pa m1 where p: "p = (pa, m1)" by (cases p)
    then have m1: "registers m1 = registers m \<and> mainMemory m1 = mainMemory m \<and> 0 \<le> pa \<and> pa + sz \<le> 4096"
      using Translate_Inr [of a sz True m pa m1] t Inr assms(2) by blast
    have "ok" and st: "store_bytes pa sz v m1 = Inr m'" using assms(1) t Inr p by (auto simp: WriteMem_def nachos_dests)
    then show ?thesis using store_frame [OF st] m1 assms(3) by (simp add: machine_wf_def)
  qed
qed

definition outcome_wf :: "outcome \<times> Machine \<Rightarrow> bool" where
  "outcome_wf p = (case p of (Trapped, m) \<Rightarrow> cpu_wf m | (Raise x b, m) \<Rightarrow> cpu_busy m
     | (Next pc lr v, m) \<Rightarrow> cpu_busy m \<and> lr < 32)"

lemma outcome_wf_simps [simp]:
  "outcome_wf (Trapped, m) = cpu_wf m" "outcome_wf (Raise x b, m) = cpu_busy m"
  "outcome_wf (Next pc lr v, m) = (cpu_busy m \<and> lr < 32)"
  by (simp_all add: outcome_wf_def)

lemma alu_dest: "alu i m = Some (d, v) \<Longrightarrow> i_rt i < 32 \<Longrightarrow> i_rd i < 32 \<Longrightarrow> d < 34"
  by (cases "i_opCode i") (auto simp: alu_def Let_def)

lemma put_wf: "put d v m = Inr p \<Longrightarrow> cpu_busy m \<Longrightarrow> d < 34 \<Longrightarrow> outcome_wf p"
  by (auto simp: put_def cpu_busy_set_reg)

lemma read_then_wf:
  assumes "read_then trap a sz m k = Inr p" "cpu_busy m" "trap_ok trap" "sz \<in> {1, 2, 4}"
    and "\<And>v m'. cpu_busy m' \<Longrightarrow> k v m' = Inr p \<Longrightarrow> outcome_wf p"
  shows "outcome_wf p"
proof -
  obtain r m' where r: "ReadMem trap a sz m = Inr (r, m')" using assms(1) by (auto simp: read_then_def nachos_dests)
  note c = ReadMem_cases [OF r assms(4)]
  show ?thesis
  proof (cases r)
    case None
    with c have "cpu_wf m'" using RaiseException_wf [OF assms(2,3)] by auto
    then show ?thesis using assms(1) r None by (auto simp: read_then_def)
  next
    case (Some v)
    with c have "cpu_busy m'" using cpu_busy_frame [OF assms(2)] by auto
    then show ?thesis using assms(1,5) r Some by (auto simp: read_then_def)
  qed
qed

lemma store_wf:
  assumes "store trap a sz v m = Inr p" "cpu_busy m" "trap_ok trap" "sz \<in> {1, 2, 4}"
  shows "outcome_wf p"
proof -
  obtain ok m' where r: "WriteMem trap a sz v m = Inr (ok, m')" using assms(1) by (auto simp: store_def nachos_dests)
  have "machine_wf m" using assms(2) by (simp add: cpu_busy_def)
  note c = WriteMem_cases [OF r assms(4) this]
  show ?thesis
  proof (cases ok)
    case False
    with c have "cpu_wf m'" using RaiseException_wf [OF assms(2,3)] by auto
    then show ?thesis using assms(1) r False by (auto simp: store_def)
  next
    case True
    with c have "cpu_busy m'" using assms(2) by (auto simp: cpu_busy_def)
    then show ?thesis using assms(1) r True by (auto simp: store_def)
  qed
qed

lemma load_wf: "load i v m = Inr p \<Longrightarrow> cpu_busy m \<Longrightarrow> i_rt i < 32 \<Longrightarrow> outcome_wf p"
  by (auto simp: load_def)

lemma control_wf:
  "cpu_busy m \<Longrightarrow> branch c i m = Inr p \<Longrightarrow> outcome_wf p" "cpu_busy m \<Longrightarrow> jump i m = Inr p \<Longrightarrow> outcome_wf p"
  "cpu_busy m \<Longrightarrow> jump_reg i m = Inr p \<Longrightarrow> outcome_wf p" "cpu_busy m \<Longrightarrow> d < 32 \<Longrightarrow> cpu_busy (link d m)"
  by (auto simp: branch_def jump_def jump_reg_def link_def cpu_busy_set_reg)

lemma arith_wf:
  assumes "cpu_busy m" "i_rt i < 32" "i_rd i < 32"
  shows "op_ADD i m = Inr p \<Longrightarrow> outcome_wf p" "op_ADDI i m = Inr p \<Longrightarrow> outcome_wf p"
    "op_SUB i m = Inr p \<Longrightarrow> outcome_wf p" "op_DIV i m = Inr p \<Longrightarrow> outcome_wf p"
    "op_DIVU i m = Inr p \<Longrightarrow> outcome_wf p" "op_MULT sg i m = Inr p \<Longrightarrow> outcome_wf p"
  using assms by (auto simp: op_ADD_def op_ADDI_def op_SUB_def op_DIV_def op_DIVU_def op_MULT_def Let_def
      cpu_busy_set_reg split: if_splits prod.splits intro: put_wf)

lemma load_ops_wf:
  assumes "cpu_busy m" "trap_ok trap" "i_rt i < 32"
  shows "op_LB trap i m = Inr p \<Longrightarrow> outcome_wf p" "op_LH trap i m = Inr p \<Longrightarrow> outcome_wf p"
    "op_LW trap i m = Inr p \<Longrightarrow> outcome_wf p" "op_LWL trap i m = Inr p \<Longrightarrow> outcome_wf p"
    "op_LWR trap i m = Inr p \<Longrightarrow> outcome_wf p"
  using assms unfolding op_LB_def op_LH_def op_LW_def op_LWL_def op_LWR_def Let_def
  by (auto simp: nachos_dests split: if_splits elim!: read_then_wf load_wf)

lemma store_ops_wf:
  assumes "cpu_busy m" "trap_ok trap"
  shows "op_SWL trap i m = Inr p \<Longrightarrow> outcome_wf p" "op_SWR trap i m = Inr p \<Longrightarrow> outcome_wf p"
  using assms unfolding op_SWL_def op_SWR_def Let_def
  by (auto simp: nachos_dests elim!: read_then_wf store_wf)

lemma exec_op_wf:
  assumes "exec_op trap i m = Inr p" "cpu_busy m" "trap_ok trap" "i_rt i < 32" "i_rd i < 32"
  shows "outcome_wf p"
proof -
  have alu: "outcome_wf p" if "(case alu i m of Some (d, v) \<Rightarrow> put d v m | None \<Rightarrow> Inl AssertFailed) = Inr p"
    using that assms(2,4,5) by (auto split: option.splits intro: put_wf alu_dest)
  have l: "cpu_busy (link 31 m)" "cpu_busy (link (i_rd i) m)" by (rule control_wf(4) [OF assms(2)], use assms(5) in simp)+
  have s: "store trap a sz v m = Inr p \<Longrightarrow> sz \<in> {1, 2, 4} \<Longrightarrow> outcome_wf p" for a sz v
    using store_wf assms(2,3) by blast
  note rules = alu arith_wf [OF assms(2,4,5)] load_ops_wf [OF assms(2-4)] store_ops_wf [OF assms(2,3)]
    control_wf(1-3) [OF assms(2)] control_wf(1-3) [OF l(1)] control_wf(3) [OF l(2)]
  show ?thesis
    by (cases "i_opCode i"; insert assms(1); simp only: exec_op_def opcode.case Let_def;
        (erule rules | (erule s, simp) | (use assms(2) in auto)))
qed

lemma and_mask_less: "unat (v AND 0x1f) < 32" for v :: "32 word"
proof -
  have "v AND 0x1f \<le> 0x1f" by (rule word_and_le1)
  then have "unat (v AND 0x1f) \<le> unat (0x1f :: 32 word)" by (simp only: word_le_nat_alt)
  then show ?thesis by simp
qed

lemma Decode_regs: "i_rs (Decode v) < 32" "i_rt (Decode v) < 32" "i_rd (Decode v) < 32"
  by (simp_all add: Decode_def Let_def and_mask_less split: prod.splits)

lemma unat_less_of_uint: "uint x < 32 \<Longrightarrow> unat x < 32" for x :: "32 word"
  using uint_nat [of x] by linarith

lemma of_nat_small: "n < 32 \<Longrightarrow> uint (of_nat n :: 32 word) < 32"
  by (simp add: uint_word_of_int_eq unsigned_of_nat take_bit_nat_eq_self)

lemma finish_op_wf:
  assumes "finish_op trap r m = Inr m'" "outcome_wf (r, m)" "trap_ok trap"
  shows "cpu_wf m'"
proof (cases r)
  case (Next pc lr v)
  then have b: "cpu_busy m" "lr < 32" using assms(2) by auto
  obtain m1 where m1: "DelayedLoad (of_nat lr) v m = Inr m1" "cpu_wf m1"
    using DelayedLoad_ok [OF b(1) of_nat_small [OF b(2)]] by blast
  then show ?thesis using assms(1) Next cpu_busy_len [OF cpu_wf_busy [OF m1(2)]]
    by (auto simp: finish_op_def Let_def cpu_wf_def cpu_busy_def machine_wf_def reg_set_reg)
qed (use assms RaiseException_wf in \<open>auto simp: finish_op_def\<close>)

lemma OneInstruction_wf:
  assumes "cpu_wf m" "trap_ok trap" "OneInstruction trap m = Inr m'"
  shows "cpu_wf m'"
proof -
  obtain r m1 where f: "ReadMem trap (reg m PCReg) 4 m = Inr (r, m1)"
    using assms(3) by (auto simp: OneInstruction_def nachos_dests)
  have b: "cpu_busy m" using assms(1) by (rule cpu_wf_busy)
  note c = ReadMem_cases [OF f, simplified]
  show ?thesis
  proof (cases r)
    case None
    then show ?thesis using c RaiseException_wf [OF b assms(2)] assms(3) f by (auto simp: OneInstruction_def)
  next
    case (Some w)
    with c have b1: "cpu_busy m1" using cpu_busy_frame [OF b] by auto
    obtain o2 m2 where e: "exec_op trap (Decode w) m1 = Inr (o2, m2)" "finish_op trap o2 m2 = Inr m'"
      using assms(3) f Some by (auto simp: OneInstruction_def nachos_dests)
    show ?thesis using finish_op_wf [OF e(2) _ assms(2)] exec_op_wf [OF e(1) b1 assms(2)] Decode_regs by blast
  qed
qed

text \<open>
  (C9) Every instruction keeps the register file well formed, whatever the program does: register 0
  reads as zero, the pending load names one of the 32 general registers (so \<open>DelayedLoad\<close> never writes outside
  the array), and the sizes of memory and register file do not change, provided the kernel's exception
  handler does the same.
\<close>

theorem OneInstruction_keeps_wf:
  assumes "cpu_wf m" "trap_ok trap" "OneInstruction trap m = Inr m'"
  shows "cpu_wf m'"
  using assms by (rule OneInstruction_wf)

lemma trap_ok_no_trap: "trap_ok no_trap"
  by (simp add: trap_ok_def no_trap_def)

lemma one_page_cpu: "cpu_wf one_page_machine"
  by (simp add: cpu_wf_def cpu_busy_def machine_wf_def one_page_machine_def new_Machine_def)

text \<open>The memory of \<open>one_page_machine\<close> is zero: a page of no-operations.\<close>

lemma one_page_step: "\<exists>m'. OneInstruction no_trap one_page_machine = Inr m' \<and> reg m' PCReg = 0 \<and> reg m' NextPCReg = 4"
proof -
  have f: "\<exists>m1. ReadMem no_trap (reg one_page_machine PCReg) 4 one_page_machine = Inr (Some 0, m1) \<and>
      registers m1 = replicate 40 0"
    by (simp add: ReadMem_def Translate_def misaligned_def find_entry_def entry_at_def set_entry_def mark_used_def
        mark_dirty_def load_bytes_def mem_byte_def bytes_to_word_def one_page_machine_def new_Machine_def Let_def)
  then obtain m1 where m1: "ReadMem no_trap (reg one_page_machine PCReg) 4 one_page_machine = Inr (Some 0, m1)"
    "registers m1 = replicate 40 0" by blast
  have d: "Decode 0 = \<lparr>i_opCode = OP_SLL, i_rs = 0, i_rt = 0, i_rd = 0, i_extra = 0\<rparr>"
    by (simp add: Decode_def opTable_def specialTable_def)
  show ?thesis using m1
    by (simp add: OneInstruction_def d exec_op_def alu_def put_def finish_op_def DelayedLoad_def set_reg_def Let_def)
qed

theorem OneInstruction_keeps_wf_witness:
  "\<exists>m'. OneInstruction no_trap one_page_machine = Inr m' \<and> cpu_wf m'"
  using one_page_step OneInstruction_keeps_wf [OF one_page_cpu trap_ok_no_trap] by blast

section \<open>Delay slots\<close>

text \<open>The outcome of the instruction at the program counter, and that it completes.\<close>

definition completes :: "trap \<Rightarrow> Machine \<Rightarrow> 32 word \<Rightarrow> nat \<Rightarrow> 32 word \<Rightarrow> bool" where
  "completes trap m pcAfter lr lv \<longleftrightarrow>
     (\<exists>w m1 m2. ReadMem trap (reg m PCReg) 4 m = Inr (Some w, m1) \<and>
        exec_op trap (Decode w) m1 = Inr (Next pcAfter lr lv, m2))"

text \<open>The switch changes only the general registers, \<open>Hi\<close> and \<open>Lo\<close>.\<close>

definition keeps_special :: "Machine \<Rightarrow> outcome \<times> Machine \<Rightarrow> bool" where
  "keeps_special m p \<longleftrightarrow> (case p of (Next pc lr v, m') \<Rightarrow> \<forall>n\<ge>34. reg m' n = reg m n | _ \<Rightarrow> True)"

lemma keeps_special_simps [simp]:
  "keeps_special m (Trapped, m')" "keeps_special m (Raise x b, m')"
  "keeps_special m (Next pc lr v, m') \<longleftrightarrow> (\<forall>n\<ge>34. reg m' n = reg m n)"
  by (simp_all add: keeps_special_def)

lemma put_special: "cpu_busy m \<Longrightarrow> put d v m = Inr p \<Longrightarrow> d < 34 \<Longrightarrow> keeps_special m p"
  using cpu_busy_len [of m] by (auto simp: put_def reg_set_reg)

lemma read_then_special:
  assumes "read_then trap a sz m k = Inr p" "sz \<in> {1, 2, 4}"
    and "\<And>v m'. registers m' = registers m \<Longrightarrow> mainMemory m' = mainMemory m \<Longrightarrow> k v m' = Inr p \<Longrightarrow> keeps_special m p"
  shows "keeps_special m p"
proof -
  obtain r m' where r: "ReadMem trap a sz m = Inr (r, m')" using assms(1) by (auto simp: read_then_def nachos_dests)
  show ?thesis using ReadMem_cases [OF r assms(2)] assms(1,3) r
    by (cases r) (auto simp: read_then_def)
qed

lemma store_special:
  assumes "store trap a sz v m' = Inr p" "sz \<in> {1, 2, 4}" "machine_wf m'" "registers m' = registers m"
  shows "keeps_special m p"
proof -
  obtain ok m2 where r: "WriteMem trap a sz v m' = Inr (ok, m2)" using assms(1) by (auto simp: store_def nachos_dests)
  show ?thesis using WriteMem_cases [OF r assms(2,3)] assms(1,4) r by (cases ok) (auto simp: store_def)
qed

lemma load_special: "load i v m' = Inr p \<Longrightarrow> registers m' = registers m \<Longrightarrow> keeps_special m p"
  by (auto simp: load_def)

lemma control_special:
  "branch c i m = Inr p \<Longrightarrow> keeps_special m p" "jump i m = Inr p \<Longrightarrow> keeps_special m p"
  "jump_reg i m = Inr p \<Longrightarrow> keeps_special m p"
  "cpu_busy m \<Longrightarrow> d < 32 \<Longrightarrow> keeps_special (link d m) p \<Longrightarrow> keeps_special m p"
proof -
  assume a: "cpu_busy m" "d < 32" "keeps_special (link d m) p"
  have "reg (link d m) n = reg m n" if "n \<ge> 34" for n
    using that a(2) cpu_busy_len [OF a(1)] by (simp add: link_def reg_set_reg)
  then show "keeps_special m p" using a(3) by (auto simp: keeps_special_def split: prod.splits outcome.splits)
qed (auto simp: branch_def jump_def jump_reg_def)

lemma arith_special:
  assumes "cpu_busy m" "i_rt i < 32" "i_rd i < 32"
  shows "op_ADD i m = Inr p \<Longrightarrow> keeps_special m p" "op_ADDI i m = Inr p \<Longrightarrow> keeps_special m p"
    "op_SUB i m = Inr p \<Longrightarrow> keeps_special m p" "op_DIV i m = Inr p \<Longrightarrow> keeps_special m p"
    "op_DIVU i m = Inr p \<Longrightarrow> keeps_special m p" "op_MULT sg i m = Inr p \<Longrightarrow> keeps_special m p"
  using assms cpu_busy_len [OF assms(1)]
  by (auto simp: op_ADD_def op_ADDI_def op_SUB_def op_DIV_def op_DIVU_def op_MULT_def Let_def reg_set_reg
      split: if_splits prod.splits intro: put_special)

lemma load_ops_special:
  "op_LB trap i m = Inr p \<Longrightarrow> keeps_special m p" "op_LH trap i m = Inr p \<Longrightarrow> keeps_special m p"
  "op_LW trap i m = Inr p \<Longrightarrow> keeps_special m p" "op_LWL trap i m = Inr p \<Longrightarrow> keeps_special m p"
  "op_LWR trap i m = Inr p \<Longrightarrow> keeps_special m p"
  unfolding op_LB_def op_LH_def op_LW_def op_LWL_def op_LWR_def Let_def
  by (auto simp: nachos_dests split: if_splits elim!: read_then_special load_special)

lemma store_ops_special:
  assumes "machine_wf m"
  shows "op_SWL trap i m = Inr p \<Longrightarrow> keeps_special m p" "op_SWR trap i m = Inr p \<Longrightarrow> keeps_special m p"
  using assms unfolding op_SWL_def op_SWR_def Let_def
  by (auto simp: nachos_dests machine_wf_def elim!: read_then_special store_special)

lemma exec_op_special:
  assumes "exec_op trap i m = Inr p" "cpu_busy m" "i_rt i < 32" "i_rd i < 32"
  shows "keeps_special m p"
proof -
  have alu: "keeps_special m p" if "(case alu i m of Some (d, v) \<Rightarrow> put d v m | None \<Rightarrow> Inl AssertFailed) = Inr p"
    using that assms(2-4) by (auto split: option.splits intro: put_special alu_dest)
  have w: "machine_wf m" using assms(2) by (simp add: cpu_busy_def)
  have s: "store trap a sz v m = Inr p \<Longrightarrow> sz \<in> {1, 2, 4} \<Longrightarrow> keeps_special m p" for a sz v
    using store_special w by blast
  have l: "branch c i (link 31 m) = Inr p \<Longrightarrow> keeps_special m p" "jump i (link 31 m) = Inr p \<Longrightarrow> keeps_special m p"
    "jump_reg i (link (i_rd i) m) = Inr p \<Longrightarrow> keeps_special m p" for c
    using control_special(1-3) control_special(4) [OF assms(2), of 31] control_special(4) [OF assms(2,4)] by auto
  note rules = alu arith_special [OF assms(2-4)] load_ops_special store_ops_special [OF w] control_special(1-3) l
  show ?thesis
    by (cases "i_opCode i"; insert assms(1); simp only: exec_op_def opcode.case Let_def;
        (erule rules | (erule s, simp) | auto))
qed

text \<open>What a completed instruction does to the program counters and the pending load.\<close>

lemma completes_step:
  assumes "cpu_wf m" "trap_ok trap" "completes trap m p lr lv"
  shows "\<exists>m'. OneInstruction trap m = Inr m' \<and> cpu_busy m' \<and> reg m' 0 = 0 \<and> lr < 32 \<and>
           reg m' PrevPCReg = reg m PCReg \<and> reg m' PCReg = reg m NextPCReg \<and> reg m' NextPCReg = p \<and>
           reg m' LoadReg = of_nat lr \<and> reg m' LoadValueReg = lv \<and>
           (reg m LoadReg \<noteq> 0 \<longrightarrow> reg m' (unat (reg m LoadReg)) = reg m LoadValueReg)"
proof -
  have b: "cpu_busy m" using assms(1) by (rule cpu_wf_busy)
  obtain w m1 m2 where f: "ReadMem trap (reg m PCReg) 4 m = Inr (Some w, m1)"
    and e: "exec_op trap (Decode w) m1 = Inr (Next p lr lv, m2)"
    using assms(3) by (auto simp: completes_def)
  have m1: "registers m1 = registers m" "mainMemory m1 = mainMemory m" using ReadMem_cases [OF f] by auto
  have b1: "cpu_busy m1" using cpu_busy_frame [OF b m1(1)] m1(2) by simp
  have k: "reg m2 n = reg m n" if "n \<ge> 34" for n
    using exec_op_special [OF e b1 Decode_regs(2,3)] that m1(1) by simp
  have b2: "cpu_busy m2" "lr < 32" using exec_op_wf [OF e b1 assms(2) Decode_regs(2,3)] by simp_all
  then obtain m3 where m3: "DelayedLoad (of_nat lr) lv m2 = Inr m3" "cpu_wf m3" "length (registers m3) = 40"
    "\<forall>n<40. reg m3 n = (if n = 0 then 0 else if n = LoadReg then of_nat lr else if n = LoadValueReg then lv
                      else if n = unat (reg m2 LoadReg) then reg m2 LoadValueReg else reg m2 n)"
    using DelayedLoad_ok [OF _ of_nat_small] by blast
  let ?m = "set_reg NextPCReg p (set_reg PCReg (reg m NextPCReg) (set_reg PrevPCReg (reg m PCReg) m3))"
  have l2: "unat (reg m LoadReg) < 32" using b by (simp add: cpu_busy_def unat_less_of_uint)
  have r3: "reg m3 PCReg = reg m PCReg" "reg m3 NextPCReg = reg m NextPCReg"
    using m3(4) l2 k [of LoadReg] k [of PCReg] k [of NextPCReg] by auto
  have "OneInstruction trap m = Inr ?m"
    using f e m3(1,3) r3 by (simp add: OneInstruction_def finish_op_def Let_def reg_set_reg)
  moreover have "cpu_busy ?m \<and> reg ?m 0 = 0" using m3(2,3)
    by (simp add: cpu_wf_def cpu_busy_set_reg reg_set_reg)
  moreover have "reg ?m PrevPCReg = reg m PCReg \<and> reg ?m PCReg = reg m NextPCReg \<and> reg ?m NextPCReg = p \<and>
      reg ?m LoadReg = of_nat lr \<and> reg ?m LoadValueReg = lv"
    using m3(3,4) by (simp add: reg_set_reg)
  moreover have "reg ?m (unat (reg m LoadReg)) = reg m LoadValueReg" if "reg m LoadReg \<noteq> 0"
  proof -
    have "unat (reg m LoadReg) \<noteq> 0" using that by (simp add: unat_eq_0)
    then show ?thesis using m3(3,4) l2 k [of LoadReg] k [of LoadValueReg] by (simp add: reg_set_reg)
  qed
  ultimately show ?thesis using b2(2) by blast
qed

text \<open>
  Delayed branches: when an instruction completes with \<open>pcAfter = p\<close> (the target of a taken branch
  or jump, else the following word), the next instruction executed is the one at \<open>NextPCReg\<close>, the delay slot;
  only when that one has completed as well the program counter is \<open>p\<close>.
\<close>

theorem branch_delay_slot:
  assumes "cpu_wf m" "trap_ok trap" "completes trap m p lr lv" "OneInstruction trap m = Inr m'"
    and "completes trap m' p' lr' lv'" "OneInstruction trap m' = Inr m''"
  shows "reg m' PCReg = reg m NextPCReg \<and> reg m'' PCReg = p \<and> reg m'' NextPCReg = p' \<and>
         reg m'' PrevPCReg = reg m NextPCReg"
proof -
  have "cpu_wf m'" using OneInstruction_wf [OF assms(1,2,4)] .
  then show ?thesis using completes_step [OF assms(1-3)] completes_step [OF _ assms(2,5)] assms(4,6) by auto
qed

text \<open>
  Delayed loads: a value read from memory by a load instruction into register \<open>lr\<close> is there after the
  following instruction has completed, even when that instruction writes the register itself.
\<close>

theorem load_delay_slot:
  assumes "cpu_wf m" "trap_ok trap" "completes trap m p lr lv" "lr \<noteq> 0" "OneInstruction trap m = Inr m'"
    and "completes trap m' p' lr' lv'" "OneInstruction trap m' = Inr m''"
  shows "reg m' LoadReg = of_nat lr \<and> reg m'' lr = lv"
proof -
  have wf: "cpu_wf m'" using OneInstruction_wf [OF assms(1,2,5)] .
  have l: "reg m' LoadReg = of_nat lr" "reg m' LoadValueReg = lv" "lr < 32"
    using completes_step [OF assms(1-3)] assms(5) by auto
  have "unat (of_nat lr :: 32 word) = lr" using l(3) by (simp add: unsigned_of_nat take_bit_nat_eq_self)
  moreover have "(of_nat lr :: 32 word) \<noteq> 0" using calculation assms(4) by (metis unsigned_0)
  ultimately show ?thesis using completes_step [OF wf assms(2,6)] assms(7) l by auto
qed

section \<open>A run\<close>

text \<open>A program in frame 5, about to execute its first instruction.\<close>

definition program_memory :: "32 word list \<Rightarrow> 8 word list" where
  "program_memory ws = replicate 640 0 @ concat (map word_to_bytes ws) @ replicate (3456 - 4 * length ws) 0"

lemma program_memory_bytes:
  assumes "n < length ws" "j < 4"
  shows "program_memory ws ! (640 + 4 * n + j) = word_to_bytes (ws ! n) ! j"
proof -
  have len: "length (concat (map word_to_bytes ws)) = 4 * length ws" for ws by (induction ws) auto
  have "concat (map word_to_bytes ws) ! (4 * n + j) = word_to_bytes (ws ! n) ! j"
    using assms
  proof (induction ws arbitrary: n)
    case (Cons w ws)
    then show ?case by (cases n) (auto simp: nth_append)
  qed simp
  then show ?thesis using assms by (simp add: program_memory_def nth_append add.assoc len)
qed

lemma fetch:
  assumes "mainMemory m = program_memory ws" "tlb m = None" "spaceTable m = [e]" "te_valid e" "physicalPage e = 5"
    and "uint a = int (4 * n)" "n < length ws" "length ws \<le> 32"
  shows "ReadMem trap a 4 m = Inr (Some (ws ! n), m\<lparr>spaceTable := [e\<lparr>te_use := True\<rparr>]\<rparr>)"
proof -
  have v: "uint a div 128 = 0" "uint a mod 128 = uint a" "uint a mod 4 = 0" using assms(6-8) by simp_all
  have "mem_byte m' (640 + uint a + int j) = word_to_bytes (ws ! n) ! j" if "j < 4" "mainMemory m' = mainMemory m" for j m'
  proof -
    have "nat (640 + uint a + int j) = 640 + 4 * n + j" using assms(6) by simp
    then show ?thesis using program_memory_bytes [OF assms(7) that(1)] that(2) assms(1) by (simp add: mem_byte_def)
  qed
  from this [of 0] this [of 1] this [of 2] this [of 3]
  have bs: "[mem_byte m' (640 + uint a), mem_byte m' (641 + uint a), mem_byte m' (642 + uint a),
      mem_byte m' (643 + uint a)] = word_to_bytes (ws ! n)" if "mainMemory m' = mainMemory m" for m'
    using that by (simp add: word_to_bytes_def add.commute)
  have "Translate a 4 False m = Inr (Inr (640 + uint a, m\<lparr>spaceTable := [e\<lparr>te_use := True\<rparr>]\<rparr>))"
    using v assms(2-8) by (simp add: Translate_def misaligned_iff find_entry_def entry_at_def set_entry_def mark_used_def
        mark_dirty_def Let_def)
  then show ?thesis by (simp add: ReadMem_def load_bytes_def bs)
qed

text \<open>Load a word, overwrite the register in the load's delay slot; and jump over an instruction.\<close>

definition load_program :: "32 word list" where
  "load_program = [0x8C080010, 0x24080007, 0, 0, 0x12345678]"

definition jump_program :: "32 word list" where
  "jump_program = [0x08000004, 0x24080007, 0, 0, 0]"

definition code_page :: "bool \<Rightarrow> TranslationEntry" where
  "code_page u = \<lparr>virtualPage = 0, physicalPage = 5, te_valid = True, readOnly = False, te_use = u, te_dirty = False\<rparr>"

lemma code_page_sel [simp]:
  "te_valid (code_page u)" "physicalPage (code_page u) = 5" "(code_page u)\<lparr>te_use := v\<rparr> = code_page v"
  by (simp_all add: code_page_def)

lemma update_replicate_same [simp]: "(replicate n x)[i := x] = replicate n x"
  by (cases "i < n") (simp_all add: list_eq_iff_nth_eq nth_list_update)

definition at_regs :: "32 word list \<Rightarrow> 32 word list \<Rightarrow> bool \<Rightarrow> Machine" where
  "at_regs ws R u = \<lparr>mainMemory = program_memory ws, registers = R, tlb = None, spaceTable = [code_page u]\<rparr>"

lemma at_fetch:
  "uint a = int (4 * n) \<Longrightarrow> n < length ws \<Longrightarrow> length ws \<le> 32 \<Longrightarrow>
   ReadMem trap a 4 (at_regs ws R u) = Inr (Some (ws ! n), at_regs ws R True)"
  by (subst fetch [of _ ws "code_page u" a n]) (simp_all add: at_regs_def)

lemma decode_words:
  "Decode 0x8C080010 = \<lparr>i_opCode = OP_LW, i_rs = 0, i_rt = 8, i_rd = 0, i_extra = 16\<rparr>"
  "Decode 0x24080007 = \<lparr>i_opCode = OP_ADDIU, i_rs = 0, i_rt = 8, i_rd = 0, i_extra = 7\<rparr>"
  "Decode 0x08000004 = \<lparr>i_opCode = OP_J, i_rs = 0, i_rt = 0, i_rd = 0, i_extra = 4\<rparr>"
  by (simp_all add: Decode_def opTable_def)

lemma cpu_wf_at: "length ws \<le> 32 \<Longrightarrow> length R = 40 \<Longrightarrow> uint (R ! 37) < 32 \<Longrightarrow> R ! 0 = 0 \<Longrightarrow> cpu_wf (at_regs ws R u)"
proof -
  have "length (concat (map word_to_bytes ws)) = 4 * length ws" by (induction ws) auto
  then show "length ws \<le> 32 \<Longrightarrow> length R = 40 \<Longrightarrow> uint (R ! 37) < 32 \<Longrightarrow> R ! 0 = 0 \<Longrightarrow> cpu_wf (at_regs ws R u)"
    by (simp add: cpu_wf_def cpu_busy_def machine_wf_def at_regs_def program_memory_def)
qed

text \<open>The register file with given program counters, and pending load.\<close>

definition regs :: "32 word \<Rightarrow> 32 word \<Rightarrow> 32 word \<Rightarrow> 32 word \<Rightarrow> 32 word \<Rightarrow> 32 word list" where
  "regs prev pc next lr lv = (replicate 40 0)[PCReg := pc, NextPCReg := next, PrevPCReg := prev, LoadReg := lr, LoadValueReg := lv]"

lemma regs_sel [simp]:
  "regs a b c d e ! 0 = 0" "regs a b c d e ! 34 = b" "regs a b c d e ! 35 = c" "regs a b c d e ! 36 = a"
  "regs a b c d e ! 37 = d" "regs a b c d e ! 38 = e" "length (regs a b c d e) = 40"
  by (simp_all add: regs_def)

lemma load_run_1:
  "completes no_trap (at_regs load_program (regs 0 0 4 0 0) False) 8 8 0x12345678"
  "OneInstruction no_trap (at_regs load_program (regs 0 0 4 0 0) False) = Inr (at_regs load_program (regs 0 4 8 8 0x12345678) True)"
proof -
  let ?m = "at_regs load_program (regs 0 0 4 0 0)"
  have f: "ReadMem no_trap 0 4 (?m False) = Inr (Some 0x8C080010, ?m True)"
    by (subst at_fetch [of _ 0]) (simp_all add: load_program_def)
  have g: "ReadMem no_trap 16 4 (?m True) = Inr (Some 0x12345678, ?m True)"
    by (subst at_fetch [of _ 4]) (simp_all add: load_program_def)
  have e: "exec_op no_trap (Decode 0x8C080010) (?m True) = Inr (Next 8 8 0x12345678, ?m True)"
    using g by (simp add: decode_words exec_op_def op_LW_def eff_addr_def read_then_def load_def at_regs_def)
  show "completes no_trap (?m False) 8 8 0x12345678"
    using f e by (auto simp: completes_def at_regs_def)
  show "OneInstruction no_trap (?m False) = Inr (at_regs load_program (regs 0 4 8 8 0x12345678) True)"
    using f e by (simp add: OneInstruction_def finish_op_def DelayedLoad_def set_reg_def at_regs_def Let_def regs_def
      list_update_swap)
qed

lemma addiu_run:
  assumes "ws ! 1 = 0x24080007" "length ws = 5" "uint lr < 32"
  shows "completes no_trap (at_regs ws (regs 0 4 nx lr lv) True) (nx + 4) 0 0"
    and "\<exists>m. OneInstruction no_trap (at_regs ws (regs 0 4 nx lr lv) True) = Inr m"
proof -
  let ?m = "at_regs ws (regs 0 4 nx lr lv) True"
  have f: "ReadMem no_trap 4 4 ?m = Inr (Some 0x24080007, ?m)"
    using assms(1,2) by (subst at_fetch [of _ 1]) simp_all
  have e: "exec_op no_trap (Decode 0x24080007) ?m = Inr (Next (nx + 4) 0 0, set_reg 8 (reg ?m 0 + 7) ?m)"
    by (simp add: decode_words exec_op_def alu_def put_def at_regs_def)
  show c: "completes no_trap ?m (nx + 4) 0 0" using f e by (auto simp: completes_def at_regs_def)
  have "cpu_wf ?m" using assms by (intro cpu_wf_at) simp_all
  from completes_step [OF this trap_ok_no_trap c] show "\<exists>m. OneInstruction no_trap ?m = Inr m" by blast
qed

lemma jump_run_1:
  "completes no_trap (at_regs jump_program (regs 0 0 4 0 0) False) 16 0 0"
  "OneInstruction no_trap (at_regs jump_program (regs 0 0 4 0 0) False) = Inr (at_regs jump_program (regs 0 4 16 0 0) True)"
proof -
  let ?m = "at_regs jump_program (regs 0 0 4 0 0)"
  have f: "ReadMem no_trap 0 4 (?m False) = Inr (Some 0x08000004, ?m True)"
    by (subst at_fetch [of _ 0]) (simp_all add: jump_program_def)
  have e: "exec_op no_trap (Decode 0x08000004) (?m True) = Inr (Next 16 0 0, ?m True)"
    by (simp add: decode_words exec_op_def jump_def IndexToAddr_def at_regs_def)
  show "completes no_trap (?m False) 16 0 0"
    using f e by (auto simp: completes_def at_regs_def)
  show "OneInstruction no_trap (?m False) = Inr (at_regs jump_program (regs 0 4 16 0 0) True)"
    using f e by (simp add: OneInstruction_def finish_op_def DelayedLoad_def set_reg_def at_regs_def Let_def regs_def
      list_update_swap)
qed

theorem branch_delay_slot_witness:
  "\<exists>m' m''. OneInstruction no_trap (at_regs jump_program (regs 0 0 4 0 0) False) = Inr m' \<and>
     OneInstruction no_trap m' = Inr m'' \<and> reg m' PCReg = 4 \<and> reg m'' PCReg = 16"
proof -
  obtain m'' where m'': "OneInstruction no_trap (at_regs jump_program (regs 0 4 16 0 0) True) = Inr m''"
    using addiu_run(2) [of jump_program 0 16 0] by (auto simp: jump_program_def)
  have c: "completes no_trap (at_regs jump_program (regs 0 4 16 0 0) True) (16 + 4) 0 0"
    by (rule addiu_run(1)) (simp_all add: jump_program_def)
  have "cpu_wf (at_regs jump_program (regs 0 0 4 0 0) False)" by (rule cpu_wf_at) (simp_all add: jump_program_def)
  from branch_delay_slot [OF this trap_ok_no_trap jump_run_1 c m''] show ?thesis
    using jump_run_1(2) m'' by (auto simp: at_regs_def)
qed

theorem load_delay_slot_witness:
  "\<exists>m' m''. OneInstruction no_trap (at_regs load_program (regs 0 0 4 0 0) False) = Inr m' \<and>
     OneInstruction no_trap m' = Inr m'' \<and> reg m'' 8 = 0x12345678"
proof -
  obtain m'' where m'': "OneInstruction no_trap (at_regs load_program (regs 0 4 8 8 0x12345678) True) = Inr m''"
    using addiu_run(2) [of load_program 8 8 "0x12345678"] by (auto simp: load_program_def)
  have c: "completes no_trap (at_regs load_program (regs 0 4 8 8 0x12345678) True) (8 + 4) 0 0"
    by (rule addiu_run(1)) (simp_all add: load_program_def)
  have "cpu_wf (at_regs load_program (regs 0 0 4 0 0) False)" by (rule cpu_wf_at) (simp_all add: load_program_def)
  from load_delay_slot [OF this trap_ok_no_trap load_run_1(1) _ load_run_1(2) c m''] show ?thesis
    using load_run_1(2) m'' by auto
qed

section \<open>Divisions and shifts\<close>

lemma sint_word_of_int_fits: "fits32 k \<Longrightarrow> sint (word_of_int k :: 32 word) = k"
  using sint_of_int_cases [of k 0 k] by (simp add: fits32_def)

lemma div_fits:
  assumes "fits32 s" "fits32 t" "t \<noteq> 0" "\<not> (s = - (2 ^ 31) \<and> t = - 1)"
  shows "fits32 (s sdiv t)" "fits32 (s smod t)"
proof -
  show "fits32 (s smod t)" using smod_int_range [OF assms(3), of s] assms(2) by (auto simp: fits32_def)
  consider "s \<noteq> - (2 ^ 31)" | "s = - (2 ^ 31)" "t = 1" | "s = - (2 ^ 31)" "\<bar>t\<bar> \<ge> 2"
    using assms(3,4) by linarith
  then show "fits32 (s sdiv t)"
  proof cases
    case 3
    have "\<bar>s\<bar> div \<bar>t\<bar> \<le> \<bar>s\<bar> div 2" using 3(2) by (intro zdiv_mono2) auto
    then have q: "0 \<le> \<bar>s\<bar> div \<bar>t\<bar>" "\<bar>s\<bar> div \<bar>t\<bar> \<le> 2 ^ 30" using 3 by (auto simp: pos_imp_zdiv_nonneg_iff)
    have "s sdiv t = \<bar>s\<bar> div \<bar>t\<bar> \<or> s sdiv t = - (\<bar>s\<bar> div \<bar>t\<bar>)" using 3 assms(3)
      by (auto simp: signed_divide_int_def sgn_if)
    then show ?thesis using q by (auto simp: fits32_def)
  next
    case 1
    then have "\<bar>s\<bar> < 2 ^ 31" using assms(1) by (auto simp: fits32_def)
    then show ?thesis using sdiv_int_range [of s t] by (auto simp: fits32_def)
  qed (simp add: fits32_def)
qed

lemma smod_sign: "0 \<le> (s smod t) * (s :: int)"
  by (cases "t = 0") (auto simp: signed_modulo_int_def sgn_if zero_le_mult_iff mult_le_0_iff)

text \<open>
  \<open>DIV\<close>: quotient and remainder in \<open>Lo\<close> and \<open>Hi\<close> satisfy \<open>s = Lo * t + Hi\<close> with a remainder smaller than
  the divisor and of the dividend's sign; division by zero gives two zeros, and only
  \<open>INT_MIN / -1\<close> stops the simulator.
\<close>

theorem DIV_correct:
  assumes "cpu_busy m"
  shows "case op_DIV i m of
           Inl e \<Rightarrow> e = DivideTrap \<and> sint (reg m (i_rs i)) = - (2 ^ 31) \<and> sint (reg m (i_rt i)) = - 1
         | Inr (r, m') \<Rightarrow>
             if reg m (i_rt i) = 0 then reg m' LoReg = 0 \<and> reg m' HiReg = 0
             else sint (reg m (i_rs i)) = sint (reg m' LoReg) * sint (reg m (i_rt i)) + sint (reg m' HiReg) \<and>
                  \<bar>sint (reg m' HiReg)\<bar> < \<bar>sint (reg m (i_rt i))\<bar> \<and> 0 \<le> sint (reg m' HiReg) * sint (reg m (i_rs i))"
proof -
  let ?s = "sint (reg m (i_rs i))" and ?t = "sint (reg m (i_rt i))"
  have len: "length (registers m) = 40" using assms by (rule cpu_busy_len)
  show ?thesis
  proof (cases "reg m (i_rt i) = 0 \<or> ?s = - (2 ^ 31) \<and> ?t = - 1")
    case True
    then show ?thesis using len by (auto simp: op_DIV_def Let_def reg_set_reg)
  next
    case False
    have t: "?t \<noteq> 0"
    proof
      assume "?t = 0"
      then have "(of_int ?t :: 32 word) = 0" by (simp only: of_int_0)
      then show False using False by simp
    qed
    note f = div_fits [OF sint_fits [of "reg m (i_rs i)"] sint_fits [of "reg m (i_rt i)"] t]
    have "fits32 (?s sdiv ?t)" "fits32 (?s smod ?t)" using f False by blast+
    moreover have "\<bar>?s smod ?t\<bar> < \<bar>?t\<bar>" using smod_int_range [OF t, of ?s] by auto
    ultimately show ?thesis using False len smod_sign [of ?s ?t]
      by (simp add: op_DIV_def Let_def reg_set_reg sint_word_of_int_fits sdiv_mult_smod_eq)
  qed
qed

theorem DIV_correct_witness:
  "op_DIV \<lparr>i_opCode = OP_DIV, i_rs = 1, i_rt = 2, i_rd = 0, i_extra = 0\<rparr>
     (set_reg 1 (- 7) (set_reg 2 2 one_page_machine)) \<noteq> Inl DivideTrap"
proof -
  let ?m = "set_reg 1 (- 7) (set_reg 2 2 one_page_machine)"
  have b: "cpu_busy ?m" using one_page_cpu by (simp add: cpu_busy_set_reg cpu_wf_busy)
  have "reg ?m 2 = 2" using cpu_busy_len [OF b] by (simp add: reg_set_reg)
  then show ?thesis
    using DIV_correct [OF b, of "\<lparr>i_opCode = OP_DIV, i_rs = 1, i_rt = 2, i_rd = 0, i_extra = 0\<rparr>"] by auto
qed

text \<open>
  (C37) The logical right shift \<open>SRL\<close> is the processor's only on non-negative values: it shifts an \<open>int\<close>, so
  for a negative value the vacated bits are ones (they should be zeros). Likewise \<open>SRLV\<close>.
\<close>

theorem SRL_correct_iff_nonneg:
  assumes "i_opCode i = OP_SRL" "0 < unat (i_extra i)" "unat (i_extra i) < 32"
  shows "alu i m = Some (i_rd i, drop_bit (unat (i_extra i)) (reg m (i_rt i))) \<longleftrightarrow> 0 \<le> sint (reg m (i_rt i))"
proof -
  let ?t = "reg m (i_rt i)" and ?k = "unat (i_extra i)"
  have a: "alu i m = Some (i_rd i, signed_drop_bit ?k ?t)" using assms(1) by (simp add: alu_def)
  have top: "bit (signed_drop_bit ?k ?t) 31 = bit ?t 31" "\<not> bit (drop_bit ?k ?t) 31"
    using assms(2) by (auto simp: bit_signed_drop_bit_iff bit_drop_bit_eq dest: bit_imp_le_length)
  have "signed_drop_bit ?k ?t = drop_bit ?k ?t" if "\<not> bit ?t 31"
    by (rule bit_word_eqI) (use that in \<open>auto simp: bit_signed_drop_bit_iff bit_drop_bit_eq dest: bit_imp_le_length\<close>)
  then have "signed_drop_bit ?k ?t = drop_bit ?k ?t \<longleftrightarrow> \<not> bit ?t 31" using top by metis
  then show ?thesis using a bit_last_iff [of ?t] by auto
qed

theorem SRL_correct_iff_nonneg_witness:
  "alu \<lparr>i_opCode = OP_SRL, i_rs = 0, i_rt = 2, i_rd = 3, i_extra = 4\<rparr> (set_reg 2 (- 16) one_page_machine) \<noteq> Some (3, 0x0FFFFFFF)"
proof -
  let ?i = "\<lparr>i_opCode = OP_SRL, i_rs = 0, i_rt = 2, i_rd = 3, i_extra = 4\<rparr>" and ?m = "set_reg 2 (- 16) one_page_machine"
  have "reg ?m 2 = - 16" using cpu_busy_len [OF cpu_wf_busy [OF one_page_cpu]] by (simp add: reg_set_reg)
  then show ?thesis using SRL_correct_iff_nonneg [of ?i ?m] by simp
qed

text \<open>\<open>OR\<close> ignores its second operand.\<close>

lemma OR_copies_rs: "i_opCode i = OP_OR \<Longrightarrow> alu i m = Some (i_rd i, reg m (i_rs i))"
  by (simp add: alu_def)

end
