(* ===== verification/Open_File.thy ===== *)
theory Open_File
  imports Bit_Map
begin

text \<open>
  Files on the Nachos disk: \<open>filesys/filehdr.cc\<close>, \<open>filesys/openfile.cc\<close> and the two operations of
  \<open>userprog/bitmap.cc\<close> that use them.

  Here the disk is what \<open>SynchDisk\<close> promises, a list of sectors of 128 bytes; \<open>Disk_Device\<close> shows that the
  simulated device keeps this promise. Integers in a sector are stored as four bytes, least significant
  first. The buffer that \<open>WriteAt\<close> allocates is not initialised: its contents are the argument \<open>junk\<close>.

  The central notion is the byte \<open>fbyte h d k\<close> at offset \<open>k\<close> of the file with header \<open>h\<close>; \<open>ReadAt\<close> and \<open>WriteAt\<close> are
  shown to read and replace ranges of such bytes.
\<close>

section \<open>The disk as its clients see it\<close>

abbreviation (input) SectorSize :: int where "SectorSize \<equiv> 128"
abbreviation (input) NumSectors :: int where "NumSectors \<equiv> 1024"
abbreviation (input) NumDirect :: nat where "NumDirect \<equiv> 30"

type_synonym bytes = "8 word list"
type_synonym sectors = "bytes list"

definition ReadSector :: "int \<Rightarrow> sectors \<Rightarrow> bytes result" where
  "ReadSector sectorNumber d =
     bindE (ASSERT (sectorNumber \<ge> 0 \<and> sectorNumber < NumSectors)) (\<lambda>_. arr_get d sectorNumber)"

definition WriteSector :: "int \<Rightarrow> bytes \<Rightarrow> sectors \<Rightarrow> sectors result" where
  "WriteSector sectorNumber data d =
     bindE (ASSERT (sectorNumber \<ge> 0 \<and> sectorNumber < NumSectors)) (\<lambda>_. arr_set d sectorNumber data)"

text \<open>\<open>bcopy\<close> out of and into a buffer.\<close>

definition slice :: "bytes \<Rightarrow> int \<Rightarrow> int \<Rightarrow> bytes result" where
  "slice buf off n =
     (if 0 \<le> off \<and> 0 \<le> n \<and> off + n \<le> int (length buf) then Inr (take (nat n) (drop (nat off) buf)) else Inl OutOfBounds)"

definition bcopy :: "bytes \<Rightarrow> bytes \<Rightarrow> int \<Rightarrow> bytes result" where
  "bcopy from buf off =
     (if 0 \<le> off \<and> off + int (length from) \<le> int (length buf)
      then Inr (take (nat off) buf @ from @ drop (nat off + length from) buf) else Inl OutOfBounds)"

section \<open>File headers\<close>

record FileHeader =
  numBytes :: int
  numSectors :: int
  dataSectors :: "int list"

definition Allocate :: "BitMap \<Rightarrow> int \<Rightarrow> FileHeader \<Rightarrow> (bool \<times> FileHeader \<times> BitMap) result" where
  "Allocate freeMap fileSize hdr =
     (let hdr1 = hdr\<lparr>numBytes := fileSize, numSectors := divRoundUp fileSize SectorSize\<rparr> in
      bindE (NumClear freeMap) (\<lambda>c.
        if c < numSectors hdr1 then Inr (False, hdr1, freeMap)
        else
          bindE (forE 0 (numSectors hdr1) (\<lambda>i (h, fm).
              bindE (Find fm) (\<lambda>(k, fm').
              bindE (arr_set (dataSectors h) i k) (\<lambda>ds. Inr (h\<lparr>dataSectors := ds\<rparr>, fm')))) (hdr1, freeMap))
            (\<lambda>(h, fm). Inr (True, h, fm))))"

definition Deallocate :: "FileHeader \<Rightarrow> BitMap \<Rightarrow> BitMap result" where
  "Deallocate hdr freeMap =
     forE 0 (numSectors hdr) (\<lambda>i fm.
       bindE (arr_get (dataSectors hdr) i) (\<lambda>s.
       bindE (Test fm s) (\<lambda>t.
       bindE (ASSERT t) (\<lambda>_. Clear fm s)))) freeMap"

text \<open>The 128 bytes of a header in memory: \<open>numBytes\<close>, \<open>numSectors\<close> and the 30 entries of \<open>dataSectors\<close>.\<close>

definition words_to_bytes :: "32 word list \<Rightarrow> bytes" where
  "words_to_bytes ws = concat (map word_to_bytes ws)"

fun bytes_to_words :: "bytes \<Rightarrow> 32 word list" where
  "bytes_to_words (a # b # c # d # bs) = bytes_to_word [a, b, c, d] # bytes_to_words bs"
| "bytes_to_words _ = []"

definition hdr_to_bytes :: "FileHeader \<Rightarrow> bytes" where
  "hdr_to_bytes h = words_to_bytes (map word_of_int (numBytes h # numSectors h # dataSectors h))"

definition bytes_to_hdr :: "bytes \<Rightarrow> FileHeader" where
  "bytes_to_hdr bs =
     (let ws = map sint (bytes_to_words bs) in
      \<lparr>numBytes = ws ! 0, numSectors = ws ! 1, dataSectors = drop 2 ws\<rparr>)"

definition FetchFrom_hdr :: "int \<Rightarrow> sectors \<Rightarrow> FileHeader result" where
  "FetchFrom_hdr sector d = bindE (ReadSector sector d) (\<lambda>bs. Inr (bytes_to_hdr bs))"

definition WriteBack_hdr :: "FileHeader \<Rightarrow> int \<Rightarrow> sectors \<Rightarrow> sectors result" where
  "WriteBack_hdr hdr sector d = WriteSector sector (hdr_to_bytes hdr) d"

definition ByteToSector :: "FileHeader \<Rightarrow> int \<Rightarrow> int result" where
  "ByteToSector hdr offset = arr_get (dataSectors hdr) (offset sdiv SectorSize)"

definition FileLength :: "FileHeader \<Rightarrow> int" where
  "FileLength hdr = numBytes hdr"

section \<open>Open files\<close>

record OpenFile =
  of_hdr :: FileHeader
  seekPosition :: int

definition new_OpenFile :: "int \<Rightarrow> sectors \<Rightarrow> OpenFile result" where
  "new_OpenFile sector d =
     bindE (FetchFrom_hdr sector d) (\<lambda>h. Inr \<lparr>of_hdr = h, seekPosition = 0\<rparr>)"

definition Seek :: "OpenFile \<Rightarrow> int \<Rightarrow> OpenFile" where
  "Seek file position = file\<lparr>seekPosition := position\<rparr>"

text \<open>The bytes read; their number is the result of the C++ function. The sectors are read in ascending order.\<close>

definition ReadAt :: "FileHeader \<Rightarrow> int \<Rightarrow> int \<Rightarrow> sectors \<Rightarrow> bytes result" where
  "ReadAt hdr num position d =
     (let fileLength = FileLength hdr in
      if num \<le> 0 \<or> position \<ge> fileLength then Inr []
      else
        let n = (if position + num > fileLength then fileLength - position else num);
            firstSector = divRoundDown position SectorSize;
            lastSector = divRoundDown (position + n - 1) SectorSize in
        bindE (forE firstSector (lastSector + 1) (\<lambda>i buf.
            bindE (ByteToSector hdr (i * SectorSize)) (\<lambda>s.
            bindE (ReadSector s d) (\<lambda>data. Inr (buf @ data)))) [])
          (\<lambda>buf. slice buf (position - firstSector * SectorSize) n))"

definition WriteAt ::
  "(nat \<Rightarrow> 8 word) \<Rightarrow> FileHeader \<Rightarrow> bytes \<Rightarrow> int \<Rightarrow> int \<Rightarrow> sectors \<Rightarrow> (int \<times> sectors) result" where
  "WriteAt junk hdr from num position d =
     (let fileLength = FileLength hdr in
      if num \<le> 0 \<or> position \<ge> fileLength then Inr (0, d)
      else
        let n = (if position + num > fileLength then fileLength - position else num);
            firstSector = divRoundDown position SectorSize;
            lastSector = divRoundDown (position + n - 1) SectorSize;
            total = 1 + lastSector - firstSector;
            buf = map junk [0..<nat (total * SectorSize)];
            firstAligned = (position = firstSector * SectorSize);
            lastAligned = (position + n = (lastSector + 1) * SectorSize) in
        bindE (if \<not> firstAligned
               then bindE (ReadAt hdr SectorSize (firstSector * SectorSize) d) (\<lambda>bs. bcopy bs buf 0)
               else Inr buf) (\<lambda>buf1.
        bindE (if \<not> lastAligned \<and> (firstSector \<noteq> lastSector \<or> firstAligned)
               then bindE (ReadAt hdr SectorSize (lastSector * SectorSize) d)
                      (\<lambda>bs. bcopy bs buf1 ((lastSector - firstSector) * SectorSize))
               else Inr buf1) (\<lambda>buf2.
        bindE (slice from 0 n) (\<lambda>src.
        bindE (bcopy src buf2 (position - firstSector * SectorSize)) (\<lambda>buf3.
        bindE (forE firstSector (lastSector + 1) (\<lambda>i dk.
            bindE (ByteToSector hdr (i * SectorSize)) (\<lambda>s.
            bindE (slice buf3 ((i - firstSector) * SectorSize) SectorSize) (\<lambda>data. WriteSector s data dk))) d)
          (\<lambda>d'. Inr (n, d')))))))"

definition Read :: "OpenFile \<Rightarrow> int \<Rightarrow> sectors \<Rightarrow> (bytes \<times> OpenFile) result" where
  "Read file num d =
     bindE (ReadAt (of_hdr file) num (seekPosition file) d) (\<lambda>bs.
     Inr (bs, file\<lparr>seekPosition := seekPosition file + int (length bs)\<rparr>))"

definition Write ::
  "(nat \<Rightarrow> 8 word) \<Rightarrow> OpenFile \<Rightarrow> bytes \<Rightarrow> int \<Rightarrow> sectors \<Rightarrow> (int \<times> OpenFile \<times> sectors) result" where
  "Write junk file from num d =
     bindE (WriteAt junk (of_hdr file) from num (seekPosition file) d) (\<lambda>(n, d').
     Inr (n, file\<lparr>seekPosition := seekPosition file + n\<rparr>, d'))"

definition Length :: "OpenFile \<Rightarrow> int" where
  "Length file = FileLength (of_hdr file)"

text \<open>A bitmap stored in a file.\<close>

definition FetchFrom_bm :: "BitMap \<Rightarrow> FileHeader \<Rightarrow> sectors \<Rightarrow> BitMap result" where
  "FetchFrom_bm bm hdr d =
     bindE (ReadAt hdr (numWords bm * 4) 0 d) (\<lambda>bs.
     bindE (bcopy bs (words_to_bytes (bm_map bm)) 0) (\<lambda>bs'. Inr (bm\<lparr>bm_map := bytes_to_words bs'\<rparr>)))"

definition WriteBack_bm :: "(nat \<Rightarrow> 8 word) \<Rightarrow> BitMap \<Rightarrow> FileHeader \<Rightarrow> sectors \<Rightarrow> sectors result" where
  "WriteBack_bm junk bm hdr d =
     bindE (WriteAt junk hdr (words_to_bytes (bm_map bm)) (numWords bm * 4) 0 d) (\<lambda>(_, d'). Inr d')"

section \<open>Invariants\<close>

definition disk_wf :: "sectors \<Rightarrow> bool" where
  "disk_wf d \<longleftrightarrow> length d = 1024 \<and> (\<forall>s \<in> set d. length s = 128)"

text \<open>The sectors of a file, and a well-formed header.\<close>

definition file_sectors :: "FileHeader \<Rightarrow> int list" where
  "file_sectors h = take (nat (numSectors h)) (dataSectors h)"

definition hdr_wf :: "FileHeader \<Rightarrow> bool" where
  "hdr_wf h \<longleftrightarrow> length (dataSectors h) = 30 \<and> 0 \<le> numBytes h \<and> numSectors h = divRoundUp (numBytes h) SectorSize \<and>
     numSectors h \<le> 30 \<and> distinct (file_sectors h) \<and> set (file_sectors h) \<subseteq> {0..<NumSectors}"

definition fbyte :: "FileHeader \<Rightarrow> sectors \<Rightarrow> nat \<Rightarrow> 8 word" where
  "fbyte h d k = d ! nat (dataSectors h ! (k div 128)) ! (k mod 128)"

definition file_bytes :: "FileHeader \<Rightarrow> sectors \<Rightarrow> bytes" where
  "file_bytes h d = map (fbyte h d) [0..<nat (numBytes h)]"

section \<open>Buffers and sectors\<close>

lemma slice_ok: "0 \<le> off \<Longrightarrow> 0 \<le> n \<Longrightarrow> off + n \<le> int (length buf) \<Longrightarrow> slice buf off n = Inr (take (nat n) (drop (nat off) buf))"
  by (simp add: slice_def)

lemma slice_nat: "p + n \<le> length buf \<Longrightarrow> slice buf (int p) (int n) = Inr (take n (drop p buf))"
  by (simp add: slice_def)

lemma bcopy_ok:
  assumes "p + length from \<le> length buf"
  obtains r where "bcopy from buf (int p) = Inr r" "length r = length buf"
    "\<And>k. k < length buf \<Longrightarrow> r ! k = (if p \<le> k \<and> k < p + length from then from ! (k - p) else buf ! k)"
proof
  let ?r = "take p buf @ from @ drop (p + length from) buf"
  show "bcopy from buf (int p) = Inr ?r" "length ?r = length buf" using assms by (simp_all add: bcopy_def)
  fix k assume "k < length buf"
  then show "?r ! k = (if p \<le> k \<and> k < p + length from then from ! (k - p) else buf ! k)"
    using assms by (auto simp: nth_append)
qed

lemma ReadSector_ok: "disk_wf d \<Longrightarrow> 0 \<le> s \<Longrightarrow> s < 1024 \<Longrightarrow> ReadSector s d = Inr (d ! nat s) \<and> length (d ! nat s) = 128"
  by (auto simp: ReadSector_def disk_wf_def)

lemma WriteSector_ok:
  "disk_wf d \<Longrightarrow> 0 \<le> s \<Longrightarrow> s < 1024 \<Longrightarrow> length data = 128 \<Longrightarrow>
   WriteSector s data d = Inr (d[nat s := data]) \<and> disk_wf (d[nat s := data])"
  by (auto simp: WriteSector_def disk_wf_def dest!: subsetD [OF set_update_subset_insert])

lemma sectors_needed: "hdr_wf h \<Longrightarrow> 128 * i < numBytes h \<Longrightarrow> i < numSectors h"
  using divRoundUp_bounds(1) [of "numBytes h" 128] by (simp add: hdr_wf_def)

lemma file_sector_ok:
  assumes "hdr_wf h" "0 \<le> i" "128 * i < numBytes h"
  shows "ByteToSector h (i * 128) = Inr (dataSectors h ! nat i)" "dataSectors h ! nat i \<in> {0..<1024}"
    "dataSectors h ! nat i = file_sectors h ! nat i" "nat i < length (file_sectors h)"
proof -
  have i: "i < numSectors h" using sectors_needed [OF assms(1,3)] .
  have len: "length (dataSectors h) = 30" "numSectors h \<le> 30" using assms(1) by (simp_all add: hdr_wf_def)
  then show l: "nat i < length (file_sectors h)" "dataSectors h ! nat i = file_sectors h ! nat i"
    using i assms(2) by (simp_all add: file_sectors_def)
  then have "file_sectors h ! nat i \<in> set (file_sectors h)" by simp
  then show "dataSectors h ! nat i \<in> {0..<1024}" using assms(1) l(2) by (auto simp: hdr_wf_def)
  have "i * 128 sdiv 128 = i" using assms(2) by (simp add: sdiv_nonneg)
  then show "ByteToSector h (i * 128) = Inr (dataSectors h ! nat i)" using assms(2) i len by (simp add: ByteToSector_def)
qed

text \<open>Different offsets in a file lie at different places of the disk.\<close>

lemma file_sector_inj:
  assumes "hdr_wf h" "0 \<le> i" "128 * i < numBytes h" "0 \<le> j" "128 * j < numBytes h" "dataSectors h ! nat i = dataSectors h ! nat j"
  shows "i = j"
proof -
  have "distinct (file_sectors h)" using assms(1) by (simp add: hdr_wf_def)
  note eq = nth_eq_iff_index_eq [OF this file_sector_ok(4) [OF assms(1-3)] file_sector_ok(4) [OF assms(1,4,5)]]
  have "nat i = nat j"
    using eq file_sector_ok(3) [OF assms(1-3)] file_sector_ok(3) [OF assms(1,4,5)] assms(6) by metis
  then show ?thesis using assms(2,4) by simp
qed

lemma fbyte_sector: "j < 128 \<Longrightarrow> fbyte h d (128 * i + j) = d ! nat (dataSectors h ! i) ! j"
  by (simp add: fbyte_def)

lemma div_mult_bounds: "128 * (x div 128) \<le> x" "x < 128 * (x div 128 + 1)" for x :: int
  by presburger+

lemma last_sector_bounds:
  fixes q :: nat
  assumes "0 < q"
  shows "q \<le> 128 * ((q - 1) div 128 + 1)" "128 * ((q - 1) div 128) < q"
proof -
  obtain r where q: "q = Suc r" using assms gr0_implies_Suc by blast
  show "q \<le> 128 * ((q - 1) div 128 + 1)" using dividend_less_times_div [of 128 r] by (simp add: q)
  show "128 * ((q - 1) div 128) < q" using times_div_less_eq_dividend [of 128 r] by (simp add: q less_Suc_eq_le)
qed

section \<open>Reading\<close>

lemma read_loop:
  assumes "hdr_wf h" "disk_wf d" "0 \<le> a" "a \<le> b" "128 * (b - 1) < numBytes h"
  shows "\<exists>buf. forE a b (\<lambda>i buf. bindE (ByteToSector h (i * 128)) (\<lambda>s. bindE (ReadSector s d) (\<lambda>data. Inr (buf @ data)))) [] = Inr buf \<and>
           buf = map (fbyte h d) [128 * nat a..<128 * nat b]"
proof -
  let ?f = "\<lambda>i buf. bindE (ByteToSector h (i * 128)) (\<lambda>s. bindE (ReadSector s d) (\<lambda>data. Inr (buf @ data)))"
  have "\<exists>buf. forE a b ?f [] = Inr buf \<and> buf = map (fbyte h d) [128 * nat a..<128 * nat b]"
  proof (rule forE_invariant [where P = "\<lambda>i buf. buf = map (fbyte h d) [128 * nat a..<128 * nat i]"])
    fix i buf assume i: "a \<le> i" "i < b" and buf: "buf = map (fbyte h d) [128 * nat a..<128 * nat i]"
    have nb: "128 * i < numBytes h" using assms(5) i by simp
    note s = file_sector_ok(1,2) [OF assms(1) _ nb]
    let ?data = "d ! nat (dataSectors h ! nat i)"
    have r: "ReadSector (dataSectors h ! nat i) d = Inr ?data" "length ?data = 128"
      using ReadSector_ok [OF assms(2)] s(2) i assms(3) by auto
    have n: "128 * nat (i + 1) = 128 * nat i + 128" using i assms(3) by simp
    have "?data = map (fbyte h d) [128 * nat i..<128 * nat i + 128]"
      by (rule nth_equalityI) (simp_all add: r(2) fbyte_sector)
    moreover have "[128 * nat a..<128 * nat (i + 1)] = [128 * nat a..<128 * nat i] @ [128 * nat i..<128 * nat i + 128]"
    proof -
      have "128 * nat a \<le> 128 * nat i" using i assms(3) by simp
      then show ?thesis unfolding n by (rule upt_add_eq_append)
    qed
    ultimately have "buf @ ?data = map (fbyte h d) [128 * nat a..<128 * nat (i + 1)]" by (simp only: buf map_append)
    then show "\<exists>t'. ?f i buf = Inr t' \<and> t' = map (fbyte h d) [128 * nat a..<128 * nat (i + 1)]"
      using s(1) i assms(3) r(1) by simp
  qed (use assms in auto)
  then show ?thesis .
qed

lemma slice_upt:
  assumes "A \<le> p" "p \<le> q" "q \<le> B"
  shows "slice (map f [A..<B]) (int p - int A) (int q - int p) = Inr (map f [p..<q])"
proof -
  have "nat (int q - int p) = q - p" "nat (int p - int A) = p - A" using assms by simp_all
  moreover have "take (q - p) (drop (p - A) (map f [A..<B])) = map f [p..<q]"
    using assms by (simp add: take_map drop_map)
  ultimately show ?thesis using assms by (simp add: slice_def)
qed

lemma ReadAt_spec_nat:
  assumes "hdr_wf h" "disk_wf d" "p < q" "int q \<le> numBytes h" "0 < num"
    and n: "(if int p + num > numBytes h then numBytes h - int p else num) = int q - int p"
  shows "ReadAt h num (int p) d = Inr (map (fbyte h d) [p..<q])"
proof -
  let ?A = "p div 128" and ?B = "(q - 1) div 128"
  have qq: "int p + (int q - int p) - 1 = int (q - 1)" using assms(3) by simp
  have ab: "divRoundDown (int p) 128 = int ?A" "divRoundDown (int p + (int q - int p) - 1) 128 = int ?B"
    unfolding qq by (simp_all add: divRoundDown_nonneg zdiv_int)
  have b: "128 * ?A \<le> p" "q \<le> 128 * (?B + 1)" "128 * ?B < q"
    using last_sector_bounds [of q] assms(3) by simp_all
  have "?A \<le> ?B" using assms(3) by (intro div_le_mono) simp
  moreover have "128 * (int ?B + 1 - 1) < numBytes h" using b(3) assms(4) by simp
  ultimately obtain buf where buf: "forE (int ?A) (int ?B + 1) (\<lambda>i buf. bindE (ByteToSector h (i * 128))
      (\<lambda>s. bindE (ReadSector s d) (\<lambda>data. Inr (buf @ data)))) [] = Inr buf"
    "buf = map (fbyte h d) [128 * nat (int ?A)..<128 * nat (int ?B + 1)]"
    using read_loop [OF assms(1,2), of "int ?A" "int ?B + 1"] by auto
  have e: "128 * nat (int ?A) = 128 * ?A" "128 * nat (int ?B + 1) = 128 * (?B + 1)" "int p - int ?A * 128 = int p - int (128 * ?A)"
    by simp_all
  have "slice buf (int p - int ?A * 128) (int q - int p) = Inr (map (fbyte h d) [p..<q])"
    unfolding buf(2) e using slice_upt [OF b(1) less_imp_le [OF assms(3)] b(2)] by simp
  then show ?thesis using assms(3-5) ab buf(1) by (simp only: ReadAt_def FileLength_def Let_def n) simp
qed

lemma ReadAt_spec:
  assumes "hdr_wf h" "disk_wf d" "0 \<le> pos" "0 < num" "pos < numBytes h"
  shows "ReadAt h num pos d = Inr (map (fbyte h d) [nat pos..<nat (min (pos + num) (numBytes h))])"
proof -
  obtain p where p: "pos = int p" using assms(3) nonneg_int_cases by blast
  obtain q where q: "min (pos + num) (numBytes h) = int q" using assms(3-5) nonneg_int_cases [of "min (pos + num) (numBytes h)"] by auto
  have "ReadAt h num (int p) d = Inr (map (fbyte h d) [p..<q])"
    by (rule ReadAt_spec_nat) (use assms p q in \<open>auto simp: min_def split: if_splits\<close>)
  then show ?thesis using p q by simp
qed

section \<open>Writing\<close>

lemma file_sector_nat:
  assumes "hdr_wf h" "128 * int i < numBytes h"
  shows "ByteToSector h (int i * 128) = Inr (dataSectors h ! i)" "0 \<le> dataSectors h ! i" "dataSectors h ! i < 1024"
  using file_sector_ok(1,2) [OF assms(1) _ assms(2)] by auto

lemma write_loop:
  assumes "hdr_wf h" "disk_wf d" "A \<le> B" "128 * int B < numBytes h" "length buf = 128 * (B + 1 - A)"
  shows "\<exists>d'. forE (int A) (int B + 1) (\<lambda>i dk. bindE (ByteToSector h (i * 128)) (\<lambda>s.
              bindE (slice buf ((i - int A) * 128) 128) (\<lambda>data. WriteSector s data dk))) d = Inr d' \<and> disk_wf d' \<and>
           (\<forall>j. A \<le> j \<and> j \<le> B \<longrightarrow> d' ! nat (dataSectors h ! j) = take 128 (drop (128 * (j - A)) buf)) \<and>
           (\<forall>t. (\<forall>j. A \<le> j \<and> j \<le> B \<longrightarrow> t \<noteq> nat (dataSectors h ! j)) \<longrightarrow> d' ! t = d ! t)"
proof -
  let ?f = "\<lambda>i dk. bindE (ByteToSector h (i * 128)) (\<lambda>s.
              bindE (slice buf ((i - int A) * 128) 128) (\<lambda>data. WriteSector s data dk))"
  let ?s = "\<lambda>j. nat (dataSectors h ! j)" and ?c = "\<lambda>j. take 128 (drop (128 * (j - A)) buf)"
  let ?P = "\<lambda>i dk. disk_wf dk \<and> (\<forall>j. A \<le> j \<and> int j < i \<longrightarrow> dk ! ?s j = ?c j) \<and>
              (\<forall>t. (\<forall>j. A \<le> j \<and> int j < i \<longrightarrow> t \<noteq> ?s j) \<longrightarrow> dk ! t = d ! t)"
  have inj: "?s i \<noteq> ?s j" if "i \<noteq> j" "i \<le> B" "j \<le> B" for i j
  proof
    assume eq: "?s i = ?s j"
    have "128 * int i < numBytes h" "128 * int j < numBytes h" using that assms(4) by auto
    then have "dataSectors h ! i = dataSectors h ! j" using eq file_sector_nat(2) [OF assms(1)] by (simp add: eq_nat_nat_iff)
    then show False using file_sector_inj [OF assms(1), of "int i" "int j"] that assms(4) by auto
  qed
  have "\<exists>d'. forE (int A) (int B + 1) ?f d = Inr d' \<and> ?P (int B + 1) d'"
  proof (rule forE_invariant [where P = ?P])
    fix i dk assume i: "int A \<le> i" "i < int B + 1" and dk: "?P i dk"
    obtain j where j: "i = int j" "A \<le> j" "j \<le> B" using i by (metis nat_int_comparison(3) nonneg_int_cases of_nat_0_le_iff order_trans zle_add1_eq_le)
    have "128 * int j < numBytes h" using j(3) assms(4) by auto
    note s = file_sector_nat [OF assms(1) this]
    have e: "(int j - int A) * 128 = int (128 * (j - A))" using j(2) by (simp add: of_nat_diff)
    have le: "128 * (j - A) + 128 \<le> length buf" using j assms(5) by simp
    have sl: "slice buf ((int j - int A) * 128) 128 = Inr (?c j)"
      unfolding e using slice_nat [OF le] by simp
    have "length (?c j) = 128" using le by simp
    then have w: "WriteSector (dataSectors h ! j) (?c j) dk = Inr (dk[?s j := ?c j]) \<and> disk_wf (dk[?s j := ?c j])"
      using WriteSector_ok s(2,3) dk by blast
    have len: "?s j < length dk" using dk s by (auto simp: disk_wf_def)
    have "?P (i + 1) (dk[?s j := ?c j])"
    proof (intro conjI allI impI)
      show "disk_wf (dk[?s j := ?c j])" using w by blast
    next
      fix jj assume jj: "A \<le> jj \<and> int jj < i + 1"
      show "dk[?s j := ?c j] ! ?s jj = ?c jj"
      proof (cases "jj = j")
        case True
        then show ?thesis using len by simp
      next
        case False
        then have "int jj < i" "?s j \<noteq> ?s jj" using jj j inj [of j jj] by auto
        then show ?thesis using dk jj by simp
      qed
    next
      fix t assume t: "\<forall>ja. A \<le> ja \<and> int ja < i + 1 \<longrightarrow> t \<noteq> ?s ja"
      then have "t \<noteq> ?s j" using j by auto
      moreover have "dk ! t = d ! t" using dk t by auto
      ultimately show "dk[?s j := ?c j] ! t = d ! t" by simp
    qed
    then show "\<exists>t'. ?f i dk = Inr t' \<and> ?P (i + 1) t'" using s(1) sl w unfolding j(1) by auto
  qed (use assms in auto)
  then show ?thesis by auto
qed

lemma read_into:
  assumes "hdr_wf h" "disk_wf d" "A \<le> j" "j \<le> B" "128 * int j < numBytes h" "length buf = 128 * (B + 1 - A)"
  shows "\<exists>buf'. bindE (ReadAt h 128 (int j * 128) d) (\<lambda>bs. bcopy bs buf ((int j - int A) * 128)) = Inr buf' \<and>
           length buf' = length buf \<and>
           (\<forall>k. 128 * A \<le> k \<and> k < 128 * (B + 1) \<longrightarrow> buf' ! (k - 128 * A) =
              (if 128 * j \<le> k \<and> k < 128 * (j + 1) \<and> int k < numBytes h then fbyte h d k else buf ! (k - 128 * A)))"
proof -
  let ?q = "nat (min (int j * 128 + 128) (numBytes h))" and ?o = "128 * (j - A)"
  let ?bs = "map (fbyte h d) [128 * j..<?q]"
  have r: "ReadAt h 128 (int j * 128) d = Inr ?bs"
    using ReadAt_spec [OF assms(1,2), of "int j * 128" 128] assms(5) by (simp add: nat_mult_distrib mult.commute)
  have q: "?q \<le> 128 * j + 128" by auto
  have e: "(int j - int A) * 128 = int ?o" using assms(3) by (simp add: of_nat_diff)
  have "?o + length ?bs \<le> length buf" using q assms(3,4,6) by simp
  then obtain b where b: "bcopy ?bs buf (int ?o) = Inr b" "length b = length buf"
    "\<And>k. k < length buf \<Longrightarrow> b ! k = (if ?o \<le> k \<and> k < ?o + length ?bs then ?bs ! (k - ?o) else buf ! k)"
    by (rule bcopy_ok) blast
  have "b ! (k - 128 * A) = (if 128 * j \<le> k \<and> k < 128 * (j + 1) \<and> int k < numBytes h then fbyte h d k else buf ! (k - 128 * A))"
    if k: "128 * A \<le> k" "k < 128 * (B + 1)" for k
  proof -
    have "?o \<le> k - 128 * A \<and> k - 128 * A < ?o + length ?bs \<longleftrightarrow> 128 * j \<le> k \<and> k < ?q" using k assms(3) by auto
    moreover have "k < ?q \<longleftrightarrow> k < 128 * (j + 1) \<and> int k < numBytes h" by auto
    moreover have "?bs ! (k - 128 * A - ?o) = fbyte h d k" if "128 * j \<le> k" "k < ?q"
      using that k assms(3) by (simp add: diff_mult_distrib2)
    ultimately show ?thesis using b(3) [of "k - 128 * A"] k assms(6) by auto
  qed
  then show ?thesis using r b(1,2) e by auto
qed

text \<open>
  The buffer that \<open>WriteAt\<close> writes back, from sector \<open>A\<close> to sector \<open>B\<close>: the new bytes in the range \<open>p..<q\<close>, and around
  it the bytes the file has.
\<close>

lemma write_buffer:
  assumes h: "hdr_wf h" and d: "disk_wf d" and pq: "p < q" "int q \<le> numBytes h" "q - p \<le> length from"
    and AB: "A = p div 128" "B = (q - 1) div 128" and buf: "length buf = 128 * (B + 1 - A)"
  shows "\<exists>buf3. bindE (if \<not> (int p = int A * 128)
               then bindE (ReadAt h 128 (int A * 128) d) (\<lambda>bs. bcopy bs buf 0)
               else Inr buf) (\<lambda>buf1.
        bindE (if \<not> (int q = (int B + 1) * 128) \<and> (int A \<noteq> int B \<or> int p = int A * 128)
               then bindE (ReadAt h 128 (int B * 128) d) (\<lambda>bs. bcopy bs buf1 ((int B - int A) * 128))
               else Inr buf1) (\<lambda>buf2.
        bindE (slice from 0 (int (q - p))) (\<lambda>src. bcopy src buf2 (int p - int A * 128)))) = Inr buf3 \<and>
      length buf3 = 128 * (B + 1 - A) \<and>
      (\<forall>k. 128 * A \<le> k \<and> k < 128 * (B + 1) \<and> int k < numBytes h \<longrightarrow>
          buf3 ! (k - 128 * A) = (if p \<le> k \<and> k < q then from ! (k - p) else fbyte h d k))"
proof -
  have b: "128 * A \<le> p" "q \<le> 128 * (B + 1)" "128 * B < q" "p < 128 * (A + 1)" "A \<le> B"
    using last_sector_bounds [of q] pq(1) dividend_less_times_div [of 128 p] by (auto simp: AB div_le_mono)
  have N: "128 * int A < numBytes h" "128 * int B < numBytes h" using b pq by linarith+
  let ?r1 = "if \<not> (int p = int A * 128) then bindE (ReadAt h 128 (int A * 128) d) (\<lambda>bs. bcopy bs buf 0) else Inr buf"
  obtain buf1 where buf1: "?r1 = Inr buf1" "length buf1 = length buf"
    "\<And>k. p \<noteq> 128 * A \<Longrightarrow> 128 * A \<le> k \<Longrightarrow> k < 128 * (A + 1) \<Longrightarrow> int k < numBytes h \<Longrightarrow> buf1 ! (k - 128 * A) = fbyte h d k"
  proof (cases "int p = int A * 128")
    case True
    then show ?thesis using that [of buf] by auto
  next
    case False
    from read_into [OF h d order_refl b(5) N(1) buf] obtain b1 where
      "bindE (ReadAt h 128 (int A * 128) d) (\<lambda>bs. bcopy bs buf ((int A - int A) * 128)) = Inr b1" "length b1 = length buf"
      "\<And>k. 128 * A \<le> k \<Longrightarrow> k < 128 * (A + 1) \<Longrightarrow> int k < numBytes h \<Longrightarrow> b1 ! (k - 128 * A) = fbyte h d k"
      using b(5) by auto
    then show ?thesis using False that [of b1] by auto
  qed
  let ?r2 = "if \<not> (int q = (int B + 1) * 128) \<and> (int A \<noteq> int B \<or> int p = int A * 128)
               then bindE (ReadAt h 128 (int B * 128) d) (\<lambda>bs. bcopy bs buf1 ((int B - int A) * 128)) else Inr buf1"
  obtain buf2 where buf2: "?r2 = Inr buf2" "length buf2 = length buf"
    "\<And>k. 128 * A \<le> k \<Longrightarrow> k < 128 * (B + 1) \<Longrightarrow> int k < numBytes h \<Longrightarrow> \<not> (p \<le> k \<and> k < q) \<Longrightarrow> buf2 ! (k - 128 * A) = fbyte h d k"
  proof (cases "\<not> (int q = (int B + 1) * 128) \<and> (int A \<noteq> int B \<or> int p = int A * 128)")
    case True
    have len1: "length buf1 = 128 * (B + 1 - A)" using buf1(2) buf by simp
    from read_into [OF h d b(5) order_refl N(2) len1] obtain b2 where
      b2: "bindE (ReadAt h 128 (int B * 128) d) (\<lambda>bs. bcopy bs buf1 ((int B - int A) * 128)) = Inr b2" "length b2 = length buf1"
      "\<And>k. 128 * A \<le> k \<Longrightarrow> k < 128 * (B + 1) \<Longrightarrow> b2 ! (k - 128 * A) =
         (if 128 * B \<le> k \<and> k < 128 * (B + 1) \<and> int k < numBytes h then fbyte h d k else buf1 ! (k - 128 * A))"
      by blast
    have "b2 ! (k - 128 * A) = fbyte h d k"
      if k: "128 * A \<le> k" "k < 128 * (B + 1)" "int k < numBytes h" "\<not> (p \<le> k \<and> k < q)" for k
    proof (cases "128 * B \<le> k")
      case False
      then have "p \<noteq> 128 * A" "k < 128 * (A + 1)" using k b by linarith+
      then show ?thesis using b2(3) [OF k(1,2)] buf1(3) [OF _ k(1) _ k(3)] False by simp
    next
      case True
      then show ?thesis using b2(3) [OF k(1,2)] k by simp
    qed
    then show ?thesis using that [of b2] True b2(1,2) buf1(2) by simp
  next
    case False
    moreover have "int q = (int B + 1) * 128 \<longleftrightarrow> q = 128 * (B + 1)" "int p = int A * 128 \<longleftrightarrow> p = 128 * A" by auto
    ultimately consider "q = 128 * (B + 1)" | "A = B" "p \<noteq> 128 * A" by auto
    then have "buf1 ! (k - 128 * A) = fbyte h d k"
      if k: "128 * A \<le> k" "k < 128 * (B + 1)" "int k < numBytes h" "\<not> (p \<le> k \<and> k < q)" for k
    proof cases
      case 1
      then have "p \<noteq> 128 * A" "k < 128 * (A + 1)" using k b by linarith+
      then show ?thesis using buf1(3) [OF _ k(1) _ k(3)] by simp
    next
      case 2
      then show ?thesis using buf1(3) [OF _ k(1) _ k(3)] k by simp
    qed
    then show ?thesis using that [of buf1] False buf1(2) by auto
  qed
  have sl: "slice from 0 (int (q - p)) = Inr (take (q - p) from)" using slice_nat [of 0 "q - p" "from"] pq(3) by simp
  have e: "int p - int A * 128 = int (p - 128 * A)" using b(1) by (simp add: of_nat_diff)
  have "p - 128 * A + length (take (q - p) from) \<le> length buf2" using buf2(2) buf b pq by simp
  then obtain buf3 where buf3: "bcopy (take (q - p) from) buf2 (int (p - 128 * A)) = Inr buf3" "length buf3 = length buf2"
    "\<And>k. k < length buf2 \<Longrightarrow> buf3 ! k = (if p - 128 * A \<le> k \<and> k < p - 128 * A + length (take (q - p) from)
        then take (q - p) from ! (k - (p - 128 * A)) else buf2 ! k)"
    by (rule bcopy_ok) blast
  have "buf3 ! (k - 128 * A) = (if p \<le> k \<and> k < q then from ! (k - p) else fbyte h d k)"
    if k: "128 * A \<le> k" "k < 128 * (B + 1)" "int k < numBytes h" for k
  proof -
    have "k - 128 * A < length buf2" using k buf2(2) buf by simp
    note b3 = buf3(3) [OF this]
    have iff: "p - 128 * A \<le> k - 128 * A \<and> k - 128 * A < p - 128 * A + length (take (q - p) from) \<longleftrightarrow> p \<le> k \<and> k < q"
      using k b pq by auto
    have "k - 128 * A - (p - 128 * A) = k - p" using k b by simp
    moreover have "take (q - p) from ! (k - p) = from ! (k - p)" if "p \<le> k \<and> k < q" using that by auto
    ultimately show ?thesis using buf2(3) [OF k] unfolding b3 iff by auto
  qed
  then show ?thesis using buf1(1) buf2(1) buf2(2) sl buf3(1,2) buf unfolding e by simp
qed

lemma WriteAt_spec_nat:
  assumes "hdr_wf h" "disk_wf d" "p < q" "int q \<le> numBytes h" "0 < num" "q - p \<le> length from"
    and n: "(if int p + num > numBytes h then numBytes h - int p else num) = int q - int p"
  shows "\<exists>d'. WriteAt junk h from num (int p) d = Inr (int q - int p, d') \<and> disk_wf d' \<and>
           (\<forall>k. int k < numBytes h \<longrightarrow> fbyte h d' k = (if p \<le> k \<and> k < q then from ! (k - p) else fbyte h d k)) \<and>
           (\<forall>t. t \<notin> nat ` set (file_sectors h) \<longrightarrow> d' ! t = d ! t)"
proof -
  define A B where AB: "A = p div 128" "B = (q - 1) div 128"
  have b: "128 * B < q" "A \<le> B" "128 * A \<le> p" "q \<le> 128 * (B + 1)"
    using last_sector_bounds [of q] assms(3) by (auto simp: AB div_le_mono)
  have N: "128 * int B < numBytes h" using b assms(4) by linarith
  have qq: "int p + (int q - int p) - 1 = int (q - 1)" using assms(3) by simp
  have ab: "divRoundDown (int p) 128 = int A" "divRoundDown (int p + (int q - int p) - 1) 128 = int B"
    unfolding qq AB by (simp_all add: divRoundDown_nonneg zdiv_int)
  let ?buf = "map junk [0..<nat ((1 + int B - int A) * 128)]"
  have len: "length ?buf = 128 * (B + 1 - A)" using b(2) by (simp add: nat_mult_distrib nat_diff_distrib)
  obtain buf3 where buf3: "bindE (if \<not> (int p = int A * 128)
               then bindE (ReadAt h 128 (int A * 128) d) (\<lambda>bs. bcopy bs ?buf 0) else Inr ?buf) (\<lambda>buf1.
        bindE (if \<not> (int q = (int B + 1) * 128) \<and> (int A \<noteq> int B \<or> int p = int A * 128)
               then bindE (ReadAt h 128 (int B * 128) d) (\<lambda>bs. bcopy bs buf1 ((int B - int A) * 128))
               else Inr buf1) (\<lambda>buf2.
        bindE (slice from 0 (int (q - p))) (\<lambda>src. bcopy src buf2 (int p - int A * 128)))) = Inr buf3"
    "length buf3 = 128 * (B + 1 - A)"
    "\<And>k. 128 * A \<le> k \<Longrightarrow> k < 128 * (B + 1) \<Longrightarrow> int k < numBytes h \<Longrightarrow>
          buf3 ! (k - 128 * A) = (if p \<le> k \<and> k < q then from ! (k - p) else fbyte h d k)"
    using write_buffer [OF assms(1,2,3,4,6) AB len] by blast
  obtain d' where d': "forE (int A) (int B + 1) (\<lambda>i dk. bindE (ByteToSector h (i * 128)) (\<lambda>s.
              bindE (slice buf3 ((i - int A) * 128) 128) (\<lambda>data. WriteSector s data dk))) d = Inr d'" "disk_wf d'"
    "\<And>j. A \<le> j \<Longrightarrow> j \<le> B \<Longrightarrow> d' ! nat (dataSectors h ! j) = take 128 (drop (128 * (j - A)) buf3)"
    "\<And>t. (\<forall>j. A \<le> j \<and> j \<le> B \<longrightarrow> t \<noteq> nat (dataSectors h ! j)) \<Longrightarrow> d' ! t = d ! t"
    using write_loop [OF assms(1,2) b(2) N buf3(2)] by blast
  have qp: "int q - int p = int (q - p)" using assms(3) by simp
  have c: "\<not> (num \<le> 0 \<or> int p \<ge> numBytes h)" using assms(3-5) by simp
  have pq: "int p + int (q - p) = int q" using assms(3) by simp
  let ?loop = "\<lambda>buf3. bindE (forE (int A) (int B + 1) (\<lambda>i dk. bindE (ByteToSector h (i * 128)) (\<lambda>s.
              bindE (slice buf3 ((i - int A) * 128) 128) (\<lambda>data. WriteSector s data dk))) d) (\<lambda>d'. Inr (int (q - p), d'))"
  have "WriteAt junk h from num (int p) d = bindE (Inr buf3) ?loop"
    unfolding WriteAt_def FileLength_def Let_def if_not_P [OF c] n ab unfolding qp pq buf3(1) [symmetric]
    by (simp only: bindE_assoc)
  then have "WriteAt junk h from num (int p) d = Inr (int q - int p, d')" unfolding qp bindE_Inr d'(1) .
  moreover have "fbyte h d' k = (if p \<le> k \<and> k < q then from ! (k - p) else fbyte h d k)" if k: "int k < numBytes h" for k
  proof -
    let ?i = "k div 128"
    have ki: "128 * int ?i < numBytes h \<or> 128 * int ?i = numBytes h" "128 * ?i + k mod 128 = k" "k mod 128 < 128"
      using k by (auto simp: zdiv_int)
    have i: "128 * int ?i < numBytes h" using k ki(2) by linarith
    show ?thesis
    proof (cases "A \<le> ?i \<and> ?i \<le> B")
      case True
      have "128 * A \<le> 128 * ?i" "128 * ?i \<le> 128 * B" using True by simp_all
      then have kk: "128 * A \<le> k" "k < 128 * (B + 1)"
        using dividend_less_times_div [of 128 k] times_div_less_eq_dividend [of 128 k] by simp_all
      have "128 * (?i - A) \<le> length buf3" using True buf3(2) by (simp add: diff_le_mono)
      then have "fbyte h d' k = buf3 ! (128 * (?i - A) + k mod 128)"
        using d'(3) [of ?i] True ki(3) by (simp add: fbyte_def)
      also have "128 * (?i - A) + k mod 128 = k - 128 * A" using True ki(2) by linarith
      finally show ?thesis using buf3(3) [OF kk k] by simp
    next
      case False
      have "nat (dataSectors h ! ?i) \<noteq> nat (dataSectors h ! j)" if j: "A \<le> j" "j \<le> B" for j
      proof
        assume e: "nat (dataSectors h ! ?i) = nat (dataSectors h ! j)"
        have jj: "128 * int j < numBytes h" using j(2) N by linarith
        then have "dataSectors h ! ?i = dataSectors h ! j"
          using e file_sector_nat(2) [OF assms(1) i] file_sector_nat(2) [OF assms(1) jj] by (simp add: eq_nat_nat_iff)
        then have "?i = j" using file_sector_inj [OF assms(1), of "int ?i" "int j"] i jj by simp
        then show False using False j by simp
      qed
      then have eq: "fbyte h d' k = fbyte h d k" using d'(4) by (simp add: fbyte_def)
      have nr: "\<not> (p \<le> k \<and> k < q)"
      proof
        assume "p \<le> k \<and> k < q"
        then have "A \<le> ?i" "?i \<le> B" unfolding AB using assms(3) by (auto intro: div_le_mono)
        then show False using False by simp
      qed
      show ?thesis unfolding if_not_P [OF nr] by (rule eq)
    qed
  qed
  moreover have "d' ! t = d ! t" if t: "t \<notin> nat ` set (file_sectors h)" for t
  proof (rule d'(4), intro allI impI notI)
    fix j assume j: "A \<le> j \<and> j \<le> B" "t = nat (dataSectors h ! j)"
    have "128 * int j < numBytes h" using j(1) N by linarith
    then have "dataSectors h ! j \<in> set (file_sectors h)"
      using file_sector_ok(3,4) [OF assms(1), of "int j"] nth_mem by fastforce
    then show False using t j(2) by blast
  qed
  ultimately show ?thesis using d'(2) by blast
qed

lemma WriteAt_spec:
  assumes "hdr_wf h" "disk_wf d" "0 \<le> pos" "0 < num" "pos < numBytes h" "num \<le> int (length from)"
  shows "\<exists>d'. WriteAt junk h from num pos d = Inr (min num (numBytes h - pos), d') \<and> disk_wf d' \<and>
           (\<forall>k. int k < numBytes h \<longrightarrow> fbyte h d' k =
              (if nat pos \<le> k \<and> k < nat (min (pos + num) (numBytes h)) then from ! (k - nat pos) else fbyte h d k)) \<and>
           (\<forall>t. t \<notin> nat ` set (file_sectors h) \<longrightarrow> d' ! t = d ! t)"
proof -
  obtain p where p: "pos = int p" using assms(3) nonneg_int_cases by blast
  obtain q where q: "min (pos + num) (numBytes h) = int q" using assms(3-5) nonneg_int_cases [of "min (pos + num) (numBytes h)"] by auto
  have "int q - int p = min num (numBytes h - pos)" using p q by (auto simp: min_def split: if_splits)
  moreover have "\<exists>d'. WriteAt junk h from num (int p) d = Inr (int q - int p, d') \<and> disk_wf d' \<and>
      (\<forall>k. int k < numBytes h \<longrightarrow> fbyte h d' k = (if p \<le> k \<and> k < q then from ! (k - p) else fbyte h d k)) \<and>
      (\<forall>t. t \<notin> nat ` set (file_sectors h) \<longrightarrow> d' ! t = d ! t)"
    by (rule WriteAt_spec_nat) (use assms p q in \<open>auto simp: min_def split: if_splits\<close>)
  ultimately show ?thesis by (simp only: p q [unfolded p] nat_int)
qed

section \<open>Headers and bitmaps on disk\<close>

lemma bytes_to_words_to_bytes [simp]: "bytes_to_words (words_to_bytes ws) = ws"
proof (induction ws)
  case (Cons w ws)
  have "bytes_to_word [ucast w, ucast (drop_bit 8 w), ucast (drop_bit 16 w), ucast (drop_bit 24 w)] = w"
    using bytes_to_word_to_bytes [of w] by (simp add: word_to_bytes_def)
  then show ?case using Cons by (simp add: words_to_bytes_def word_to_bytes_def)
qed (simp add: words_to_bytes_def)

lemma length_words_to_bytes [simp]: "length (words_to_bytes ws) = 4 * length ws"
  by (induction ws) (simp_all add: words_to_bytes_def)

text \<open>The integers of a header fit in 32 bits.\<close>

definition hdr_fits :: "FileHeader \<Rightarrow> bool" where
  "hdr_fits h \<longleftrightarrow> length (dataSectors h) = 30 \<and>
     (\<forall>x \<in> set (numBytes h # numSectors h # dataSectors h). - (2 ^ 31) \<le> x \<and> x < 2 ^ 31)"

lemma bytes_to_hdr_to_bytes: "hdr_fits h \<Longrightarrow> bytes_to_hdr (hdr_to_bytes h) = h"
proof -
  assume h: "hdr_fits h"
  have "map (sint \<circ> (word_of_int :: int \<Rightarrow> 32 word)) (numBytes h # numSectors h # dataSectors h) =
      numBytes h # numSectors h # dataSectors h"
    by (rule map_idI) (use h in \<open>auto simp: hdr_fits_def sint_in_range\<close>)
  then show ?thesis by (simp add: bytes_to_hdr_def hdr_to_bytes_def Let_def comp_def)
qed

lemma length_hdr_to_bytes: "hdr_fits h \<Longrightarrow> length (hdr_to_bytes h) = 128"
  by (simp add: hdr_to_bytes_def hdr_fits_def)

lemma take_drop_file_bytes:
  "p \<le> q \<Longrightarrow> q \<le> nat (numBytes h) \<Longrightarrow> take (q - p) (drop p (file_bytes h d)) = map (fbyte h d) [p..<q]"
  by (simp add: file_bytes_def take_map drop_map)

lemma length_file_bytes [simp]: "length (file_bytes h d) = nat (numBytes h)"
  by (simp add: file_bytes_def)

lemma file_bytes_cong:
  "(\<And>k. int k < numBytes h \<Longrightarrow> fbyte h d' k = fbyte h d k) \<Longrightarrow> file_bytes h d' = file_bytes h d"
  by (auto simp: file_bytes_def)

lemma replaced_range:
  assumes "length zs = length xs" "p + n \<le> length xs" "n \<le> length ys"
    and "\<And>k. k < length xs \<Longrightarrow> zs ! k = (if p \<le> k \<and> k < p + n then ys ! (k - p) else xs ! k)"
  shows "zs = take p xs @ take n ys @ drop (p + n) xs"
  by (rule nth_equalityI) (use assms in \<open>auto simp: nth_append\<close>)

text \<open>A write, seen on the bytes of the file.\<close>

lemma WriteAt_range:
  assumes "hdr_wf h" "disk_wf d" "0 \<le> pos" "0 < num" "pos < numBytes h" "num \<le> int (length from)"
  shows "\<exists>d' n. WriteAt junk h from num pos d = Inr (int n, d') \<and> int n = min num (numBytes h - pos) \<and> disk_wf d' \<and>
           file_bytes h d' = take (nat pos) (file_bytes h d) @ take n from @ drop (nat pos + n) (file_bytes h d) \<and>
           (\<forall>t. t \<notin> nat ` set (file_sectors h) \<longrightarrow> d' ! t = d ! t)"
proof -
  obtain d' where d': "WriteAt junk h from num pos d = Inr (min num (numBytes h - pos), d')" "disk_wf d'"
    "\<And>k. int k < numBytes h \<Longrightarrow> fbyte h d' k =
       (if nat pos \<le> k \<and> k < nat (min (pos + num) (numBytes h)) then from ! (k - nat pos) else fbyte h d k)"
    "\<forall>t. t \<notin> nat ` set (file_sectors h) \<longrightarrow> d' ! t = d ! t" using WriteAt_spec [OF assms] by blast
  let ?n = "nat (min num (numBytes h - pos))"
  have e: "nat (min (pos + num) (numBytes h)) = nat pos + ?n" "?n \<le> length from" "nat pos + ?n \<le> nat (numBytes h)"
    using assms by (auto simp: min_def nat_add_distrib)
  have "file_bytes h d' = take (nat pos) (file_bytes h d) @ take ?n from @ drop (nat pos + ?n) (file_bytes h d)"
  proof (rule replaced_range)
    show "length (file_bytes h d') = length (file_bytes h d)" by simp
    show "nat pos + ?n \<le> length (file_bytes h d)" using e(3) by simp
    show "?n \<le> length from" by (rule e(2))
    fix k assume "k < length (file_bytes h d)"
    then have k: "k < nat (numBytes h)" "int k < numBytes h" by simp_all
    then have "file_bytes h d' ! k = fbyte h d' k" "file_bytes h d ! k = fbyte h d k" by (simp_all add: file_bytes_def)
    then show "file_bytes h d' ! k = (if nat pos \<le> k \<and> k < nat pos + ?n then from ! (k - nat pos) else file_bytes h d ! k)"
      using d'(3) [OF k(2)] unfolding e(1) by simp
  qed
  moreover have "int ?n = min num (numBytes h - pos)" using assms(4,5) by simp
  ultimately show ?thesis using d'(1,2,4) by (intro exI [of _ d'] exI [of _ ?n]) simp
qed

section \<open>Allocation\<close>

text \<open>The loop of \<open>Allocate\<close>: the first \<open>i\<close> entries hold distinct sectors that were free.\<close>

lemma allocate_loop:
  assumes "bm_inv fm" "int n \<le> numBits fm - int (card (bm_used fm))" "n \<le> length (dataSectors hdr)"
  shows "\<exists>h fm'. forE 0 (int n) (\<lambda>i (h, fm). bindE (Find fm) (\<lambda>(k, fm').
              bindE (arr_set (dataSectors h) i k) (\<lambda>ds. Inr (h\<lparr>dataSectors := ds\<rparr>, fm')))) (hdr, fm) = Inr (h, fm') \<and>
           bm_inv fm' \<and> numBits fm' = numBits fm \<and> bm_used fm' = bm_used fm \<union> set (take n (dataSectors h)) \<and>
           distinct (take n (dataSectors h)) \<and> set (take n (dataSectors h)) \<inter> bm_used fm = {} \<and>
           set (take n (dataSectors h)) \<subseteq> {0..<numBits fm} \<and> length (dataSectors h) = length (dataSectors hdr) \<and>
           drop n (dataSectors h) = drop n (dataSectors hdr) \<and>
           numBytes h = numBytes hdr \<and> numSectors h = numSectors hdr"
proof -
  let ?f = "\<lambda>i (h, fm). bindE (Find fm) (\<lambda>(k, fm').
              bindE (arr_set (dataSectors h) i k) (\<lambda>ds. Inr (h\<lparr>dataSectors := ds\<rparr>, fm')))"
  let ?P = "\<lambda>i (h, fm'). bm_inv fm' \<and> numBits fm' = numBits fm \<and> bm_used fm' = bm_used fm \<union> set (take (nat i) (dataSectors h)) \<and>
           distinct (take (nat i) (dataSectors h)) \<and> set (take (nat i) (dataSectors h)) \<inter> bm_used fm = {} \<and>
           set (take (nat i) (dataSectors h)) \<subseteq> {0..<numBits fm} \<and> length (dataSectors h) = length (dataSectors hdr) \<and>
           drop (nat i) (dataSectors h) = drop (nat i) (dataSectors hdr) \<and>
           numBytes h = numBytes hdr \<and> numSectors h = numSectors hdr"
  have "\<exists>r. forE 0 (int n) ?f (hdr, fm) = Inr r \<and> ?P (int n) r"
  proof (rule forE_invariant [where P = ?P])
    fix i r assume i: "0 \<le> i" "i < int n" and r: "?P i r"
    obtain h fm1 where hf: "r = (h, fm1)" by (cases r)
    obtain j where j: "i = int j" "j < n" using i by (metis nonneg_int_cases of_nat_less_iff)
    let ?t = "take j (dataSectors h)"
    have P: "bm_inv fm1" "numBits fm1 = numBits fm" "bm_used fm1 = bm_used fm \<union> set ?t" "distinct ?t"
      "set ?t \<inter> bm_used fm = {}" "set ?t \<subseteq> {0..<numBits fm}" "length (dataSectors h) = length (dataSectors hdr)"
      "drop j (dataSectors h) = drop j (dataSectors hdr)" "numBytes h = numBytes hdr" "numSectors h = numSectors hdr"
      using r hf j(1) by simp_all
    have jl: "j < length (dataSectors h)" using j(2) assms(3) P(7) by simp
    have "card (bm_used fm1) = card (bm_used fm) + j"
      unfolding P(3) using P(4,5) jl by (subst card_Un_disjoint) (auto simp: distinct_card)
    then have "bm_used fm1 \<noteq> {0..<numBits fm1}" using assms(2) j(2) P(2) by auto
    from Find_free [OF P(1) this] obtain k fm2 where
      k: "Find fm1 = Inr (k, fm2)" "0 \<le> k" "k < numBits fm1" "k \<notin> bm_used fm1" "bm_inv fm2" "numBits fm2 = numBits fm1"
        "bm_used fm2 = insert k (bm_used fm1)" by blast
    let ?ds = "(dataSectors h)[j := k]"
    have tk: "take (nat (i + 1)) ?ds = ?t @ [k]" using jl unfolding j(1) by (simp add: nat_add_distrib take_Suc_conv_app_nth)
    have st: "?f i r = Inr (h\<lparr>dataSectors := ?ds\<rparr>, fm2)" using k(1) jl unfolding hf j(1) by (simp add: arr_set_of_nat)
    have "drop (Suc j) ?ds = drop (Suc j) (dataSectors hdr)"
    proof -
      have "drop (Suc j) ?ds = drop (Suc j) (dataSectors h)" by (simp add: drop_update_cancel)
      also have "\<dots> = drop (Suc j) (dataSectors hdr)" using arg_cong [OF P(8), of tl] by (simp add: tl_drop drop_Suc)
      finally show ?thesis .
    qed
    then have "?P (i + 1) (h\<lparr>dataSectors := ?ds\<rparr>, fm2)"
      using P k(2-7) tk by (auto simp: j(1) nat_add_distrib)
    then show "\<exists>t'. ?f i r = Inr t' \<and> ?P (i + 1) t'" using st by blast
  qed (use assms in auto)
  then show ?thesis by auto
qed

lemma Allocate_enough:
  assumes "bm_inv fm" "0 \<le> sz" "divRoundUp sz 128 \<le> 30" "length (dataSectors hdr) = 30"
    and "divRoundUp sz 128 \<le> numBits fm - int (card (bm_used fm))" "numBits fm \<le> 1024"
  shows "\<exists>h fm'. Allocate fm sz hdr = Inr (True, h, fm') \<and> hdr_wf h \<and> numBytes h = sz \<and>
           bm_inv fm' \<and> numBits fm' = numBits fm \<and> bm_used fm' = bm_used fm \<union> set (file_sectors h) \<and>
           set (file_sectors h) \<inter> bm_used fm = {} \<and>
           (\<forall>i. divRoundUp sz 128 \<le> int i \<longrightarrow> dataSectors h ! i = dataSectors hdr ! i)"
proof -
  let ?h = "hdr\<lparr>numBytes := sz, numSectors := divRoundUp sz 128\<rparr>"
  obtain n where n: "divRoundUp sz 128 = int n" using divRoundUp_ge0 [OF assms(2), of 128] nonneg_int_cases by auto
  have "int n \<le> numBits fm - int (card (bm_used fm))" "n \<le> length (dataSectors ?h)" using assms(3-5) n by simp_all
  from allocate_loop [OF assms(1) this] obtain h fm' where
    l: "forE 0 (int n) (\<lambda>i (h, fm). bindE (Find fm) (\<lambda>(k, fm').
              bindE (arr_set (dataSectors h) i k) (\<lambda>ds. Inr (h\<lparr>dataSectors := ds\<rparr>, fm')))) (?h, fm) = Inr (h, fm')"
      "bm_inv fm'" "numBits fm' = numBits fm" "bm_used fm' = bm_used fm \<union> set (take n (dataSectors h))"
      "distinct (take n (dataSectors h))" "set (take n (dataSectors h)) \<inter> bm_used fm = {}"
      "set (take n (dataSectors h)) \<subseteq> {0..<numBits fm}" "length (dataSectors h) = 30"
      "drop n (dataSectors h) = drop n (dataSectors hdr)" "numBytes h = sz" "numSectors h = int n"
    using assms(4) n by auto
  have fs: "file_sectors h = take n (dataSectors h)" using l(11) by (simp add: file_sectors_def)
  have "hdr_wf h" using l assms(2,3,6) n fs by (auto simp: hdr_wf_def)
  moreover have "Allocate fm sz hdr = Inr (True, h, fm')"
    using l(1) assms(5) n NumClear_eq [OF assms(1)] by (simp add: Allocate_def Let_def)
  moreover have "dataSectors h ! i = dataSectors hdr ! i" if "divRoundUp sz 128 \<le> int i" for i
  proof -
    have "n \<le> i" using that n by simp
    then show ?thesis using arg_cong [OF l(9), of "\<lambda>xs. xs ! (i - n)"] l(8) assms(4) n assms(3) by (simp add: nth_drop)
  qed
  ultimately show ?thesis using l(2-4,6,10) fs by auto
qed

lemma Deallocate_ok:
  assumes "bm_inv fm" "hdr_wf h" "set (file_sectors h) \<subseteq> bm_used fm"
  shows "\<exists>fm'. Deallocate h fm = Inr fm' \<and> bm_inv fm' \<and> numBits fm' = numBits fm \<and>
           bm_used fm' = bm_used fm - set (file_sectors h)"
proof -
  let ?f = "\<lambda>i fm. bindE (arr_get (dataSectors h) i) (\<lambda>s. bindE (Test fm s) (\<lambda>t. bindE (ASSERT t) (\<lambda>_. Clear fm s)))"
  let ?P = "\<lambda>i fm'. bm_inv fm' \<and> numBits fm' = numBits fm \<and> bm_used fm' = bm_used fm - set (take (nat i) (dataSectors h))"
  have ns: "0 \<le> numSectors h" "numSectors h \<le> 30" "length (dataSectors h) = 30" "distinct (file_sectors h)"
    using assms(2) divRoundUp_ge0 [of "numBytes h" 128] by (auto simp: hdr_wf_def)
  have "\<exists>r. forE 0 (numSectors h) ?f fm = Inr r \<and> ?P (numSectors h) r"
  proof (rule forE_invariant [where P = ?P])
    fix i fm1 assume i: "0 \<le> i" "i < numSectors h" and P: "?P i fm1"
    obtain j where j: "i = int j" using i(1) nonneg_int_cases by blast
    let ?s = "dataSectors h ! j"
    have jl: "j < length (file_sectors h)" "?s = file_sectors h ! j" using i j ns by (simp_all add: file_sectors_def)
    have "j < nat (numSectors h)" using i j by simp
    then have tk: "take j (dataSectors h) = take j (file_sectors h)" by (simp add: file_sectors_def)
    have s: "?s \<in> bm_used fm" using jl assms(3) nth_mem by auto
    have "?s \<notin> set (take j (file_sectors h))"
      using ns(4) jl by (auto simp: in_set_conv_nth nth_eq_iff_index_eq)
    then have u: "?s \<in> bm_used fm1" using P s j tk by simp
    then have b: "0 \<le> ?s" "?s < numBits fm1" by (auto simp: bm_used_def)
    from Clear_eq [OF _ b] P obtain fm2 where
      c: "Clear fm1 ?s = Inr fm2" "bm_inv fm2" "numBits fm2 = numBits fm1" "bm_used fm2 = bm_used fm1 - {?s}" by blast
    have "Test fm1 ?s = Inr True" using Test_eq [OF _ b] P u by simp
    then have "?f i fm1 = Inr fm2" using c(1) i ns j by simp
    moreover have "take (nat (i + 1)) (dataSectors h) = take j (dataSectors h) @ [?s]"
      using j i ns by (simp add: nat_add_distrib take_Suc_conv_app_nth)
    then have "?P (i + 1) fm2" using P c(2-4) j by auto
    ultimately show "\<exists>t'. ?f i fm1 = Inr t' \<and> ?P (i + 1) t'" by blast
  qed (use assms ns in auto)
  then show ?thesis by (simp add: Deallocate_def file_sectors_def)
qed

section \<open>Properties\<close>


text \<open>
  (C12) \<open>WriteAt\<close> replaces exactly the requested range of the file, clipped at its end, and returns how many
  bytes that were; no other sector of the disk changes, so every file with other sectors is unaffected;
  the uninitialised buffer does not show in the file.
\<close>

theorem WriteAt_replaces_range:
  assumes "hdr_wf h" "disk_wf d" "0 \<le> pos" "0 < num" "pos < numBytes h" "num \<le> int (length from)"
  shows "\<exists>d' n. WriteAt junk h from num pos d = Inr (int n, d') \<and> int n = min num (numBytes h - pos) \<and> disk_wf d' \<and>
           file_bytes h d' = take (nat pos) (file_bytes h d) @ take n from @ drop (nat pos + n) (file_bytes h d) \<and>
           (\<forall>t. t \<notin> nat ` set (file_sectors h) \<longrightarrow> d' ! t = d ! t)"
  by (rule WriteAt_range [OF assms])

text \<open>A disk of zeros, a file of 200 bytes on it and a bitmap for the disk.\<close>

definition zero_disk :: sectors where
  "zero_disk = replicate 1024 (replicate 128 0)"

definition small_file :: FileHeader where
  "small_file = \<lparr>numBytes = 200, numSectors = 2, dataSectors = 5 # 7 # replicate 28 0\<rparr>"

lemma zero_disk_wf: "disk_wf zero_disk"
  by (simp add: disk_wf_def zero_disk_def)

lemma small_file_wf: "hdr_wf small_file"
  by (simp add: hdr_wf_def small_file_def file_sectors_def divRoundUp_nonneg)


theorem WriteAt_replaces_range_witness:
  "\<exists>d' n. WriteAt (\<lambda>n. 0) small_file [1, 2, 3, 4] 4 126 zero_disk = Inr (int n, d') \<and>
     file_bytes small_file d' = take 126 (file_bytes small_file zero_disk) @ [1, 2, 3, 4] @ drop 130 (file_bytes small_file zero_disk)"
  using WriteAt_replaces_range [OF small_file_wf zero_disk_wf, of 126 4 "[1, 2, 3, 4]" "\<lambda>n. 0"]
  by (auto simp: small_file_def)

text \<open>
  \<open>Allocate\<close> for a file that a header can describe: it fails exactly when too few sectors are free, and
  then takes none; otherwise the header is well formed, has the requested length and its data sectors
  are pairwise different, were free and are now marked. \<open>Deallocate\<close> frees exactly these again.
\<close>

theorem Allocate_Deallocate:
  assumes "bm_inv fm" "numBits fm \<le> 1024" "0 \<le> sz" "sz \<le> 3840" "length (dataSectors hdr) = 30" "NumClear fm = Inr c"
  shows "if c < divRoundUp sz 128 then \<exists>h. Allocate fm sz hdr = Inr (False, h, fm)
         else \<exists>h fm' fm''. Allocate fm sz hdr = Inr (True, h, fm') \<and> hdr_wf h \<and> FileLength h = sz \<and>
                set (file_sectors h) \<inter> bm_used fm = {} \<and> bm_used fm' = bm_used fm \<union> set (file_sectors h) \<and>
                Deallocate h fm' = Inr fm'' \<and> bm_used fm'' = bm_used fm"
proof -
  have c: "c = numBits fm - int (card (bm_used fm))" using NumClear_eq [OF assms(1)] assms(6) by simp
  have le: "divRoundUp sz 128 \<le> 30" using assms(3,4) by (simp add: divRoundUp_nonneg)
  show ?thesis
  proof (cases "c < divRoundUp sz 128")
    case True
    then show ?thesis using assms(6) by (simp add: Allocate_def Let_def)
  next
    case False
    then obtain h fm' where h: "Allocate fm sz hdr = Inr (True, h, fm')" "hdr_wf h" "numBytes h = sz" "bm_inv fm'"
      "bm_used fm' = bm_used fm \<union> set (file_sectors h)" "set (file_sectors h) \<inter> bm_used fm = {}"
      using Allocate_enough [OF assms(1,3) le assms(5)] assms(2) c by auto
    obtain fm'' where "Deallocate h fm' = Inr fm''" "bm_used fm'' = bm_used fm' - set (file_sectors h)"
      using Deallocate_ok [OF h(4,2)] h(5) by auto
    then show ?thesis using False h by (auto simp: FileLength_def)
  qed
qed

lemma fresh_bitmap: "\<exists>bm. new_BitMap garbage 1024 = Inr bm \<and> bm_inv bm \<and> numBits bm = 1024 \<and> bm_used bm = {} \<and> NumClear bm = Inr 1024"
  using new_BitMap_eq [of 1024 garbage] NumClear_eq by fastforce

theorem Allocate_Deallocate_witness:
  "\<exists>fm h fm' fm''. new_BitMap (\<lambda>i. 7) 1024 = Inr fm \<and> Allocate fm 300 small_file = Inr (True, h, fm') \<and>
     FileLength h = 300 \<and> Deallocate h fm' = Inr fm'' \<and> bm_used fm'' = {}"
proof -
  obtain fm where fm: "new_BitMap (\<lambda>i. 7) 1024 = Inr fm" "bm_inv fm" "numBits fm = 1024" "bm_used fm = {}" "NumClear fm = Inr 1024"
    using fresh_bitmap by blast
  have "length (dataSectors small_file) = 30" by (simp add: small_file_def)
  from Allocate_Deallocate [OF fm(2) _ _ _ this fm(5), of 300] fm(3,4) show ?thesis
    using fm(1) by (simp add: divRoundUp_nonneg) blast
qed

text \<open>
  A file of more than 30 sectors overruns the header: \<open>Allocate\<close> does not compare the size with
  \<open>MaxFileSize\<close> and writes behind the end of \<open>dataSectors\<close> as soon as the disk has room for the file.
\<close>

theorem Allocate_too_large_overruns:
  assumes "bm_inv fm" "3840 < sz" "length (dataSectors hdr) = 30" "NumClear fm = Inr c" "divRoundUp sz 128 \<le> c"
  shows "Allocate fm sz hdr = Inl OutOfBounds"
proof -
  let ?h = "hdr\<lparr>numBytes := sz, numSectors := divRoundUp sz 128\<rparr>"
  let ?f = "\<lambda>i (h, fm). bindE (Find fm) (\<lambda>(k, fm').
              bindE (arr_set (dataSectors h) i k) (\<lambda>ds. Inr (h\<lparr>dataSectors := ds\<rparr>, fm')))"
  have c: "c = numBits fm - int (card (bm_used fm))" using NumClear_eq [OF assms(1)] assms(4) by simp
  have n: "30 < divRoundUp sz 128" using assms(2) divRoundUp_bounds(1) [of sz 128] by simp
  obtain h fm' where l: "forE 0 30 ?f (?h, fm) = Inr (h, fm')" "bm_inv fm'" "numBits fm' = numBits fm"
    "bm_used fm' = bm_used fm \<union> set (dataSectors h)" "distinct (dataSectors h)" "length (dataSectors h) = 30"
    "set (dataSectors h) \<inter> bm_used fm = {}"
    using allocate_loop [OF assms(1), of 30 ?h] assms(3,5) n c by auto
  have "card (bm_used fm') = card (bm_used fm) + 30"
    unfolding l(4) using l(5-7) by (subst card_Un_disjoint) (auto simp: distinct_card)
  then have "bm_used fm' \<noteq> {0..<numBits fm'}" using assms(5) n c l(3) by auto
  then obtain k fm2 where "Find fm' = Inr (k, fm2)" using Find_free [OF l(2)] by blast
  then have "?f 30 (h, fm') = Inl OutOfBounds" using l(6) by (simp add: arr_set_def)
  then have "forE 30 (divRoundUp sz 128) ?f (h, fm') = Inl OutOfBounds" using n by (simp add: forE_step)
  then have "forE 0 (divRoundUp sz 128) ?f (?h, fm) = Inl OutOfBounds"
    using forE_split [of 0 30 "divRoundUp sz 128" ?f "(?h, fm)"] n l(1) by simp
  then show ?thesis using assms(4,5) by (simp add: Allocate_def Let_def)
qed

theorem Allocate_too_large_overruns_witness:
  "\<exists>fm. new_BitMap (\<lambda>i. 7) 1024 = Inr fm \<and> Allocate fm 4000 small_file = Inl OutOfBounds"
proof -
  obtain fm where fm: "new_BitMap (\<lambda>i. 7) 1024 = Inr fm" "bm_inv fm" "NumClear fm = Inr 1024"
    using fresh_bitmap by blast
  have "length (dataSectors small_file) = 30" by (simp add: small_file_def)
  from Allocate_too_large_overruns [OF fm(2) _ this fm(3), of 4000] fm(1) show ?thesis by (simp add: divRoundUp_nonneg)
qed

text \<open>A header written to a sector is read back.\<close>

lemma header_roundtrip:
  assumes "disk_wf d" "hdr_fits h" "0 \<le> s" "s < 1024"
  shows "\<exists>d'. WriteBack_hdr h s d = Inr d' \<and> disk_wf d' \<and> FetchFrom_hdr s d' = Inr h \<and> d' = d[nat s := hdr_to_bytes h]"
proof -
  have "WriteSector s (hdr_to_bytes h) d = Inr (d[nat s := hdr_to_bytes h])" "disk_wf (d[nat s := hdr_to_bytes h])"
    using WriteSector_ok [OF assms(1,3,4) length_hdr_to_bytes [OF assms(2)]] by auto
  moreover have "nat s < length d" using assms by (simp add: disk_wf_def)
  ultimately show ?thesis using ReadSector_ok [of "d[nat s := hdr_to_bytes h]" s] assms(3,4) bytes_to_hdr_to_bytes [OF assms(2)]
    by (simp add: WriteBack_hdr_def FetchFrom_hdr_def)
qed

end
