(* ===== verification/Directory.thy ===== *)
theory Directory
  imports Open_File
begin

text \<open>
  The directory of the file system: \<open>filesys/directory.cc\<close> and \<open>filesys/directory.h\<close>.

  A name passed by the caller is the list of its characters without the terminating zero. An entry keeps
  the bytes of its ten-character array and the five padding bytes of the structure, so that the 200 bytes
  written to the directory file are those of the table in memory. The memory that \<open>new\<close> returns is the
  argument \<open>junk\<close>. Only the first nine characters of a name count.

  The locale \<open>name_table\<close> is the contract the file system relies on: a finite map from names to sectors.
\<close>

section \<open>Data\<close>

abbreviation (input) FileNameMaxLen :: nat where "FileNameMaxLen \<equiv> 9"

record DirectoryEntry =
  inUse :: bool
  de_sector :: int
  de_name :: bytes
  de_pad :: bytes

record Directory =
  tableSize :: int
  de_table :: "DirectoryEntry list"

text \<open>The C library on zero-terminated strings: \<open>!strncmp(a, b, n)\<close> and \<open>strncpy(dst, src, n)\<close>.\<close>

definition c_hd :: "bytes \<Rightarrow> 8 word" where
  "c_hd s = (case s of [] \<Rightarrow> 0 | c # _ \<Rightarrow> c)"

fun strn_equal :: "nat \<Rightarrow> bytes \<Rightarrow> bytes \<Rightarrow> bool" where
  "strn_equal 0 a b = True"
| "strn_equal (Suc n) a b = (c_hd a = c_hd b \<and> (c_hd a = 0 \<or> strn_equal n (tl a) (tl b)))"

definition strncpy :: "bytes \<Rightarrow> bytes \<Rightarrow> nat \<Rightarrow> bytes" where
  "strncpy dst src n = take n (src @ replicate n 0) @ drop n dst"

section \<open>Operations\<close>

definition new_Directory :: "(nat \<Rightarrow> DirectoryEntry) \<Rightarrow> int \<Rightarrow> Directory" where
  "new_Directory junk sz = \<lparr>tableSize = sz, de_table = map (\<lambda>i. (junk i)\<lparr>inUse := False\<rparr>) [0..<nat sz]\<rparr>"

definition entry_to_bytes :: "DirectoryEntry \<Rightarrow> bytes" where
  "entry_to_bytes e =
     (if inUse e then 1 else 0) # take 3 (de_pad e) @ word_to_bytes (word_of_int (de_sector e)) @ de_name e @ drop 3 (de_pad e)"

definition bytes_to_entry :: "bytes \<Rightarrow> DirectoryEntry" where
  "bytes_to_entry bs =
     \<lparr>inUse = (bs ! 0 \<noteq> 0), de_sector = sint (bytes_to_word (take 4 (drop 4 bs))),
      de_name = take 10 (drop 8 bs), de_pad = take 3 (drop 1 bs) @ take 2 (drop 18 bs)\<rparr>"

definition table_to_bytes :: "DirectoryEntry list \<Rightarrow> bytes" where
  "table_to_bytes t = concat (map entry_to_bytes t)"

definition bytes_to_table :: "nat \<Rightarrow> bytes \<Rightarrow> DirectoryEntry list" where
  "bytes_to_table n bs = map (\<lambda>i. bytes_to_entry (take 20 (drop (20 * i) bs))) [0..<n]"

definition FetchFrom_dir :: "Directory \<Rightarrow> FileHeader \<Rightarrow> sectors \<Rightarrow> Directory result" where
  "FetchFrom_dir dir hdr d =
     bindE (ReadAt hdr (tableSize dir * 20) 0 d) (\<lambda>bs.
     bindE (bcopy bs (table_to_bytes (de_table dir)) 0) (\<lambda>bs'.
     Inr (dir\<lparr>de_table := bytes_to_table (length (de_table dir)) bs'\<rparr>)))"

definition WriteBack_dir :: "(nat \<Rightarrow> 8 word) \<Rightarrow> Directory \<Rightarrow> FileHeader \<Rightarrow> sectors \<Rightarrow> sectors result" where
  "WriteBack_dir junk dir hdr d =
     bindE (WriteAt junk hdr (table_to_bytes (de_table dir)) (tableSize dir * 20) 0 d) (\<lambda>(_, d'). Inr d')"

text \<open>The loops of \<open>FindIndex\<close> and \<open>Add\<close>, from index \<open>i\<close>.\<close>

function find_index :: "Directory \<Rightarrow> bytes \<Rightarrow> int \<Rightarrow> int result" where
  "find_index dir name i =
     (if i < tableSize dir then
        bindE (arr_get (de_table dir) i) (\<lambda>e.
          if inUse e \<and> strn_equal FileNameMaxLen (de_name e) name then Inr i else find_index dir name (i + 1))
      else Inr (- 1))"
  by pat_completeness auto
termination by (relation "measure (\<lambda>(dir, _, i). nat (tableSize dir - i))") auto

definition FindIndex :: "Directory \<Rightarrow> bytes \<Rightarrow> int result" where
  "FindIndex dir name = find_index dir name 0"

definition Dir_Find :: "Directory \<Rightarrow> bytes \<Rightarrow> int result" where
  "Dir_Find dir name =
     bindE (FindIndex dir name) (\<lambda>i.
       if i \<noteq> - 1 then bindE (arr_get (de_table dir) i) (\<lambda>e. Inr (de_sector e)) else Inr (- 1))"

function add_from :: "Directory \<Rightarrow> bytes \<Rightarrow> int \<Rightarrow> int \<Rightarrow> (bool \<times> Directory) result" where
  "add_from dir name newSector i =
     (if i < tableSize dir then
        bindE (arr_get (de_table dir) i) (\<lambda>e.
          if \<not> inUse e then
            bindE (arr_set (de_table dir) i
                (e\<lparr>inUse := True, de_name := strncpy (de_name e) name FileNameMaxLen, de_sector := newSector\<rparr>)) (\<lambda>t.
            Inr (True, dir\<lparr>de_table := t\<rparr>))
          else add_from dir name newSector (i + 1))
      else Inr (False, dir))"
  by pat_completeness auto
termination by (relation "measure (\<lambda>(dir, _, _, i). nat (tableSize dir - i))") auto

definition Dir_Add :: "Directory \<Rightarrow> bytes \<Rightarrow> int \<Rightarrow> (bool \<times> Directory) result" where
  "Dir_Add dir name newSector =
     bindE (FindIndex dir name) (\<lambda>i. if i \<noteq> - 1 then Inr (False, dir) else add_from dir name newSector 0)"

definition Dir_Remove :: "Directory \<Rightarrow> bytes \<Rightarrow> (bool \<times> Directory) result" where
  "Dir_Remove dir name =
     bindE (FindIndex dir name) (\<lambda>i.
       if i = - 1 then Inr (False, dir)
       else bindE (arr_get (de_table dir) i) (\<lambda>e.
            bindE (arr_set (de_table dir) i (e\<lparr>inUse := False\<rparr>)) (\<lambda>t. Inr (True, dir\<lparr>de_table := t\<rparr>))))"

text \<open>\<open>List\<close> prints the names of the entries in use; the model returns them.\<close>

definition Dir_List :: "Directory \<Rightarrow> bytes list" where
  "Dir_List dir = map (\<lambda>e. takeWhile (\<lambda>c. c \<noteq> 0) (de_name e)) (filter inUse (de_table dir))"

declare find_index.simps [simp del] add_from.simps [simp del]

section \<open>Invariant and abstraction\<close>

text \<open>The name of an entry, as far as it is compared.\<close>

definition cname :: "bytes \<Rightarrow> bytes" where
  "cname s = takeWhile (\<lambda>c. c \<noteq> 0) (take 9 s)"

definition entry_wf :: "DirectoryEntry \<Rightarrow> bool" where
  "entry_wf e \<longleftrightarrow> length (de_name e) = 10 \<and> length (de_pad e) = 5 \<and> - (2 ^ 31) \<le> de_sector e \<and> de_sector e < 2 ^ 31"

definition dir_inv :: "Directory \<Rightarrow> bool" where
  "dir_inv dir \<longleftrightarrow> tableSize dir = int (length (de_table dir)) \<and> (\<forall>e \<in> set (de_table dir). entry_wf e \<and> (inUse e \<longrightarrow> 0 \<le> de_sector e)) \<and>
     (\<forall>i < length (de_table dir). \<forall>j < length (de_table dir).
        inUse (de_table dir ! i) \<and> inUse (de_table dir ! j) \<and> cname (de_name (de_table dir ! i)) = cname (de_name (de_table dir ! j)) \<longrightarrow> i = j)"

text \<open>The index of the entry with a given name, and the map from names to sectors.\<close>

definition has_index :: "Directory \<Rightarrow> bytes \<Rightarrow> nat \<Rightarrow> bool" where
  "has_index dir key i \<longleftrightarrow> i < length (de_table dir) \<and> inUse (de_table dir ! i) \<and> cname (de_name (de_table dir ! i)) = key"

definition dir_map :: "Directory \<Rightarrow> bytes \<Rightarrow> int option" where
  "dir_map dir key = map_option de_sector (find (\<lambda>e. inUse e \<and> cname (de_name e) = key) (de_table dir))"

lemma strn_equal_iff:
  "strn_equal n a b \<longleftrightarrow> takeWhile (\<lambda>c. c \<noteq> 0) (take n a) = takeWhile (\<lambda>c. c \<noteq> 0) (take n b)"
proof (induction n arbitrary: a b)
  case (Suc n)
  show ?case using Suc [of "tl a" "tl b"] by (cases a; cases b) (auto simp: c_hd_def)
qed simp

lemma cname_strncpy: "length dst = 10 \<Longrightarrow> cname (strncpy dst nm 9) = cname nm"
proof -
  have "takeWhile (\<lambda>c. c \<noteq> 0) (xs @ replicate k 0) = takeWhile (\<lambda>c. c \<noteq> 0) xs" for xs and k
    by (induction xs) (auto simp: takeWhile_replicate)
  then show ?thesis by (simp add: cname_def strncpy_def take_replicate)
qed

lemma length_strncpy: "length dst = 10 \<Longrightarrow> length (strncpy dst nm 9) = 10"
  by (simp add: strncpy_def)

lemma has_index_unique: "dir_inv dir \<Longrightarrow> has_index dir key i \<Longrightarrow> has_index dir key j \<Longrightarrow> i = j"
  by (simp add: dir_inv_def has_index_def)

lemma dir_map_Some:
  assumes "dir_inv dir"
  shows "dir_map dir key = Some s \<longleftrightarrow> (\<exists>i. has_index dir key i \<and> s = de_sector (de_table dir ! i))"
proof
  assume "dir_map dir key = Some s"
  then obtain e where e: "find (\<lambda>e. inUse e \<and> cname (de_name e) = key) (de_table dir) = Some e" "s = de_sector e"
    by (auto simp: dir_map_def)
  then obtain i where "i < length (de_table dir)" "inUse (de_table dir ! i)" "cname (de_name (de_table dir ! i)) = key" "e = de_table dir ! i"
    by (auto simp: find_Some_iff)
  then show "\<exists>i. has_index dir key i \<and> s = de_sector (de_table dir ! i)" using e(2) by (auto simp: has_index_def)
next
  assume "\<exists>i. has_index dir key i \<and> s = de_sector (de_table dir ! i)"
  then obtain i where i: "has_index dir key i" "s = de_sector (de_table dir ! i)" by blast
  have "\<not> (inUse (de_table dir ! j) \<and> cname (de_name (de_table dir ! j)) = key)" if "j < i" for j
    using has_index_unique [OF assms i(1), of j] that i(1) by (auto simp: has_index_def)
  then have "find (\<lambda>e. inUse e \<and> cname (de_name e) = key) (de_table dir) = Some (de_table dir ! i)"
    using i(1) by (auto simp: find_Some_iff has_index_def intro!: exI [of _ i])
  then show "dir_map dir key = Some s" using i(2) by (simp add: dir_map_def)
qed

lemma dir_map_None: "dir_inv dir \<Longrightarrow> dir_map dir key = None \<longleftrightarrow> (\<forall>i. \<not> has_index dir key i)"
  by (auto simp: dir_map_def find_None_iff has_index_def in_set_conv_nth)

lemma find_index_spec:
  assumes "dir_inv dir" "0 \<le> i" "\<forall>j. has_index dir (cname name) j \<longrightarrow> i \<le> int j"
  shows "find_index dir name i = Inr (case find (\<lambda>j. has_index dir (cname name) j) [0..<length (de_table dir)] of None \<Rightarrow> - 1 | Some j \<Rightarrow> int j)"
  using assms
proof (induction dir name i rule: find_index.induct)
  case (1 dir name i)
  let ?fnd = "find (\<lambda>j. has_index dir (cname name) j) [0..<length (de_table dir)]"
  have sz: "tableSize dir = int (length (de_table dir))" using "1.prems"(1) by (simp add: dir_inv_def)
  show ?case
  proof (cases "i < tableSize dir")
    case False
    then have "?fnd = None" using "1.prems"(3) sz by (force simp: find_None_iff has_index_def)
    then show ?thesis using False by (simp add: find_index.simps)
  next
    case True
    obtain k where k: "i = int k" "k < length (de_table dir)" using True sz "1.prems"(2) by (metis nonneg_int_cases of_nat_less_iff)
    have g: "arr_get (de_table dir) i = Inr (de_table dir ! k)" using k by simp
    have eq: "inUse (de_table dir ! k) \<and> strn_equal 9 (de_name (de_table dir ! k)) name \<longleftrightarrow> has_index dir (cname name) k"
      using k(2) by (auto simp: has_index_def strn_equal_iff cname_def)
    show ?thesis
    proof (cases "has_index dir (cname name) k")
      case here: True
      have "\<not> has_index dir (cname name) j" if "j < k" for j using has_index_unique [OF "1.prems"(1) here] that by blast
      then have "?fnd = Some k" using k(2) here by (auto simp: find_Some_iff intro!: exI [of _ k])
      then show ?thesis using True g eq here by (simp add: find_index.simps [of dir name i]) (simp add: k(1))
    next
      case False
      have later: "i + 1 \<le> int j" if h: "has_index dir (cname name) j" for j
      proof -
        have "j \<noteq> k" using h False by auto
        moreover have "i \<le> int j" using "1.prems"(3) h by blast
        ultimately show ?thesis using k(1) by simp
      qed
      have ne: "\<not> (inUse (de_table dir ! k) \<and> strn_equal 9 (de_name (de_table dir ! k)) name)" using eq False by blast
      have "find_index dir name i = find_index dir name (i + 1)" using True g ne by (auto simp: find_index.simps [of dir name i])
      also have "\<dots> = Inr (case ?fnd of None \<Rightarrow> - 1 | Some j \<Rightarrow> int j)"
        using "1.IH" [OF True g ne "1.prems"(1)] "1.prems"(2) later by simp
      finally show ?thesis .
    qed
  qed
qed

lemma FindIndex_cases:
  assumes "dir_inv dir"
  obtains (found) i where "has_index dir (cname name) i" "FindIndex dir name = Inr (int i)"
        "dir_map dir (cname name) = Some (de_sector (de_table dir ! i))"
    | (absent) "\<forall>i. \<not> has_index dir (cname name) i" "FindIndex dir name = Inr (- 1)" "dir_map dir (cname name) = None"
proof (cases "find (\<lambda>j. has_index dir (cname name) j) [0..<length (de_table dir)]")
  case None
  then have "\<forall>i. \<not> has_index dir (cname name) i" by (auto simp: find_None_iff has_index_def)
  then show ?thesis using absent find_index_spec [OF assms, of 0 name] None dir_map_None [OF assms] by (simp add: FindIndex_def)
next
  case (Some i)
  then have "has_index dir (cname name) i" by (auto simp: find_Some_iff)
  then show ?thesis using found find_index_spec [OF assms, of 0 name] Some dir_map_Some [OF assms] by (auto simp: FindIndex_def)
qed

lemma index_sector: "dir_inv dir \<Longrightarrow> has_index dir key i \<Longrightarrow> 0 \<le> de_sector (de_table dir ! i)"
  by (simp add: dir_inv_def has_index_def)

lemma Dir_Find_spec:
  assumes "dir_inv dir"
  shows "Dir_Find dir name = Inr (case dir_map dir (cname name) of None \<Rightarrow> - 1 | Some s \<Rightarrow> s)"
  using assms
  by (rule FindIndex_cases [of dir name]) (auto simp: Dir_Find_def has_index_def)

lemma dir_map_nonneg: "dir_inv dir \<Longrightarrow> dir_map dir key = Some s \<Longrightarrow> 0 \<le> s"
  using index_sector by (auto simp: dir_map_Some)

text \<open>Replacing an entry.\<close>

lemma has_index_update:
  "i < length (de_table dir) \<Longrightarrow> has_index (dir\<lparr>de_table := (de_table dir)[i := e]\<rparr>) key j \<longleftrightarrow>
   (if j = i then inUse e \<and> cname (de_name e) = key else has_index dir key j)"
  by (auto simp: has_index_def nth_list_update)

lemma dir_inv_update:
  assumes "dir_inv dir" "i < length (de_table dir)" "entry_wf e" "inUse e \<longrightarrow> 0 \<le> de_sector e"
    and "inUse e \<longrightarrow> (\<forall>j. has_index dir (cname (de_name e)) j \<longrightarrow> j = i)"
  shows "dir_inv (dir\<lparr>de_table := (de_table dir)[i := e]\<rparr>)"
proof -
  have "\<forall>x \<in> set ((de_table dir)[i := e]). entry_wf x \<and> (inUse x \<longrightarrow> 0 \<le> de_sector x)"
    using assms(1,3,4) by (auto simp: dir_inv_def dest!: subsetD [OF set_update_subset_insert])
  moreover have "a = b" if "a < length (de_table dir)" "b < length (de_table dir)" "inUse ((de_table dir)[i := e] ! a)"
    "inUse ((de_table dir)[i := e] ! b)" "cname (de_name ((de_table dir)[i := e] ! a)) = cname (de_name ((de_table dir)[i := e] ! b))" for a b
    using that assms(1,2,5) by (cases "a = i"; cases "b = i") (auto simp: dir_inv_def has_index_def)
  ultimately show ?thesis using assms(1) by (auto simp: dir_inv_def)
qed

lemma dir_map_update:
  assumes "dir_inv dir" "i < length (de_table dir)" "dir_inv (dir\<lparr>de_table := (de_table dir)[i := e]\<rparr>)"
  shows "dir_map (dir\<lparr>de_table := (de_table dir)[i := e]\<rparr>) key =
           (if inUse e \<and> cname (de_name e) = key then Some (de_sector e)
            else if has_index dir key i then None else dir_map dir key)"
proof -
  let ?d = "dir\<lparr>de_table := (de_table dir)[i := e]\<rparr>"
  note h = has_index_update [OF assms(2), of e key]
  consider "inUse e \<and> cname (de_name e) = key" | "\<not> (inUse e \<and> cname (de_name e) = key)" "has_index dir key i"
    | "\<not> (inUse e \<and> cname (de_name e) = key)" "\<not> has_index dir key i" by blast
  then show ?thesis
  proof cases
    case 1
    then have "has_index ?d key i" by (simp add: h)
    then have "dir_map ?d key = Some (de_sector (de_table ?d ! i))" using dir_map_Some [OF assms(3)] by blast
    then show ?thesis using 1 assms(2) by simp
  next
    case 2
    have "\<not> has_index ?d key j" for j using h [of j] 2 has_index_unique [OF assms(1) 2(2), of j] by auto
    then show ?thesis using 2 dir_map_None [OF assms(3)] by auto
  next
    case 3
    have same: "has_index ?d key j = has_index dir key j" for j using h [of j] 3 by auto
    show ?thesis
    proof (cases "dir_map dir key")
      case None
      then have "\<forall>j. \<not> has_index ?d key j" using dir_map_None [OF assms(1), THEN iffD1] same by blast
      then have "dir_map ?d key = None" by (rule dir_map_None [OF assms(3), THEN iffD2])
      then show ?thesis using None 3 by simp
    next
      case (Some s)
      then obtain j where j: "has_index dir key j" "s = de_sector (de_table dir ! j)" using dir_map_Some [OF assms(1)] by blast
      then have "j \<noteq> i" using 3(2) by blast
      then have "dir_map ?d key = Some s" using dir_map_Some [OF assms(3), of key s] same [of j] j by auto
      then show ?thesis using Some 3 by auto
    qed
  qed
qed

lemma add_from_spec:
  assumes "dir_inv dir" "0 \<le> i" "\<forall>j < nat i. j < length (de_table dir) \<longrightarrow> inUse (de_table dir ! j)"
  shows "(\<exists>k. k < length (de_table dir) \<and> \<not> inUse (de_table dir ! k) \<and>
            add_from dir name sec i = Inr (True, dir\<lparr>de_table := (de_table dir)[k := (de_table dir ! k)
               \<lparr>inUse := True, de_name := strncpy (de_name (de_table dir ! k)) name 9, de_sector := sec\<rparr>]\<rparr>)) \<or>
         (\<forall>e \<in> set (de_table dir). inUse e) \<and> add_from dir name sec i = Inr (False, dir)"
  using assms
proof (induction dir name sec i rule: add_from.induct)
  case (1 dir name sec i)
  have sz: "tableSize dir = int (length (de_table dir))" using "1.prems"(1) by (simp add: dir_inv_def)
  show ?case
  proof (cases "i < tableSize dir")
    case False
    then show ?thesis using "1.prems"(3) sz by (auto simp: add_from.simps [of dir name sec i] in_set_conv_nth)
  next
    case True
    obtain k where k: "i = int k" "k < length (de_table dir)" using True sz "1.prems"(2) by (metis nonneg_int_cases of_nat_less_iff)
    have g: "arr_get (de_table dir) i = Inr (de_table dir ! k)" using k by simp
    show ?thesis
    proof (cases "inUse (de_table dir ! k)")
      case False
      have "arr_set (de_table dir) i e = Inr ((de_table dir)[k := e])" for e using k by (simp add: arr_set_of_nat)
      then have "add_from dir name sec i = Inr (True, dir\<lparr>de_table := (de_table dir)[k := (de_table dir ! k)
               \<lparr>inUse := True, de_name := strncpy (de_name (de_table dir ! k)) name 9, de_sector := sec\<rparr>]\<rparr>)"
        using True g False by (simp add: add_from.simps [of dir name sec i])
      then show ?thesis using k(2) False by blast
    next
      case used: True
      then have "\<forall>j < nat (i + 1). j < length (de_table dir) \<longrightarrow> inUse (de_table dir ! j)"
        using "1.prems"(3) k by (auto simp: nat_add_distrib less_Suc_eq)
      with "1.IH" [OF True g] "1.prems" used have IH: "(\<exists>k. k < length (de_table dir) \<and> \<not> inUse (de_table dir ! k) \<and>
            add_from dir name sec (i + 1) = Inr (True, dir\<lparr>de_table := (de_table dir)[k := (de_table dir ! k)
               \<lparr>inUse := True, de_name := strncpy (de_name (de_table dir ! k)) name 9, de_sector := sec\<rparr>]\<rparr>)) \<or>
         (\<forall>e \<in> set (de_table dir). inUse e) \<and> add_from dir name sec (i + 1) = Inr (False, dir)" by auto
      have "add_from dir name sec i = add_from dir name sec (i + 1)" using True g used by (simp add: add_from.simps [of dir name sec i])
      then show ?thesis using IH by simp
    qed
  qed
qed

lemma Dir_Add_spec:
  assumes "dir_inv dir" "0 \<le> sec" "sec < 2 ^ 31"
  shows "(dir_map dir (cname name) \<noteq> None \<or> (\<forall>e \<in> set (de_table dir). inUse e)) \<and> Dir_Add dir name sec = Inr (False, dir) \<or>
         dir_map dir (cname name) = None \<and> \<not> (\<forall>e \<in> set (de_table dir). inUse e) \<and>
         (\<exists>k. k < length (de_table dir) \<and> \<not> inUse (de_table dir ! k) \<and>
            Dir_Add dir name sec = Inr (True, dir\<lparr>de_table := (de_table dir)[k := (de_table dir ! k)
               \<lparr>inUse := True, de_name := strncpy (de_name (de_table dir ! k)) name 9, de_sector := sec\<rparr>]\<rparr>))"
  using assms(1)
proof (cases rule: FindIndex_cases [of dir name])
  case absent
  then show ?thesis using add_from_spec [OF assms(1), of 0 name sec] by (auto simp: Dir_Add_def)
qed (auto simp: Dir_Add_def)

text \<open>What \<open>Add\<close> and \<open>Remove\<close> do to the map from names to sectors.\<close>

lemma Dir_Add_True:
  assumes "dir_inv dir" "0 \<le> sec" "sec < 2 ^ 31" "Dir_Add dir name sec = Inr (True, dir')"
  shows "dir_inv dir'" "dir_map dir' = (dir_map dir)(cname name \<mapsto> sec)" "dir_map dir (cname name) = None"
    "tableSize dir' = tableSize dir"
proof -
  obtain k where k: "k < length (de_table dir)" "\<not> inUse (de_table dir ! k)" "dir_map dir (cname name) = None"
    and d: "dir' = dir\<lparr>de_table := (de_table dir)[k := (de_table dir ! k)
               \<lparr>inUse := True, de_name := strncpy (de_name (de_table dir ! k)) name 9, de_sector := sec\<rparr>]\<rparr>"
    using Dir_Add_spec [OF assms(1-3), of name] assms(4) by auto
  let ?e = "(de_table dir ! k)\<lparr>inUse := True, de_name := strncpy (de_name (de_table dir ! k)) name 9, de_sector := sec\<rparr>"
  have wf: "entry_wf (de_table dir ! k)" using assms(1) k(1) by (simp add: dir_inv_def)
  have e: "entry_wf ?e" "cname (de_name ?e) = cname name"
    using wf assms(2,3) by (simp_all add: entry_wf_def length_strncpy cname_strncpy)
  have none: "\<not> has_index dir (cname name) j" for j using k(3) dir_map_None [OF assms(1)] by blast
  show inv: "dir_inv dir'" unfolding d using assms k(1) e none by (intro dir_inv_update) auto
  have nk: "\<not> has_index dir key k" for key using k(2) by (simp add: has_index_def)
  have "dir_map dir' key = ((dir_map dir)(cname name \<mapsto> sec)) key" for key
    using dir_map_update [OF assms(1) k(1) inv [unfolded d], of key] nk e(2) unfolding d by auto
  then show "dir_map dir' = (dir_map dir)(cname name \<mapsto> sec)" by blast
  show "dir_map dir (cname name) = None" by (rule k(3))
  show "tableSize dir' = tableSize dir" by (simp add: d)
qed

lemma Dir_Remove_spec:
  assumes "dir_inv dir"
  shows "\<exists>dir'. Dir_Remove dir name = Inr (dir_map dir (cname name) \<noteq> None, dir') \<and> dir_inv dir' \<and>
           dir_map dir' = (dir_map dir)(cname name := None) \<and> tableSize dir' = tableSize dir"
  using assms
proof (cases rule: FindIndex_cases [of dir name])
  case (found i)
  let ?e = "(de_table dir ! i)\<lparr>inUse := False\<rparr>" and ?d = "dir\<lparr>de_table := (de_table dir)[i := (de_table dir ! i)\<lparr>inUse := False\<rparr>]\<rparr>"
  have i: "i < length (de_table dir)" using found(1) by (simp add: has_index_def)
  have inv: "dir_inv ?d" using assms i by (intro dir_inv_update) (auto simp: dir_inv_def entry_wf_def)
  have "dir_map ?d key = ((dir_map dir)(cname name := None)) key" for key
    using dir_map_update [OF assms i inv, of key] found(1) by (auto simp: has_index_def)
  then have "dir_map ?d = (dir_map dir)(cname name := None)" by blast
  moreover have "Dir_Remove dir name = Inr (True, ?d)" using found(2) i by (simp add: Dir_Remove_def arr_set_of_nat)
  ultimately show ?thesis using inv found(3) by auto
next
  case absent
  then have "Dir_Remove dir name = Inr (False, dir)" by (simp add: Dir_Remove_def)
  then show ?thesis using assms absent(3) by auto
qed

section \<open>The table on disk\<close>

lemma length_entry_to_bytes: "entry_wf e \<Longrightarrow> length (entry_to_bytes e) = 20"
  by (simp add: entry_wf_def entry_to_bytes_def)

lemma bytes_to_entry_to_bytes:
  assumes "entry_wf e"
  shows "bytes_to_entry (entry_to_bytes e) = e"
proof -
  obtain a b c w z where pad: "de_pad e = [a, b, c, w, z]"
    using assms by (auto simp: entry_wf_def length_Suc_conv numeral_eq_Suc)
  let ?w = "word_to_bytes (word_of_int (de_sector e))"
  have eb: "entry_to_bytes e = (if inUse e then 1 else 0) # a # b # c # ?w @ de_name e @ [w, z]"
    by (simp add: entry_to_bytes_def pad)
  have len: "length (de_name e) = 10" using assms by (simp add: entry_wf_def)
  have "sint (word_of_int (de_sector e) :: 32 word) = de_sector e" using assms by (intro sint_in_range) (simp_all add: entry_wf_def)
  then show ?thesis using len
    by (intro DirectoryEntry.equality) (simp_all add: bytes_to_entry_def eb pad)
qed

lemma entry_wf_bytes: "length bs = 20 \<Longrightarrow> entry_wf (bytes_to_entry bs)"
  using sint_range_size [of "bytes_to_word (take 4 (drop 4 bs))"]
  by (simp add: entry_wf_def bytes_to_entry_def word_size)

lemma length_table_to_bytes: "\<forall>e \<in> set t. entry_wf e \<Longrightarrow> length (table_to_bytes t) = 20 * length t"
  by (induction t) (auto simp: table_to_bytes_def length_entry_to_bytes)

lemma nth_table_to_bytes:
  "\<forall>e \<in> set t. entry_wf e \<Longrightarrow> i < length t \<Longrightarrow> take 20 (drop (20 * i) (table_to_bytes t)) = entry_to_bytes (t ! i)"
proof (induction t arbitrary: i)
  case (Cons e t)
  then show ?case by (cases i) (auto simp: table_to_bytes_def length_entry_to_bytes)
qed simp

lemma bytes_to_table_to_bytes:
  "\<forall>e \<in> set t. entry_wf e \<Longrightarrow> bytes_to_table (length t) (table_to_bytes t) = t"
  by (intro nth_equalityI) (auto simp: bytes_to_table_def nth_table_to_bytes bytes_to_entry_to_bytes)

section \<open>The number of names\<close>

lemma dom_dir_map: "dir_inv dir \<Longrightarrow> dom (dir_map dir) = (\<lambda>e. cname (de_name e)) ` set (filter inUse (de_table dir))"
  by (force simp: dom_def dir_map_Some has_index_def in_set_conv_nth image_iff)

lemma card_dom_dir_map:
  assumes "dir_inv dir"
  shows "card (dom (dir_map dir)) = length (filter inUse (de_table dir))"
proof -
  let ?I = "{i. i < length (de_table dir) \<and> inUse (de_table dir ! i)}"
  have d: "dom (dir_map dir) = (\<lambda>i. cname (de_name (de_table dir ! i))) ` ?I"
    unfolding dom_dir_map [OF assms] by (auto simp: in_set_conv_nth image_iff)
  have "inj_on (\<lambda>i. cname (de_name (de_table dir ! i))) ?I"
    using assms by (auto simp: inj_on_def dir_inv_def)
  then show ?thesis unfolding d by (simp add: card_image length_filter_conv_card)
qed

lemma full_iff: "dir_inv dir \<Longrightarrow> (\<forall>e \<in> set (de_table dir). inUse e) \<longleftrightarrow> int (card (dom (dir_map dir))) = tableSize dir"
  using sum_length_filter_compl [of inUse "de_table dir"]
  by (auto simp: card_dom_dir_map dir_inv_def filter_empty_conv)

text \<open>The abstract directory: a map with at most \<open>n\<close> names.\<close>

definition bmap_add :: "int \<Rightarrow> (bytes \<Rightarrow> int option) \<Rightarrow> bytes \<Rightarrow> int \<Rightarrow> bool \<times> (bytes \<Rightarrow> int option)" where
  "bmap_add n m key v = (if m key \<noteq> None \<or> int (card (dom m)) = n then (False, m) else (True, m(key \<mapsto> v)))"

lemma Dir_Add_refines:
  assumes "dir_inv dir" "0 \<le> sec" "sec < 2 ^ 31"
  shows "\<exists>b dir'. Dir_Add dir name sec = Inr (b, dir') \<and> dir_inv dir' \<and> tableSize dir' = tableSize dir \<and>
           (b, dir_map dir') = bmap_add (tableSize dir) (dir_map dir) (cname name) sec"
  using Dir_Add_spec [OF assms, of name]
proof (elim disjE)
  assume "(dir_map dir (cname name) \<noteq> None \<or> (\<forall>e \<in> set (de_table dir). inUse e)) \<and> Dir_Add dir name sec = Inr (False, dir)"
  then show ?thesis using assms(1) full_iff [OF assms(1)] by (auto simp: bmap_add_def)
next
  assume a: "dir_map dir (cname name) = None \<and> \<not> (\<forall>e \<in> set (de_table dir). inUse e) \<and>
         (\<exists>k. k < length (de_table dir) \<and> \<not> inUse (de_table dir ! k) \<and>
            Dir_Add dir name sec = Inr (True, dir\<lparr>de_table := (de_table dir)[k := (de_table dir ! k)
               \<lparr>inUse := True, de_name := strncpy (de_name (de_table dir ! k)) name 9, de_sector := sec\<rparr>]\<rparr>))"
  then obtain dir' where d: "Dir_Add dir name sec = Inr (True, dir')" by blast
  have "int (card (dom (dir_map dir))) \<noteq> tableSize dir" using a full_iff [OF assms(1)] by blast
  then show ?thesis using d Dir_Add_True [OF assms d] by (auto simp: bmap_add_def)
qed

section \<open>The interface: a bounded map from names to sectors\<close>

locale name_table =
  fixes inv :: "'t \<Rightarrow> bool"
    and cap :: "'t \<Rightarrow> int"
    and content :: "'t \<Rightarrow> bytes \<Rightarrow> int option"
    and key :: "bytes \<Rightarrow> bytes"
    and lookup :: "'t \<Rightarrow> bytes \<Rightarrow> int result"
    and add :: "'t \<Rightarrow> bytes \<Rightarrow> int \<Rightarrow> (bool \<times> 't) result"
    and remove :: "'t \<Rightarrow> bytes \<Rightarrow> (bool \<times> 't) result"
  assumes lookup_law: "inv t \<Longrightarrow> lookup t name = Inr (case content t (key name) of None \<Rightarrow> - 1 | Some s \<Rightarrow> s)"
    and nonneg_law: "inv t \<Longrightarrow> content t k = Some s \<Longrightarrow> 0 \<le> s"
    and add_law: "inv t \<Longrightarrow> 0 \<le> s \<Longrightarrow> s < 2 ^ 31 \<Longrightarrow>
      \<exists>b t'. add t name s = Inr (b, t') \<and> inv t' \<and> cap t' = cap t \<and> (b, content t') = bmap_add (cap t) (content t) (key name) s"
    and remove_law: "inv t \<Longrightarrow>
      \<exists>t'. remove t name = Inr (content t (key name) \<noteq> None, t') \<and> inv t' \<and> cap t' = cap t \<and>
           content t' = (content t)(key name := None)"
begin

lemma lookup_iff: "inv t \<Longrightarrow> lookup t name = Inr (- 1) \<longleftrightarrow> content t (key name) = None"
  using nonneg_law [of t "key name"] by (force simp: lookup_law split: option.splits)

lemma add_ok:
  assumes "inv t" "0 \<le> s" "s < 2 ^ 31" "add t name s = Inr (True, t')"
  shows "inv t'" "content t' = (content t)(key name \<mapsto> s)" "content t (key name) = None" "cap t' = cap t"
  using add_law [OF assms(1-3), of name] assms(4) by (auto simp: bmap_add_def split: if_splits)

lemma add_refused: "inv t \<Longrightarrow> 0 \<le> s \<Longrightarrow> s < 2 ^ 31 \<Longrightarrow> add t name s = Inr (False, t') \<Longrightarrow> content t' = content t"
  using add_law [of t s name] by (auto simp: bmap_add_def split: if_splits)

lemma add_then_lookup:
  assumes "inv t" "0 \<le> s" "s < 2 ^ 31" "add t name s = Inr (True, t')"
  shows "lookup t' other = (if key other = key name then Inr s else lookup t other)"
  using add_ok [OF assms] assms(1) by (simp add: lookup_law)

lemma remove_then_lookup:
  assumes "inv t" "remove t name = Inr (b, t')"
  shows "lookup t' other = (if key other = key name then Inr (- 1) else lookup t other)"
  using remove_law [OF assms(1), of name] assms by (auto simp: lookup_law)

lemma add_then_remove:
  assumes "inv t" "0 \<le> s" "s < 2 ^ 31" "add t name s = Inr (True, t')"
  shows "\<exists>t''. remove t' name = Inr (True, t'') \<and> inv t'' \<and> content t'' = content t"
  using remove_law [OF add_ok(1) [OF assms], of name] add_ok [OF assms] by (auto simp: fun_upd_idem)

end

interpretation dir: name_table dir_inv tableSize dir_map cname Dir_Find Dir_Add Dir_Remove
proof unfold_locales
  show "\<exists>t'. Dir_Remove t name = Inr (dir_map t (cname name) \<noteq> None, t') \<and> dir_inv t' \<and> tableSize t' = tableSize t \<and>
           dir_map t' = (dir_map t)(cname name := None)" if "dir_inv t" for t name
    using Dir_Remove_spec [OF that, of name] by blast
qed (fact Dir_Find_spec dir_map_nonneg Dir_Add_refines)+

text \<open>A sequence of updates, on the table and on the abstract map.\<close>

datatype dir_op = OpAdd bytes int | OpRemove bytes

fun dir_step :: "dir_op \<Rightarrow> Directory \<Rightarrow> (bool \<times> Directory) result" where
  "dir_step (OpAdd name s) dir = Dir_Add dir name s"
| "dir_step (OpRemove name) dir = Dir_Remove dir name"

fun bmap_step :: "int \<Rightarrow> dir_op \<Rightarrow> (bytes \<Rightarrow> int option) \<Rightarrow> bool \<times> (bytes \<Rightarrow> int option)" where
  "bmap_step n (OpAdd name s) m = bmap_add n m (cname name) s"
| "bmap_step n (OpRemove name) m = (m (cname name) \<noteq> None, m(cname name := None))"

fun dir_run :: "dir_op list \<Rightarrow> Directory \<Rightarrow> (bool list \<times> Directory) result" where
  "dir_run [] dir = Inr ([], dir)"
| "dir_run (p # ps) dir = bindE (dir_step p dir) (\<lambda>(b, dir1). bindE (dir_run ps dir1) (\<lambda>(bs, dir2). Inr (b # bs, dir2)))"

fun bmap_run :: "int \<Rightarrow> dir_op list \<Rightarrow> (bytes \<Rightarrow> int option) \<Rightarrow> bool list \<times> (bytes \<Rightarrow> int option)" where
  "bmap_run n [] m = ([], m)"
| "bmap_run n (p # ps) m = (let (b, m1) = bmap_step n p m; (bs, m2) = bmap_run n ps m1 in (b # bs, m2))"

fun op_ok :: "dir_op \<Rightarrow> bool" where
  "op_ok (OpAdd name s) \<longleftrightarrow> 0 \<le> s \<and> s < 2 ^ 31"
| "op_ok (OpRemove name) \<longleftrightarrow> True"

lemma dir_step_refines:
  assumes "dir_inv dir" "op_ok p"
  shows "\<exists>b dir'. dir_step p dir = Inr (b, dir') \<and> dir_inv dir' \<and> tableSize dir' = tableSize dir \<and>
           bmap_step (tableSize dir) p (dir_map dir) = (b, dir_map dir')"
proof (cases p)
  case (OpAdd name s)
  then show ?thesis using dir.add_law [OF assms(1), of s name] assms(2) by auto
next
  case (OpRemove name)
  then show ?thesis using dir.remove_law [OF assms(1), of name] by auto
qed

lemma dir_run_refines:
  assumes "dir_inv dir" "list_all op_ok ps"
  shows "\<exists>bs dir'. dir_run ps dir = Inr (bs, dir') \<and> dir_inv dir' \<and> tableSize dir' = tableSize dir \<and>
           bmap_run (tableSize dir) ps (dir_map dir) = (bs, dir_map dir')"
  using assms
proof (induction ps arbitrary: dir)
  case (Cons p ps)
  obtain b dir1 where s: "dir_step p dir = Inr (b, dir1)" "dir_inv dir1" "tableSize dir1 = tableSize dir"
    "bmap_step (tableSize dir) p (dir_map dir) = (b, dir_map dir1)"
    using dir_step_refines [of dir p] Cons.prems by auto
  show ?case using Cons.IH [OF s(2)] Cons.prems s by auto
qed auto

lemma new_Directory_inv:
  assumes "0 \<le> sz" "\<forall>i. entry_wf (junk i)"
  shows "dir_inv (new_Directory junk sz)" "dir_map (new_Directory junk sz) = Map.empty" "tableSize (new_Directory junk sz) = sz"
proof -
  show "dir_inv (new_Directory junk sz)" using assms by (auto simp: new_Directory_def dir_inv_def entry_wf_def)
  then show "dir_map (new_Directory junk sz) = Map.empty"
    by (intro ext) (auto simp: dir_map_None has_index_def new_Directory_def)
  show "tableSize (new_Directory junk sz) = sz" by (simp add: new_Directory_def)
qed

text \<open>
  (C11) A directory refines a bounded map. From a new directory of \<open>sz\<close> entries, any sequence of \<open>Add\<close> and
  \<open>Remove\<close> calls runs without error; each call answers as the map with at most \<open>sz\<close> names does (an \<open>Add\<close>
  is refused exactly when the first nine characters of the name are present or the map is full, a \<open>Remove\<close>
  exactly when they are absent), and afterwards \<open>Find\<close> returns the sector the map holds, or -1.
\<close>
theorem directory_refines_bounded_map:
  assumes "0 \<le> sz" "\<forall>i. entry_wf (junk i)" "list_all op_ok ps"
  shows "\<exists>bs dir m. dir_run ps (new_Directory junk sz) = Inr (bs, dir) \<and> bmap_run sz ps Map.empty = (bs, m) \<and>
           (\<forall>name. Dir_Find dir name = Inr (case m (cname name) of None \<Rightarrow> - 1 | Some s \<Rightarrow> s))"
proof -
  obtain bs dir where "dir_run ps (new_Directory junk sz) = Inr (bs, dir)" "dir_inv dir"
    "bmap_run sz ps (dir_map (new_Directory junk sz)) = (bs, dir_map dir)"
    using dir_run_refines [OF new_Directory_inv(1) [OF assms(1,2)] assms(3)] new_Directory_inv(3) [OF assms(1,2)] by auto
  then show ?thesis using dir.lookup_law new_Directory_inv(2) [OF assms(1,2)] by auto
qed

definition blank_entry :: DirectoryEntry where
  "blank_entry = \<lparr>inUse = True, de_sector = 0, de_name = replicate 10 0, de_pad = replicate 5 0\<rparr>"

theorem directory_refines_bounded_map_witness:
  "\<exists>bs dir m. dir_run [OpAdd [65] 7, OpAdd [65] 8, OpAdd [66] 9, OpAdd [67] 10, OpRemove [65]] (new_Directory (\<lambda>_. blank_entry) 2) = Inr (bs, dir) \<and>
     bmap_run 2 [OpAdd [65] 7, OpAdd [65] 8, OpAdd [66] 9, OpAdd [67] 10, OpRemove [65]] Map.empty = (bs, m) \<and>
     (\<forall>name. Dir_Find dir name = Inr (case m (cname name) of None \<Rightarrow> - 1 | Some s \<Rightarrow> s))"
  by (rule directory_refines_bounded_map) (simp_all add: entry_wf_def blank_entry_def)

end
