(* ===== verification/File_System.thy ===== *)
theory File_System
  imports Directory
begin

text \<open>
  The file system: \<open>filesys/filesys.cc\<close>.

  The disk is the list of its sectors; the two files that stay open are the fields of the record. Memory that
  \<open>new\<close> returns without initialising it is the argument \<open>u\<close>; \<open>u_buf\<close> is indexed by the call of \<open>WriteAt\<close>.
  Names are the characters before the terminating zero.

  \<open>fs_inv\<close> says that the sectors the free map marks are exactly those of the two system files and of the files
  in the directory, and that no sector belongs to two owners; \<open>fs_files\<close> is the map from names to contents that a
  user of the file system sees.
\<close>

section \<open>Operations\<close>

abbreviation (input) FreeMapSector :: int where "FreeMapSector \<equiv> 0"
abbreviation (input) DirectorySector :: int where "DirectorySector \<equiv> 1"
abbreviation (input) FreeMapFileSize :: int where "FreeMapFileSize \<equiv> 128"
abbreviation (input) NumDirEntries :: int where "NumDirEntries \<equiv> 10"
abbreviation (input) DirectoryFileSize :: int where "DirectoryFileSize \<equiv> 200"

record FileSystem =
  freeMapFile :: OpenFile
  directoryFile :: OpenFile

record memory =
  u_buf :: "nat \<Rightarrow> nat \<Rightarrow> 8 word"
  u_words :: "nat \<Rightarrow> 32 word"
  u_entries :: "nat \<Rightarrow> DirectoryEntry"
  u_hdr :: "nat \<Rightarrow> FileHeader"

definition new_FileSystem :: "memory \<Rightarrow> bool \<Rightarrow> sectors \<Rightarrow> (FileSystem \<times> sectors) result" where
  "new_FileSystem u fmt d =
     (if fmt then
        bindE (new_BitMap (u_words u) NumSectors) (\<lambda>freeMap.
        let directory = new_Directory (u_entries u) NumDirEntries in
        bindE (Mark freeMap FreeMapSector) (\<lambda>fm1.
        bindE (Mark fm1 DirectorySector) (\<lambda>fm2.
        bindE (Allocate fm2 FreeMapFileSize (u_hdr u 0)) (\<lambda>(ok1, mapHdr, fm3).
        bindE (ASSERT ok1) (\<lambda>_.
        bindE (Allocate fm3 DirectoryFileSize (u_hdr u 1)) (\<lambda>(ok2, dirHdr, fm4).
        bindE (ASSERT ok2) (\<lambda>_.
        bindE (WriteBack_hdr mapHdr FreeMapSector d) (\<lambda>d1.
        bindE (WriteBack_hdr dirHdr DirectorySector d1) (\<lambda>d2.
        bindE (new_OpenFile FreeMapSector d2) (\<lambda>fmf.
        bindE (new_OpenFile DirectorySector d2) (\<lambda>df.
        bindE (WriteBack_bm (u_buf u 0) fm4 (of_hdr fmf) d2) (\<lambda>d3.
        bindE (WriteBack_dir (u_buf u 1) directory (of_hdr df) d3) (\<lambda>d4.
        Inr (\<lparr>freeMapFile = fmf, directoryFile = df\<rparr>, d4))))))))))))))
      else
        bindE (new_OpenFile FreeMapSector d) (\<lambda>fmf.
        bindE (new_OpenFile DirectorySector d) (\<lambda>df.
        Inr (\<lparr>freeMapFile = fmf, directoryFile = df\<rparr>, d))))"

definition Create :: "memory \<Rightarrow> FileSystem \<Rightarrow> bytes \<Rightarrow> int \<Rightarrow> sectors \<Rightarrow> (bool \<times> sectors) result" where
  "Create u fs name initialSize d =
     bindE (FetchFrom_dir (new_Directory (u_entries u) NumDirEntries) (of_hdr (directoryFile fs)) d) (\<lambda>directory.
     bindE (Dir_Find directory name) (\<lambda>s.
       if s \<noteq> - 1 then Inr (False, d)
       else
         bindE (new_BitMap (u_words u) NumSectors) (\<lambda>fm0.
         bindE (FetchFrom_bm fm0 (of_hdr (freeMapFile fs)) d) (\<lambda>freeMap.
         bindE (Find freeMap) (\<lambda>(sector, fm1).
           if sector = - 1 then Inr (False, d)
           else
             bindE (Dir_Add directory name sector) (\<lambda>(added, directory1).
               if \<not> added then Inr (False, d)
               else
                 bindE (Allocate fm1 initialSize (u_hdr u 0)) (\<lambda>(ok, hdr, fm2).
                   if \<not> ok then Inr (False, d)
                   else
                     bindE (WriteBack_hdr hdr sector d) (\<lambda>d1.
                     bindE (WriteBack_dir (u_buf u 0) directory1 (of_hdr (directoryFile fs)) d1) (\<lambda>d2.
                     bindE (WriteBack_bm (u_buf u 1) fm2 (of_hdr (freeMapFile fs)) d2) (\<lambda>d3.
                     Inr (True, d3)))))))))))"

definition FS_Open :: "memory \<Rightarrow> FileSystem \<Rightarrow> bytes \<Rightarrow> sectors \<Rightarrow> OpenFile option result" where
  "FS_Open u fs name d =
     bindE (FetchFrom_dir (new_Directory (u_entries u) NumDirEntries) (of_hdr (directoryFile fs)) d) (\<lambda>directory.
     bindE (Dir_Find directory name) (\<lambda>sector.
       if sector \<ge> 0 then bindE (new_OpenFile sector d) (\<lambda>f. Inr (Some f)) else Inr None))"

definition FS_Remove :: "memory \<Rightarrow> FileSystem \<Rightarrow> bytes \<Rightarrow> sectors \<Rightarrow> (bool \<times> sectors) result" where
  "FS_Remove u fs name d =
     bindE (FetchFrom_dir (new_Directory (u_entries u) NumDirEntries) (of_hdr (directoryFile fs)) d) (\<lambda>directory.
     bindE (Dir_Find directory name) (\<lambda>sector.
       if sector = - 1 then Inr (False, d)
       else
         bindE (FetchFrom_hdr sector d) (\<lambda>fileHdr.
         bindE (new_BitMap (u_words u) NumSectors) (\<lambda>fm0.
         bindE (FetchFrom_bm fm0 (of_hdr (freeMapFile fs)) d) (\<lambda>freeMap.
         bindE (Deallocate fileHdr freeMap) (\<lambda>fm1.
         bindE (Clear fm1 sector) (\<lambda>fm2.
         bindE (Dir_Remove directory name) (\<lambda>(_, directory1).
         bindE (WriteBack_bm (u_buf u 0) fm2 (of_hdr (freeMapFile fs)) d) (\<lambda>d1.
         bindE (WriteBack_dir (u_buf u 1) directory1 (of_hdr (directoryFile fs)) d1) (\<lambda>d2.
         Inr (True, d2)))))))))))"

definition FS_List :: "memory \<Rightarrow> FileSystem \<Rightarrow> sectors \<Rightarrow> bytes list result" where
  "FS_List u fs d =
     bindE (FetchFrom_dir (new_Directory (u_entries u) NumDirEntries) (of_hdr (directoryFile fs)) d) (\<lambda>directory.
     Inr (Dir_List directory))"

section \<open>Storing and fetching whole files\<close>

lemma ReadAt_whole:
  assumes "hdr_wf h" "disk_wf d" "0 < numBytes h"
  shows "ReadAt h (numBytes h) 0 d = Inr (file_bytes h d)"
  using ReadAt_spec [OF assms(1,2), of 0 "numBytes h"] assms(3) by (simp add: file_bytes_def)

lemma WriteAt_whole:
  assumes "hdr_wf h" "disk_wf d" "0 < numBytes h" "numBytes h = int (length bs)"
  shows "\<exists>d'. WriteAt junk h bs (numBytes h) 0 d = Inr (numBytes h, d') \<and> disk_wf d' \<and> file_bytes h d' = bs \<and>
           (\<forall>t. t \<notin> nat ` set (file_sectors h) \<longrightarrow> d' ! t = d ! t)"
proof -
  from WriteAt_spec [OF assms(1,2) order_refl assms(3,3), of bs junk] assms(4) obtain d' where
    d': "WriteAt junk h bs (numBytes h) 0 d = Inr (numBytes h, d')" "disk_wf d'"
      "\<And>k. int k < numBytes h \<Longrightarrow> fbyte h d' k = bs ! k"
      "\<forall>t. t \<notin> nat ` set (file_sectors h) \<longrightarrow> d' ! t = d ! t" by auto
  have "file_bytes h d' = bs" by (rule nth_equalityI) (use d'(3) assms(4) in \<open>simp_all add: file_bytes_def\<close>)
  then show ?thesis using d' by blast
qed

text \<open>The free map and the directory as the disk holds them.\<close>

definition disk_map :: "FileHeader \<Rightarrow> sectors \<Rightarrow> BitMap" where
  "disk_map h d = \<lparr>numBits = 1024, numWords = 32, bm_map = bytes_to_words (file_bytes h d)\<rparr>"

definition disk_dir :: "FileHeader \<Rightarrow> sectors \<Rightarrow> Directory" where
  "disk_dir h d = \<lparr>tableSize = 10, de_table = bytes_to_table 10 (file_bytes h d)\<rparr>"

lemma disk_map_cong: "file_bytes h d' = file_bytes h d \<Longrightarrow> disk_map h d' = disk_map h d"
  by (simp add: disk_map_def)

lemma disk_dir_cong: "file_bytes h d' = file_bytes h d \<Longrightarrow> disk_dir h d' = disk_dir h d"
  by (simp add: disk_dir_def)

lemma length_bytes_to_words: "length bs = 4 * n \<Longrightarrow> length (bytes_to_words bs) = n"
proof (induction n arbitrary: bs)
  case (Suc n)
  then obtain a b c w bs' where "bs = a # b # c # w # bs'" "length bs' = 4 * n"
    by (auto simp: length_Suc_conv numeral_eq_Suc)
  then show ?case using Suc.IH by simp
qed simp

lemma FetchFrom_bm_eq:
  assumes "hdr_wf h" "disk_wf d" "numBytes h = 128"
  shows "\<exists>fm0. new_BitMap ws 1024 = Inr fm0 \<and> FetchFrom_bm fm0 h d = Inr (disk_map h d)" "bm_inv (disk_map h d)"
proof -
  obtain fm0 where fm0: "new_BitMap ws 1024 = Inr fm0" "bm_inv fm0" "numBits fm0 = 1024" using new_BitMap_eq [of 1024 ws] by auto
  then have n: "numWords fm0 = 32" "length (bm_map fm0) = 32" by (auto simp: bm_inv_def divRoundUp_nonneg)
  have "bcopy (file_bytes h d) (words_to_bytes (bm_map fm0)) 0 = Inr (file_bytes h d)"
    using assms(3) n by (simp add: bcopy_def)
  then have "FetchFrom_bm fm0 h d = Inr (disk_map h d)"
    using ReadAt_whole [OF assms(1,2)] assms(3) n fm0(3) by (simp add: FetchFrom_bm_def disk_map_def)
  then show "\<exists>fm0. new_BitMap ws 1024 = Inr fm0 \<and> FetchFrom_bm fm0 h d = Inr (disk_map h d)" using fm0(1) by blast
  show "bm_inv (disk_map h d)"
    using length_bytes_to_words [of "file_bytes h d" 32] assms(3) by (simp add: bm_inv_def disk_map_def divRoundUp_nonneg)
qed

lemma WriteBack_bm_eq:
  assumes "hdr_wf h" "disk_wf d" "numBytes h = 128" "bm_inv bm" "numBits bm = 1024"
  shows "\<exists>d'. WriteBack_bm junk bm h d = Inr d' \<and> disk_wf d' \<and> disk_map h d' = bm \<and>
           (\<forall>t. t \<notin> nat ` set (file_sectors h) \<longrightarrow> d' ! t = d ! t)"
proof -
  have n: "numWords bm = 32" "length (bm_map bm) = 32" using assms(4,5) by (auto simp: bm_inv_def divRoundUp_nonneg)
  obtain d' where d': "WriteAt junk h (words_to_bytes (bm_map bm)) 128 0 d = Inr (128, d')" "disk_wf d'"
    "file_bytes h d' = words_to_bytes (bm_map bm)" "\<forall>t. t \<notin> nat ` set (file_sectors h) \<longrightarrow> d' ! t = d ! t"
    using WriteAt_whole [OF assms(1,2), of "words_to_bytes (bm_map bm)" junk] assms(3) n by auto
  have "disk_map h d' = bm" using n assms(5) by (simp add: disk_map_def d'(3))
  then show ?thesis using d' n by (simp add: WriteBack_bm_def)
qed

lemma new_Directory_table:
  "\<forall>i. entry_wf (es i) \<Longrightarrow> (\<forall>e \<in> set (de_table (new_Directory es 10)). entry_wf e) \<and> length (de_table (new_Directory es 10)) = 10"
  by (auto simp: new_Directory_def entry_wf_def)

lemma FetchFrom_dir_eq:
  assumes "hdr_wf h" "disk_wf d" "numBytes h = 200" "\<forall>i. entry_wf (es i)"
  shows "FetchFrom_dir (new_Directory es 10) h d = Inr (disk_dir h d)"
proof -
  have len: "length (table_to_bytes (de_table (new_Directory es 10))) = 200" "length (de_table (new_Directory es 10)) = 10"
    using new_Directory_table [OF assms(4)] length_table_to_bytes by auto
  have "bcopy (file_bytes h d) (table_to_bytes (de_table (new_Directory es 10))) 0 = Inr (file_bytes h d)"
    using assms(3) len by (simp add: bcopy_def)
  moreover have "tableSize (new_Directory es 10) = 10" by (simp add: new_Directory_def)
  ultimately show ?thesis
    using ReadAt_whole [OF assms(1,2)] assms(3) len(2) by (simp add: FetchFrom_dir_def disk_dir_def new_Directory_def)
qed

lemma WriteBack_dir_eq:
  assumes "hdr_wf h" "disk_wf d" "numBytes h = 200" "dir_inv dir" "tableSize dir = 10"
  shows "\<exists>d'. WriteBack_dir junk dir h d = Inr d' \<and> disk_wf d' \<and> disk_dir h d' = dir \<and>
           (\<forall>t. t \<notin> nat ` set (file_sectors h) \<longrightarrow> d' ! t = d ! t)"
proof -
  have wf: "\<forall>e \<in> set (de_table dir). entry_wf e" "length (de_table dir) = 10" using assms(4,5) by (auto simp: dir_inv_def)
  then have n: "length (table_to_bytes (de_table dir)) = 200" using length_table_to_bytes by simp
  obtain d' where d': "WriteAt junk h (table_to_bytes (de_table dir)) 200 0 d = Inr (200, d')" "disk_wf d'"
    "file_bytes h d' = table_to_bytes (de_table dir)" "\<forall>t. t \<notin> nat ` set (file_sectors h) \<longrightarrow> d' ! t = d ! t"
    using WriteAt_whole [OF assms(1,2), of "table_to_bytes (de_table dir)" junk] assms(3) n by auto
  have "disk_dir h d' = dir" using assms(5) bytes_to_table_to_bytes [OF wf(1)] wf(2) by (simp add: disk_dir_def d'(3))
  then show ?thesis using d' assms(5) by (simp add: WriteBack_dir_def)
qed

section \<open>The invariant\<close>

definition hdr_at :: "sectors \<Rightarrow> int \<Rightarrow> FileHeader" where
  "hdr_at d s = bytes_to_hdr (d ! nat s)"

text \<open>The sectors a file owns: its header and its data.\<close>

definition region :: "sectors \<Rightarrow> int \<Rightarrow> int set" where
  "region d s = insert s (set (file_sectors (hdr_at d s)))"

definition sys_sectors :: "FileHeader \<Rightarrow> FileHeader \<Rightarrow> int set" where
  "sys_sectors mh dh = {0, 1} \<union> set (file_sectors mh) \<union> set (file_sectors dh)"

abbreviation map_hdr :: "FileSystem \<Rightarrow> FileHeader" where "map_hdr fs \<equiv> of_hdr (freeMapFile fs)"
abbreviation dir_hdr :: "FileSystem \<Rightarrow> FileHeader" where "dir_hdr fs \<equiv> of_hdr (directoryFile fs)"

text \<open>The directory on disk, as a map from names to header sectors.\<close>

definition fs_map :: "FileSystem \<Rightarrow> sectors \<Rightarrow> bytes \<Rightarrow> int option" where
  "fs_map fs d = dir_map (disk_dir (dir_hdr fs) d)"

definition fs_used :: "FileSystem \<Rightarrow> sectors \<Rightarrow> int set" where
  "fs_used fs d = bm_used (disk_map (map_hdr fs) d)"

text \<open>The files that are always there.\<close>

definition sys_ok :: "FileSystem \<Rightarrow> sectors \<Rightarrow> bool" where
  "sys_ok fs d \<longleftrightarrow> disk_wf d \<and> hdr_wf (map_hdr fs) \<and> hdr_wf (dir_hdr fs) \<and> numBytes (map_hdr fs) = 128 \<and> numBytes (dir_hdr fs) = 200 \<and>
     hdr_at d 0 = map_hdr fs \<and> hdr_at d 1 = dir_hdr fs \<and>
     distinct (0 # 1 # file_sectors (map_hdr fs) @ file_sectors (dir_hdr fs)) \<and> dir_inv (disk_dir (dir_hdr fs) d)"

definition file_ok :: "FileSystem \<Rightarrow> sectors \<Rightarrow> int \<Rightarrow> bool" where
  "file_ok fs d s \<longleftrightarrow> 0 \<le> s \<and> s < 1024 \<and> hdr_wf (hdr_at d s) \<and> s \<notin> set (file_sectors (hdr_at d s)) \<and>
     region d s \<inter> sys_sectors (map_hdr fs) (dir_hdr fs) = {}"

definition fs_inv :: "FileSystem \<Rightarrow> sectors \<Rightarrow> bool" where
  "fs_inv fs d \<longleftrightarrow> sys_ok fs d \<and> seekPosition (freeMapFile fs) = 0 \<and> seekPosition (directoryFile fs) = 0 \<and>
     (\<forall>n s. fs_map fs d n = Some s \<longrightarrow> file_ok fs d s) \<and>
     (\<forall>n n' s s'. fs_map fs d n = Some s \<and> fs_map fs d n' = Some s' \<and> n \<noteq> n' \<longrightarrow> region d s \<inter> region d s' = {}) \<and>
     fs_used fs d = sys_sectors (map_hdr fs) (dir_hdr fs) \<union> (\<Union>s \<in> ran (fs_map fs d). region d s)"

text \<open>What a user sees: the contents under each name.\<close>

definition fs_files :: "FileSystem \<Rightarrow> sectors \<Rightarrow> bytes \<Rightarrow> bytes option" where
  "fs_files fs d n = map_option (\<lambda>s. file_bytes (hdr_at d s) d) (fs_map fs d n)"

definition memory_ok :: "memory \<Rightarrow> bool" where
  "memory_ok u \<longleftrightarrow> (\<forall>i. entry_wf (u_entries u i)) \<and> (\<forall>i. hdr_fits (u_hdr u i))"

section \<open>Changes of the disk outside a file\<close>

definition same_outside :: "int set \<Rightarrow> sectors \<Rightarrow> sectors \<Rightarrow> bool" where
  "same_outside W d d' \<longleftrightarrow> (\<forall>x \<ge> 0. x \<notin> W \<longrightarrow> d' ! nat x = d ! nat x)"

lemma hdr_wf_sectors: "hdr_wf h \<Longrightarrow> x \<in> set (file_sectors h) \<Longrightarrow> 0 \<le> x \<and> x < 1024"
  by (auto simp: hdr_wf_def)

lemma same_outside_file:
  assumes "hdr_wf h" "\<forall>t. t \<notin> nat ` set (file_sectors h) \<longrightarrow> d' ! t = d ! t"
  shows "same_outside (set (file_sectors h)) d d'"
proof -
  have "nat x \<notin> nat ` set (file_sectors h)" if "0 \<le> x" "x \<notin> set (file_sectors h)" for x
    using that hdr_wf_sectors [OF assms(1)] by (auto simp: eq_nat_nat_iff)
  then show ?thesis using assms(2) by (simp add: same_outside_def)
qed

lemma same_outside_update: "0 \<le> s \<Longrightarrow> same_outside {s} d (d[nat s := b])"
  by (auto simp: same_outside_def nth_list_update eq_nat_nat_iff)

lemma same_outside_trans: "same_outside W d d' \<Longrightarrow> same_outside V d' d'' \<Longrightarrow> same_outside (W \<union> V) d d''"
  by (simp add: same_outside_def)

lemma same_outside_hdr: "same_outside W d d' \<Longrightarrow> 0 \<le> s \<Longrightarrow> s \<notin> W \<Longrightarrow> hdr_at d' s = hdr_at d s"
  by (simp add: same_outside_def hdr_at_def)

lemma same_outside_bytes:
  assumes "same_outside W d d'" "hdr_wf h" "set (file_sectors h) \<inter> W = {}"
  shows "file_bytes h d' = file_bytes h d"
proof (rule file_bytes_cong)
  fix k assume k: "int k < numBytes h"
  have "128 * int (k div 128) < numBytes h" using k by (simp add: zdiv_int)
  from file_sector_ok(3,4) [OF assms(2) _ this]
  have mem: "dataSectors h ! (k div 128) \<in> set (file_sectors h)" by simp
  then have "0 \<le> dataSectors h ! (k div 128)" "dataSectors h ! (k div 128) \<notin> W" using hdr_wf_sectors [OF assms(2)] assms(3) by blast+
  then show "fbyte h d' k = fbyte h d k" using assms(1) by (simp add: fbyte_def same_outside_def)
qed

lemma file_ok_stable:
  assumes "same_outside W d d'" "file_ok fs d s" "region d s \<inter> W = {}"
  shows "hdr_at d' s = hdr_at d s" "file_bytes (hdr_at d s) d' = file_bytes (hdr_at d s) d" "region d' s = region d s" "file_ok fs d' s"
proof -
  show h: "hdr_at d' s = hdr_at d s" using assms same_outside_hdr by (auto simp: file_ok_def region_def)
  show "file_bytes (hdr_at d s) d' = file_bytes (hdr_at d s) d"
    using assms by (intro same_outside_bytes) (auto simp: file_ok_def region_def)
  show r: "region d' s = region d s" by (simp add: region_def h)
  show "file_ok fs d' s" using assms(2) by (simp add: file_ok_def h r)
qed

text \<open>Reading what the invariant promises.\<close>

lemma fs_invD:
  assumes "fs_inv fs d"
  shows "disk_wf d" "hdr_wf (map_hdr fs)" "hdr_wf (dir_hdr fs)" "numBytes (map_hdr fs) = 128" "numBytes (dir_hdr fs) = 200"
    "dir_inv (disk_dir (dir_hdr fs) d)" "hdr_at d 0 = map_hdr fs" "hdr_at d 1 = dir_hdr fs"
    "distinct (0 # 1 # file_sectors (map_hdr fs) @ file_sectors (dir_hdr fs))"
  using assms by (simp_all add: fs_inv_def sys_ok_def)

lemma fs_inv_file: "fs_inv fs d \<Longrightarrow> fs_map fs d n = Some s \<Longrightarrow> file_ok fs d s"
  by (simp add: fs_inv_def)

lemma fs_inv_disjoint:
  "fs_inv fs d \<Longrightarrow> fs_map fs d n = Some s \<Longrightarrow> fs_map fs d n' = Some s' \<Longrightarrow> n \<noteq> n' \<Longrightarrow> region d s \<inter> region d s' = {}"
  unfolding fs_inv_def by blast

lemma fs_inv_used:
  "fs_inv fs d \<Longrightarrow> fs_used fs d = sys_sectors (map_hdr fs) (dir_hdr fs) \<union> (\<Union>s \<in> ran (fs_map fs d). region d s)"
  by (simp add: fs_inv_def)

lemma region_used: "fs_inv fs d \<Longrightarrow> fs_map fs d n = Some s \<Longrightarrow> region d s \<subseteq> fs_used fs d"
  by (auto simp: fs_inv_used ran_def)

lemma sys_used: "fs_inv fs d \<Longrightarrow> sys_sectors (map_hdr fs) (dir_hdr fs) \<subseteq> fs_used fs d"
  by (auto simp: fs_inv_used)

text \<open>The two system files after a change that spares their headers.\<close>

lemma sys_ok_stable:
  assumes "sys_ok fs d" "same_outside W d d'" "0 \<notin> W" "1 \<notin> W" "disk_wf d'" "dir_inv (disk_dir (dir_hdr fs) d')"
  shows "sys_ok fs d'"
  using assms same_outside_hdr [OF assms(2), of 0] same_outside_hdr [OF assms(2), of 1] by (simp add: sys_ok_def)

text \<open>
  A change of the disk that leaves alone the sectors of every file except the one named \<open>key\<close>.
\<close>

lemma fs_inv_change:
  assumes inv: "fs_inv fs d" and so: "same_outside W d d'" and W: "0 \<notin> W" "1 \<notin> W" "disk_wf d'"
    and dir: "dir_inv (disk_dir (dir_hdr fs) d')"
    and keep: "\<And>n s. fs_map fs d' n = Some s \<Longrightarrow> n \<noteq> key \<Longrightarrow> fs_map fs d n = Some s \<and> region d s \<inter> W = {}"
    and new: "\<And>s. fs_map fs d' key = Some s \<Longrightarrow> file_ok fs d' s"
    and fresh: "\<And>s n s'. fs_map fs d' key = Some s \<Longrightarrow> n \<noteq> key \<Longrightarrow> fs_map fs d n = Some s' \<Longrightarrow> region d' s \<inter> region d s' = {}"
    and used: "fs_used fs d' = sys_sectors (map_hdr fs) (dir_hdr fs) \<union> (\<Union>s \<in> ran (fs_map fs d'). region d' s)"
  shows "fs_inv fs d' \<and> (\<forall>n. n \<noteq> key \<longrightarrow> fs_map fs d' n = fs_map fs d n \<longrightarrow> fs_files fs d' n = fs_files fs d n)"
proof -
  have st: "hdr_at d' s = hdr_at d s" "file_bytes (hdr_at d s) d' = file_bytes (hdr_at d s) d" "region d' s = region d s" "file_ok fs d' s"
    if "fs_map fs d' n = Some s" "n \<noteq> key" for n s
    using file_ok_stable [OF so fs_inv_file [OF inv]] keep [OF that] by blast+
  have dis: "region d' s \<inter> region d' s' = {}" if m: "fs_map fs d' n = Some s" "fs_map fs d' n' = Some s'" "n \<noteq> n'" for n n' s s'
  proof -
    consider "n = key" "n' \<noteq> key" | "n \<noteq> key" "n' = key" | "n \<noteq> key" "n' \<noteq> key" using m(3) by blast
    then show ?thesis
    proof cases
      case 1
      then show ?thesis using fresh [of s n' s'] keep [OF m(2)] st(3) [OF m(2)] m by auto
    next
      case 2
      then show ?thesis using fresh [of s' n s] keep [OF m(1)] st(3) [OF m(1)] m by auto
    next
      case 3
      then show ?thesis using fs_inv_disjoint [OF inv _ _ m(3)] keep [OF m(1)] keep [OF m(2)] st(3) [OF m(1)] st(3) [OF m(2)] by simp
    qed
  qed
  have "file_ok fs d' s" if "fs_map fs d' n = Some s" for n s using st(4) [OF that] new that by (cases "n = key") auto
  moreover have "sys_ok fs d'" using inv by (intro sys_ok_stable [OF _ so W dir]) (simp add: fs_inv_def)
  moreover have "seekPosition (freeMapFile fs) = 0" "seekPosition (directoryFile fs) = 0" using inv by (simp_all add: fs_inv_def)
  ultimately have "fs_inv fs d'" unfolding fs_inv_def using dis used by blast
  moreover have "fs_files fs d' n = fs_files fs d n" if "n \<noteq> key" "fs_map fs d' n = fs_map fs d n" for n
    using st(1,2) [OF _ that(1)] that(2) by (cases "fs_map fs d n") (auto simp: fs_files_def)
  ultimately show ?thesis by blast
qed

section \<open>Opening and writing files\<close>

lemma fetched_dir:
  assumes "fs_inv fs d" "memory_ok u"
  shows "FetchFrom_dir (new_Directory (u_entries u) 10) (dir_hdr fs) d = Inr (disk_dir (dir_hdr fs) d)"
    "Dir_Find (disk_dir (dir_hdr fs) d) name = Inr (case fs_map fs d (cname name) of None \<Rightarrow> - 1 | Some s \<Rightarrow> s)"
  using FetchFrom_dir_eq [OF fs_invD(3,1,5) [OF assms(1)]] assms(2) dir.lookup_law [OF fs_invD(6) [OF assms(1)]]
  by (simp_all add: memory_ok_def fs_map_def)

lemma FetchFrom_hdr_at: "disk_wf d \<Longrightarrow> 0 \<le> s \<Longrightarrow> s < 1024 \<Longrightarrow> FetchFrom_hdr s d = Inr (hdr_at d s)"
  using ReadSector_ok [of d s] by (simp add: FetchFrom_hdr_def hdr_at_def)

lemma new_OpenFile_at: "disk_wf d \<Longrightarrow> 0 \<le> s \<Longrightarrow> s < 1024 \<Longrightarrow> new_OpenFile s d = Inr \<lparr>of_hdr = hdr_at d s, seekPosition = 0\<rparr>"
  by (simp add: new_OpenFile_def FetchFrom_hdr_at)

lemma FS_Open_eq:
  assumes "fs_inv fs d" "memory_ok u"
  shows "FS_Open u fs name d = Inr (map_option (\<lambda>s. \<lparr>of_hdr = hdr_at d s, seekPosition = 0\<rparr>) (fs_map fs d (cname name)))"
proof (cases "fs_map fs d (cname name)")
  case None
  then show ?thesis using fetched_dir [OF assms] by (simp add: FS_Open_def)
next
  case (Some s)
  then have "0 \<le> s" "s < 1024" using fs_inv_file [OF assms(1)] by (auto simp: file_ok_def)
  then show ?thesis using fetched_dir [OF assms] Some new_OpenFile_at [OF fs_invD(1) [OF assms(1)]] by (simp add: FS_Open_def)
qed

lemma spares_sys:
  assumes "fs_inv fs d" "same_outside W d d'" "W \<inter> sys_sectors (map_hdr fs) (dir_hdr fs) = {}"
  shows "disk_dir (dir_hdr fs) d' = disk_dir (dir_hdr fs) d" "disk_map (map_hdr fs) d' = disk_map (map_hdr fs) d" "0 \<notin> W" "1 \<notin> W"
proof -
  show "disk_dir (dir_hdr fs) d' = disk_dir (dir_hdr fs) d"
    using assms fs_invD(3) [OF assms(1)] by (intro disk_dir_cong same_outside_bytes) (auto simp: sys_sectors_def)
  show "disk_map (map_hdr fs) d' = disk_map (map_hdr fs) d"
    using assms fs_invD(2) [OF assms(1)] by (intro disk_map_cong same_outside_bytes) (auto simp: sys_sectors_def)
  show "0 \<notin> W" "1 \<notin> W" using assms(3) by (auto simp: sys_sectors_def)
qed

lemma write_file_inv:
  assumes inv: "fs_inv fs d" and f: "fs_map fs d key = Some s"
    and so: "same_outside (set (file_sectors (hdr_at d s))) d d'" and wf: "disk_wf d'"
  shows "fs_inv fs d'" "fs_files fs d' = (fs_files fs d)(key \<mapsto> file_bytes (hdr_at d s) d')"
proof -
  let ?W = "set (file_sectors (hdr_at d s))"
  have ok: "file_ok fs d s" by (rule fs_inv_file [OF inv f])
  then have "?W \<inter> sys_sectors (map_hdr fs) (dir_hdr fs) = {}" "?W \<subseteq> region d s" by (auto simp: file_ok_def region_def)
  note sp = spares_sys [OF inv so this(1)] and W = this(2)
  have m: "fs_map fs d' = fs_map fs d" by (simp add: fs_map_def sp)
  have h: "hdr_at d' s = hdr_at d s" using same_outside_hdr [OF so] ok by (simp add: file_ok_def)
  then have r: "region d' s = region d s" by (simp add: region_def)
  have keep: "region d s' \<inter> ?W = {}" if "fs_map fs d n = Some s'" "n \<noteq> key" for n s'
    using fs_inv_disjoint [OF inv that(1) f that(2)] W by blast
  have reg: "region d' s' = region d s'" if "fs_map fs d n = Some s'" for n s'
    using file_ok_stable(3) [OF so fs_inv_file [OF inv that] keep [OF that]] f that r by (cases "n = key") auto
  have fok: "file_ok fs d' s" using ok by (simp add: file_ok_def h r)
  have used: "fs_used fs d' = sys_sectors (map_hdr fs) (dir_hdr fs) \<union> (\<Union>s \<in> ran (fs_map fs d'). region d' s)"
  proof -
    have "(\<Union>s \<in> ran (fs_map fs d). region d' s) = (\<Union>s \<in> ran (fs_map fs d). region d s)"
      by (intro SUP_cong) (auto simp: ran_def reg)
    then show ?thesis using fs_inv_used [OF inv] by (simp add: fs_used_def sp m)
  qed
  have dir: "dir_inv (disk_dir (dir_hdr fs) d')" using fs_invD(6) [OF inv] by (simp add: sp)
  have "fs_inv fs d' \<and> (\<forall>n. n \<noteq> key \<longrightarrow> fs_map fs d' n = fs_map fs d n \<longrightarrow> fs_files fs d' n = fs_files fs d n)"
  proof (rule fs_inv_change [OF inv so sp(3,4) wf dir _ _ _ used])
    show "fs_map fs d n = Some s' \<and> region d s' \<inter> ?W = {}" if "fs_map fs d' n = Some s'" "n \<noteq> key" for n s'
      using that keep by (simp add: m)
    show "file_ok fs d' s'" if "fs_map fs d' key = Some s'" for s' using that fok f by (simp add: m)
    show "region d' s1 \<inter> region d s' = {}" if "fs_map fs d' key = Some s1" "n \<noteq> key" "fs_map fs d n = Some s'" for s1 n s'
      using that f fs_inv_disjoint [OF inv f that(3)] r by (simp add: m)
  qed
  moreover have "fs_files fs d' key = Some (file_bytes (hdr_at d s) d')" using f by (simp add: fs_files_def m h)
  ultimately show "fs_inv fs d'" "fs_files fs d' = (fs_files fs d)(key \<mapsto> file_bytes (hdr_at d s) d')"
    using m by (auto simp: fun_eq_iff)
qed

section \<open>Creating and removing files\<close>

text \<open>The free sectors.\<close>

definition fs_free :: "FileSystem \<Rightarrow> sectors \<Rightarrow> int" where
  "fs_free fs d = 1024 - int (card (fs_used fs d))"

lemma fits_Allocate:
  assumes "hdr_fits hdr" "hdr_wf h" "numBytes h = sz" "sz \<le> 3840"
    and rest: "\<forall>i. divRoundUp sz 128 \<le> int i \<longrightarrow> dataSectors h ! i = dataSectors hdr ! i"
  shows "hdr_fits h"
proof -
  have ds: "length (dataSectors h) = 30" "length (dataSectors hdr) = 30" "0 \<le> numBytes h" "numSectors h = divRoundUp sz 128" "numSectors h \<le> 30"
    using assms(1-3) by (auto simp: hdr_wf_def hdr_fits_def)
  have "- (2 ^ 31) \<le> dataSectors h ! i \<and> dataSectors h ! i < 2 ^ 31" if i: "i < 30" for i
  proof (cases "int i < divRoundUp sz 128")
    case True
    then have "dataSectors h ! i = file_sectors h ! i" "i < length (file_sectors h)" using ds i by (auto simp: file_sectors_def)
    then have "dataSectors h ! i \<in> set (file_sectors h)" by simp
    then show ?thesis using hdr_wf_sectors [OF assms(2)] by force
  next
    case False
    then have "dataSectors h ! i = dataSectors hdr ! i" using rest by simp
    moreover have "dataSectors hdr ! i \<in> set (dataSectors hdr)" using i ds by simp
    ultimately show ?thesis using assms(1) by (simp add: hdr_fits_def)
  qed
  then have "\<forall>x \<in> set (dataSectors h). - (2 ^ 31) \<le> x \<and> x < 2 ^ 31" using ds(1) by (auto simp: in_set_conv_nth)
  moreover have "0 \<le> numSectors h" using ds divRoundUp_ge0 [of sz 128] assms(3) by simp
  ultimately show ?thesis using ds assms(3,4) by (simp add: hdr_fits_def)
qed

lemma card_file_sectors: "hdr_wf h \<Longrightarrow> int (card (set (file_sectors h))) = numSectors h"
  using divRoundUp_ge0 [of "numBytes h" 128] by (auto simp: hdr_wf_def distinct_card) (auto simp: file_sectors_def min_def)

lemma map_dir_disjoint: "fs_inv fs d \<Longrightarrow> set (file_sectors (map_hdr fs)) \<inter> set (file_sectors (dir_hdr fs)) = {}"
  using fs_invD(9) by fastforce

text \<open>Writing back the directory and the free map, in either order.\<close>

lemma write_back_both:
  assumes h: "hdr_wf mh" "hdr_wf dh" and sz: "numBytes mh = 128" "numBytes dh = 200"
    and dis: "set (file_sectors mh) \<inter> set (file_sectors dh) = {}" and wf: "disk_wf d1" and dir: "dir_inv dir" "tableSize dir = 10" and bm: "bm_inv bm" "numBits bm = 1024"
  shows "\<exists>d2 d3. WriteBack_dir j dir dh d1 = Inr d2 \<and> WriteBack_bm j' bm mh d2 = Inr d3 \<and> disk_wf d3 \<and>
           disk_dir dh d3 = dir \<and> disk_map mh d3 = bm \<and>
           same_outside (set (file_sectors mh) \<union> set (file_sectors dh)) d1 d3"
    and "\<exists>d2 d3. WriteBack_bm j' bm mh d1 = Inr d2 \<and> WriteBack_dir j dir dh d2 = Inr d3 \<and> disk_wf d3 \<and>
           disk_dir dh d3 = dir \<and> disk_map mh d3 = bm \<and>
           same_outside (set (file_sectors mh) \<union> set (file_sectors dh)) d1 d3"
proof -
  obtain d2 where d2: "WriteBack_dir j dir dh d1 = Inr d2" "disk_wf d2" "disk_dir dh d2 = dir"
    "same_outside (set (file_sectors dh)) d1 d2"
    using WriteBack_dir_eq [OF h(2) wf sz(2) dir, of j] same_outside_file [OF h(2)] by blast
  obtain d3 where d3: "WriteBack_bm j' bm mh d2 = Inr d3" "disk_wf d3" "disk_map mh d3 = bm"
    "same_outside (set (file_sectors mh)) d2 d3"
    using WriteBack_bm_eq [OF h(1) d2(2) sz(1) bm, of j'] same_outside_file [OF h(1)] by blast
  have "disk_dir dh d3 = disk_dir dh d2"
    using dis by (intro disk_dir_cong same_outside_bytes [OF d3(4) h(2)]) blast
  then show "\<exists>d2 d3. WriteBack_dir j dir dh d1 = Inr d2 \<and> WriteBack_bm j' bm mh d2 = Inr d3 \<and> disk_wf d3 \<and>
           disk_dir dh d3 = dir \<and> disk_map mh d3 = bm \<and>
           same_outside (set (file_sectors mh) \<union> set (file_sectors dh)) d1 d3"
    using d2 d3 same_outside_trans [OF d2(4) d3(4)] by (auto simp: Un_commute)
  obtain e2 where e2: "WriteBack_bm j' bm mh d1 = Inr e2" "disk_wf e2" "disk_map mh e2 = bm"
    "same_outside (set (file_sectors mh)) d1 e2"
    using WriteBack_bm_eq [OF h(1) wf sz(1) bm, of j'] same_outside_file [OF h(1)] by blast
  obtain e3 where e3: "WriteBack_dir j dir dh e2 = Inr e3" "disk_wf e3" "disk_dir dh e3 = dir"
    "same_outside (set (file_sectors dh)) e2 e3"
    using WriteBack_dir_eq [OF h(2) e2(2) sz(2) dir, of j] same_outside_file [OF h(2)] by blast
  have "disk_map mh e3 = disk_map mh e2"
    using dis by (intro disk_map_cong same_outside_bytes [OF e3(4) h(1)]) blast
  then show "\<exists>d2 d3. WriteBack_bm j' bm mh d1 = Inr d2 \<and> WriteBack_dir j dir dh d2 = Inr d3 \<and> disk_wf d3 \<and>
           disk_dir dh d3 = dir \<and> disk_map mh d3 = bm \<and>
           same_outside (set (file_sectors mh) \<union> set (file_sectors dh)) d1 d3"
    using e2 e3 same_outside_trans [OF e2(4) e3(4)] by auto
qed

lemmas write_back_fs = write_back_both [OF fs_invD(2,3) fs_invD(4,5) map_dir_disjoint]

lemma fetched_map:
  assumes "fs_inv fs d"
  shows "\<exists>fm0. new_BitMap ws 1024 = Inr fm0 \<and> FetchFrom_bm fm0 (map_hdr fs) d = Inr (disk_map (map_hdr fs) d)"
    "bm_inv (disk_map (map_hdr fs) d)" "numBits (disk_map (map_hdr fs) d) = 1024"
    "NumClear (disk_map (map_hdr fs) d) = Inr (fs_free fs d)"
  using FetchFrom_bm_eq [OF fs_invD(2,1,4) [OF assms]] NumClear_eq [of "disk_map (map_hdr fs) d"]
  by (simp_all add: fs_free_def fs_used_def disk_map_def)

lemma create_inv:
  assumes inv: "fs_inv fs d" and none: "fs_map fs d key = None" and k: "0 \<le> k" "k < 1024" "k \<notin> fs_used fs d"
    and h: "hdr_wf h" "hdr_fits h" "set (file_sectors h) \<inter> insert k (fs_used fs d) = {}"
    and wf: "disk_wf d'" and so: "same_outside (set (file_sectors (map_hdr fs)) \<union> set (file_sectors (dir_hdr fs))) (d[nat k := hdr_to_bytes h]) d'"
    and dir: "dir_inv (disk_dir (dir_hdr fs) d')" "fs_map fs d' = (fs_map fs d)(key \<mapsto> k)"
    and used: "fs_used fs d' = insert k (fs_used fs d) \<union> set (file_sectors h)"
  shows "fs_inv fs d'" "fs_files fs d' = (fs_files fs d)(key \<mapsto> file_bytes h d)"
proof -
  let ?S = "set (file_sectors (map_hdr fs)) \<union> set (file_sectors (dir_hdr fs))" and ?d1 = "d[nat k := hdr_to_bytes h]"
  have S: "?S \<subseteq> sys_sectors (map_hdr fs) (dir_hdr fs)" "0 \<notin> ?S" "1 \<notin> ?S" using fs_invD(9) [OF inv] by (auto simp: sys_sectors_def)
  have kS: "k \<notin> ?S" "k \<noteq> 0" "k \<noteq> 1" "set (file_sectors h) \<inter> ?S = {}" using S(1) sys_used [OF inv] k(3) h(3) by (auto simp: sys_sectors_def)
  have so': "same_outside ({k} \<union> ?S) d d'" using same_outside_trans [OF same_outside_update [OF k(1)] so] .
  have "length d = 1024" using fs_invD(1) [OF inv] by (simp add: disk_wf_def)
  then have "hdr_at ?d1 k = h" using k bytes_to_hdr_to_bytes [OF h(2)] by (simp add: hdr_at_def)
  then have hk: "hdr_at d' k = h" using same_outside_hdr [OF so k(1) kS(1)] by simp
  then have rk: "region d' k = insert k (set (file_sectors h))" by (simp add: region_def)
  have spare: "region d s \<inter> ({k} \<union> ?S) = {}" if "fs_map fs d n = Some s" for n s
    using region_used [OF inv that] k(3) fs_inv_file [OF inv that] S(1) by (auto simp: file_ok_def)
  have reg: "region d' s = region d s" if "fs_map fs d n = Some s" for n s
    using file_ok_stable(3) [OF so' fs_inv_file [OF inv that] spare [OF that]] .
  have fok: "file_ok fs d' k"
    unfolding file_ok_def rk hk using k(1,2) h(1,3) k(3) sys_used [OF inv] by auto
  have ran: "ran (fs_map fs d') = insert k (ran (fs_map fs d))" using none by (simp add: dir(2))
  have "(\<Union>s \<in> ran (fs_map fs d). region d' s) = (\<Union>s \<in> ran (fs_map fs d). region d s)"
    by (intro SUP_cong) (auto simp: ran_def reg)
  then have used': "fs_used fs d' = sys_sectors (map_hdr fs) (dir_hdr fs) \<union> (\<Union>s \<in> ran (fs_map fs d'). region d' s)"
    unfolding ran used fs_inv_used [OF inv] using rk by auto
  have ch: "fs_inv fs d' \<and> (\<forall>n. n \<noteq> key \<longrightarrow> fs_map fs d' n = fs_map fs d n \<longrightarrow> fs_files fs d' n = fs_files fs d n)"
  proof (rule fs_inv_change [OF inv so' _ _ wf dir(1) _ _ _ used'])
    show "0 \<notin> {k} \<union> ?S" "1 \<notin> {k} \<union> ?S" using S kS by auto
    show "fs_map fs d n = Some s \<and> region d s \<inter> ({k} \<union> ?S) = {}" if "fs_map fs d' n = Some s" "n \<noteq> key" for n s
      using that spare by (simp add: dir(2))
    show "file_ok fs d' s" if "fs_map fs d' key = Some s" for s using that fok by (simp add: dir(2))
    show "region d' s \<inter> region d s' = {}" if "fs_map fs d' key = Some s" "n \<noteq> key" "fs_map fs d n = Some s'" for s n s'
      using that region_used [OF inv that(3)] h(3) k(3) rk by (auto simp: dir(2))
  qed
  then show "fs_inv fs d'" by blast
  have "file_bytes h d' = file_bytes h d" using h kS by (intro same_outside_bytes [OF so' h(1)]) auto
  then have "fs_files fs d' key = Some (file_bytes h d)" by (simp add: fs_files_def dir(2) hk)
  then show "fs_files fs d' = (fs_files fs d)(key \<mapsto> file_bytes h d)" using ch by (auto simp: fun_eq_iff dir(2))
qed

lemma UN_remove:
  assumes "A \<subseteq> insert a B" "B \<subseteq> A" "\<And>x. x \<in> B \<Longrightarrow> R x \<inter> R a = {}"
  shows "(\<Union>x \<in> A. R x) - R a = (\<Union>x \<in> B. R x)"
  using assms(1,2) assms(3) by fastforce

lemma remove_inv:
  assumes inv: "fs_inv fs d" and f: "fs_map fs d key = Some s0"
    and wf: "disk_wf d'" and so: "same_outside (set (file_sectors (map_hdr fs)) \<union> set (file_sectors (dir_hdr fs))) d d'"
    and dir: "dir_inv (disk_dir (dir_hdr fs) d')" "fs_map fs d' = (fs_map fs d)(key := None)"
    and used: "fs_used fs d' = fs_used fs d - region d s0"
  shows "fs_inv fs d'" "fs_files fs d' = (fs_files fs d)(key := None)"
proof -
  let ?S = "set (file_sectors (map_hdr fs)) \<union> set (file_sectors (dir_hdr fs))"
  have S: "?S \<subseteq> sys_sectors (map_hdr fs) (dir_hdr fs)" "0 \<notin> ?S" "1 \<notin> ?S" using fs_invD(9) [OF inv] by (auto simp: sys_sectors_def)
  have spare: "region d s \<inter> ?S = {}" if "fs_map fs d n = Some s" for n s
    using fs_inv_file [OF inv that] S(1) by (auto simp: file_ok_def)
  have reg: "region d' s = region d s" if "fs_map fs d n = Some s" for n s
    using file_ok_stable(3) [OF so fs_inv_file [OF inv that] spare [OF that]] .
  have ran: "s \<in> ran (fs_map fs d') \<longleftrightarrow> (\<exists>n. n \<noteq> key \<and> fs_map fs d n = Some s)" for s by (auto simp: dir(2) ran_def)
  have keep: "region d s \<inter> region d s0 = {}" if "fs_map fs d n = Some s" "n \<noteq> key" for n s
    using fs_inv_disjoint [OF inv that(1) f that(2)] .
  have sys: "sys_sectors (map_hdr fs) (dir_hdr fs) \<inter> region d s0 = {}" using fs_inv_file [OF inv f] by (auto simp: file_ok_def)
  have "ran (fs_map fs d) \<subseteq> insert s0 (ran (fs_map fs d'))"
  proof
    fix s assume "s \<in> ran (fs_map fs d)"
    then obtain n where "fs_map fs d n = Some s" by (auto simp: ran_def)
    then show "s \<in> insert s0 (ran (fs_map fs d'))" using f unfolding insert_iff ran by (cases "n = key") auto
  qed
  moreover have "ran (fs_map fs d') \<subseteq> ran (fs_map fs d)" unfolding subset_iff ran by (auto simp: ran_def)
  moreover have "region d s \<inter> region d s0 = {}" if "s \<in> ran (fs_map fs d')" for s using that keep unfolding ran by blast
  ultimately have "(\<Union>s \<in> ran (fs_map fs d). region d s) - region d s0 = (\<Union>s \<in> ran (fs_map fs d'). region d s)" by (rule UN_remove)
  also have "\<dots> = (\<Union>s \<in> ran (fs_map fs d'). region d' s)" by (intro SUP_cong refl) (auto simp: ran reg)
  finally have "(\<Union>s \<in> ran (fs_map fs d). region d s) - region d s0 = (\<Union>s \<in> ran (fs_map fs d'). region d' s)" .
  then have used': "fs_used fs d' = sys_sectors (map_hdr fs) (dir_hdr fs) \<union> (\<Union>s \<in> ran (fs_map fs d'). region d' s)"
    unfolding used fs_inv_used [OF inv] using sys by blast
  have ch: "fs_inv fs d' \<and> (\<forall>n. n \<noteq> key \<longrightarrow> fs_map fs d' n = fs_map fs d n \<longrightarrow> fs_files fs d' n = fs_files fs d n)"
  proof (rule fs_inv_change [OF inv so S(2,3) wf dir(1) _ _ _ used'])
    show "fs_map fs d n = Some s \<and> region d s \<inter> ?S = {}" if "fs_map fs d' n = Some s" "n \<noteq> key" for n s
      using that spare by (simp add: dir(2))
  qed (simp_all add: dir(2))
  then show "fs_inv fs d'" by blast
  have "fs_files fs d' key = None" by (simp add: fs_files_def dir(2))
  then show "fs_files fs d' = (fs_files fs d)(key := None)" using ch by (auto simp: fun_eq_iff dir(2))
qed

lemma used_finite: "finite (fs_used fs d)" "fs_used fs d \<subseteq> {0..<1024}"
  using bm_used_subset [of "disk_map (map_hdr fs) d"] by (simp_all add: fs_used_def disk_map_def)

lemma fs_free_0_iff: "fs_free fs d < 1 \<longleftrightarrow> fs_used fs d = {0..<1024}"
proof
  assume "fs_free fs d < 1"
  then have "card {0..<1024::int} \<le> card (fs_used fs d)" by (simp add: fs_free_def)
  then show "fs_used fs d = {0..<1024}" using used_finite by (intro card_seteq) auto
qed (simp add: fs_free_def)

lemma Create_eq:
  assumes inv: "fs_inv fs d" and u: "memory_ok u" and sz: "0 \<le> sz" "sz \<le> 3840"
  shows "if fs_map fs d (cname name) \<noteq> None \<or> card (dom (fs_map fs d)) = 10 \<or> fs_free fs d < 1 + divRoundUp sz 128
         then Create u fs name sz d = Inr (False, d)
         else \<exists>d' h. Create u fs name sz d = Inr (True, d') \<and> fs_inv fs d' \<and>
                fs_files fs d' = (fs_files fs d)(cname name \<mapsto> file_bytes h d) \<and> numBytes h = sz \<and>
                fs_free fs d' = fs_free fs d - 1 - divRoundUp sz 128"
proof -
  let ?dir = "disk_dir (dir_hdr fs) d" and ?bm = "disk_map (map_hdr fs) d" and ?key = "cname name"
  note bm = fetched_map(2,3) [OF inv]
  obtain fm0 where fm0: "new_BitMap (u_words u) 1024 = Inr fm0" "FetchFrom_bm fm0 (map_hdr fs) d = Inr ?bm"
    using fetched_map(1) [OF inv] by blast
  note f = fetched_dir(1) [OF inv u] fetched_dir(2) [OF inv u, of name]
  have need: "0 \<le> divRoundUp sz 128" "divRoundUp sz 128 \<le> 30" using sz by (simp_all add: divRoundUp_nonneg)
  have dinv: "dir_inv ?dir" "tableSize ?dir = 10" using fs_invD(6) [OF inv] by (simp_all add: disk_dir_def)
  consider (dup) s where "fs_map fs d ?key = Some s" | (full) "fs_map fs d ?key = None" "fs_free fs d < 1"
    | (some) "fs_map fs d ?key = None" "\<not> fs_free fs d < 1" by (cases "fs_map fs d ?key") auto
  then show ?thesis
  proof cases
    case dup
    then have "0 \<le> s" using fs_inv_file [OF inv] by (simp add: file_ok_def)
    then show ?thesis using f dup by (simp add: Create_def)
  next
    case full
    then have "bm_used ?bm = {0..<numBits ?bm}" using fs_free_0_iff [of fs d] bm(2) by (simp add: fs_used_def)
    then have "Find ?bm = Inr (- 1, ?bm)" by (rule Find_full [OF bm(1)])
    then show ?thesis using f full fm0 need by (simp add: Create_def)
  next
    case some
    then have "bm_used ?bm \<noteq> {0..<numBits ?bm}" using fs_free_0_iff [of fs d] bm(2) by (simp add: fs_used_def)
    from Find_free [OF bm(1) this] obtain k fm1 where k: "Find ?bm = Inr (k, fm1)" "0 \<le> k" "k < 1024" "k \<notin> fs_used fs d"
      "bm_inv fm1" "numBits fm1 = 1024" "bm_used fm1 = insert k (fs_used fs d)" using bm(2) by (auto simp: fs_used_def)
    then have km: "k \<noteq> - 1" "k < 2 ^ 31" by simp_all
    from dir.add_law [OF dinv(1) k(2) km(2), of name] obtain b dir1 where
      a: "Dir_Add ?dir name k = Inr (b, dir1)" "dir_inv dir1" "tableSize dir1 = 10" "(b, dir_map dir1) = bmap_add 10 (fs_map fs d) ?key k"
      using dinv(2) by (auto simp: fs_map_def)
    have nc: "NumClear fm1 = Inr (fs_free fs d - 1)" using NumClear_eq [OF k(5)] k(4,6,7) used_finite by (simp add: fs_free_def)
    show ?thesis
    proof (cases "card (dom (fs_map fs d)) = 10")
      case True
      then have "\<not> b" using a(4) by (simp add: bmap_add_def)
      then show ?thesis using f some fm0 k(1) km a(1) True by (simp add: Create_def)
    next
      case False
      then have b: "b" "dir_map dir1 = (fs_map fs d)(?key \<mapsto> k)" using a(4) some(1) by (simp_all add: bmap_add_def)
      show ?thesis
      proof (cases "fs_free fs d < 1 + divRoundUp sz 128")
        case True
        then obtain h where "Allocate fm1 sz (u_hdr u 0) = Inr (False, h, fm1)" using nc by (simp add: Allocate_def Let_def)
        then show ?thesis using f some fm0 k(1) km a(1) b True by (simp add: Create_def)
      next
        case room: False
        have fits: "hdr_fits (u_hdr u 0)" using u by (simp add: memory_ok_def)
        have cc: "divRoundUp sz 128 \<le> numBits fm1 - int (card (bm_used fm1))" using room nc NumClear_eq [OF k(5)] by simp
        have l30: "length (dataSectors (u_hdr u 0)) = 30" using fits by (simp add: hdr_fits_def)
        from Allocate_enough [OF k(5) sz(1) need(2) l30 cc] k(6)
        obtain h fm2 where h: "Allocate fm1 sz (u_hdr u 0) = Inr (True, h, fm2)" "hdr_wf h" "numBytes h = sz" "bm_inv fm2" "numBits fm2 = 1024"
          "bm_used fm2 = bm_used fm1 \<union> set (file_sectors h)" "set (file_sectors h) \<inter> bm_used fm1 = {}"
          "\<forall>i. divRoundUp sz 128 \<le> int i \<longrightarrow> dataSectors h ! i = dataSectors (u_hdr u 0) ! i" by auto
        have hf: "hdr_fits h" by (rule fits_Allocate [OF fits h(2,3) sz(2) h(8)])
        let ?d1 = "d[nat k := hdr_to_bytes h]"
        have w1: "WriteBack_hdr h k d = Inr ?d1" "disk_wf ?d1" using header_roundtrip [OF fs_invD(1) [OF inv] hf k(2,3)] by auto
        from write_back_fs(1) [OF inv inv inv inv inv w1(2) a(2,3) h(4,5)] obtain d2 d3 where
          w: "WriteBack_dir (u_buf u 0) dir1 (dir_hdr fs) ?d1 = Inr d2" "WriteBack_bm (u_buf u 1) fm2 (map_hdr fs) d2 = Inr d3" "disk_wf d3"
            "disk_dir (dir_hdr fs) d3 = dir1" "disk_map (map_hdr fs) d3 = fm2"
            "same_outside (set (file_sectors (map_hdr fs)) \<union> set (file_sectors (dir_hdr fs))) ?d1 d3" by blast
        have C: "Create u fs name sz d = Inr (True, d3)"
          using f some fm0 k(1) km a(1) b(1) h(1) w1(1) w(1,2) by (simp add: Create_def)
        have used: "fs_used fs d3 = insert k (fs_used fs d) \<union> set (file_sectors h)" using w(5) h(6) k(7) by (simp add: fs_used_def)
        have m: "fs_map fs d3 = (fs_map fs d)(?key \<mapsto> k)" using w(4) b(2) by (simp add: fs_map_def)
        note ci = create_inv [OF inv some(1) k(2-4) h(2) hf h(7) [unfolded k(7)] w(3,6) _ m used]
        have "dir_inv (disk_dir (dir_hdr fs) d3)" using w(4) a(2) by simp
        note ci = ci [OF this]
        have "int (card (set (file_sectors h))) = divRoundUp sz 128" using card_file_sectors [OF h(2)] h(2,3) by (simp add: hdr_wf_def)
        then have "fs_free fs d3 = fs_free fs d - 1 - divRoundUp sz 128"
          unfolding fs_free_def used using h(7) k(4,7) used_finite need(1) by (subst card_Un_disjoint) auto
        then show ?thesis using some(1) False room C ci h(3) by auto
      qed
    qed
  qed
qed

lemma FS_Remove_eq:
  assumes inv: "fs_inv fs d" and u: "memory_ok u"
  shows "\<exists>d'. FS_Remove u fs name d = Inr (fs_map fs d (cname name) \<noteq> None, d') \<and> fs_inv fs d' \<and>
           fs_files fs d' = (fs_files fs d)(cname name := None) \<and>
           (\<forall>s. fs_map fs d (cname name) = Some s \<longrightarrow> fs_free fs d' = fs_free fs d + 1 + numSectors (hdr_at d s)) \<and>
           (fs_map fs d (cname name) = None \<longrightarrow> d' = d)"
proof (cases "fs_map fs d (cname name)")
  case None
  then have "FS_Remove u fs name d = Inr (False, d)" using fetched_dir(1) [OF inv u] fetched_dir(2) [OF inv u, of name] by (simp add: FS_Remove_def)
  moreover have "fs_files fs d (cname name) = None" using None by (simp add: fs_files_def)
  ultimately show ?thesis using None inv by (auto simp: fun_eq_iff)
next
  case (Some s)
  let ?dir = "disk_dir (dir_hdr fs) d" and ?bm = "disk_map (map_hdr fs) d" and ?h = "hdr_at d s"
  note bm = fetched_map(2,3) [OF inv] and f = fetched_dir(1) [OF inv u] fetched_dir(2) [OF inv u, of name]
  obtain fm0 where fm0: "new_BitMap (u_words u) 1024 = Inr fm0" "FetchFrom_bm fm0 (map_hdr fs) d = Inr ?bm"
    using fetched_map(1) [OF inv] by blast
  have ok: "0 \<le> s" "s < 1024" "hdr_wf ?h" "s \<notin> set (file_sectors ?h)" using fs_inv_file [OF inv Some] by (auto simp: file_ok_def)
  have ru: "region d s \<subseteq> bm_used ?bm" using region_used [OF inv Some] by (simp add: fs_used_def)
  then have "set (file_sectors ?h) \<subseteq> bm_used ?bm" by (auto simp: region_def)
  from Deallocate_ok [OF bm(1) ok(3) this] bm(2) obtain fm1 where
    fm1: "Deallocate ?h ?bm = Inr fm1" "bm_inv fm1" "numBits fm1 = 1024" "bm_used fm1 = bm_used ?bm - set (file_sectors ?h)" by auto
  from Clear_eq [OF fm1(2) ok(1)] ok(2) fm1(3) obtain fm2 where
    fm2: "Clear fm1 s = Inr fm2" "bm_inv fm2" "numBits fm2 = 1024" "bm_used fm2 = bm_used fm1 - {s}" by auto
  have dinv: "dir_inv ?dir" "tableSize ?dir = 10" using fs_invD(6) [OF inv] by (simp_all add: disk_dir_def)
  from dir.remove_law [OF dinv(1), of name] dinv(2) obtain dir1 b where
    r: "Dir_Remove ?dir name = Inr (b, dir1)" "dir_inv dir1" "tableSize dir1 = 10" "dir_map dir1 = (fs_map fs d)(cname name := None)"
    by (auto simp: fs_map_def)
  from write_back_fs(2) [OF inv inv inv inv inv fs_invD(1) [OF inv] r(2,3) fm2(2,3)] obtain d2 d3 where
    w: "WriteBack_bm (u_buf u 0) fm2 (map_hdr fs) d = Inr d2" "WriteBack_dir (u_buf u 1) dir1 (dir_hdr fs) d2 = Inr d3" "disk_wf d3"
      "disk_dir (dir_hdr fs) d3 = dir1" "disk_map (map_hdr fs) d3 = fm2"
      "same_outside (set (file_sectors (map_hdr fs)) \<union> set (file_sectors (dir_hdr fs))) d d3" by blast
  have C: "FS_Remove u fs name d = Inr (True, d3)"
    using f Some ok fm0 fm1(1) fm2(1) r(1) w(1,2) FetchFrom_hdr_at [OF fs_invD(1) [OF inv] ok(1,2)] by (simp add: FS_Remove_def)
  have used: "fs_used fs d3 = fs_used fs d - region d s" using w(5) fm1(4) fm2(4) by (auto simp: fs_used_def region_def)
  have m: "fs_map fs d3 = (fs_map fs d)(cname name := None)" using w(4) r(4) by (simp add: fs_map_def)
  have "dir_inv (disk_dir (dir_hdr fs) d3)" using w(4) r(2) by simp
  note ri = remove_inv [OF inv Some w(3,6) this m used]
  have "int (card (region d s)) = 1 + numSectors ?h"
    using card_file_sectors [OF ok(3)] ok(4) by (simp add: region_def)
  moreover have "card (fs_used fs d3) = card (fs_used fs d) - card (region d s)" "card (region d s) \<le> card (fs_used fs d)"
    unfolding used using region_used [OF inv Some] used_finite by (auto intro!: card_Diff_subset card_mono simp: finite_subset)
  ultimately have "fs_free fs d3 = fs_free fs d + 1 + numSectors ?h" by (simp add: fs_free_def)
  then show ?thesis using C Some ri by auto
qed

section \<open>Formatting and mounting\<close>

lemma format_eq:
  assumes wf: "disk_wf d" and u: "memory_ok u"
  shows "\<exists>fs d'. new_FileSystem u True d = Inr (fs, d') \<and> fs_inv fs d' \<and> fs_files fs d' = Map.empty \<and> fs_free fs d' = 1019"
proof -
  obtain fm0 where fm0: "new_BitMap (u_words u) 1024 = Inr fm0" "bm_inv fm0" "numBits fm0 = 1024" "bm_used fm0 = {}"
    using new_BitMap_eq [of 1024 "u_words u"] by auto
  obtain fm1 where fm1: "Mark fm0 0 = Inr fm1" "bm_inv fm1" "numBits fm1 = 1024" "bm_used fm1 = {0}"
    using Mark_eq [OF fm0(2), of 0] fm0 by auto
  obtain fm2 where fm2: "Mark fm1 1 = Inr fm2" "bm_inv fm2" "numBits fm2 = 1024" "bm_used fm2 = {0, 1}"
    using Mark_eq [OF fm1(2), of 1] fm1 by auto
  have fits: "hdr_fits (u_hdr u i)" "length (dataSectors (u_hdr u i)) = 30" for i using u by (simp_all add: memory_ok_def hdr_fits_def)
  have n: "divRoundUp 128 128 = 1" "divRoundUp 200 128 = 2" by (simp_all add: divRoundUp_nonneg)
  obtain mh fm3 where m: "Allocate fm2 128 (u_hdr u 0) = Inr (True, mh, fm3)" "hdr_wf mh" "numBytes mh = 128" "bm_inv fm3" "numBits fm3 = 1024"
      "bm_used fm3 = {0, 1} \<union> set (file_sectors mh)" "set (file_sectors mh) \<inter> {0, 1} = {}" "hdr_fits mh"
    using Allocate_enough [OF fm2(2), of 128 "u_hdr u 0"] fits fm2(3,4) n(1) fits_Allocate [OF fits(1) [of 0]] by auto
  have cm: "int (card (set (file_sectors mh))) = 1" using card_file_sectors [OF m(2)] m(2,3) n by (simp add: hdr_wf_def)
  then have c3: "card (bm_used fm3) = 3" unfolding m(6) using m(7) by (subst card_Un_disjoint) auto
  obtain dh fm4 where dr: "Allocate fm3 200 (u_hdr u 1) = Inr (True, dh, fm4)" "hdr_wf dh" "numBytes dh = 200" "bm_inv fm4" "numBits fm4 = 1024"
      "bm_used fm4 = bm_used fm3 \<union> set (file_sectors dh)" "set (file_sectors dh) \<inter> bm_used fm3 = {}" "hdr_fits dh"
    using Allocate_enough [OF m(4), of 200 "u_hdr u 1"] fits m(5) n(2) c3 fits_Allocate [OF fits(1) [of 1]] by auto
  have cd: "int (card (set (file_sectors dh))) = 2" using card_file_sectors [OF dr(2)] dr(2,3) n by (simp add: hdr_wf_def)
  have c4: "card (bm_used fm4) = 5" unfolding dr(6) using dr(7) c3 cd by (subst card_Un_disjoint) auto
  let ?d1 = "d[0 := hdr_to_bytes mh]" and ?d2 = "d[0 := hdr_to_bytes mh, 1 := hdr_to_bytes dh]"
  have w1: "WriteBack_hdr mh 0 d = Inr ?d1" "disk_wf ?d1" using header_roundtrip [OF wf m(8), of 0] by auto
  have w2: "WriteBack_hdr dh 1 ?d1 = Inr ?d2" "disk_wf ?d2" using header_roundtrip [OF w1(2) dr(8), of 1] by auto
  have len: "length d = 1024" using wf by (simp add: disk_wf_def)
  have hd: "hdr_at ?d2 0 = mh" "hdr_at ?d2 1 = dh"
    using len bytes_to_hdr_to_bytes [OF m(8)] bytes_to_hdr_to_bytes [OF dr(8)] by (simp_all add: hdr_at_def)
  have o: "new_OpenFile 0 ?d2 = Inr \<lparr>of_hdr = mh, seekPosition = 0\<rparr>" "new_OpenFile 1 ?d2 = Inr \<lparr>of_hdr = dh, seekPosition = 0\<rparr>"
    using new_OpenFile_at [OF w2(2)] hd by simp_all
  let ?dir = "new_Directory (u_entries u) 10"
  have nd: "dir_inv ?dir" "dir_map ?dir = Map.empty" "tableSize ?dir = 10" using new_Directory_inv [of 10 "u_entries u"] u by (simp_all add: memory_ok_def)
  have dis: "set (file_sectors mh) \<inter> set (file_sectors dh) = {}" using dr(7) m(6) by auto
  from write_back_both(2) [OF m(2) dr(2) m(3) dr(3) dis w2(2) nd(1,3) dr(4,5)] obtain d3 d4 where
    w: "WriteBack_bm (u_buf u 0) fm4 mh ?d2 = Inr d3" "WriteBack_dir (u_buf u 1) ?dir dh d3 = Inr d4" "disk_wf d4"
      "disk_dir dh d4 = ?dir" "disk_map mh d4 = fm4" "same_outside (set (file_sectors mh) \<union> set (file_sectors dh)) ?d2 d4" by blast
  let ?fs = "\<lparr>freeMapFile = \<lparr>of_hdr = mh, seekPosition = 0\<rparr>, directoryFile = \<lparr>of_hdr = dh, seekPosition = 0\<rparr>\<rparr>"
  have N: "new_FileSystem u True d = Inr (?fs, d4)"
    using fm0(1) fm1(1) fm2(1) m(1) dr(1) w1(1) w2(1) o w(1,2) by (simp add: new_FileSystem_def Let_def)
  have sp: "0 \<notin> set (file_sectors mh) \<union> set (file_sectors dh)" "1 \<notin> set (file_sectors mh) \<union> set (file_sectors dh)"
    using m(6,7) dr(7) by auto
  have "hdr_at d4 0 = mh" "hdr_at d4 1 = dh"
    using same_outside_hdr [OF w(6) _ sp(1)] same_outside_hdr [OF w(6) _ sp(2)] hd by simp_all
  moreover have "distinct (0 # 1 # file_sectors mh @ file_sectors dh)" using sp dis m(2) dr(2) by (auto simp: hdr_wf_def)
  moreover have "fs_map ?fs d4 = Map.empty" using w(4) nd(2) by (simp add: fs_map_def)
  moreover have "fs_used ?fs d4 = sys_sectors mh dh" using w(5) dr(6) m(6) by (simp add: fs_used_def sys_sectors_def)
  ultimately have "fs_inv ?fs d4" "fs_files ?fs d4 = Map.empty"
    using w(3,4) m(2,3) dr(2,3) nd(1) by (auto simp: fs_inv_def sys_ok_def fs_files_def)
  moreover have "fs_free ?fs d4 = 1019" using c4 w(5) by (simp add: fs_free_def fs_used_def)
  ultimately show ?thesis using N by blast
qed

lemma mount_eq: "fs_inv fs d \<Longrightarrow> new_FileSystem u False d = Inr (fs, d)"
  using new_OpenFile_at [OF fs_invD(1), of fs d 0] new_OpenFile_at [OF fs_invD(1), of fs d 1] fs_invD(7,8) [of fs d]
  by (simp add: new_FileSystem_def) (simp add: fs_inv_def)

section \<open>Properties\<close>

text \<open>
  Formatting any disk gives a well-formed, empty file system with all but five sectors free (two headers, one
  sector of free map and two of directory), whatever the memory and the disk held before; no assertion fails.
\<close>

theorem format_gives_empty_file_system:
  assumes "disk_wf d" "memory_ok u"
  shows "\<exists>fs d'. new_FileSystem u True d = Inr (fs, d') \<and> fs_inv fs d' \<and> fs_files fs d' = Map.empty \<and> fs_free fs d' = 1019"
  by (rule format_eq [OF assms])

definition blank_memory :: memory where
  "blank_memory = \<lparr>u_buf = \<lambda>i k. 170, u_words = \<lambda>i. 7, u_entries = \<lambda>i. blank_entry, u_hdr = \<lambda>i. small_file\<rparr>"

lemma blank_memory_ok: "memory_ok blank_memory"
  by (simp add: memory_ok_def blank_memory_def entry_wf_def blank_entry_def hdr_fits_def small_file_def)

theorem format_gives_empty_file_system_witness:
  "\<exists>fs d'. new_FileSystem blank_memory True zero_disk = Inr (fs, d') \<and> fs_inv fs d' \<and> fs_files fs d' = Map.empty \<and> fs_free fs d' = 1019"
  by (rule format_gives_empty_file_system [OF zero_disk_wf blank_memory_ok])

text \<open>
  (C7) \<open>Create\<close> for a size a header can describe: it is refused, and the disk is then untouched, exactly when the
  name (its first nine characters) exists, the directory has its ten names, or there is no room for a header and
  the data sectors. Otherwise the new name has a file of the requested size, every other file keeps its contents
  and the file system stays well formed.
\<close>

theorem Create_correct:
  assumes "fs_inv fs d" "memory_ok u" "0 \<le> sz" "sz \<le> 3840"
  shows "if cname name \<in> dom (fs_files fs d) \<or> card (dom (fs_files fs d)) = 10 \<or> fs_free fs d < 1 + divRoundUp sz 128
         then Create u fs name sz d = Inr (False, d)
         else \<exists>d' c. Create u fs name sz d = Inr (True, d') \<and> fs_inv fs d' \<and> int (length c) = sz \<and>
                fs_files fs d' = (fs_files fs d)(cname name \<mapsto> c) \<and> fs_free fs d' = fs_free fs d - 1 - divRoundUp sz 128"
proof -
  let ?refuse = "fs_map fs d (cname name) \<noteq> None \<or> card (dom (fs_map fs d)) = 10 \<or> fs_free fs d < 1 + divRoundUp sz 128"
  have e: "dom (fs_files fs d) = dom (fs_map fs d)" "cname name \<in> dom (fs_map fs d) \<longleftrightarrow> fs_map fs d (cname name) \<noteq> None"
    by (auto simp: fs_files_def)
  show ?thesis
  proof (cases ?refuse)
    case True
    then show ?thesis using Create_eq [OF assms, of name] unfolding e by simp
  next
    case False
    then obtain d' h where "Create u fs name sz d = Inr (True, d')" "fs_inv fs d'" "numBytes h = sz"
      "fs_files fs d' = (fs_files fs d)(cname name \<mapsto> file_bytes h d)" "fs_free fs d' = fs_free fs d - 1 - divRoundUp sz 128"
      using Create_eq [OF assms, of name] by (simp only: if_False) blast
    moreover have "int (length (file_bytes h d)) = sz" using calculation(3) assms(3) by simp
    ultimately show ?thesis using False unfolding e by (simp only: if_False) blast
  qed
qed

theorem Create_correct_witness:
  "\<exists>fs d d' c. new_FileSystem blank_memory True zero_disk = Inr (fs, d) \<and>
     Create blank_memory fs [65, 66] 300 d = Inr (True, d') \<and> fs_files fs d' = [[65, 66] \<mapsto> c] \<and> length c = 300 \<and> fs_free fs d' = 1015"
proof -
  obtain fs d where fs: "new_FileSystem blank_memory True zero_disk = Inr (fs, d)" "fs_inv fs d" "fs_files fs d = Map.empty" "fs_free fs d = 1019"
    using format_eq [OF zero_disk_wf blank_memory_ok] by blast
  have "cname [65, 66] = [65, 66]" by (simp add: cname_def)
  with Create_correct [OF fs(2) blank_memory_ok, of 300 "[65, 66]"] fs(3,4) show ?thesis
    by (simp add: divRoundUp_nonneg) (metis fs(1) nat_numeral nat_int)
qed

text \<open>
  (C14) \<open>Remove\<close> answers whether the name exists; afterwards it does not, every other file keeps its contents, the
  header sector and the data sectors of the file are free again, and the assertion in \<open>Deallocate\<close> holds.
\<close>

theorem Remove_correct:
  assumes "fs_inv fs d" "memory_ok u"
  shows "\<exists>d'. FS_Remove u fs name d = Inr (cname name \<in> dom (fs_files fs d), d') \<and> fs_inv fs d' \<and>
           fs_files fs d' = (fs_files fs d)(cname name := None) \<and>
           (\<forall>c. fs_files fs d (cname name) = Some c \<longrightarrow> fs_free fs d' = fs_free fs d + 1 + divRoundUp (int (length c)) 128) \<and>
           (fs_files fs d (cname name) = None \<longrightarrow> d' = d)"
proof -
  have "numSectors (hdr_at d s) = divRoundUp (int (length (file_bytes (hdr_at d s) d))) 128" if "fs_map fs d (cname name) = Some s" for s
    using fs_inv_file [OF assms(1) that] by (simp add: file_ok_def hdr_wf_def)
  then show ?thesis using FS_Remove_eq [OF assms, of name] by (auto simp: fs_files_def domIff)
qed

theorem Remove_correct_witness:
  "\<exists>fs d. new_FileSystem blank_memory True zero_disk = Inr (fs, d) \<and> FS_Remove blank_memory fs [65] d = Inr (False, d)"
proof -
  obtain fs d where fs: "new_FileSystem blank_memory True zero_disk = Inr (fs, d)" "fs_inv fs d" "fs_files fs d = Map.empty"
    using format_eq [OF zero_disk_wf blank_memory_ok] by blast
  then show ?thesis using Remove_correct [OF fs(2) blank_memory_ok, of "[65]"] by auto
qed

text \<open>
  (C15) Files are isolated: a name is opened exactly when it exists, the open file has the length of its contents, and a
  write through it replaces the written range of this file, clipped at its end, and nothing else: every other
  file, the directory and the free map are as before.
\<close>

theorem Open_Write_correct:
  assumes "fs_inv fs d" "memory_ok u" "fs_files fs d (cname name) = Some old"
    and "0 \<le> pos" "pos < int (length old)" "0 < num" "num \<le> int (length bs)"
  shows "\<exists>f n f' d'. FS_Open u fs name d = Inr (Some f) \<and> Length f = int (length old) \<and>
           Write j (Seek f pos) bs num d = Inr (int n, f', d') \<and> int n = min num (int (length old) - pos) \<and> fs_inv fs d' \<and>
           fs_files fs d' = (fs_files fs d)(cname name \<mapsto> take (nat pos) old @ take n bs @ drop (nat pos + n) old)"
proof -
  obtain s where s: "fs_map fs d (cname name) = Some s" "old = file_bytes (hdr_at d s) d" using assms(3) by (auto simp: fs_files_def)
  let ?h = "hdr_at d s" and ?f = "\<lparr>of_hdr = hdr_at d s, seekPosition = 0\<rparr>"
  have h: "hdr_wf ?h" using fs_inv_file [OF assms(1) s(1)] by (simp add: file_ok_def)
  then have len: "int (length old) = numBytes ?h" by (simp add: s(2) hdr_wf_def)
  from WriteAt_range [OF h fs_invD(1) [OF assms(1)] assms(4,6) assms(5) [unfolded len] assms(7), of j] obtain d' n where
    w: "WriteAt j ?h bs num pos d = Inr (int n, d')" "int n = min num (numBytes ?h - pos)" "disk_wf d'"
      "file_bytes ?h d' = take (nat pos) old @ take n bs @ drop (nat pos + n) old"
      "\<forall>t. t \<notin> nat ` set (file_sectors ?h) \<longrightarrow> d' ! t = d ! t" unfolding s(2) by blast
  have "FS_Open u fs name d = Inr (Some ?f)" using FS_Open_eq [OF assms(1,2)] s(1) by simp
  moreover have "Write j (Seek ?f pos) bs num d = Inr (int n, (Seek ?f pos)\<lparr>seekPosition := pos + int n\<rparr>, d')"
    using w(1) by (simp add: Write_def Seek_def)
  moreover have "fs_inv fs d'" "fs_files fs d' = (fs_files fs d)(cname name \<mapsto> take (nat pos) old @ take n bs @ drop (nat pos + n) old)"
    using write_file_inv [OF assms(1) s(1) same_outside_file [OF h w(5)] w(3)] w(4) by simp_all
  moreover have "Length ?f = int (length old)" "int n = min num (int (length old) - pos)" using w(2) len by (simp_all add: Length_def FileLength_def)
  ultimately show ?thesis by blast
qed

theorem Open_Write_correct_witness:
  "\<exists>fs d old f n f' d'. FS_Open blank_memory fs [65] d = Inr (Some f) \<and> Write (\<lambda>_. 0) (Seek f 2) [7, 8] 2 d = Inr (int n, f', d') \<and>
     fs_files fs d [65] = Some old \<and> length old = 10 \<and> fs_files fs d' [65] = Some (take 2 old @ [7, 8] @ drop 4 old)"
proof -
  obtain fs d0 where fs: "fs_inv fs d0" "fs_files fs d0 = Map.empty" "fs_free fs d0 = 1019"
    using format_eq [OF zero_disk_wf blank_memory_ok] by blast
  have e: "fs_map fs d0 = Map.empty"
  proof
    show "fs_map fs d0 n = None" for n using fun_cong [OF fs(2), of n] by (simp add: fs_files_def)
  qed
  have k: "cname [65] = [65]" by (simp add: cname_def)
  from Create_eq [OF fs(1) blank_memory_ok, of 10 "[65]"] obtain d h where
    c: "fs_inv fs d" "fs_files fs d = [[65] \<mapsto> file_bytes h d0]" "numBytes h = 10"
    using e fs(2,3) k by (auto simp: divRoundUp_nonneg)
  obtain old where old: "fs_files fs d (cname [65]) = Some old" "length old = 10" using c(2,3) k by simp
  from Open_Write_correct [OF c(1) blank_memory_ok old(1), of 2 2 "[7, 8]" "\<lambda>_. 0"] old(2) obtain f n f' d' where
    "FS_Open blank_memory fs [65] d = Inr (Some f)" "Write (\<lambda>_. 0) (Seek f 2) [7, 8] 2 d = Inr (int n, f', d')" "n = 2"
    "fs_files fs d' = (fs_files fs d)(cname [65] \<mapsto> take 2 old @ take n [7, 8] @ drop (2 + n) old)" by auto
  then show ?thesis using old by (intro exI [of _ fs] exI [of _ d] exI [of _ old]) (auto simp: k)
qed



subsection \<open>Reachable disks\<close>

text \<open>The states the calls of a user lead to, from a formatted disk.\<close>

inductive fs_reach :: "FileSystem \<Rightarrow> sectors \<Rightarrow> bool" where
  formatted: "disk_wf d0 \<Longrightarrow> memory_ok u \<Longrightarrow> new_FileSystem u True d0 = Inr (fs, d) \<Longrightarrow> fs_reach fs d"
| mounted: "fs_reach fs d \<Longrightarrow> new_FileSystem u False d = Inr (fs', d') \<Longrightarrow> fs_reach fs' d'"
| created: "fs_reach fs d \<Longrightarrow> memory_ok u \<Longrightarrow> 0 \<le> sz \<Longrightarrow> sz \<le> 3840 \<Longrightarrow> Create u fs name sz d = Inr (b, d') \<Longrightarrow> fs_reach fs d'"
| removed: "fs_reach fs d \<Longrightarrow> memory_ok u \<Longrightarrow> FS_Remove u fs name d = Inr (b, d') \<Longrightarrow> fs_reach fs d'"
| written: "fs_reach fs d \<Longrightarrow> memory_ok u \<Longrightarrow> FS_Open u fs name d = Inr (Some f) \<Longrightarrow> 0 \<le> pos \<Longrightarrow> num \<le> int (length bs) \<Longrightarrow>
    WriteAt j (of_hdr f) bs num pos d = Inr (n, d') \<Longrightarrow> fs_reach fs d'"

lemma WriteAt_nothing: "num \<le> 0 \<or> numBytes h \<le> pos \<Longrightarrow> WriteAt j h bs num pos d = Inr (0, d)"
  by (auto simp: WriteAt_def FileLength_def Let_def)

lemma written_inv:
  assumes "fs_inv fs d" "memory_ok u" "FS_Open u fs name d = Inr (Some f)" "0 \<le> pos" "num \<le> int (length bs)"
    "WriteAt j (of_hdr f) bs num pos d = Inr (n, d')"
  shows "fs_inv fs d'"
proof -
  obtain s where s: "fs_map fs d (cname name) = Some s" "of_hdr f = hdr_at d s" using assms(3) FS_Open_eq [OF assms(1,2)] by auto
  let ?h = "hdr_at d s"
  have h: "hdr_wf ?h" using fs_inv_file [OF assms(1) s(1)] by (simp add: file_ok_def)
  show ?thesis
  proof (cases "num \<le> 0 \<or> numBytes ?h \<le> pos")
    case True
    then show ?thesis using WriteAt_nothing [OF True, of j bs d] assms(1,6) s(2) by simp
  next
    case False
    then have "disk_wf d'" "\<forall>t. t \<notin> nat ` set (file_sectors ?h) \<longrightarrow> d' ! t = d ! t"
      using WriteAt_range [OF h fs_invD(1) [OF assms(1)] assms(4), of num bs j] assms(5,6) s(2) by auto
    then show ?thesis using write_file_inv(1) [OF assms(1) s(1) same_outside_file [OF h]] by blast
  qed
qed

lemma fs_reach_inv: "fs_reach fs d \<Longrightarrow> fs_inv fs d"
proof (induction rule: fs_reach.induct)
  case (formatted d0 u fs d)
  then show ?case using format_eq [of d0 u] by auto
next
  case (mounted fs d u fs' d')
  then show ?case using mount_eq [of fs d u] by simp
next
  case (created fs d u sz name b d')
  then show ?case using Create_eq [of fs d u sz name] by (auto split: if_splits)
next
  case (removed fs d u name b d')
  then show ?case using FS_Remove_eq [of fs d u name] by auto
next
  case (written fs d u name f pos num bs j n d')
  then show ?case using written_inv by blast
qed



end
