(* ===== verification/File_System_Test.thy ===== *)
theory File_System_Test
  imports File_System
begin

text \<open>
  The programs of \<open>filesys/fstest.cc\<close> on the file system: \<open>Copy\<close> puts a UNIX file on the Nachos disk, \<open>Print\<close> shows a Nachos
  file, and \<open>PerformanceTest\<close> writes, reads and removes a file.

  A UNIX file is the list of its bytes, \<open>None\<close> when it cannot be opened. What a program prints is its result. \<open>j\<close> gives the uninitialised
  buffers of the calls of \<open>WriteAt\<close>, by their number. A loop that reads until nothing is left yields \<open>None\<close> when it does not end.
\<close>

section \<open>Programs\<close>

abbreviation (input) TransferSize :: nat where "TransferSize \<equiv> 10"

text \<open>The loop of \<open>Copy\<close>: \<open>fread\<close> takes the next piece of the input.\<close>

function copy_loop :: "(nat \<Rightarrow> nat \<Rightarrow> 8 word) \<Rightarrow> bytes \<Rightarrow> OpenFile \<Rightarrow> sectors \<Rightarrow> sectors result" where
  "copy_loop j inp openFile d =
     (let buffer = take TransferSize inp in
      if buffer = [] then Inr d
      else bindE (Write (j (length inp)) openFile buffer (int (length buffer)) d) (\<lambda>(_, openFile', d'). copy_loop j (drop TransferSize inp) openFile' d'))"
  by pat_completeness auto
termination by (relation "measure (\<lambda>(_, inp, _, _). length inp)") auto

declare copy_loop.simps [simp del]

definition Copy :: "memory \<Rightarrow> (nat \<Rightarrow> nat \<Rightarrow> 8 word) \<Rightarrow> FileSystem \<Rightarrow> bytes option \<Rightarrow> bytes \<Rightarrow> sectors \<Rightarrow> sectors result" where
  "Copy u j fs fp to d =
     (case fp of
        None \<Rightarrow> Inr d
      | Some inp \<Rightarrow>
          bindE (Create u fs to (int (length inp)) d) (\<lambda>(created, d1).
          if \<not> created then Inr d1
          else
            bindE (FS_Open u fs to d1) (\<lambda>opened.
            bindE (ASSERT (opened \<noteq> None)) (\<lambda>_. copy_loop j inp (the opened) d1))))"

partial_function (option) print_loop :: "OpenFile \<Rightarrow> bytes \<Rightarrow> sectors \<Rightarrow> bytes result option" where
  "print_loop openFile out d =
     (case Read openFile (int TransferSize) d of
        Inl e \<Rightarrow> Some (Inl e)
      | Inr (buffer, openFile') \<Rightarrow> if buffer = [] then Some (Inr out) else print_loop openFile' (out @ buffer) d)"

definition Print :: "memory \<Rightarrow> FileSystem \<Rightarrow> bytes \<Rightarrow> sectors \<Rightarrow> bytes option result option" where
  "Print u fs name d =
     bindO (Some (FS_Open u fs name d)) (\<lambda>opened.
     case opened of
       None \<Rightarrow> Some (Inr None)
     | Some openFile \<Rightarrow> bindO (print_loop openFile [] d) (\<lambda>out. Some (Inr (Some out))))"

subsection \<open>Performance test\<close>

datatype perf_message = CannotCreate | UnableToOpen | UnableToWrite | UnableToOpenRead | UnableToRead | UnableToRemove

abbreviation (input) FileName :: bytes where "FileName \<equiv> [84, 101, 115, 116, 70, 105, 108, 101]"
abbreviation (input) Contents :: bytes where "Contents \<equiv> [49, 50, 51, 52, 53, 54, 55, 56, 57, 48]"

primrec fwrite_loop :: "(nat \<Rightarrow> nat \<Rightarrow> 8 word) \<Rightarrow> nat \<Rightarrow> OpenFile \<Rightarrow> sectors \<Rightarrow> (perf_message list \<times> sectors) result" where
  "fwrite_loop j 0 openFile d = Inr ([], d)"
| "fwrite_loop j (Suc i) openFile d =
     bindE (Write (j i) openFile Contents 10 d) (\<lambda>(numBytes, openFile', d').
     if numBytes < 10 then Inr ([UnableToWrite], d') else fwrite_loop j i openFile' d')"

definition FileWrite :: "memory \<Rightarrow> (nat \<Rightarrow> nat \<Rightarrow> 8 word) \<Rightarrow> FileSystem \<Rightarrow> sectors \<Rightarrow> (perf_message list \<times> sectors) result" where
  "FileWrite u j fs d =
     bindE (Create u fs FileName 0 d) (\<lambda>(created, d1).
     if \<not> created then Inr ([CannotCreate], d1)
     else
       bindE (FS_Open u fs FileName d1) (\<lambda>opened.
       case opened of None \<Rightarrow> Inr ([UnableToOpen], d1) | Some openFile \<Rightarrow> fwrite_loop j 5000 openFile d1))"

primrec fread_loop :: "nat \<Rightarrow> OpenFile \<Rightarrow> sectors \<Rightarrow> perf_message list result" where
  "fread_loop 0 openFile d = Inr []"
| "fread_loop (Suc i) openFile d =
     bindE (Read openFile 10 d) (\<lambda>(buffer, openFile').
     if length buffer < 10 \<or> buffer \<noteq> Contents then Inr [UnableToRead] else fread_loop i openFile' d)"

definition FileRead :: "memory \<Rightarrow> FileSystem \<Rightarrow> sectors \<Rightarrow> perf_message list result" where
  "FileRead u fs d =
     bindE (FS_Open u fs FileName d) (\<lambda>opened.
     case opened of None \<Rightarrow> Inr [UnableToOpenRead] | Some openFile \<Rightarrow> fread_loop 5000 openFile d)"

definition PerformanceTest :: "memory \<Rightarrow> (nat \<Rightarrow> nat \<Rightarrow> 8 word) \<Rightarrow> FileSystem \<Rightarrow> sectors \<Rightarrow> (perf_message list \<times> sectors) result" where
  "PerformanceTest u j fs d =
     bindE (FileWrite u j fs d) (\<lambda>(m1, d1).
     bindE (FileRead u fs d1) (\<lambda>m2.
     bindE (FS_Remove u fs FileName d1) (\<lambda>(removed, d2).
     Inr (m1 @ m2 @ (if removed then [] else [UnableToRemove]), d2))))"

section \<open>Copying\<close>

text \<open>A write into a file leaves the directory and the header of the file alone.\<close>

lemma write_keeps_name:
  assumes "fs_inv fs d" "fs_map fs d key = Some s" "same_outside (set (file_sectors (hdr_at d s))) d d'"
  shows "fs_map fs d' = fs_map fs d" "hdr_at d' s = hdr_at d s"
proof -
  have ok: "file_ok fs d s" by (rule fs_inv_file [OF assms(1,2)])
  then have "set (file_sectors (hdr_at d s)) \<inter> sys_sectors (map_hdr fs) (dir_hdr fs) = {}" by (auto simp: file_ok_def region_def)
  note sp = spares_sys [OF assms(1,3) this]
  show "fs_map fs d' = fs_map fs d" by (simp add: fs_map_def sp)
  show "hdr_at d' s = hdr_at d s" using same_outside_hdr [OF assms(3)] ok by (simp add: file_ok_def)
qed

lemma copy_loop_ok:
  assumes "fs_inv fs d" "fs_map fs d key = Some s" "file_bytes (hdr_at d s) d = start @ old" "length old = length inp"
  shows "\<exists>d'. copy_loop j inp \<lparr>of_hdr = hdr_at d s, seekPosition = int (length start)\<rparr> d = Inr d' \<and> fs_inv fs d' \<and>
    fs_files fs d' = (fs_files fs d)(key \<mapsto> start @ inp) \<and> fs_map fs d' = fs_map fs d"
  using assms
proof (induction inp arbitrary: d start old rule: length_induct)
  case (1 inp)
  let ?h = "hdr_at d s"
  show ?case
  proof (cases "inp = []")
    case True
    then have "fs_files fs d key = Some start" using 1(3-5) by (simp add: fs_files_def)
    then have "(fs_files fs d)(key \<mapsto> start @ inp) = fs_files fs d" using True by auto
    then show ?thesis using True 1(2) by (simp add: copy_loop.simps)
  next
    case False
    let ?b = "take 10 inp" and ?p = "length start"
    have h: "hdr_wf ?h" using fs_inv_file [OF 1(2,3)] by (simp add: file_ok_def)
    have len: "nat (numBytes ?h) = ?p + length inp" using arg_cong [OF 1(4), of length] 1(5) by simp
    then have nb: "numBytes ?h = int (?p + length inp)" using False by (metis add_is_0 length_0_conv nat_eq_iff2)
    obtain d1 n where w: "WriteAt (j (length inp)) ?h ?b (int (length ?b)) (int ?p) d = Inr (int n, d1)" "int n = min (int (length ?b)) (numBytes ?h - int ?p)" "disk_wf d1"
        "file_bytes ?h d1 = take ?p (file_bytes ?h d) @ take n ?b @ drop (?p + n) (file_bytes ?h d)" "\<forall>t. t \<notin> nat ` set (file_sectors ?h) \<longrightarrow> d1 ! t = d ! t"
      using WriteAt_range [OF h fs_invD(1) [OF 1(2)], of "int ?p" "int (length ?b)" ?b "j (length inp)"] False nb by auto
    have n: "n = length ?b" using w(2) nb by simp
    note so = same_outside_file [OF h w(5)]
    note inv1 = write_file_inv [OF 1(2,3) so w(3)] and k = write_keeps_name [OF 1(2,3) so]
    have "take n ?b = ?b" unfolding n by (rule take_all) simp
    then have fb: "file_bytes (hdr_at d1 s) d1 = (start @ ?b) @ drop n old" using w(4) 1(4) by (simp add: k(2))
    have "\<exists>d'. copy_loop j (drop 10 inp) \<lparr>of_hdr = hdr_at d1 s, seekPosition = int (length (start @ ?b))\<rparr> d1 = Inr d' \<and> fs_inv fs d' \<and>
        fs_files fs d' = (fs_files fs d1)(key \<mapsto> (start @ ?b) @ drop 10 inp) \<and> fs_map fs d' = fs_map fs d1"
      using 1(1) [rule_format, of "drop 10 inp" d1 "start @ ?b" "drop n old"] False inv1(1) k 1(3,5) fb n by simp
    then obtain d' where d': "copy_loop j (drop 10 inp) \<lparr>of_hdr = ?h, seekPosition = int ?p + int n\<rparr> d1 = Inr d'" "fs_inv fs d'"
        "fs_files fs d' = (fs_files fs d1)(key \<mapsto> start @ inp)" "fs_map fs d' = fs_map fs d" using k n by (auto simp: append_assoc)
    have "copy_loop j inp \<lparr>of_hdr = ?h, seekPosition = int ?p\<rparr> d = Inr d'"
      using False w(1) d'(1) by (subst copy_loop.simps) (simp add: Write_def Let_def)
    moreover have "fs_files fs d' = (fs_files fs d)(key \<mapsto> start @ inp)" unfolding d'(3) inv1(2) by (rule fun_upd_upd)
    ultimately show ?thesis using d'(2,4) by blast
  qed
qed

section \<open>Printing\<close>

lemma print_loop_ok:
  assumes "hdr_wf h" "disk_wf d" "p \<le> length (file_bytes h d)"
  shows "print_loop \<lparr>of_hdr = h, seekPosition = int p\<rparr> out d = Some (Inr (out @ drop p (file_bytes h d)))"
  using assms(3)
proof (induction "length (file_bytes h d) - p" arbitrary: p out rule: less_induct)
  case less
  show ?case
  proof (cases "p = length (file_bytes h d)")
    case True
    then have "Read \<lparr>of_hdr = h, seekPosition = int p\<rparr> 10 d = Inr ([], \<lparr>of_hdr = h, seekPosition = int p\<rparr>)"
      by (simp add: Read_def ReadAt_def FileLength_def)
    then show ?thesis using True by (subst print_loop.simps) simp
  next
    case False
    let ?f = "file_bytes h d"
    define q where "q = min (p + 10) (length ?f)"
    have q: "p < q" "q \<le> length ?f" "q - p \<le> 10" "nat (min (int p + 10) (numBytes h)) = q" using False less.prems by (auto simp: q_def min_def nat_add_distrib)
    have pn: "int p < numBytes h" using False less.prems by simp
    have "ReadAt h 10 (int p) d = Inr (map (fbyte h d) [p..<q])" using ReadAt_spec [OF assms(1,2), of "int p" 10] pn q(4) by simp
    moreover have "map (fbyte h d) [p..<q] = take (q - p) (drop p ?f)" using take_drop_file_bytes [of p q h d] q(1,2) by simp
    ultimately have "Read \<lparr>of_hdr = h, seekPosition = int p\<rparr> 10 d = Inr (take (q - p) (drop p ?f), \<lparr>of_hdr = h, seekPosition = int q\<rparr>)"
      using q by (simp add: Read_def)
    moreover have "take (q - p) (drop p ?f) \<noteq> []" using q by simp
    ultimately have "print_loop \<lparr>of_hdr = h, seekPosition = int p\<rparr> out d = print_loop \<lparr>of_hdr = h, seekPosition = int q\<rparr> (out @ take (q - p) (drop p ?f)) d"
      by (subst print_loop.simps) simp
    also have "\<dots> = Some (Inr ((out @ take (q - p) (drop p ?f)) @ drop q ?f))" using less.hyps [of q] q by simp
    also have "(out @ take (q - p) (drop p ?f)) @ drop q ?f = out @ drop p ?f"
      using append_take_drop_id [of "q - p" "drop p ?f"] q(1) by simp
    finally show ?thesis .
  qed
qed

lemma Print_eq:
  assumes "fs_inv fs d" "memory_ok u"
  shows "Print u fs name d = Some (Inr (fs_files fs d (cname name)))"
proof (cases "fs_map fs d (cname name)")
  case None
  then show ?thesis using FS_Open_eq [OF assms, of name] by (simp add: Print_def fs_files_def)
next
  case (Some s)
  have h: "hdr_wf (hdr_at d s)" using fs_inv_file [OF assms(1) Some] by (simp add: file_ok_def)
  show ?thesis using FS_Open_eq [OF assms, of name] Some print_loop_ok [OF h fs_invD(1) [OF assms(1)], of 0 "[]"] by (simp add: Print_def fs_files_def)
qed

lemma Copy_eq:
  assumes "fs_inv fs d" "memory_ok u" "length inp \<le> 3840" "fs_files fs d (cname to) = None" "card (dom (fs_files fs d)) < 10"
    "1 + divRoundUp (int (length inp)) 128 \<le> fs_free fs d"
  shows "\<exists>d'. Copy u j fs (Some inp) to d = Inr d' \<and> fs_inv fs d' \<and> fs_files fs d' = (fs_files fs d)(cname to \<mapsto> inp)"
proof -
  have dom: "dom (fs_files fs d) = dom (fs_map fs d)" "fs_map fs d (cname to) = None" using assms(4) by (auto simp: fs_files_def)
  obtain d1 h where c: "Create u fs to (int (length inp)) d = Inr (True, d1)" "fs_inv fs d1" "fs_files fs d1 = (fs_files fs d)(cname to \<mapsto> file_bytes h d)"
      "numBytes h = int (length inp)"
    using Create_eq [OF assms(1,2), of "int (length inp)" to] assms(3,5,6) dom by auto
  have "fs_files fs d1 (cname to) = Some (file_bytes h d)" using c(3) by simp
  then obtain s where s: "fs_map fs d1 (cname to) = Some s" "file_bytes (hdr_at d1 s) d1 = file_bytes h d" by (auto simp: fs_files_def)
  obtain d' where "copy_loop j inp \<lparr>of_hdr = hdr_at d1 s, seekPosition = int (length [])\<rparr> d1 = Inr d'" "fs_inv fs d'"
      "fs_files fs d' = (fs_files fs d1)(cname to \<mapsto> [] @ inp)"
    using copy_loop_ok [OF c(2) s(1), of "[]" "file_bytes h d" inp j] s(2) c(4) by auto
  then show ?thesis using c(1,3) FS_Open_eq [OF c(2) assms(2), of to] s(1) by (simp add: Copy_def ASSERT_def)
qed

section \<open>Properties\<close>

text \<open>
  (C8) Copying a UNIX file to the disk and printing it shows the file: when the name is new and there is room, \<open>Copy\<close> creates a file with
  exactly the bytes of the UNIX file and changes no other file, and \<open>Print\<close> ends and prints exactly these bytes.
\<close>

theorem Copy_Print_roundtrip:
  assumes "fs_inv fs d" "memory_ok u" "length inp \<le> 3840" "fs_files fs d (cname to) = None" "card (dom (fs_files fs d)) < 10"
    "1 + divRoundUp (int (length inp)) 128 \<le> fs_free fs d"
  shows "\<exists>d'. Copy u j fs (Some inp) to d = Inr d' \<and> fs_files fs d' = (fs_files fs d)(cname to \<mapsto> inp) \<and> Print u fs to d' = Some (Inr (Some inp))"
  using Copy_eq [OF assms, of j] Print_eq [OF _ assms(2), of fs _ to] by auto

theorem Copy_Print_roundtrip_witness:
  "\<exists>fs d d'. new_FileSystem blank_memory True zero_disk = Inr (fs, d) \<and> Copy blank_memory (\<lambda>_ _. 0) fs (Some (replicate 25 88)) [65] d = Inr d' \<and>
     Print blank_memory fs [65] d' = Some (Inr (Some (replicate 25 88)))"
proof -
  obtain fs d where fs: "new_FileSystem blank_memory True zero_disk = Inr (fs, d)" "fs_inv fs d" "fs_files fs d = Map.empty" "fs_free fs d = 1019"
    using format_eq [OF zero_disk_wf blank_memory_ok] by blast
  have "\<exists>d'. Copy blank_memory (\<lambda>_ _. 0) fs (Some (replicate 25 88)) [65] d = Inr d' \<and> Print blank_memory fs [65] d' = Some (Inr (Some (replicate 25 88)))"
    using Copy_Print_roundtrip [OF fs(2) blank_memory_ok, of "replicate 25 88" "[65]" "\<lambda>_ _. 0"] fs(3,4) by (auto simp: divRoundUp_nonneg)
  then show ?thesis using fs(1) by blast
qed

text \<open>
  The performance test cannot succeed: it creates its file with size 0 and files do not grow, so that the first write and the first
  read fail, and the file is removed again. All files are then as before.
\<close>

theorem PerformanceTest_fails:
  assumes "fs_inv fs d" "memory_ok u" "fs_files fs d (cname FileName) = None" "card (dom (fs_files fs d)) < 10" "1 \<le> fs_free fs d"
  shows "\<exists>d'. PerformanceTest u j fs d = Inr ([UnableToWrite, UnableToRead], d') \<and> fs_inv fs d' \<and> fs_files fs d' = fs_files fs d"
proof -
  have dom: "dom (fs_files fs d) = dom (fs_map fs d)" "fs_map fs d (cname FileName) = None" using assms(3) by (auto simp: fs_files_def)
  obtain d1 h where c: "Create u fs FileName 0 d = Inr (True, d1)" "fs_inv fs d1" "fs_files fs d1 = (fs_files fs d)(cname FileName \<mapsto> file_bytes h d)" "numBytes h = 0"
    using Create_eq [OF assms(1,2), of 0 FileName] assms(4,5) dom by (auto simp: divRoundUp_nonneg)
  have e: "fs_files fs d1 (cname FileName) = Some []" using c(3,4) by (simp add: file_bytes_def)
  then obtain s where s: "fs_map fs d1 (cname FileName) = Some s" "file_bytes (hdr_at d1 s) d1 = []" by (auto simp: fs_files_def)
  have z: "numBytes (hdr_at d1 s) \<le> 0" using arg_cong [OF s(2), of length] by simp
  note o = FS_Open_eq [OF c(2) assms(2), of FileName]
  have w: "FileWrite u j fs d = Inr ([UnableToWrite], d1)"
    using c(1) o s(1) WriteAt_nothing [of 10 "hdr_at d1 s" 0 "j 4999" Contents d1] z by (simp add: FileWrite_def eval_nat_numeral Write_def)
  have r: "FileRead u fs d1 = Inr [UnableToRead]" using o s(1) z by (simp add: FileRead_def eval_nat_numeral Read_def ReadAt_def FileLength_def)
  obtain d2 where "FS_Remove u fs FileName d1 = Inr (True, d2)" "fs_inv fs d2" "fs_files fs d2 = (fs_files fs d1)(cname FileName := None)"
    using FS_Remove_eq [OF c(2) assms(2), of FileName] s(1) by auto
  moreover have "(fs_files fs d1)(cname FileName := None) = fs_files fs d" using c(3) assms(3) by auto
  ultimately show ?thesis using w r by (simp add: PerformanceTest_def)
qed

theorem PerformanceTest_fails_witness:
  "\<exists>fs d d'. new_FileSystem blank_memory True zero_disk = Inr (fs, d) \<and>
     PerformanceTest blank_memory (\<lambda>_ _. 0) fs d = Inr ([UnableToWrite, UnableToRead], d') \<and> fs_files fs d' = Map.empty"
proof -
  obtain fs d where fs: "new_FileSystem blank_memory True zero_disk = Inr (fs, d)" "fs_inv fs d" "fs_files fs d = Map.empty" "fs_free fs d = 1019"
    using format_eq [OF zero_disk_wf blank_memory_ok] by blast
  have "\<exists>d'. PerformanceTest blank_memory (\<lambda>_ _. 0) fs d = Inr ([UnableToWrite, UnableToRead], d') \<and> fs_files fs d' = Map.empty"
    using PerformanceTest_fails [OF fs(2) blank_memory_ok, of "\<lambda>_ _. 0"] fs(3,4) by auto
  then show ?thesis using fs(1) by blast
qed

end
