(* ===== verification/Addr_Space.thy ===== *)
theory Addr_Space
  imports Open_File Machine_Memory
begin

text \<open>
  Address spaces of user programs: \<open>userprog/addrspace.cc\<close>, \<open>userprog/addrspace.h\<close> and the object format of
  \<open>bin/noff.h\<close>.

  The argument \<open>vm\<close> is the preprocessor symbol \<open>VM\<close>: without it a program is loaded when its address space is
  made, with it pages are loaded on demand (\<open>Virtual_Memory\<close>). An executable is the list of the bytes of its
  UNIX file, read through the file class of \<open>FILESYS_STUB\<close>, as the two configurations do. Unsigned arithmetic
  wraps at 32 bits.
\<close>

section \<open>Files and object format\<close>

abbreviation (input) UserStackSize :: int where "UserStackSize \<equiv> 1024"
abbreviation (input) NOFFMAGIC :: int where "NOFFMAGIC \<equiv> 0xbadfad"
abbreviation (input) StackReg :: int where "StackReg \<equiv> 29"
abbreviation (input) RetAddrReg :: int where "RetAddrReg \<equiv> 31"

definition u32 :: "int \<Rightarrow> int" where "u32 x = x mod 2 ^ 32"

definition s32 :: "int \<Rightarrow> int" where "s32 x = sint (word_of_int x :: 32 word)"

text \<open>\<open>ReadAt\<close> and \<open>WriteAt\<close> on a UNIX file: \<open>lseek\<close> refuses a negative offset, \<open>read\<close> stops at the end of the
  file, \<open>write\<close> behind the end extends it with zeros.\<close>

definition stub_ReadAt :: "bytes \<Rightarrow> int \<Rightarrow> int \<Rightarrow> bytes result" where
  "stub_ReadAt f num position =
     bindE (ASSERT (position \<ge> 0)) (\<lambda>_. Inr (take (nat num) (drop (nat position) f)))"

definition stub_WriteAt :: "bytes \<Rightarrow> bytes \<Rightarrow> int \<Rightarrow> bytes result" where
  "stub_WriteAt f bs position =
     bindE (ASSERT (position \<ge> 0)) (\<lambda>_.
     Inr (take (nat position) (f @ replicate (nat position - length f) 0) @ bs @ drop (nat position + length bs) f))"

record Segment =
  virtualAddr :: int
  inFileAddr :: int
  seg_size :: int

record NoffHeader =
  noffMagic :: int
  seg_code :: Segment
  seg_initData :: Segment
  seg_uninitData :: Segment

definition bytes_to_noff :: "bytes \<Rightarrow> NoffHeader" where
  "bytes_to_noff bs =
     (let ws = map sint (bytes_to_words bs);
          seg = (\<lambda>i. \<lparr>virtualAddr = ws ! i, inFileAddr = ws ! (i + 1), seg_size = ws ! (i + 2)\<rparr>) in
      \<lparr>noffMagic = ws ! 0, seg_code = seg 1, seg_initData = seg 4, seg_uninitData = seg 7\<rparr>)"

text \<open>The host is little endian.\<close>

definition WordToHost :: "int \<Rightarrow> int" where "WordToHost w = w"

definition swap_segment :: "Segment \<Rightarrow> Segment" where
  "swap_segment s =
     \<lparr>virtualAddr = WordToHost (virtualAddr s), inFileAddr = WordToHost (inFileAddr s), seg_size = WordToHost (seg_size s)\<rparr>"

definition SwapHeader :: "NoffHeader \<Rightarrow> NoffHeader" where
  "SwapHeader h =
     \<lparr>noffMagic = WordToHost (noffMagic h), seg_code = swap_segment (seg_code h),
      seg_initData = swap_segment (seg_initData h), seg_uninitData = swap_segment (seg_uninitData h)\<rparr>"

text \<open>Reading the header: \<open>junk\<close> is the uninitialised local variable.\<close>

definition read_noff :: "bytes \<Rightarrow> bytes \<Rightarrow> NoffHeader result" where
  "read_noff junk executable =
     bindE (stub_ReadAt executable 40 0) (\<lambda>bs.
     bindE (bcopy bs junk 0) (\<lambda>hd. Inr (bytes_to_noff hd)))"

section \<open>Operations\<close>

record AddrSpace =
  pageTable :: "TranslationEntry list"
  numPages :: int
  numPagesCode :: int
  numPagesInitData :: int
  numPagesDataStack :: int
  executableFilename :: bytes

text \<open>One entry of a new page table. Without virtual memory a frame is taken for it.\<close>

definition new_entry :: "bool \<Rightarrow> int \<Rightarrow> bool \<Rightarrow> BitMap \<Rightarrow> (TranslationEntry \<times> BitMap) result" where
  "new_entry vm vp ro mainMemoryMap =
     (if vm then
        Inr (\<lparr>virtualPage = vp, physicalPage = - 1, te_valid = False, readOnly = ro, te_use = False, te_dirty = False\<rparr>, mainMemoryMap)
      else
        bindE (Find mainMemoryMap) (\<lambda>(f, mm).
        Inr (\<lparr>virtualPage = vp, physicalPage = f, te_valid = True, readOnly = ro, te_use = False, te_dirty = False\<rparr>, mm)))"

text \<open>Loading page \<open>i\<close> from the file into its frame.\<close>

definition load_page :: "bytes \<Rightarrow> NoffHeader \<Rightarrow> TranslationEntry list \<Rightarrow> int \<Rightarrow> bytes \<Rightarrow> bytes result" where
  "load_page executable h pt i mem =
     bindE (arr_get pt i) (\<lambda>e.
     bindE (stub_ReadAt executable PageSize (s32 (inFileAddr (seg_code h) + i * PageSize))) (\<lambda>bs.
     bcopy bs mem (physicalPage e * PageSize)))"

definition new_AddrSpace ::
  "bool \<Rightarrow> bytes \<Rightarrow> bytes \<Rightarrow> bytes \<Rightarrow> BitMap \<Rightarrow> bytes \<Rightarrow> (AddrSpace \<times> BitMap \<times> bytes) result" where
  "new_AddrSpace vm junk junkName executable mainMemoryMap mem =
     bindE (read_noff junk executable) (\<lambda>h0.
     let h = (if noffMagic h0 \<noteq> NOFFMAGIC \<and> WordToHost (noffMagic h0) = NOFFMAGIC then SwapHeader h0 else h0) in
     bindE (ASSERT (noffMagic h = NOFFMAGIC)) (\<lambda>_.
     let npc = u32 (divRoundUp (s32 (seg_size (seg_code h))) PageSize);
         npd = u32 (divRoundUp (s32 (seg_size (seg_initData h) + seg_size (seg_uninitData h) + UserStackSize)) PageSize);
         np = u32 (npc + npd);
         npi = u32 (divRoundUp (seg_size (seg_initData h)) PageSize) in
     bindE (ASSERT (vm \<or> np \<le> NumPhysPages)) (\<lambda>_.
     bindE (forE 0 np (\<lambda>i (pt, mm).
         bindE (new_entry vm i (i < u32 (npc - 1)) mm) (\<lambda>(e, mm'). Inr (pt @ [e], mm'))) ([], mainMemoryMap)) (\<lambda>(pt, mm1).
     bindE (if vm then Inr mem
            else
              bindE (if seg_size (seg_code h) > 0 then forE 0 npc (load_page executable h pt) mem else Inr mem) (\<lambda>mem1.
              if seg_size (seg_initData h) > 0
              then forE (if seg_size (seg_code h) > 0 then npc else np) npi (load_page executable h pt) mem1
              else Inr mem1)) (\<lambda>mem2.
     Inr (\<lparr>pageTable = pt, numPages = np, numPagesCode = npc, numPagesInitData = npi, numPagesDataStack = npd,
           executableFilename = junkName\<rparr>, mm1, mem2))))))"

text \<open>The copy for a forked thread: everything but the stack is shared with the parent, unless \<open>VM\<close> is set.\<close>

definition copy_AddrSpace :: "bool \<Rightarrow> AddrSpace \<Rightarrow> BitMap \<Rightarrow> (AddrSpace \<times> BitMap) result" where
  "copy_AddrSpace vm other mainMemoryMap =
     (let np = numPages other; shared = u32 (np - UserStackSize div PageSize) in
      bindE (forE 0 shared (\<lambda>i pt.
          bindE (arr_get (pageTable other) i) (\<lambda>e.
          Inr (pt @ [\<lparr>virtualPage = virtualPage e, physicalPage = (if vm then - 1 else physicalPage e),
                te_valid = \<not> vm, readOnly = (i < u32 (numPagesCode other - 1)), te_use = False, te_dirty = False\<rparr>]))) []) (\<lambda>pt1.
      bindE (forE 0 (UserStackSize div PageSize) (\<lambda>k (pt, mm).
          bindE (new_entry vm (shared + k) False mm) (\<lambda>(e, mm'). Inr (pt @ [e], mm'))) (pt1, mainMemoryMap)) (\<lambda>(pt2, mm1).
      Inr (other\<lparr>pageTable := pt2\<rparr>, mm1))))"

text \<open>The destructor frees the frames of the stack only while the thread has children (\<open>usage > 1\<close>), else all.\<close>

definition delete_AddrSpace :: "int \<Rightarrow> AddrSpace \<Rightarrow> BitMap \<Rightarrow> BitMap result" where
  "delete_AddrSpace usage space mainMemoryMap =
     forE (if usage > 1 then u32 (numPages space - UserStackSize div PageSize) else 0) (numPages space) (\<lambda>page mm.
       bindE (arr_get (pageTable space) page) (\<lambda>e.
         if physicalPage e \<ge> 0 then
           bindE (Test mm (physicalPage e)) (\<lambda>t. if t then Clear mm (physicalPage e) else Inr mm)
         else Inr mm)) mainMemoryMap"

definition InitRegisters :: "AddrSpace \<Rightarrow> Machine \<Rightarrow> Machine result" where
  "InitRegisters space m =
     bindE (forE 0 NumTotalRegs (\<lambda>i. WriteRegister i 0) m) (\<lambda>m1.
     bindE (WriteRegister 34 0 m1) (\<lambda>m2.
     bindE (WriteRegister 35 4 m2) (\<lambda>m3.
     WriteRegister StackReg (word_of_int (numPages space * PageSize - 16)) m3)))"

text \<open>A context switch: the TLB is written back to the page table, and emptied for the next address space.\<close>

definition SaveState :: "bool \<Rightarrow> AddrSpace \<Rightarrow> Machine \<Rightarrow> AddrSpace result" where
  "SaveState vm space m =
     (if vm then
        bindE (deref (tlb m)) (\<lambda>ts.
        forE 0 4 (\<lambda>i sp.
          bindE (arr_get ts i) (\<lambda>t.
          bindE (arr_get (pageTable sp) (virtualPage t)) (\<lambda>e.
          bindE (arr_set (pageTable sp) (virtualPage t)
              (e\<lparr>physicalPage := physicalPage t, te_valid := te_valid t, te_use := te_use t, te_dirty := te_dirty t\<rparr>)) (\<lambda>pt.
          Inr (sp\<lparr>pageTable := pt\<rparr>))))) space)
      else Inr space)"

definition RestoreState :: "bool \<Rightarrow> AddrSpace \<Rightarrow> Machine \<Rightarrow> Machine result" where
  "RestoreState vm space m =
     (if vm then
        bindE (deref (tlb m)) (\<lambda>ts.
        bindE (forE 0 4 (\<lambda>i us.
            bindE (arr_get us i) (\<lambda>e.
            arr_set us i (e\<lparr>virtualPage := - 1, physicalPage := - 1, te_valid := False, te_use := False, te_dirty := False,
              readOnly := False\<rparr>))) ts) (\<lambda>us.
        Inr (m\<lparr>tlb := Some us, spaceTable := pageTable space\<rparr>)))
      else Inr (m\<lparr>spaceTable := pageTable space\<rparr>))"

section \<open>Frames of main memory\<close>

definition frame :: "bytes \<Rightarrow> int \<Rightarrow> bytes" where
  "frame mem f = take 128 (drop (nat f * 128) mem)"

lemma length_page: "length mem = 128 * n \<Longrightarrow> 0 \<le> f \<Longrightarrow> f < int n \<Longrightarrow> length (frame mem f) = 128"
  by (auto simp: frame_def)

lemma nth_page: "length mem = 128 * n \<Longrightarrow> 0 \<le> f \<Longrightarrow> f < int n \<Longrightarrow> k < 128 \<Longrightarrow> frame mem f ! k = mem ! (nat f * 128 + k)"
  by (auto simp: frame_def)

text \<open>Copying into one page leaves every other page alone.\<close>

lemma page_copy:
  assumes "length mem = 128 * n" "0 \<le> f" "f < int n" "length bs \<le> 128"
  obtains mem' where "bcopy bs mem (f * 128) = Inr mem'" "length mem' = length mem"
    "frame mem' f = bs @ drop (length bs) (frame mem f)" "\<And>g. 0 \<le> g \<Longrightarrow> g < int n \<Longrightarrow> g \<noteq> f \<Longrightarrow> frame mem' g = frame mem g"
proof -
  let ?p = "nat f * 128"
  have "nat f * 128 + 128 \<le> 128 * n" using assms(2,3) by auto
  then have p: "int ?p = f * 128" "?p + length bs \<le> length mem" using assms by simp_all
  from bcopy_ok [OF p(2)] obtain r where r: "bcopy bs mem (int ?p) = Inr r" "length r = length mem"
    "\<And>k. k < length mem \<Longrightarrow> r ! k = (if ?p \<le> k \<and> k < ?p + length bs then bs ! (k - ?p) else mem ! k)" by blast
  have rn: "length r = 128 * n" using r(2) assms(1) by simp
  have inside: "nat g * 128 + k < length mem" if "0 \<le> g" "g < int n" "k < 128" for g k
  proof -
    have "nat g + 1 \<le> n" using that by simp
    then have "(nat g + 1) * 128 \<le> n * 128" by (rule mult_le_mono1)
    then show ?thesis using that(3) assms(1) by simp
  qed
  have "frame r f = bs @ drop (length bs) (frame mem f)"
  proof (rule nth_equalityI)
    show "length (frame r f) = length (bs @ drop (length bs) (frame mem f))"
      using assms length_page [OF rn assms(2,3)] length_page [OF assms(1-3)] by simp
    fix k assume "k < length (frame r f)"
    then have "k < 128" using length_page [OF rn assms(2,3)] by simp
    then show "frame r f ! k = (bs @ drop (length bs) (frame mem f)) ! k"
      using r(3) [of "?p + k"] inside [OF assms(2,3)] nth_page [OF rn assms(2,3)] nth_page [OF assms(1-3)] length_page [OF assms(1-3)]
      by (auto simp: nth_append)
  qed
  moreover have "frame r g = frame mem g" if g: "0 \<le> g" "g < int n" "g \<noteq> f" for g
  proof (rule nth_equalityI)
    show "length (frame r g) = length (frame mem g)" using length_page [OF rn g(1,2)] length_page [OF assms(1) g(1,2)] by simp
    fix k assume "k < length (frame r g)"
    then have k: "k < 128" using length_page [OF rn g(1,2)] by simp
    have "nat f \<noteq> nat g" using g assms(2) by simp
    moreover have "c \<noteq> a \<Longrightarrow> a * 128 + k < c * 128 \<or> c * 128 + 128 \<le> a * 128 + k" for a c :: nat
      using k by (cases "a < c") auto
    ultimately have "nat g * 128 + k < ?p \<or> ?p + 128 \<le> nat g * 128 + k" by blast
    then show "frame r g ! k = frame mem g ! k"
      using assms(4) r(3) [of "nat g * 128 + k"] inside [OF g(1,2) k] nth_page [OF rn g(1,2) k] nth_page [OF assms(1) g(1,2) k] by auto
  qed
  ultimately show thesis using that r(1,2) p(1) by simp
qed

lemma length_frame: "length mem = 4096 \<Longrightarrow> 0 \<le> f \<Longrightarrow> f < 32 \<Longrightarrow> length (frame mem f) = 128"
  by (rule length_page [of _ 32]) simp_all

lemma frame_copy:
  assumes "length mem = 4096" "0 \<le> f" "f < 32" "length bs \<le> 128"
  obtains mem' where "bcopy bs mem (f * 128) = Inr mem'" "length mem' = 4096"
    "frame mem' f = bs @ drop (length bs) (frame mem f)" "\<And>g. 0 \<le> g \<Longrightarrow> g < 32 \<Longrightarrow> g \<noteq> f \<Longrightarrow> frame mem' g = frame mem g"
  using page_copy [of mem 32 f bs] assms by auto

section \<open>Making page tables\<close>

lemma new_entries:
  assumes "bm_inv mm" "int n \<le> numBits mm - int (card (bm_used mm))"
  shows "\<exists>pt mm'. forE 0 (int n) (\<lambda>k (pt, mm). bindE (new_entry False (b + k) (ro k) mm) (\<lambda>(e, mm'). Inr (pt @ [e], mm'))) (pt0, mm) = Inr (pt0 @ pt, mm') \<and>
           length pt = n \<and> (\<forall>k < n. virtualPage (pt ! k) = b + int k \<and> te_valid (pt ! k) \<and> readOnly (pt ! k) = ro (int k) \<and>
             \<not> te_use (pt ! k) \<and> \<not> te_dirty (pt ! k)) \<and>
           distinct (map physicalPage pt) \<and> set (map physicalPage pt) \<inter> bm_used mm = {} \<and> set (map physicalPage pt) \<subseteq> {0..<numBits mm} \<and>
           bm_inv mm' \<and> numBits mm' = numBits mm \<and> bm_used mm' = bm_used mm \<union> set (map physicalPage pt)"
proof -
  let ?f = "\<lambda>k (pt, mm). bindE (new_entry False (b + k) (ro k) mm) (\<lambda>(e, mm'). Inr (pt @ [e], mm'))"
  let ?P = "\<lambda>i (p, mm'). \<exists>pt. p = pt0 @ pt \<and> int (length pt) = i \<and>
      (\<forall>k < length pt. virtualPage (pt ! k) = b + int k \<and> te_valid (pt ! k) \<and> readOnly (pt ! k) = ro (int k) \<and>
         \<not> te_use (pt ! k) \<and> \<not> te_dirty (pt ! k)) \<and>
      distinct (map physicalPage pt) \<and> set (map physicalPage pt) \<inter> bm_used mm = {} \<and> set (map physicalPage pt) \<subseteq> {0..<numBits mm} \<and>
      bm_inv mm' \<and> numBits mm' = numBits mm \<and> bm_used mm' = bm_used mm \<union> set (map physicalPage pt)"
  have "\<exists>r. forE 0 (int n) ?f (pt0, mm) = Inr r \<and> ?P (int n) r"
  proof (rule forE_invariant [where P = ?P])
    fix i r assume i: "0 \<le> i" "i < int n" and "?P i r"
    then obtain pt mm1 where r: "r = (pt0 @ pt, mm1)" "int (length pt) = i"
      "\<forall>k < length pt. virtualPage (pt ! k) = b + int k \<and> te_valid (pt ! k) \<and> readOnly (pt ! k) = ro (int k) \<and>
         \<not> te_use (pt ! k) \<and> \<not> te_dirty (pt ! k)"
      "distinct (map physicalPage pt)" "set (map physicalPage pt) \<inter> bm_used mm = {}" "set (map physicalPage pt) \<subseteq> {0..<numBits mm}"
      "bm_inv mm1" "numBits mm1 = numBits mm" "bm_used mm1 = bm_used mm \<union> set (map physicalPage pt)" by auto
    have "card (bm_used mm1) = card (bm_used mm) + length pt"
      unfolding r(9) using r(4,5) by (subst card_Un_disjoint) (auto simp: distinct_card simp flip: set_map)
    then have "bm_used mm1 \<noteq> {0..<numBits mm1}" using assms(2) i r(2,8) by auto
    from Find_free [OF r(7) this] obtain k mm2 where k: "Find mm1 = Inr (k, mm2)" "0 \<le> k" "k < numBits mm" "k \<notin> bm_used mm1"
      "bm_inv mm2" "numBits mm2 = numBits mm" "bm_used mm2 = insert k (bm_used mm1)" using r(8) by auto
    let ?e = "\<lparr>virtualPage = b + i, physicalPage = k, te_valid = True, readOnly = ro i, te_use = False, te_dirty = False\<rparr>"
    have "?f i r = Inr (pt0 @ (pt @ [?e]), mm2)" using k(1) r(1) by (simp add: new_entry_def)
    moreover have "?P (i + 1) (pt0 @ (pt @ [?e]), mm2)"
      using r(2-6,9) k by (auto simp: nth_append less_Suc_eq)
    ultimately show "\<exists>t'. ?f i r = Inr t' \<and> ?P (i + 1) t'" by blast
  qed (use assms in auto)
  then show ?thesis by fastforce
qed

section \<open>Loading a program\<close>

text \<open>The part of the file that belongs to page \<open>i\<close>.\<close>

definition exe_page :: "bytes \<Rightarrow> NoffHeader \<Rightarrow> int \<Rightarrow> bytes" where
  "exe_page exe h i = take 128 (drop (nat (inFileAddr (seg_code h) + i * 128)) exe)"

definition exe_hdr :: "bytes \<Rightarrow> NoffHeader" where
  "exe_hdr exe = bytes_to_noff (take 40 exe)"

lemma u32_id: "0 \<le> x \<Longrightarrow> x < 2 ^ 32 \<Longrightarrow> u32 x = x"
  by (simp add: u32_def)

lemma s32_id: "- (2 ^ 31) \<le> x \<Longrightarrow> x < 2 ^ 31 \<Longrightarrow> s32 x = x"
  by (simp add: s32_def sint_in_range)

lemma read_noff_eq: "40 \<le> length exe \<Longrightarrow> length junk = 40 \<Longrightarrow> read_noff junk exe = Inr (exe_hdr exe)"
  by (simp add: read_noff_def stub_ReadAt_def bcopy_def exe_hdr_def)

lemma load_loop:
  assumes "length mem = 4096" "0 \<le> a" "a \<le> b" "b \<le> int (length pt)" "distinct (map physicalPage pt)"
    "set (map physicalPage pt) \<subseteq> {0..<32}" "0 \<le> inFileAddr (seg_code h)" "inFileAddr (seg_code h) + b * 128 < 2 ^ 31"
  shows "\<exists>mem'. forE a b (load_page exe h pt) mem = Inr mem' \<and> length mem' = 4096 \<and>
           (\<forall>i. a \<le> i \<and> i < b \<longrightarrow> frame mem' (physicalPage (pt ! nat i)) =
              exe_page exe h i @ drop (length (exe_page exe h i)) (frame mem (physicalPage (pt ! nat i)))) \<and>
           (\<forall>g. 0 \<le> g \<and> g < 32 \<and> (\<forall>i. a \<le> i \<and> i < b \<longrightarrow> physicalPage (pt ! nat i) \<noteq> g) \<longrightarrow> frame mem' g = frame mem g)"
proof -
  let ?p = "\<lambda>i. physicalPage (pt ! nat i)"
  let ?P = "\<lambda>j m. length m = 4096 \<and> (\<forall>i. a \<le> i \<and> i < j \<longrightarrow> frame m (?p i) = exe_page exe h i @ drop (length (exe_page exe h i)) (frame mem (?p i))) \<and>
           (\<forall>g. 0 \<le> g \<and> g < 32 \<and> (\<forall>i. a \<le> i \<and> i < j \<longrightarrow> ?p i \<noteq> g) \<longrightarrow> frame m g = frame mem g)"
  have fr: "0 \<le> ?p i \<and> ?p i < 32" if "0 \<le> i" "i < b" for i
  proof -
    have "nat i < length pt" using that assms(4) by simp
    then have "?p i \<in> set (map physicalPage pt)" by simp
    then show ?thesis using assms(6) by auto
  qed
  have inj: "i = j" if "0 \<le> i" "i < b" "0 \<le> j" "j < b" "?p i = ?p j" for i j
  proof -
    have "nat i < length pt" "nat j < length pt" using that assms(4) by simp_all
    then show ?thesis using that nth_eq_iff_index_eq [OF assms(5), of "nat i" "nat j"] by simp
  qed
  have "\<exists>r. forE a b (load_page exe h pt) mem = Inr r \<and> ?P b r"
  proof (rule forE_invariant [where P = ?P])
    fix i m assume i: "a \<le> i" "i < b" and P: "?P i m"
    have off: "s32 (inFileAddr (seg_code h) + i * 128) = inFileAddr (seg_code h) + i * 128"
      using i assms(2,7,8) by (intro s32_id) auto
    have l: "length (exe_page exe h i) \<le> 128" by (simp add: exe_page_def)
    have i0: "0 \<le> i" using i assms(2) by simp
    obtain m' where m': "bcopy (exe_page exe h i) m (?p i * 128) = Inr m'" "length m' = 4096"
      "frame m' (?p i) = exe_page exe h i @ drop (length (exe_page exe h i)) (frame m (?p i))"
      "\<And>g. 0 \<le> g \<Longrightarrow> g < 32 \<Longrightarrow> g \<noteq> ?p i \<Longrightarrow> frame m' g = frame m g"
      using frame_copy [OF _ _ _ l, of m "?p i"] P fr [OF i0 i(2)] by blast
    have "load_page exe h pt i m = Inr m'"
      using m'(1) i0 i(2) assms(4,7) off by (simp add: load_page_def stub_ReadAt_def exe_page_def)
    moreover have "\<forall>j. a \<le> j \<and> j < i \<longrightarrow> ?p j \<noteq> ?p i"
    proof (intro allI impI notI)
      fix j assume "a \<le> j \<and> j < i" "?p j = ?p i"
      then show False using inj [of j i] i0 i(2) assms(2) by simp
    qed
    then have "frame m (?p i) = frame mem (?p i)" using P fr [OF i0 i(2)] by blast
    then have "?P (i + 1) m'"
    proof (intro conjI allI impI)
      fix j assume j: "a \<le> j \<and> j < i + 1"
      show "frame m' (?p j) = exe_page exe h j @ drop (length (exe_page exe h j)) (frame mem (?p j))"
      proof (cases "j = i")
        case True
        then show ?thesis using m'(3) \<open>frame m (?p i) = frame mem (?p i)\<close> by simp
      next
        case False
        then have "j < i" "?p j \<noteq> ?p i" using j inj [of j i] i0 i(2) assms(2) by auto
        then show ?thesis using m'(4) [of "?p j"] fr [of j] P j i(2) assms(2) by auto
      qed
    next
      fix g assume g: "0 \<le> g \<and> g < 32 \<and> (\<forall>j. a \<le> j \<and> j < i + 1 \<longrightarrow> ?p j \<noteq> g)"
      then have "g \<noteq> ?p i" using i(1) by auto
      then show "frame m' g = frame mem g" using m'(4) [of g] P g by auto
    qed (rule m'(2))
    ultimately show "\<exists>t'. load_page exe h pt i m = Inr t' \<and> ?P (i + 1) t'" by blast
  qed (use assms in auto)
  then show ?thesis by blast
qed

text \<open>An executable that fits: the sizes in its header are not negative and the machine has enough free frames.\<close>

definition exe_pages :: "bytes \<Rightarrow> int" where
  "exe_pages exe = divRoundUp (seg_size (seg_code (exe_hdr exe))) 128 +
     divRoundUp (seg_size (seg_initData (exe_hdr exe)) + seg_size (seg_uninitData (exe_hdr exe)) + 1024) 128"

definition exe_ok :: "bytes \<Rightarrow> bool" where
  "exe_ok exe \<longleftrightarrow> 40 \<le> length exe \<and> noffMagic (exe_hdr exe) = 0xbadfad \<and>
     0 < seg_size (seg_code (exe_hdr exe)) \<and> 0 \<le> seg_size (seg_initData (exe_hdr exe)) \<and> 0 \<le> seg_size (seg_uninitData (exe_hdr exe)) \<and>
     0 \<le> inFileAddr (seg_code (exe_hdr exe)) \<and> inFileAddr (seg_code (exe_hdr exe)) < 2 ^ 30 \<and> exe_pages exe \<le> 32"

lemma exe_ok_sizes:
  assumes "exe_ok exe"
  defines "h \<equiv> exe_hdr exe"
  defines "c \<equiv> seg_size (seg_code h)" and "i \<equiv> seg_size (seg_initData h)" and "t \<equiv> seg_size (seg_initData h) + seg_size (seg_uninitData h) + 1024"
  shows "s32 c = c" "s32 t = t" "u32 (divRoundUp c 128) = divRoundUp c 128" "u32 (divRoundUp t 128) = divRoundUp t 128"
    "u32 (divRoundUp i 128) = divRoundUp i 128" "u32 (divRoundUp c 128 + divRoundUp t 128) = exe_pages exe"
    "u32 (divRoundUp c 128 - 1) = divRoundUp c 128 - 1"
    "1 \<le> divRoundUp c 128" "0 \<le> divRoundUp i 128" "divRoundUp i 128 + 8 \<le> divRoundUp t 128" "divRoundUp c 128 + divRoundUp t 128 = exe_pages exe"
proof -
  have nn: "0 < c" "0 \<le> i" "0 \<le> t" "i + 1024 \<le> t" using assms(1) by (simp_all add: exe_ok_def c_def i_def t_def h_def)
  have cb: "c \<le> divRoundUp c 128 * 128" "t \<le> divRoundUp t 128 * 128" using nn by (auto intro!: divRoundUp_bounds)
  have ib: "divRoundUp i 128 + 8 \<le> divRoundUp t 128"
    using nn by (simp add: divRoundUp_nonneg)
  show e: "divRoundUp c 128 + divRoundUp t 128 = exe_pages exe" by (simp add: exe_pages_def c_def t_def h_def)
  have le: "exe_pages exe \<le> 32" using assms(1) by (simp add: exe_ok_def)
  show c1: "1 \<le> divRoundUp c 128" using cb nn by simp
  show i0: "0 \<le> divRoundUp i 128" using nn by (intro divRoundUp_ge0) auto
  have b: "c < 2 ^ 31" "t < 2 ^ 31" using cb e le ib c1 i0 by auto
  then show "s32 c = c" "s32 t = t" using nn by (auto intro!: s32_id)
  show "divRoundUp i 128 + 8 \<le> divRoundUp t 128" by (rule ib)
  show "u32 (divRoundUp c 128) = divRoundUp c 128" "u32 (divRoundUp t 128) = divRoundUp t 128" "u32 (divRoundUp i 128) = divRoundUp i 128"
    "u32 (divRoundUp c 128 + divRoundUp t 128) = exe_pages exe" "u32 (divRoundUp c 128 - 1) = divRoundUp c 128 - 1"
    using e le ib c1 i0 by (auto intro!: u32_id)
qed

lemma new_AddrSpace_eq:
  fixes exe :: bytes
  assumes exe: "exe_ok exe" and j: "length junk = 40" and mem: "length mem = 4096"
    and mm: "bm_inv mm" "numBits mm = 32" "exe_pages exe \<le> 32 - int (card (bm_used mm))"
  defines "h \<equiv> exe_hdr exe"
  defines "npc \<equiv> divRoundUp (seg_size (seg_code h)) 128" and "npi \<equiv> divRoundUp (seg_size (seg_initData h)) 128"
  shows "\<exists>space mm' mem'. new_AddrSpace False junk nm exe mm mem = Inr (space, mm', mem') \<and> numPages space = exe_pages exe \<and>
           int (length (pageTable space)) = exe_pages exe \<and> numPagesCode space = npc \<and> numPagesInitData space = npi \<and> length mem' = 4096 \<and>
           (\<forall>k < length (pageTable space). virtualPage (pageTable space ! k) = int k \<and> te_valid (pageTable space ! k) \<and>
              (readOnly (pageTable space ! k) \<longleftrightarrow> int k < npc - 1)) \<and>
           distinct (map physicalPage (pageTable space)) \<and> set (map physicalPage (pageTable space)) \<inter> bm_used mm = {} \<and>
           set (map physicalPage (pageTable space)) \<subseteq> {0..<32} \<and>
           bm_inv mm' \<and> numBits mm' = 32 \<and> bm_used mm' = bm_used mm \<union> set (map physicalPage (pageTable space)) \<and>
           (\<forall>i. 0 \<le> i \<and> i < max npc npi \<longrightarrow> frame mem' (physicalPage (pageTable space ! nat i)) =
              exe_page exe h i @ drop (length (exe_page exe h i)) (frame mem (physicalPage (pageTable space ! nat i)))) \<and>
           (\<forall>g. 0 \<le> g \<and> g < 32 \<and> (\<forall>i. 0 \<le> i \<and> i < max npc npi \<longrightarrow> physicalPage (pageTable space ! nat i) \<noteq> g) \<longrightarrow> frame mem' g = frame mem g)"
proof -
  note sz = exe_ok_sizes [OF exe, folded h_def, folded npc_def npi_def]
  let ?np = "exe_pages exe" and ?npd = "divRoundUp (seg_size (seg_initData h) + seg_size (seg_uninitData h) + 1024) 128"
  have ok: "noffMagic h = 0xbadfad" "0 < seg_size (seg_code h)" "0 \<le> seg_size (seg_initData h)" "0 \<le> inFileAddr (seg_code h)"
    "inFileAddr (seg_code h) < 2 ^ 30" "?np \<le> 32" "40 \<le> length exe" using exe by (simp_all add: exe_ok_def h_def)
  obtain n where n: "?np = int n" using sz(8-11) nonneg_int_cases [of ?np] by auto
  have "int n \<le> numBits mm - int (card (bm_used mm))" using mm n by simp
  from new_entries [OF mm(1) this, of 0 "\<lambda>k. k < npc - 1" "[]"] mm(2) obtain pt mm' where
    pt: "forE 0 (int n) (\<lambda>k (pt, mm). bindE (new_entry False k (k < npc - 1) mm) (\<lambda>(e, mm'). Inr (pt @ [e], mm'))) ([], mm) = Inr (pt, mm')"
      "length pt = n" "\<forall>k < n. virtualPage (pt ! k) = int k \<and> te_valid (pt ! k) \<and> readOnly (pt ! k) = (int k < npc - 1)"
      "distinct (map physicalPage pt)" "set (map physicalPage pt) \<inter> bm_used mm = {}" "set (map physicalPage pt) \<subseteq> {0..<32}"
      "bm_inv mm'" "numBits mm' = 32" "bm_used mm' = bm_used mm \<union> set (map physicalPage pt)" by auto
  have b: "npc \<le> int (length pt)" "npi \<le> int (length pt)" "inFileAddr (seg_code h) + npc * 128 < 2 ^ 31" "inFileAddr (seg_code h) + npi * 128 < 2 ^ 31"
    "0 \<le> npc" "0 \<le> npi" using sz(8-11) ok(4,5,6) pt(2) n by auto
  obtain mem1 where m1: "forE 0 npc (load_page exe h pt) mem = Inr mem1" "length mem1 = 4096"
    "\<forall>i. 0 \<le> i \<and> i < npc \<longrightarrow> frame mem1 (physicalPage (pt ! nat i)) = exe_page exe h i @ drop (length (exe_page exe h i)) (frame mem (physicalPage (pt ! nat i)))"
    "\<forall>g. 0 \<le> g \<and> g < 32 \<and> (\<forall>i. 0 \<le> i \<and> i < npc \<longrightarrow> physicalPage (pt ! nat i) \<noteq> g) \<longrightarrow> frame mem1 g = frame mem g"
    using load_loop [OF mem order_refl b(5,1) pt(4,6) ok(4) b(3)] by blast
  let ?r = "if seg_size (seg_initData h) > 0 then forE npc npi (load_page exe h pt) mem1 else Inr mem1"
  have npi0: "npi = 0" if "\<not> seg_size (seg_initData h) > 0" using that ok(3) by (simp add: npi_def divRoundUp_def)
  have "\<exists>mem2. ?r = Inr mem2 \<and> length mem2 = 4096 \<and>
      (\<forall>i. 0 \<le> i \<and> i < max npc npi \<longrightarrow> frame mem2 (physicalPage (pt ! nat i)) =
         exe_page exe h i @ drop (length (exe_page exe h i)) (frame mem (physicalPage (pt ! nat i)))) \<and>
      (\<forall>g. 0 \<le> g \<and> g < 32 \<and> (\<forall>i. 0 \<le> i \<and> i < max npc npi \<longrightarrow> physicalPage (pt ! nat i) \<noteq> g) \<longrightarrow> frame mem2 g = frame mem g)"
  proof (cases "npi \<le> npc")
    case True
    then have "?r = Inr mem1" by simp
    then show ?thesis using m1 True by (simp add: max_def)
  next
    case False
    then have pos: "seg_size (seg_initData h) > 0" using npi0 b(5) by linarith
    obtain mem2 where whole: "forE 0 npi (load_page exe h pt) mem = Inr mem2" "length mem2 = 4096"
      "\<forall>i. 0 \<le> i \<and> i < npi \<longrightarrow> frame mem2 (physicalPage (pt ! nat i)) = exe_page exe h i @ drop (length (exe_page exe h i)) (frame mem (physicalPage (pt ! nat i)))"
      "\<forall>g. 0 \<le> g \<and> g < 32 \<and> (\<forall>i. 0 \<le> i \<and> i < npi \<longrightarrow> physicalPage (pt ! nat i) \<noteq> g) \<longrightarrow> frame mem2 g = frame mem g"
      using load_loop [OF mem order_refl b(6,2) pt(4,6) ok(4) b(4)] by blast
    have "forE 0 npi (load_page exe h pt) mem = bindE (forE 0 npc (load_page exe h pt) mem) (forE npc npi (load_page exe h pt))"
      using b(5) False by (intro forE_split) auto
    then have "?r = Inr mem2" using whole(1) m1(1) pos by simp
    then show ?thesis using whole False by (simp add: max_def)
  qed
  then obtain mem2 where m2: "?r = Inr mem2" "length mem2 = 4096"
    "\<forall>i. 0 \<le> i \<and> i < max npc npi \<longrightarrow> frame mem2 (physicalPage (pt ! nat i)) =
         exe_page exe h i @ drop (length (exe_page exe h i)) (frame mem (physicalPage (pt ! nat i)))"
    "\<forall>g. 0 \<le> g \<and> g < 32 \<and> (\<forall>i. 0 \<le> i \<and> i < max npc npi \<longrightarrow> physicalPage (pt ! nat i) \<noteq> g) \<longrightarrow> frame mem2 g = frame mem g" by blast
  let ?s = "\<lparr>pageTable = pt, numPages = ?np, numPagesCode = npc, numPagesInitData = npi, numPagesDataStack = ?npd, executableFilename = nm\<rparr>"
  have "new_AddrSpace False junk nm exe mm mem = Inr (?s, mm', mem2)"
    unfolding new_AddrSpace_def read_noff_eq [OF ok(7) j] h_def [symmetric] bindE_Inr Let_def
    using ok(1,2,6) sz(1-7) pt(1) m1(1) m2(1) n
    by (cases "0 < seg_size (seg_initData h)") (simp_all add: WordToHost_def npc_def npi_def)
  then show ?thesis using n pt(2-9) m2(2-4)
    by (intro exI [of _ ?s] exI [of _ mm'] exI [of _ mem2]) (simp add: less_imp_le)
qed

text \<open>The address space of a loaded program (without virtual memory).\<close>

definition space_wf :: "AddrSpace \<Rightarrow> BitMap \<Rightarrow> bool" where
  "space_wf sp mm \<longleftrightarrow> numPages sp = int (length (pageTable sp)) \<and> 8 \<le> numPages sp \<and> numPages sp \<le> 32 \<and>
     distinct (map physicalPage (pageTable sp)) \<and> set (map physicalPage (pageTable sp)) \<subseteq> bm_used mm"

lemma new_AddrSpace_wf:
  assumes "exe_ok exe" "length junk = 40" "length mem = 4096" "bm_inv mm" "numBits mm = 32" "exe_pages exe \<le> 32 - int (card (bm_used mm))"
  shows "\<exists>sp mm' mem'. new_AddrSpace False junk nm exe mm mem = Inr (sp, mm', mem') \<and> space_wf sp mm' \<and> numPages sp = exe_pages exe \<and>
           bm_inv mm' \<and> numBits mm' = 32 \<and> int (card (bm_used mm')) = int (card (bm_used mm)) + exe_pages exe"
proof -
  obtain sp mm' mem' where N: "new_AddrSpace False junk nm exe mm mem = Inr (sp, mm', mem')" "numPages sp = exe_pages exe"
    "int (length (pageTable sp)) = exe_pages exe" "distinct (map physicalPage (pageTable sp))"
    "set (map physicalPage (pageTable sp)) \<inter> bm_used mm = {}" "bm_inv mm'" "numBits mm' = 32"
    "bm_used mm' = bm_used mm \<union> set (map physicalPage (pageTable sp))"
    using new_AddrSpace_eq [OF assms, of nm] by (elim exE conjE) (rule that)
  have "card (bm_used mm') = card (bm_used mm) + length (pageTable sp)"
    unfolding N(8) using N(5) distinct_card [OF N(4)] by (subst card_Un_disjoint) auto
  moreover have "space_wf sp mm'" using N exe_ok_sizes(8-11) [OF assms(1)] assms(1) by (auto simp: space_wf_def exe_ok_def)
  ultimately show ?thesis using N by auto
qed

section \<open>Sharing and freeing frames\<close>

lemma shared_entries:
  assumes "int n \<le> int (length (pageTable other))"
  shows "forE 0 (int n) (\<lambda>i pt. bindE (arr_get (pageTable other) i) (\<lambda>e.
          Inr (pt @ [\<lparr>virtualPage = virtualPage e, physicalPage = g e, te_valid = v, readOnly = ro i, te_use = False, te_dirty = False\<rparr>]))) [] =
         Inr (map (\<lambda>i. \<lparr>virtualPage = virtualPage (pageTable other ! i), physicalPage = g (pageTable other ! i), te_valid = v,
              readOnly = ro (int i), te_use = False, te_dirty = False\<rparr>) [0..<n])"
proof -
  let ?f = "\<lambda>i pt. bindE (arr_get (pageTable other) i) (\<lambda>e.
          Inr (pt @ [\<lparr>virtualPage = virtualPage e, physicalPage = g e, te_valid = v, readOnly = ro i, te_use = False, te_dirty = False\<rparr>]))"
  let ?e = "\<lambda>i. \<lparr>virtualPage = virtualPage (pageTable other ! i), physicalPage = g (pageTable other ! i), te_valid = v,
              readOnly = ro (int i), te_use = False, te_dirty = False\<rparr>"
  have "\<exists>r. forE 0 (int n) ?f [] = Inr r \<and> r = map ?e [0..<nat (int n)]"
  proof (rule forE_invariant [where P = "\<lambda>i r. r = map ?e [0..<nat i]"])
    fix i r assume i: "0 \<le> i" "i < int n" and r: "r = map ?e [0..<nat i]"
    obtain k where k: "i = int k" using i(1) nonneg_int_cases by blast
    then have "?f i r = Inr (r @ [?e k])" using i assms by simp
    then show "\<exists>t'. ?f i r = Inr t' \<and> t' = map ?e [0..<nat (i + 1)]" using r k by (simp add: nat_add_distrib)
  qed simp_all
  then show ?thesis by simp
qed

lemma free_loop:
  assumes "bm_inv mm" "0 \<le> a" "a \<le> b" "b \<le> int (length pt)" "\<forall>i. a \<le> i \<and> i < b \<longrightarrow> physicalPage (pt ! nat i) < numBits mm"
  shows "\<exists>mm'. forE a b (\<lambda>page mm. bindE (arr_get pt page) (\<lambda>e. if physicalPage e \<ge> 0 then
             bindE (Test mm (physicalPage e)) (\<lambda>t. if t then Clear mm (physicalPage e) else Inr mm) else Inr mm)) mm = Inr mm' \<and>
           bm_inv mm' \<and> numBits mm' = numBits mm \<and> bm_used mm' = bm_used mm - (\<lambda>i. physicalPage (pt ! nat i)) ` {a..<b}"
proof -
  let ?p = "\<lambda>i. physicalPage (pt ! nat i)"
  let ?f = "\<lambda>page mm. bindE (arr_get pt page) (\<lambda>e. if physicalPage e \<ge> 0 then
             bindE (Test mm (physicalPage e)) (\<lambda>t. if t then Clear mm (physicalPage e) else Inr mm) else Inr mm)"
  let ?P = "\<lambda>j mm'. bm_inv mm' \<and> numBits mm' = numBits mm \<and> bm_used mm' = bm_used mm - ?p ` {a..<j}"
  have "\<exists>r. forE a b ?f mm = Inr r \<and> ?P b r"
  proof (rule forE_invariant [where P = ?P])
    fix i m assume i: "a \<le> i" "i < b" and P: "?P i m"
    have get: "arr_get pt i = Inr (pt ! nat i)" using i assms(2,4) by simp
    have set: "?p ` {a..<i + 1} = insert (?p i) (?p ` {a..<i})"
    proof -
      have "{a..<i + 1} = insert i {a..<i}" using i(1) by auto
      then show ?thesis by simp
    qed
    show "\<exists>t'. ?f i m = Inr t' \<and> ?P (i + 1) t'"
    proof (cases "0 \<le> ?p i \<and> ?p i \<in> bm_used m")
      case True
      have lt: "?p i < numBits m" using P assms(5) i by simp
      from Clear_eq [OF _ _ lt] P True obtain m' where m': "Clear m (?p i) = Inr m'" "bm_inv m'" "numBits m' = numBits m" "bm_used m' = bm_used m - {?p i}"
        by blast
      have "?f i m = Inr m'" using get m'(1) Test_eq [OF _ _ lt] P True by simp
      then show ?thesis using m' P unfolding set by auto
    next
      case False
      have "?f i m = Inr m"
        using get False Test_eq [of m "?p i"] P assms(5) i by (cases "0 \<le> ?p i") auto
      moreover have "?p i \<notin> bm_used m" using False by (auto simp: bm_used_def)
      ultimately show ?thesis using P unfolding set by auto
    qed
  qed (use assms in auto)
  then show ?thesis by blast
qed

text \<open>The frames of the pages below the stack.\<close>

definition program_frames :: "AddrSpace \<Rightarrow> int set" where
  "program_frames sp = (\<lambda>i. physicalPage (pageTable sp ! nat i)) ` {0..<numPages sp - 8}"

lemma copy_AddrSpace_eq:
  assumes wf: "space_wf sp mm" and mm: "bm_inv mm" "numBits mm = 32" "8 \<le> 32 - int (card (bm_used mm))"
  obtains child mm' st where "copy_AddrSpace False sp mm = Inr (child, mm')" "numPages child = numPages sp"
    "int (length (pageTable child)) = numPages sp" "program_frames child = program_frames sp"
    "(\<lambda>i. physicalPage (pageTable child ! nat i)) ` {numPages sp - 8..<numPages sp} = st"
    "st \<inter> bm_used mm = {}" "st \<subseteq> {0..<32}" "card st = 8" "bm_inv mm'" "numBits mm' = 32" "bm_used mm' = bm_used mm \<union> st"
proof -
  let ?n = "length (pageTable sp) - 8"
  have len: "length (pageTable sp) = ?n + 8" using wf by (simp add: space_wf_def)
  have np: "numPages sp = int ?n + 8" "u32 (numPages sp - 8) = int ?n" using wf by (simp_all add: space_wf_def u32_def)
  let ?pt1 = "map (\<lambda>i. \<lparr>virtualPage = virtualPage (pageTable sp ! i), physicalPage = physicalPage (pageTable sp ! i), te_valid = True,
      readOnly = int i < u32 (numPagesCode sp - 1), te_use = False, te_dirty = False\<rparr>) [0..<?n]"
  have "int 8 \<le> numBits mm - int (card (bm_used mm))" using mm by simp
  from new_entries [OF mm(1) this, of "int ?n" "\<lambda>_. False" ?pt1] mm(2) obtain es mm' where
    es: "forE 0 8 (\<lambda>k (pt, mm). bindE (new_entry False (int ?n + k) False mm) (\<lambda>(e, mm'). Inr (pt @ [e], mm'))) (?pt1, mm) = Inr (?pt1 @ es, mm')"
      "length es = 8" "distinct (map physicalPage es)" "set (map physicalPage es) \<inter> bm_used mm = {}" "set (map physicalPage es) \<subseteq> {0..<32}"
      "bm_inv mm'" "numBits mm' = 32" "bm_used mm' = bm_used mm \<union> set (map physicalPage es)" by auto
  let ?c = "sp\<lparr>pageTable := ?pt1 @ es\<rparr>"
  have sh: "int ?n \<le> int (length (pageTable sp))" by simp
  have C: "copy_AddrSpace False sp mm = Inr (?c, mm')"
    using shared_entries [OF sh, of physicalPage True "\<lambda>i. i < u32 (numPagesCode sp - 1)"] es(1) np(2)
    by (simp add: copy_AddrSpace_def Let_def)
  have low: "physicalPage ((?pt1 @ es) ! nat i) = physicalPage (pageTable sp ! nat i)" if "0 \<le> i" "i < int ?n" for i
  proof -
    have "nat i < ?n" using that by simp
    then show ?thesis by (simp add: nth_append)
  qed
  have "(\<lambda>i. physicalPage ((?pt1 @ es) ! nat i)) ` {int ?n..<int ?n + 8} = set (map physicalPage es)"
  proof -
    have "{int ?n..<int ?n + 8} = (\<lambda>k. int ?n + int k) ` {0..<8}" unfolding image_add_atLeastLessThan [symmetric]
      by (auto simp: image_iff) (metis atLeastLessThan_iff zle_iff_zadd of_nat_less_iff add_less_cancel_left of_nat_numeral zero_le)
    moreover have "physicalPage ((?pt1 @ es) ! nat (int ?n + int k)) = physicalPage (es ! k)" for k
      by (simp add: nth_append nat_add_distrib)
    moreover have "set (map physicalPage es) = (\<lambda>k. physicalPage (es ! k)) ` {0..<8}" 
    proof -
      have "set es = (!) es ` {0..<8}" using nth_image [of 8 es] es(2) by simp
      then show ?thesis by (simp add: image_image)
    qed
    ultimately show ?thesis by (simp add: image_image)
  qed
  moreover have "program_frames ?c = program_frames sp"
    unfolding program_frames_def using np(1) by (intro image_cong) (simp_all add: low)
  moreover have "card (set (map physicalPage es)) = 8" using distinct_card [OF es(3)] es(2) by simp
  ultimately show thesis using that [OF C, of "set (map physicalPage es)"] es(2,4-8) np(1) len by simp
qed

section \<open>Properties\<close>

text \<open>
  (C23) Loading a program: every page of the address space gets its own frame, which was free and is now marked; the pages are
  valid, page \<open>i\<close> is virtual page \<open>i\<close>, and all code pages but the last are read-only; each code page holds its part of the
  executable; the frames of other programs keep their contents.
\<close>

theorem new_AddrSpace_loads_program:
  assumes "exe_ok exe" "length junk = 40" "length mem = 4096" "bm_inv mm" "numBits mm = 32" "exe_pages exe \<le> 32 - int (card (bm_used mm))"
  shows "\<exists>sp mm' mem'. new_AddrSpace False junk nm exe mm mem = Inr (sp, mm', mem') \<and> space_wf sp mm' \<and> numPages sp = exe_pages exe \<and>
           set (map physicalPage (pageTable sp)) \<inter> bm_used mm = {} \<and> bm_used mm' = bm_used mm \<union> set (map physicalPage (pageTable sp)) \<and>
           (\<forall>k < length (pageTable sp). virtualPage (pageTable sp ! k) = int k \<and> te_valid (pageTable sp ! k) \<and>
              (readOnly (pageTable sp ! k) \<longleftrightarrow> int k < numPagesCode sp - 1)) \<and>
           (\<forall>i. 0 \<le> i \<and> i < numPagesCode sp \<longrightarrow> take (length (exe_page exe (exe_hdr exe) i)) (frame mem' (physicalPage (pageTable sp ! nat i))) =
              exe_page exe (exe_hdr exe) i) \<and>
           (\<forall>g \<in> bm_used mm. frame mem' g = frame mem g)"
proof -
  let ?h = "exe_hdr exe"
  let ?npc = "divRoundUp (seg_size (seg_code ?h)) 128" and ?npi = "divRoundUp (seg_size (seg_initData ?h)) 128"
  from new_AddrSpace_eq [OF assms, of nm] obtain sp mm' mem' where
    N: "new_AddrSpace False junk nm exe mm mem = Inr (sp, mm', mem')" "numPages sp = exe_pages exe" "int (length (pageTable sp)) = exe_pages exe"
      "numPagesCode sp = ?npc" "\<forall>k < length (pageTable sp). virtualPage (pageTable sp ! k) = int k \<and> te_valid (pageTable sp ! k) \<and>
              (readOnly (pageTable sp ! k) \<longleftrightarrow> int k < ?npc - 1)" "distinct (map physicalPage (pageTable sp))"
      "set (map physicalPage (pageTable sp)) \<inter> bm_used mm = {}" "bm_used mm' = bm_used mm \<union> set (map physicalPage (pageTable sp))"
    and L: "\<forall>i. 0 \<le> i \<and> i < max ?npc ?npi \<longrightarrow> frame mem' (physicalPage (pageTable sp ! nat i)) =
              exe_page exe ?h i @ drop (length (exe_page exe ?h i)) (frame mem (physicalPage (pageTable sp ! nat i)))"
    and O: "\<forall>g. 0 \<le> g \<and> g < 32 \<and> (\<forall>i. 0 \<le> i \<and> i < max ?npc ?npi \<longrightarrow> physicalPage (pageTable sp ! nat i) \<noteq> g) \<longrightarrow> frame mem' g = frame mem g"
    by blast
  note sz = exe_ok_sizes(8-11) [OF assms(1)]
  have "frame mem' g = frame mem g" if g: "g \<in> bm_used mm" for g
  proof -
    have "physicalPage (pageTable sp ! nat i) \<noteq> g" if "0 \<le> i" "i < max ?npc ?npi" for i
    proof -
      have "nat i < length (pageTable sp)" using that sz N(3) by (auto simp: max_def split: if_splits)
      then have "physicalPage (pageTable sp ! nat i) \<in> set (map physicalPage (pageTable sp))" by simp
      then show ?thesis using N(7) g by blast
    qed
    moreover have "0 \<le> g" "g < 32" using g assms(5) by (auto simp: bm_used_def)
    ultimately show ?thesis using O by blast
  qed
  moreover have "space_wf sp mm'" using N(2,3,6,8) sz assms(1) by (auto simp: space_wf_def exe_ok_def)
  moreover have "\<forall>i. 0 \<le> i \<and> i < ?npc \<longrightarrow> take (length (exe_page exe ?h i)) (frame mem' (physicalPage (pageTable sp ! nat i))) = exe_page exe ?h i"
  proof (intro allI impI)
    fix i assume "0 \<le> i \<and> i < ?npc"
    then have "0 \<le> i \<and> i < max ?npc ?npi" by (simp add: less_max_iff_disj)
    from L [rule_format, OF this] show "take (length (exe_page exe ?h i)) (frame mem' (physicalPage (pageTable sp ! nat i))) = exe_page exe ?h i" by simp
  qed
  ultimately show ?thesis using N by (intro exI [of _ sp] exI [of _ mm'] exI [of _ mem']) simp
qed

text \<open>A program of one code page and one page of initialised data: header, 128 bytes of code, 128 bytes of data.\<close>

definition sample_exe :: bytes where
  "sample_exe = words_to_bytes [0xbadfad, 0, 40, 128, 128, 168, 128, 0, 0, 0] @ replicate 128 7 @ replicate 128 9"

lemma sample_hdr:
  "exe_hdr sample_exe = \<lparr>noffMagic = 0xbadfad, seg_code = \<lparr>virtualAddr = 0, inFileAddr = 40, seg_size = 128\<rparr>,
     seg_initData = \<lparr>virtualAddr = 128, inFileAddr = 168, seg_size = 128\<rparr>, seg_uninitData = \<lparr>virtualAddr = 0, inFileAddr = 0, seg_size = 0\<rparr>\<rparr>"
  by (simp add: exe_hdr_def sample_exe_def bytes_to_noff_def Let_def)

lemma sample_exe_ok: "exe_ok sample_exe" "exe_pages sample_exe = 10"
  by (simp_all add: exe_ok_def exe_pages_def sample_hdr divRoundUp_nonneg) (simp add: sample_exe_def)

theorem new_AddrSpace_loads_program_witness:
  "\<exists>mm sp mm' mem'. new_BitMap (\<lambda>_. 5) 32 = Inr mm \<and>
     new_AddrSpace False (replicate 40 0) [] sample_exe mm (replicate 4096 1) = Inr (sp, mm', mem') \<and> numPages sp = 10"
proof -
  obtain mm where mm: "new_BitMap (\<lambda>_. 5) 32 = Inr mm" "bm_inv mm" "numBits mm = 32" "bm_used mm = {}" using new_BitMap_eq [of 32 "\<lambda>_. 5"] by auto
  then show ?thesis
    using new_AddrSpace_loads_program [OF sample_exe_ok(1), of "replicate 40 0" "replicate 4096 1" mm "[]"] sample_exe_ok(2) by auto
qed

text \<open>
  Initialised data is not loaded: the loop over the data pages starts behind the code pages but ends at the number of data pages, so
  whenever a program has no more data pages than code pages every frame behind the code keeps what it held before.
\<close>

theorem init_data_not_loaded:
  assumes "exe_ok exe" "length junk = 40" "length mem = 4096" "bm_inv mm" "numBits mm = 32" "exe_pages exe \<le> 32 - int (card (bm_used mm))"
    and "divRoundUp (seg_size (seg_initData (exe_hdr exe))) 128 \<le> divRoundUp (seg_size (seg_code (exe_hdr exe))) 128"
  shows "\<exists>sp mm' mem'. new_AddrSpace False junk nm exe mm mem = Inr (sp, mm', mem') \<and>
           (\<forall>i. numPagesCode sp \<le> i \<and> i < numPages sp \<longrightarrow>
              frame mem' (physicalPage (pageTable sp ! nat i)) = frame mem (physicalPage (pageTable sp ! nat i)))"
proof -
  let ?h = "exe_hdr exe"
  let ?npc = "divRoundUp (seg_size (seg_code ?h)) 128" and ?npi = "divRoundUp (seg_size (seg_initData ?h)) 128"
  from new_AddrSpace_eq [OF assms(1-6), of nm] obtain sp mm' mem' where
    N: "new_AddrSpace False junk nm exe mm mem = Inr (sp, mm', mem')" "numPages sp = exe_pages exe" "int (length (pageTable sp)) = exe_pages exe"
      "numPagesCode sp = ?npc" "distinct (map physicalPage (pageTable sp))" "set (map physicalPage (pageTable sp)) \<subseteq> {0..<32}"
    and O: "\<forall>g. 0 \<le> g \<and> g < 32 \<and> (\<forall>i. 0 \<le> i \<and> i < max ?npc ?npi \<longrightarrow> physicalPage (pageTable sp ! nat i) \<noteq> g) \<longrightarrow> frame mem' g = frame mem g"
    by blast
  note sz = exe_ok_sizes(8-11) [OF assms(1)]
  have "frame mem' (physicalPage (pageTable sp ! nat i)) = frame mem (physicalPage (pageTable sp ! nat i))" if i: "?npc \<le> i" "i < exe_pages exe" for i
  proof -
    have il: "nat i < length (pageTable sp)" "0 \<le> i" using i N(3) sz by simp_all
    then have "physicalPage (pageTable sp ! nat i) \<in> set (map physicalPage (pageTable sp))" by simp
    moreover have "physicalPage (pageTable sp ! nat j) \<noteq> physicalPage (pageTable sp ! nat i)" if j: "0 \<le> j" "j < max ?npc ?npi" for j
    proof -
      have "j < ?npc" using j assms(7) by (simp add: max_def split: if_splits)
      then have "nat j < length (pageTable sp)" "nat j \<noteq> nat i" using j i il by auto
      then show ?thesis using nth_eq_iff_index_eq [OF N(5), of "nat j" "nat i"] il by simp
    qed
    ultimately show ?thesis using O N(6) by auto
  qed
  then show ?thesis using N(1,2,4) by auto
qed

theorem init_data_not_loaded_witness:
  "\<exists>mm sp mm' mem'. new_BitMap (\<lambda>_. 5) 32 = Inr mm \<and>
     new_AddrSpace False (replicate 40 0) [] sample_exe mm (replicate 4096 1) = Inr (sp, mm', mem') \<and>
     (\<forall>i. numPagesCode sp \<le> i \<and> i < numPages sp \<longrightarrow> frame mem' (physicalPage (pageTable sp ! nat i)) =
        frame (replicate 4096 1) (physicalPage (pageTable sp ! nat i)))"
proof -
  obtain mm where mm: "new_BitMap (\<lambda>_. 5) 32 = Inr mm" "bm_inv mm" "numBits mm = 32" "bm_used mm = {}" using new_BitMap_eq [of 32 "\<lambda>_. 5"] by auto
  then show ?thesis
    using init_data_not_loaded [OF sample_exe_ok(1), of "replicate 40 0" "replicate 4096 1" mm "[]"] sample_exe_ok(2) by (simp add: sample_hdr)
qed

text \<open>
  A forked thread shares the frames of its parent below the stack and gets eight fresh frames for its own stack. When its address space is
  deleted while the running thread still counts children (\<open>usage > 1\<close>), exactly its stack is freed. But when that count has dropped to
  one, as after the exit of an only child, the frames of the parent's program are marked free although the parent still uses them.
\<close>

theorem child_exit_frees_parent_frames:
  assumes "space_wf sp mm" "bm_inv mm" "numBits mm = 32" "card (bm_used mm) \<le> 24"
  shows "\<exists>child mm1 mm2 mm3. copy_AddrSpace False sp mm = Inr (child, mm1) \<and> program_frames child = program_frames sp \<and>
           delete_AddrSpace 2 child mm1 = Inr mm2 \<and> bm_used mm2 = bm_used mm \<and>
           delete_AddrSpace 1 child mm1 = Inr mm3 \<and> bm_used mm3 = bm_used mm - program_frames sp"
proof -
  have "8 \<le> 32 - int (card (bm_used mm))" using assms(4) by simp
  then obtain child mm1 st where
    c: "copy_AddrSpace False sp mm = Inr (child, mm1)" "numPages child = numPages sp" "int (length (pageTable child)) = numPages sp"
      "program_frames child = program_frames sp" "(\<lambda>i. physicalPage (pageTable child ! nat i)) ` {numPages sp - 8..<numPages sp} = st"
      "st \<inter> bm_used mm = {}" "st \<subseteq> {0..<32}" "card st = 8" "bm_inv mm1" "numBits mm1 = 32" "bm_used mm1 = bm_used mm \<union> st"
    by (rule copy_AddrSpace_eq [OF assms(1-3)])
  have np: "8 \<le> numPages sp" "numPages sp \<le> 32" using assms(1) by (simp_all add: space_wf_def)
  let ?p = "\<lambda>i. physicalPage (pageTable child ! nat i)"
  have "{0..<numPages sp} = {0..<numPages sp - 8} \<union> {numPages sp - 8..<numPages sp}" using np by auto
  then have all: "?p ` {0..<numPages sp} = program_frames sp \<union> st"
    using c(2,4,5) by (simp add: program_frames_def image_Un)
  have sub: "program_frames sp \<subseteq> bm_used mm"
  proof
    fix f assume "f \<in> program_frames sp"
    then obtain i where i: "f = physicalPage (pageTable sp ! nat i)" "0 \<le> i" "i < numPages sp - 8" by (auto simp: program_frames_def)
    then have "nat i < length (pageTable sp)" using assms(1) by (simp add: space_wf_def)
    then have "f \<in> set (map physicalPage (pageTable sp))" using i(1) by simp
    then show "f \<in> bm_used mm" using assms(1) unfolding space_wf_def by blast
  qed
  have lt: "?p i < numBits mm1" if "0 \<le> i" "i < numPages sp" for i
  proof -
    have "?p i \<in> program_frames sp \<union> st" using that unfolding all [symmetric] by simp
    then show ?thesis using sub c(7,10) bm_used_subset [of mm] assms(3) by auto
  qed
  have u: "u32 (numPages sp - 8) = numPages sp - 8" using np by (simp add: u32_def)
  obtain mm2 where "delete_AddrSpace 2 child mm1 = Inr mm2" "bm_used mm2 = bm_used mm1 - ?p ` {numPages sp - 8..<numPages sp}"
    using free_loop [OF c(9), of "numPages sp - 8" "numPages sp" "pageTable child"] lt np c(2,3) u by (auto simp: delete_AddrSpace_def)
  moreover obtain mm3 where "delete_AddrSpace 1 child mm1 = Inr mm3" "bm_used mm3 = bm_used mm1 - ?p ` {0..<numPages sp}"
    using free_loop [OF c(9), of 0 "numPages sp" "pageTable child"] lt np c(2,3) by (auto simp: delete_AddrSpace_def)
  moreover have "bm_used mm1 - st = bm_used mm" "bm_used mm1 - (program_frames sp \<union> st) = bm_used mm - program_frames sp"
    using c(6,11) by auto
  ultimately show ?thesis using c(1,4) by (simp add: c(5) all)
qed

theorem child_exit_frees_parent_frames_witness:
  "\<exists>sp mm child mm1 mm3. numPages sp = 10 \<and> copy_AddrSpace False sp mm = Inr (child, mm1) \<and>
     delete_AddrSpace 1 child mm1 = Inr mm3 \<and> bm_used mm3 = bm_used mm - program_frames sp"
proof -
  obtain mm0 where mm0: "bm_inv mm0" "numBits mm0 = 32" "bm_used mm0 = {}" using new_BitMap_eq [of 32 "\<lambda>_. 5"] by auto
  obtain sp mm where s: "numPages sp = 10" "space_wf sp mm" "bm_inv mm" "numBits mm = 32" "card (bm_used mm) = 10"
    using new_AddrSpace_wf [OF sample_exe_ok(1), of "replicate 40 0" "replicate 4096 1" mm0 "[]"] mm0 sample_exe_ok(2) by auto
  from child_exit_frees_parent_frames [OF s(2-4)] s(5) obtain child mm1 mm3 where
    "copy_AddrSpace False sp mm = Inr (child, mm1)" "delete_AddrSpace 1 child mm1 = Inr mm3" "bm_used mm3 = bm_used mm - program_frames sp" by auto
  then show ?thesis using s(1) by blast
qed

text \<open>
  With virtual memory, a context switch before four pages are in the TLB corrupts memory: \<open>RestoreState\<close> marks the entries with page number
  -1 and \<open>SaveState\<close> uses the page number of every entry as an index, valid or not. So saving right after restoring writes
  outside the page table, whatever the address space.
\<close>

theorem SaveState_after_RestoreState_out_of_bounds:
  assumes "tlb m = Some ts" "length ts = 4"
  shows "\<exists>m'. RestoreState True sp m = Inr m' \<and> SaveState True sp m' = Inl OutOfBounds"
proof -
  obtain a b c d where ts: "ts = [a, b, c, d]" using assms(2) by (auto simp: length_Suc_conv numeral_eq_Suc)
  have "arr_get pt (- 1) = Inl OutOfBounds" for pt :: "TranslationEntry list" by (simp add: arr_get_def)
  then show ?thesis using assms(1) unfolding ts
    by (simp add: RestoreState_def SaveState_def forE_step arr_get_def arr_set_def)
qed

theorem SaveState_after_RestoreState_out_of_bounds_witness:
  "\<exists>m'. RestoreState True \<lparr>pageTable = [], numPages = 0, numPagesCode = 0, numPagesInitData = 0, numPagesDataStack = 0, executableFilename = []\<rparr>
      (new_Machine (Some (replicate 4 \<lparr>virtualPage = 3, physicalPage = 4, te_valid = True, readOnly = False, te_use = True, te_dirty = False\<rparr>))) = Inr m' \<and>
    SaveState True \<lparr>pageTable = [], numPages = 0, numPagesCode = 0, numPagesInitData = 0, numPagesDataStack = 0, executableFilename = []\<rparr> m' = Inl OutOfBounds"
  by (rule SaveState_after_RestoreState_out_of_bounds [of _ "replicate 4
      \<lparr>virtualPage = 3, physicalPage = 4, te_valid = False, readOnly = False, te_use = True, te_dirty = False\<rparr>"]) (simp_all add: new_Machine_def)

end
