(* ===== verification/Virtual_Memory.thy ===== *)
theory Virtual_Memory
  imports Addr_Space
begin

text \<open>
  Demand paging: the page fault handler of \<open>userprog/exception.cc\<close> with second-chance replacement in main memory and in the
  TLB, and a swap file.

  The state has main memory, the TLB, the two clock hands, the inverted page table, the swap file with its map, the map of
  main memory and the address spaces of the threads. A \<open>Thread*\<close> is the number of the thread; \<open>None\<close> in \<open>spaces\<close> is a
  thread that has no address space (any more). The executables are the UNIX files \<open>exe\<close>, by name.

  \<open>content\<close> is what a user program can rely on to find in a page of an address space; \<open>vm_inv\<close> relates it to the frames,
  the swap file and the executables.
\<close>

section \<open>State\<close>

record VM =
  vm_mem :: bytes
  vm_tlb :: "TranslationEntry list"
  tlbIterator :: int
  mainMemoryIterator :: int
  invertedTable :: "nat list"
  invertedTableVP :: "int list"
  SWAP :: bytes
  SWAPmap :: BitMap
  mainMemoryMap :: BitMap
  spaces :: "AddrSpace option list"
  currentThread :: nat

text \<open>\<open>thread->space->getPageTable()[vp]\<close>, read and written.\<close>

definition get_space :: "nat \<Rightarrow> VM \<Rightarrow> AddrSpace result" where
  "get_space t vm = bindE (arr_get (spaces vm) (int t)) deref"

definition get_pte :: "nat \<Rightarrow> int \<Rightarrow> VM \<Rightarrow> TranslationEntry result" where
  "get_pte t vp vm = bindE (get_space t vm) (\<lambda>sp. arr_get (pageTable sp) vp)"

definition upd_pte :: "nat \<Rightarrow> int \<Rightarrow> (TranslationEntry \<Rightarrow> TranslationEntry) \<Rightarrow> VM \<Rightarrow> VM result" where
  "upd_pte t vp f vm =
     bindE (get_space t vm) (\<lambda>sp.
     bindE (arr_get (pageTable sp) vp) (\<lambda>e.
     bindE (arr_set (pageTable sp) vp (f e)) (\<lambda>pt.
     bindE (arr_set (spaces vm) (int t) (Some (sp\<lparr>pageTable := pt\<rparr>))) (\<lambda>ss.
     Inr (vm\<lparr>spaces := ss\<rparr>)))))"

section \<open>Replacement in the TLB\<close>

text \<open>The loop of \<open>updateTLB\<close>: it ends because every round clears a use bit.\<close>

lemma uses_decrease:
  assumes "arr_get ts i = Inr e" "te_use e" "arr_set ts i (e\<lparr>te_use := False\<rparr>) = Inr ts'"
  shows "length (filter te_use ts') < length (filter te_use ts)"
proof -
  have k: "nat i < length ts" "e = ts ! nat i" "ts' = ts[nat i := e\<lparr>te_use := False\<rparr>]"
    using assms(1,3) by (auto simp: arr_get_eq_Inr arr_set_eq_Inr)
  have "ts = take (nat i) ts @ e # drop (Suc (nat i)) ts" using k(1,2) by (simp add: id_take_nth_drop)
  then have "length (filter te_use ts) = length (filter te_use (take (nat i) ts)) + Suc (length (filter te_use (drop (Suc (nat i)) ts)))"
    using assms(2) by (metis filter.simps(2) filter_append length_append length_Cons)
  moreover have "ts' = take (nat i) ts @ e\<lparr>te_use := False\<rparr> # drop (Suc (nat i)) ts" using k(1,3) by (simp add: upd_conv_take_nth_drop)
  ultimately show ?thesis by simp
qed

function tlb_clock :: "TranslationEntry list \<Rightarrow> int \<Rightarrow> (TranslationEntry list \<times> int) result" where
  "tlb_clock ts it =
     bindE (arr_get ts it) (\<lambda>e.
       if te_use e then bindE (arr_set ts it (e\<lparr>te_use := False\<rparr>)) (\<lambda>ts'. tlb_clock ts' ((it + 1) mod 4))
       else Inr (ts, it))"
  by pat_completeness auto
termination by (relation "measure (\<lambda>(ts, _). length (filter te_use ts))") (auto intro: uses_decrease)

declare tlb_clock.simps [simp del]

definition updateTLB :: "int \<Rightarrow> VM \<Rightarrow> VM result" where
  "updateTLB virtualPageNumber vm =
     bindE (tlb_clock (vm_tlb vm) (tlbIterator vm)) (\<lambda>(ts, it).
     let vm1 = vm\<lparr>vm_tlb := ts, tlbIterator := it\<rparr> in
     bindE (arr_get ts it) (\<lambda>v.
     bindE (if physicalPage v \<ge> 0 then
              bindE (arr_get (invertedTable vm1) (physicalPage v)) (\<lambda>thr.
              bindE (arr_get (invertedTableVP vm1) (physicalPage v)) (\<lambda>VP.
              upd_pte thr VP (\<lambda>e. e\<lparr>physicalPage := physicalPage v, te_valid := te_valid v, te_use := te_use v, te_dirty := te_dirty v\<rparr>) vm1))
            else Inr vm1) (\<lambda>vm2.
     bindE (get_pte (currentThread vm2) virtualPageNumber vm2) (\<lambda>e.
     bindE (arr_set (vm_tlb vm2) it
         \<lparr>virtualPage = virtualPageNumber, physicalPage = physicalPage e, te_valid = True, readOnly = readOnly e,
          te_use = True, te_dirty = te_dirty e\<rparr>) (\<lambda>ts'.
     Inr (vm2\<lparr>vm_tlb := ts'\<rparr>))))))"

section \<open>Replacement in main memory\<close>

definition storeInSWAP :: "nat \<Rightarrow> int \<Rightarrow> int \<Rightarrow> VM \<Rightarrow> VM result" where
  "storeInSWAP otherThread physicalPageReplaced virtualPageReplaced vm =
     bindE (Find (SWAPmap vm)) (\<lambda>(k, sm).
     let nextFreeSWAPFrame = u32 k in
     bindE (slice (vm_mem vm) (physicalPageReplaced * PageSize) PageSize) (\<lambda>bs.
     bindE (stub_WriteAt (SWAP vm) bs (s32 (nextFreeSWAPFrame * PageSize))) (\<lambda>sw.
     upd_pte otherThread virtualPageReplaced (\<lambda>e. e\<lparr>physicalPage := s32 nextFreeSWAPFrame\<rparr>)
       (vm\<lparr>SWAPmap := sm, SWAP := sw\<rparr>))))"

definition readFromSWAP :: "int \<Rightarrow> int \<Rightarrow> VM \<Rightarrow> VM result" where
  "readFromSWAP nextFreeFrame oldSWAPframe vm =
     bindE (stub_ReadAt (SWAP vm) PageSize (oldSWAPframe * PageSize)) (\<lambda>bs.
     bindE (bcopy bs (vm_mem vm) (nextFreeFrame * PageSize)) (\<lambda>mem.
     bindE (Clear (SWAPmap vm) oldSWAPframe) (\<lambda>sm.
     Inr (vm\<lparr>vm_mem := mem, SWAPmap := sm\<rparr>))))"

definition all_uses :: "VM \<Rightarrow> nat" where
  "all_uses vm = sum_list (map (\<lambda>s. case s of None \<Rightarrow> 0 | Some sp \<Rightarrow> length (filter te_use (pageTable sp))) (spaces vm))"

lemma sum_list_update_less:
  fixes f :: "'a \<Rightarrow> nat"
  shows "i < length xs \<Longrightarrow> f x < f (xs ! i) \<Longrightarrow> sum_list (map f (xs[i := x])) < sum_list (map f xs)"
proof (induction xs arbitrary: i)
  case (Cons a xs)
  then show ?case by (cases i) auto
qed simp

lemma all_uses_decrease:
  assumes "get_pte t vp vm = Inr e" "te_use e" "upd_pte t vp (\<lambda>e. e\<lparr>te_use := False\<rparr>) vm = Inr vm'"
  shows "all_uses vm' < all_uses vm"
proof -
  obtain sp pt where sp: "t < length (spaces vm)" "spaces vm ! t = Some sp" "arr_get (pageTable sp) vp = Inr e"
    "arr_set (pageTable sp) vp (e\<lparr>te_use := False\<rparr>) = Inr pt" "vm' = vm\<lparr>spaces := (spaces vm)[t := Some (sp\<lparr>pageTable := pt\<rparr>)]\<rparr>"
    using assms(1,3) by (auto simp: get_pte_def upd_pte_def get_space_def bindE_eq_Inr arr_get_eq_Inr arr_set_eq_Inr)
  have "spaces vm' = (spaces vm)[t := Some (sp\<lparr>pageTable := pt\<rparr>)]" by (simp add: sp(5))
  then show ?thesis unfolding all_uses_def
    using sp(1,2) uses_decrease [OF sp(3) assms(2) sp(4)] by (simp only:) (intro sum_list_update_less, simp_all)
qed

text \<open>The loop of \<open>replaceMainMemoryFrame\<close>: the thread and the virtual page of the victim.\<close>

function frame_clock :: "VM \<Rightarrow> (nat \<times> int \<times> VM) result" where
  "frame_clock vm =
     bindE (arr_get (invertedTable vm) (mainMemoryIterator vm)) (\<lambda>thr.
     bindE (arr_get (invertedTableVP vm) (mainMemoryIterator vm)) (\<lambda>VP.
     bindE (get_pte thr VP vm) (\<lambda>e.
       if te_use e then
         bindE (upd_pte thr VP (\<lambda>e. e\<lparr>te_use := False\<rparr>) vm) (\<lambda>vm'.
         frame_clock (vm'\<lparr>mainMemoryIterator := (mainMemoryIterator vm + 1) mod NumPhysPages\<rparr>))
       else Inr (thr, VP, vm))))"
  by pat_completeness auto
termination
proof (relation "measure all_uses", goal_cases)
  case (2 vm thr VP e vm')
  then show ?case using all_uses_decrease [OF 2(3,4,5)] by (simp add: all_uses_def)
qed simp

declare frame_clock.simps [simp del]

text \<open>The position of a frame in the TLB, or 4.\<close>

fun tlb_pos :: "TranslationEntry list \<Rightarrow> int \<Rightarrow> int" where
  "tlb_pos [] f = 0"
| "tlb_pos (e # es) f = (if physicalPage e \<noteq> f then 1 + tlb_pos es f else 0)"

definition replaceMainMemoryFrame :: "VM \<Rightarrow> VM result" where
  "replaceMainMemoryFrame vm =
     bindE (frame_clock vm) (\<lambda>(thr, VP, vm1).
     let it = mainMemoryIterator vm1 in
     bindE (upd_pte thr VP (\<lambda>e. e\<lparr>te_valid := False, physicalPage := - 1\<rparr>) vm1) (\<lambda>vm2.
     let posInTLB = tlb_pos (vm_tlb vm2) it in
     bindE (if posInTLB < 4 then
              bindE (arr_get (vm_tlb vm2) posInTLB) (\<lambda>x. upd_pte thr VP (\<lambda>e. e\<lparr>te_dirty := te_dirty x\<rparr>) vm2)
            else Inr vm2) (\<lambda>vm3.
     bindE (get_pte thr VP vm3) (\<lambda>e.
     bindE (if te_dirty e then storeInSWAP thr it VP vm3 else Inr vm3) (\<lambda>vm4.
     bindE (Clear (mainMemoryMap vm4) it) (\<lambda>mm.
     Inr (vm4\<lparr>mainMemoryMap := mm, mainMemoryIterator := (it + 1) mod NumPhysPages\<rparr>)))))))"

section \<open>The page fault handler\<close>

text \<open>Loading the faulting page into a frame: from the swap file, from the executable, or zeros.\<close>

definition load_frame :: "(bytes \<Rightarrow> bytes option) \<Rightarrow> bytes \<Rightarrow> TranslationEntry \<Rightarrow> int \<Rightarrow> int \<Rightarrow> VM \<Rightarrow> VM result" where
  "load_frame exe junk bits vpn nextFreeFrame vm =
     (if te_dirty bits then
        bindE (get_pte (currentThread vm) vpn vm) (\<lambda>e. readFromSWAP nextFreeFrame (physicalPage e) vm)
      else
        bindE (get_space (currentThread vm) vm) (\<lambda>sp.
          if readOnly bits \<or> vpn < u32 (numPagesCode sp + numPagesInitData sp) then
            bindE (deref (exe (executableFilename sp))) (\<lambda>executable.
            bindE (read_noff junk executable) (\<lambda>noffH.
            bindE (ASSERT (noffMagic noffH = NOFFMAGIC)) (\<lambda>_.
            bindE (stub_ReadAt executable PageSize (s32 (inFileAddr (seg_code noffH) + vpn * PageSize))) (\<lambda>bs.
            bindE (bcopy bs (vm_mem vm) (nextFreeFrame * PageSize)) (\<lambda>mem. Inr (vm\<lparr>vm_mem := mem\<rparr>))))))
          else bindE (bcopy (replicate 128 0) (vm_mem vm) (nextFreeFrame * PageSize)) (\<lambda>mem. Inr (vm\<lparr>vm_mem := mem\<rparr>))))"

definition page_fault :: "(bytes \<Rightarrow> bytes option) \<Rightarrow> bytes \<Rightarrow> 32 word \<Rightarrow> VM \<Rightarrow> VM result" where
  "page_fault exe junk badVAddr vm =
     (let vpn = u32 (sint badVAddr sdiv PageSize) in
      bindE (get_pte (currentThread vm) vpn vm) (\<lambda>bits.
      bindE (if \<not> te_valid bits then
               bindE (NumClear (mainMemoryMap vm)) (\<lambda>c.
               bindE (if c = 0 then replaceMainMemoryFrame vm else Inr vm) (\<lambda>vm1.
               bindE (Find (mainMemoryMap vm1)) (\<lambda>(nextFreeFrame, mm).
               bindE (load_frame exe junk bits vpn nextFreeFrame (vm1\<lparr>mainMemoryMap := mm\<rparr>)) (\<lambda>vm2.
               bindE (upd_pte (currentThread vm2) vpn (\<lambda>e. e\<lparr>physicalPage := nextFreeFrame, te_valid := True\<rparr>) vm2) (\<lambda>vm3.
               bindE (arr_set (invertedTable vm3) nextFreeFrame (currentThread vm3)) (\<lambda>inv.
               bindE (arr_set (invertedTableVP vm3) nextFreeFrame vpn) (\<lambda>invVP.
               Inr (vm3\<lparr>invertedTable := inv, invertedTableVP := invVP\<rparr>))))))))
             else Inr vm) (updateTLB vpn)))"


section \<open>Page table entries\<close>

definition has_pte :: "VM \<Rightarrow> nat \<Rightarrow> int \<Rightarrow> bool" where
  "has_pte vm t vp \<longleftrightarrow> t < length (spaces vm) \<and> (\<exists>sp. spaces vm ! t = Some sp \<and> 0 \<le> vp \<and> vp < int (length (pageTable sp)))"

definition pte :: "VM \<Rightarrow> nat \<Rightarrow> int \<Rightarrow> TranslationEntry" where
  "pte vm t vp = pageTable (the (spaces vm ! t)) ! nat vp"

definition put_pte :: "nat \<Rightarrow> int \<Rightarrow> TranslationEntry \<Rightarrow> VM \<Rightarrow> VM" where
  "put_pte t vp e vm = vm\<lparr>spaces := (spaces vm)[t := map_option (\<lambda>sp. sp\<lparr>pageTable := (pageTable sp)[nat vp := e]\<rparr>) (spaces vm ! t)]\<rparr>"

lemma get_space_Some: "has_pte vm t vp \<Longrightarrow> get_space t vm = Inr (the (spaces vm ! t))"
  by (auto simp: get_space_def has_pte_def)

lemma get_pte_eq: "has_pte vm t vp \<Longrightarrow> get_pte t vp vm = Inr (pte vm t vp)"
  by (auto simp: get_pte_def get_space_def has_pte_def pte_def)

lemma upd_pte_eq: "has_pte vm t vp \<Longrightarrow> upd_pte t vp f vm = Inr (put_pte t vp (f (pte vm t vp)) vm)"
  by (auto simp: upd_pte_def get_space_def has_pte_def pte_def put_pte_def arr_set_of_nat)

lemma get_pte_Inr: "get_pte t vp vm = Inr e \<Longrightarrow> has_pte vm t vp \<and> e = pte vm t vp"
  by (auto simp: get_pte_def get_space_def has_pte_def pte_def bindE_eq_Inr arr_get_eq_Inr)

lemma has_pte_put [simp]: "has_pte (put_pte t vp e vm) t' vp' \<longleftrightarrow> has_pte vm t' vp'"
  by (cases "t' = t"; cases "t' < length (spaces vm)"; cases "spaces vm ! t'") (auto simp: has_pte_def put_pte_def)

lemma pte_put: "has_pte vm t vp \<Longrightarrow> has_pte vm t' vp' \<Longrightarrow>
  pte (put_pte t vp e vm) t' vp' = (if t' = t \<and> vp' = vp then e else pte vm t' vp')"
  by (auto simp: has_pte_def pte_def put_pte_def nth_list_update eq_nat_nat_iff)

lemma put_pte_sel [simp]:
  "vm_mem (put_pte t vp e vm) = vm_mem vm" "vm_tlb (put_pte t vp e vm) = vm_tlb vm"
  "tlbIterator (put_pte t vp e vm) = tlbIterator vm" "mainMemoryIterator (put_pte t vp e vm) = mainMemoryIterator vm"
  "invertedTable (put_pte t vp e vm) = invertedTable vm" "invertedTableVP (put_pte t vp e vm) = invertedTableVP vm"
  "SWAP (put_pte t vp e vm) = SWAP vm" "SWAPmap (put_pte t vp e vm) = SWAPmap vm" "mainMemoryMap (put_pte t vp e vm) = mainMemoryMap vm"
  "currentThread (put_pte t vp e vm) = currentThread vm" "length (spaces (put_pte t vp e vm)) = length (spaces vm)"
  by (simp_all add: put_pte_def)

text \<open>What the handler never changes of an address space.\<close>

definition static :: "VM \<Rightarrow> nat \<Rightarrow> int \<times> int \<times> bytes" where
  "static vm t = (let sp = the (spaces vm ! t) in (numPagesCode sp, numPagesInitData sp, executableFilename sp))"

lemma static_put: "has_pte vm t' vp' \<Longrightarrow> static (put_pte t vp e vm) t' = static vm t'"
  by (cases "t' = t") (auto simp: static_def put_pte_def has_pte_def Let_def)

lemma pte_cong:
  assumes "spaces vm' = spaces vm"
  shows "pte vm' = pte vm" "has_pte vm' = has_pte vm" "static vm' = static vm"
  using assms by (auto simp: fun_eq_iff pte_def has_pte_def static_def)

lemma pte_update [simp]:
  "pte (vm\<lparr>vm_mem := x0\<rparr>) = pte vm"
  "pte (vm\<lparr>vm_tlb := x1\<rparr>) = pte vm"
  "pte (vm\<lparr>tlbIterator := x2\<rparr>) = pte vm"
  "pte (vm\<lparr>mainMemoryIterator := x3\<rparr>) = pte vm"
  "pte (vm\<lparr>invertedTable := x4\<rparr>) = pte vm"
  "pte (vm\<lparr>invertedTableVP := x5\<rparr>) = pte vm"
  "pte (vm\<lparr>SWAP := x6\<rparr>) = pte vm"
  "pte (vm\<lparr>SWAPmap := x7\<rparr>) = pte vm"
  "pte (vm\<lparr>mainMemoryMap := x8\<rparr>) = pte vm"
  "has_pte (vm\<lparr>vm_mem := x0\<rparr>) = has_pte vm"
  "has_pte (vm\<lparr>vm_tlb := x1\<rparr>) = has_pte vm"
  "has_pte (vm\<lparr>tlbIterator := x2\<rparr>) = has_pte vm"
  "has_pte (vm\<lparr>mainMemoryIterator := x3\<rparr>) = has_pte vm"
  "has_pte (vm\<lparr>invertedTable := x4\<rparr>) = has_pte vm"
  "has_pte (vm\<lparr>invertedTableVP := x5\<rparr>) = has_pte vm"
  "has_pte (vm\<lparr>SWAP := x6\<rparr>) = has_pte vm"
  "has_pte (vm\<lparr>SWAPmap := x7\<rparr>) = has_pte vm"
  "has_pte (vm\<lparr>mainMemoryMap := x8\<rparr>) = has_pte vm"
  "static (vm\<lparr>vm_mem := x0\<rparr>) = static vm"
  "static (vm\<lparr>vm_tlb := x1\<rparr>) = static vm"
  "static (vm\<lparr>tlbIterator := x2\<rparr>) = static vm"
  "static (vm\<lparr>mainMemoryIterator := x3\<rparr>) = static vm"
  "static (vm\<lparr>invertedTable := x4\<rparr>) = static vm"
  "static (vm\<lparr>invertedTableVP := x5\<rparr>) = static vm"
  "static (vm\<lparr>SWAP := x6\<rparr>) = static vm"
  "static (vm\<lparr>SWAPmap := x7\<rparr>) = static vm"
  "static (vm\<lparr>mainMemoryMap := x8\<rparr>) = static vm"
  by (rule pte_cong; simp)+

section \<open>Contents of pages\<close>

text \<open>The page as the executable or a fresh stack gives it.\<close>

definition backing :: "(bytes \<Rightarrow> bytes option) \<Rightarrow> VM \<Rightarrow> nat \<Rightarrow> int \<Rightarrow> bytes" where
  "backing exe vm t vp =
     (let (nc, ni, fn) = static vm t; f = the (exe fn) in
      if readOnly (pte vm t vp) \<or> vp < u32 (nc + ni) then exe_page f (exe_hdr f) vp else replicate 128 0)"

text \<open>The entry of the TLB for a frame, and the dirty bit that counts for a page in memory.\<close>

definition tlb_of :: "VM \<Rightarrow> int \<Rightarrow> TranslationEntry option" where
  "tlb_of vm f = find (\<lambda>e. physicalPage e = f) (vm_tlb vm)"

definition page_dirty :: "VM \<Rightarrow> nat \<Rightarrow> int \<Rightarrow> bool" where
  "page_dirty vm t vp =
     (let p = pte vm t vp in
      if te_valid p then (case tlb_of vm (physicalPage p) of None \<Rightarrow> te_dirty p | Some e \<Rightarrow> te_dirty e) else te_dirty p)"

definition swap_page :: "VM \<Rightarrow> int \<Rightarrow> bytes" where
  "swap_page vm k = frame (SWAP vm) k"

text \<open>
  What a program finds in a page: a page that was written is in memory or in the swap file, any other is as its file (or a
  fresh page) has it. A page of the file that ends early counts only as far as the file goes.
\<close>

definition content :: "(bytes \<Rightarrow> bytes option) \<Rightarrow> VM \<Rightarrow> nat \<Rightarrow> int \<Rightarrow> bytes" where
  "content exe vm t vp =
     (if page_dirty vm t vp then
        if te_valid (pte vm t vp) then frame (vm_mem vm) (physicalPage (pte vm t vp)) else swap_page vm (physicalPage (pte vm t vp))
      else backing exe vm t vp)"

section \<open>The invariant\<close>

definition sizes_ok :: "VM \<Rightarrow> bool" where
  "sizes_ok vm \<longleftrightarrow> length (vm_mem vm) = 4096 \<and> length (vm_tlb vm) = 4 \<and> 0 \<le> tlbIterator vm \<and> tlbIterator vm < 4 \<and>
     0 \<le> mainMemoryIterator vm \<and> mainMemoryIterator vm < 32 \<and> length (invertedTable vm) = 32 \<and> length (invertedTableVP vm) = 32 \<and>
     length (SWAP vm) = 8192 \<and> bm_inv (SWAPmap vm) \<and> numBits (SWAPmap vm) = 64 \<and> bm_inv (mainMemoryMap vm) \<and> numBits (mainMemoryMap vm) = 32"

text \<open>Frames in use and valid pages belong together one to one, through the inverted table.\<close>

definition owner :: "VM \<Rightarrow> int \<Rightarrow> nat \<times> int" where
  "owner vm f = (invertedTable vm ! nat f, invertedTableVP vm ! nat f)"

definition frames_ok :: "VM \<Rightarrow> bool" where
  "frames_ok vm \<longleftrightarrow>
     (\<forall>t vp. has_pte vm t vp \<and> te_valid (pte vm t vp) \<longrightarrow>
        physicalPage (pte vm t vp) \<in> bm_used (mainMemoryMap vm) \<and> owner vm (physicalPage (pte vm t vp)) = (t, vp)) \<and>
     (\<forall>f \<in> bm_used (mainMemoryMap vm). \<forall>t vp. owner vm f = (t, vp) \<longrightarrow>
        has_pte vm t vp \<and> te_valid (pte vm t vp) \<and> physicalPage (pte vm t vp) = f)"

text \<open>A page that is dirty and not in memory has its own place in the swap file.\<close>

definition swapped :: "VM \<Rightarrow> nat \<Rightarrow> int \<Rightarrow> bool" where
  "swapped vm t vp \<longleftrightarrow> has_pte vm t vp \<and> \<not> te_valid (pte vm t vp) \<and> te_dirty (pte vm t vp)"

definition swap_ok :: "VM \<Rightarrow> bool" where
  "swap_ok vm \<longleftrightarrow>
     (\<forall>t vp. swapped vm t vp \<longrightarrow> physicalPage (pte vm t vp) \<in> bm_used (SWAPmap vm)) \<and>
     (\<forall>t vp t' vp'. swapped vm t vp \<and> swapped vm t' vp' \<and> physicalPage (pte vm t vp) = physicalPage (pte vm t' vp') \<longrightarrow> t = t' \<and> vp = vp')"

text \<open>The TLB holds valid pages of the running thread, or nothing.\<close>

definition tlb_ok :: "VM \<Rightarrow> bool" where
  "tlb_ok vm \<longleftrightarrow>
     (\<forall>e \<in> set (vm_tlb vm). if physicalPage e \<ge> 0
        then te_valid e \<and> physicalPage e \<in> bm_used (mainMemoryMap vm) \<and> owner vm (physicalPage e) = (currentThread vm, virtualPage e)
        else \<not> te_valid e) \<and>
     (\<forall>i < 4. \<forall>j < 4. physicalPage (vm_tlb vm ! i) \<ge> 0 \<and> physicalPage (vm_tlb vm ! i) = physicalPage (vm_tlb vm ! j) \<longrightarrow> i = j)"

text \<open>A clean page in memory is as its file has it.\<close>

definition clean_ok :: "(bytes \<Rightarrow> bytes option) \<Rightarrow> VM \<Rightarrow> bool" where
  "clean_ok exe vm \<longleftrightarrow> (\<forall>t vp. has_pte vm t vp \<and> te_valid (pte vm t vp) \<and> \<not> page_dirty vm t vp \<longrightarrow>
     take (length (backing exe vm t vp)) (frame (vm_mem vm) (physicalPage (pte vm t vp))) = backing exe vm t vp)"

definition vm_inv :: "(bytes \<Rightarrow> bytes option) \<Rightarrow> VM \<Rightarrow> bool" where
  "vm_inv exe vm \<longleftrightarrow> sizes_ok vm \<and> frames_ok vm \<and> swap_ok vm \<and> tlb_ok vm \<and> clean_ok exe vm"

text \<open>So memory has the contents of every valid page.\<close>

lemma valid_page_in_memory:
  assumes "vm_inv exe vm" "has_pte vm t vp" "te_valid (pte vm t vp)"
  shows "take (length (content exe vm t vp)) (frame (vm_mem vm) (physicalPage (pte vm t vp))) = content exe vm t vp"
  using assms by (auto simp: vm_inv_def clean_ok_def content_def)

section \<open>Use bits do not matter\<close>

definition no_use :: "TranslationEntry \<Rightarrow> TranslationEntry" where
  "no_use e = e\<lparr>te_use := False\<rparr>"

lemma no_use_eq: "no_use e = no_use e' \<Longrightarrow>
  virtualPage e = virtualPage e' \<and> physicalPage e = physicalPage e' \<and> te_valid e = te_valid e' \<and> readOnly e = readOnly e' \<and> te_dirty e = te_dirty e'"
  by (cases e; cases e') (simp add: no_use_def)

text \<open>Two states that differ only in use bits and in the clock hands.\<close>

definition use_eq :: "VM \<Rightarrow> VM \<Rightarrow> bool" where
  "use_eq vm vm' \<longleftrightarrow>
     (\<forall>t vp. has_pte vm' t vp = has_pte vm t vp \<and> (has_pte vm t vp \<longrightarrow> no_use (pte vm' t vp) = no_use (pte vm t vp) \<and> static vm' t = static vm t)) \<and>
     map no_use (vm_tlb vm') = map no_use (vm_tlb vm) \<and>
     vm_mem vm' = vm_mem vm \<and> invertedTable vm' = invertedTable vm \<and> invertedTableVP vm' = invertedTableVP vm \<and>
     SWAP vm' = SWAP vm \<and> SWAPmap vm' = SWAPmap vm \<and> mainMemoryMap vm' = mainMemoryMap vm \<and> currentThread vm' = currentThread vm \<and>
     (0 \<le> tlbIterator vm' \<and> tlbIterator vm' < 4) \<and> (0 \<le> mainMemoryIterator vm' \<and> mainMemoryIterator vm' < 32)"

lemma find_no_use: "map no_use xs = map no_use ys \<Longrightarrow>
  map_option te_dirty (find (\<lambda>e. physicalPage e = f) xs) = map_option te_dirty (find (\<lambda>e. physicalPage e = f) ys)"
proof (induction xs arbitrary: ys)
  case (Cons x xs)
  then obtain y ys' where "ys = y # ys'" "no_use x = no_use y" "map no_use xs = map no_use ys'" by (cases ys) auto
  then show ?case using Cons.IH no_use_eq [of x y] by auto
qed simp

lemma use_eq_pages:
  assumes "use_eq vm vm'" "has_pte vm t vp"
  shows "te_valid (pte vm' t vp) = te_valid (pte vm t vp)" "physicalPage (pte vm' t vp) = physicalPage (pte vm t vp)"
    "te_dirty (pte vm' t vp) = te_dirty (pte vm t vp)" "readOnly (pte vm' t vp) = readOnly (pte vm t vp)"
    "page_dirty vm' t vp = page_dirty vm t vp" "backing exe vm' t vp = backing exe vm t vp" "content exe vm' t vp = content exe vm t vp"
proof -
  have e: "no_use (pte vm' t vp) = no_use (pte vm t vp)" "static vm' t = static vm t" using assms by (auto simp: use_eq_def)
  show p: "te_valid (pte vm' t vp) = te_valid (pte vm t vp)" "physicalPage (pte vm' t vp) = physicalPage (pte vm t vp)"
    "te_dirty (pte vm' t vp) = te_dirty (pte vm t vp)" "readOnly (pte vm' t vp) = readOnly (pte vm t vp)"
    using no_use_eq [OF e(1)] by simp_all
  have td: "map_option te_dirty (tlb_of vm' f) = map_option te_dirty (tlb_of vm f)" for f
    unfolding tlb_of_def using assms(1) by (intro find_no_use) (simp add: use_eq_def)
  have "(case tlb_of vm' f of None \<Rightarrow> b | Some e \<Rightarrow> te_dirty e) = (case tlb_of vm f of None \<Rightarrow> b | Some e \<Rightarrow> te_dirty e)" for f b
    using td [of f] by (cases "tlb_of vm' f"; cases "tlb_of vm f") auto
  then show d: "page_dirty vm' t vp = page_dirty vm t vp" by (simp add: page_dirty_def Let_def p cong: option.case_cong)
  show b: "backing exe vm' t vp = backing exe vm t vp" by (simp add: backing_def e(2) p)
  show "content exe vm' t vp = content exe vm t vp" using assms(1) by (simp add: content_def d p b swap_page_def use_eq_def)
qed

lemma use_eq_inv:
  assumes "use_eq vm vm'" "vm_inv exe vm"
  shows "vm_inv exe vm'"
proof -
  note h = assms(1) [unfolded use_eq_def]
  note p = use_eq_pages [OF assms(1)]
  have same: "has_pte vm' = has_pte vm" using h by (intro ext) blast
  have own: "owner vm' = owner vm" using h by (simp add: owner_def fun_eq_iff)
  have len: "length (vm_tlb vm') = length (vm_tlb vm)" using h by (metis length_map)
  have nth: "no_use (vm_tlb vm' ! i) = no_use (vm_tlb vm ! i)" if "i < length (vm_tlb vm)" for i using h that len by (metis nth_map)
  have "sizes_ok vm'" using assms(2) h len by (auto simp: vm_inv_def sizes_ok_def)
  moreover have "frames_ok vm'"
  proof -
    have "mainMemoryMap vm' = mainMemoryMap vm" using h by blast
    then show ?thesis using assms(2) p(1,2) unfolding vm_inv_def frames_ok_def own same by auto
  qed
  moreover have "swap_ok vm'"
  proof -
    have "swapped vm' t vp = swapped vm t vp" for t vp using p(1,3) by (auto simp: swapped_def same)
    moreover have "physicalPage (pte vm' t vp) = physicalPage (pte vm t vp)" if "swapped vm t vp" for t vp using that p(2) by (simp add: swapped_def)
    ultimately show ?thesis using assms(2) h unfolding vm_inv_def swap_ok_def by auto
  qed
  moreover have "tlb_ok vm'"
  proof -
    have l4: "length (vm_tlb vm) = 4" using assms(2) by (simp add: vm_inv_def sizes_ok_def)
    note e = no_use_eq [OF nth]
    have o: "tlb_ok vm" using assms(2) by (simp add: vm_inv_def)
    have "\<forall>i < 4. if physicalPage (vm_tlb vm ! i) \<ge> 0
        then te_valid (vm_tlb vm ! i) \<and> physicalPage (vm_tlb vm ! i) \<in> bm_used (mainMemoryMap vm) \<and>
          owner vm (physicalPage (vm_tlb vm ! i)) = (currentThread vm, virtualPage (vm_tlb vm ! i)) else \<not> te_valid (vm_tlb vm ! i)"
      using o l4 unfolding tlb_ok_def by (metis nth_mem)
    then have "\<forall>i < 4. if physicalPage (vm_tlb vm' ! i) \<ge> 0
        then te_valid (vm_tlb vm' ! i) \<and> physicalPage (vm_tlb vm' ! i) \<in> bm_used (mainMemoryMap vm') \<and>
          owner vm' (physicalPage (vm_tlb vm' ! i)) = (currentThread vm', virtualPage (vm_tlb vm' ! i)) else \<not> te_valid (vm_tlb vm' ! i)"
      using e l4 h own by simp
    moreover have "\<forall>i < 4. \<forall>j < 4. physicalPage (vm_tlb vm' ! i) \<ge> 0 \<and> physicalPage (vm_tlb vm' ! i) = physicalPage (vm_tlb vm' ! j) \<longrightarrow> i = j"
      using o e l4 unfolding tlb_ok_def by simp
    ultimately show ?thesis unfolding tlb_ok_def using len l4 by (metis in_set_conv_nth)
  qed
  moreover have "clean_ok exe vm'" using assms(2) p(1,2,5,6) h unfolding vm_inv_def clean_ok_def same by auto
  ultimately show ?thesis by (simp add: vm_inv_def)
qed

lemma use_eq_refl: "vm_inv exe vm \<Longrightarrow> use_eq vm vm"
  by (simp add: use_eq_def vm_inv_def sizes_ok_def)

lemma use_eq_trans: "use_eq vm vm1 \<Longrightarrow> use_eq vm1 vm2 \<Longrightarrow> use_eq vm vm2"
  by (simp add: use_eq_def)

lemma tlb_clock_spec:
  assumes "length ts = 4" "0 \<le> it" "it < 4"
  shows "\<exists>ts' it'. tlb_clock ts it = Inr (ts', it') \<and> map no_use ts' = map no_use ts \<and> 0 \<le> it' \<and> it' < 4 \<and> \<not> te_use (ts' ! nat it')"
  using assms
proof (induction ts it rule: tlb_clock.induct)
  case (1 ts it)
  let ?e = "ts ! nat it"
  have g: "arr_get ts it = Inr ?e" using "1.prems" by simp
  show ?case
  proof (cases "te_use ?e")
    case True
    let ?ts = "ts[nat it := ?e\<lparr>te_use := False\<rparr>]"
    have st: "arr_set ts it (?e\<lparr>te_use := False\<rparr>) = Inr ?ts" using "1.prems" by simp
    have same: "map no_use ?ts = map no_use ts"
    proof -
      have "no_use (?e\<lparr>te_use := False\<rparr>) = no_use ?e" by (simp add: no_use_def)
      then show ?thesis using "1.prems" by (simp add: map_update list_update_same_conv)
    qed
    have "tlb_clock ts it = tlb_clock ?ts ((it + 1) mod 4)" using g True st by (simp add: tlb_clock.simps [of ts it])
    then show ?thesis using "1.IH" [OF g True st] "1.prems" same by simp
  next
    case False
    then show ?thesis using g "1.prems" by (simp add: tlb_clock.simps [of ts it])
  qed
qed

lemma clear_use_eq:
  assumes "vm_inv exe vm" "has_pte vm t vp" "0 \<le> k" "k < 32"
  shows "use_eq vm ((put_pte t vp ((pte vm t vp)\<lparr>te_use := False\<rparr>) vm)\<lparr>mainMemoryIterator := k\<rparr>)"
  using assms by (auto simp: use_eq_def pte_put static_put no_use_def vm_inv_def sizes_ok_def)

lemma frame_clock_spec:
  assumes "vm_inv exe vm" "bm_used (mainMemoryMap vm) = {0..<32}"
  shows "\<exists>t VP vm1. frame_clock vm = Inr (t, VP, vm1) \<and> use_eq vm vm1 \<and> owner vm1 (mainMemoryIterator vm1) = (t, VP) \<and> vm_tlb vm1 = vm_tlb vm"
  using assms
proof (induction vm rule: frame_clock.induct)
  case (1 vm)
  let ?it = "mainMemoryIterator vm" and ?t = "fst (owner vm (mainMemoryIterator vm))" and ?VP = "snd (owner vm (mainMemoryIterator vm))"
  have it: "0 \<le> ?it" "?it < 32" "length (invertedTable vm) = 32" "length (invertedTableVP vm) = 32"
    using "1.prems"(1) by (simp_all add: vm_inv_def sizes_ok_def)
  have g: "arr_get (invertedTable vm) ?it = Inr ?t" "arr_get (invertedTableVP vm) ?it = Inr ?VP" using it by (simp_all add: owner_def)
  have hp: "has_pte vm ?t ?VP"
    using "1.prems" it(1,2) unfolding vm_inv_def frames_ok_def by (metis atLeastLessThan_iff prod.collapse)
  note p = get_pte_eq [OF hp]
  show ?case
  proof (cases "te_use (pte vm ?t ?VP)")
    case True
    let ?vm = "put_pte ?t ?VP ((pte vm ?t ?VP)\<lparr>te_use := False\<rparr>) vm"
    let ?vm' = "?vm\<lparr>mainMemoryIterator := (?it + 1) mod 32\<rparr>"
    have u: "upd_pte ?t ?VP (\<lambda>e. e\<lparr>te_use := False\<rparr>) vm = Inr ?vm" by (rule upd_pte_eq [OF hp])
    have ue: "use_eq vm ?vm'" by (rule clear_use_eq [OF "1.prems"(1) hp]) simp_all
    have "frame_clock vm = frame_clock ?vm'" using g p True u by (simp add: frame_clock.simps [of vm])
    moreover have "\<exists>t VP vm1. frame_clock ?vm' = Inr (t, VP, vm1) \<and> use_eq ?vm' vm1 \<and> owner vm1 (mainMemoryIterator vm1) = (t, VP) \<and> vm_tlb vm1 = vm_tlb ?vm'"
      using "1.IH" [OF g p True u use_eq_inv [OF ue "1.prems"(1)]] "1.prems"(2) by simp
    ultimately show ?thesis using use_eq_trans [OF ue] by auto
  next
    case False
    then show ?thesis using g p use_eq_refl [OF "1.prems"(1)] by (simp add: frame_clock.simps [of vm])
  qed
qed

section \<open>Evicting and loading a page\<close>

text \<open>What a step of the handler keeps for every thread.\<close>

definition keeps :: "(bytes \<Rightarrow> bytes option) \<Rightarrow> VM \<Rightarrow> VM \<Rightarrow> bool" where
  "keeps exe vm vm' \<longleftrightarrow> currentThread vm' = currentThread vm \<and>
     (\<forall>t vp. has_pte vm' t vp = has_pte vm t vp \<and> (has_pte vm t vp \<longrightarrow> content exe vm' t vp = content exe vm t vp \<and>
        static vm' t = static vm t \<and> readOnly (pte vm' t vp) = readOnly (pte vm t vp)))"

lemma keeps_trans: "keeps exe vm vm1 \<Longrightarrow> keeps exe vm1 vm2 \<Longrightarrow> keeps exe vm vm2"
  by (simp add: keeps_def)

lemma keeps_use_eq: "use_eq vm vm' \<Longrightarrow> keeps exe vm vm'"
  using use_eq_pages [of vm vm'] by (auto simp: keeps_def use_eq_def)

lemma frames_okD:
  assumes "vm_inv exe vm"
  shows "has_pte vm t vp \<Longrightarrow> te_valid (pte vm t vp) \<Longrightarrow> physicalPage (pte vm t vp) \<in> bm_used (mainMemoryMap vm) \<and> owner vm (physicalPage (pte vm t vp)) = (t, vp)"
    "f \<in> bm_used (mainMemoryMap vm) \<Longrightarrow> owner vm f = (t, vp) \<Longrightarrow> has_pte vm t vp \<and> te_valid (pte vm t vp) \<and> physicalPage (pte vm t vp) = f"
  using assms unfolding vm_inv_def frames_ok_def by blast+

lemma tlb_of_None: "tlb_of vm f = None \<longleftrightarrow> (\<forall>e \<in> set (vm_tlb vm). physicalPage e \<noteq> f)"
  by (auto simp: tlb_of_def find_None_iff)

lemma tlb_of_update [simp]:
  "tlb_of (put_pte t vp e vm) = tlb_of vm" "tlb_of (vm\<lparr>vm_mem := x1\<rparr>) = tlb_of vm" "tlb_of (vm\<lparr>SWAP := x2\<rparr>) = tlb_of vm"
  "tlb_of (vm\<lparr>SWAPmap := x3\<rparr>) = tlb_of vm" "tlb_of (vm\<lparr>mainMemoryMap := x4\<rparr>) = tlb_of vm" "tlb_of (vm\<lparr>mainMemoryIterator := x5\<rparr>) = tlb_of vm"
  "tlb_of (vm\<lparr>invertedTable := x6\<rparr>) = tlb_of vm" "tlb_of (vm\<lparr>invertedTableVP := x7\<rparr>) = tlb_of vm"
  by (simp_all add: fun_eq_iff tlb_of_def)

end
