(* ===== verification/VM_Faults.thy ===== *)
theory VM_Faults
  imports Virtual_Memory
begin

text \<open>
  The page fault handler keeps the invariant \<open>vm_inv\<close> and the contents of every page: evicting a page from memory (\<open>evict\<close>), loading one
  into a free frame (\<open>fill\<close>), exchanging an entry of the TLB (\<open>tlb_replace\<close>), and the functions of
  \<open>userprog/exception.cc\<close> composed of them, up to the handler (\<open>page_fault_ok\<close>).
\<close>

section \<open>Evicting and loading\<close>


lemma evict:
  assumes inv: "vm_inv exe vm" and own: "owner vm f = (t, VP)" and f: "f \<in> bm_used (mainMemoryMap vm)" and out: "tlb_of vm f = None"
    and vm': "vm' = (put_pte t VP ((pte vm t VP)\<lparr>te_valid := False, physicalPage := q\<rparr>) vm)\<lparr>SWAP := sw, SWAPmap := sm, mainMemoryMap := mm, mainMemoryIterator := k\<rparr>"
    and mm: "bm_inv mm" "numBits mm = 32" "bm_used mm = bm_used (mainMemoryMap vm) - {f}" and k: "0 \<le> k" "k < 32"
    and sm: "bm_inv sm" "numBits sm = 64" "bm_used (SWAPmap vm) \<subseteq> bm_used sm" and sw: "length sw = 8192"
    and keep: "\<And>j. j \<in> bm_used (SWAPmap vm) \<Longrightarrow> swap_page vm' j = swap_page vm j"
    and dirty: "te_dirty (pte vm t VP) \<Longrightarrow> q \<in> bm_used sm \<and> q \<notin> bm_used (SWAPmap vm) \<and> swap_page vm' q = frame (vm_mem vm) f"
  shows "vm_inv exe vm'" "keeps exe vm vm'" "\<And>s v. has_pte vm s v \<Longrightarrow> \<not> te_valid (pte vm s v) \<Longrightarrow> pte vm' s v = pte vm s v"
proof -
  let ?p = "pte vm t VP"
  have hp: "has_pte vm t VP" "te_valid ?p" "physicalPage ?p = f" using frames_okD(2) [OF inv f own] by simp_all
  have has: "has_pte vm' = has_pte vm" by (intro ext) (simp add: vm')
  have pt: "pte vm' s v = (if s = t \<and> v = VP then ?p\<lparr>te_valid := False, physicalPage := q\<rparr> else pte vm s v)" if "has_pte vm s v" for s v
    using that hp(1) by (simp add: vm' pte_put)
  have stat: "static vm' s = static vm s" if "has_pte vm s v" for s v using static_put [OF that] by (simp add: vm')
  have sel: "vm_mem vm' = vm_mem vm" "vm_tlb vm' = vm_tlb vm" "currentThread vm' = currentThread vm" "mainMemoryMap vm' = mm" "SWAPmap vm' = sm"
    "SWAP vm' = sw" "owner vm' = owner vm" "tlb_of vm' = tlb_of vm" by (simp_all add: vm' owner_def fun_eq_iff)
  have others: "physicalPage (pte vm s v) \<noteq> f" if "has_pte vm s v" "te_valid (pte vm s v)" "\<not> (s = t \<and> v = VP)" for s v
    using frames_okD(1) [OF inv that(1,2)] own that(3) by auto
  have pd: "page_dirty vm' s v = page_dirty vm s v" if "has_pte vm s v" for s v
    using that pt [OF that] hp out by (auto simp: page_dirty_def Let_def sel(8))
  have bk: "backing exe vm' s v = backing exe vm s v" if "has_pte vm s v" for s v
    using pt [OF that] stat [OF that] by (auto simp: backing_def)
  have dp: "page_dirty vm t VP = te_dirty ?p" using hp out by (simp add: page_dirty_def Let_def)
  show inval: "pte vm' s v = pte vm s v" if "has_pte vm s v" "\<not> te_valid (pte vm s v)" for s v
    using pt [OF that(1)] that(2) hp(2) by auto
  have swp: "swapped vm' s v \<longleftrightarrow> swapped vm s v \<or> s = t \<and> v = VP \<and> te_dirty ?p" for s v
    using pt [of s v] hp(1,2) by (auto simp: swapped_def has split: if_splits)
  have so: "swap_ok vm" using inv by (simp add: vm_inv_def)
  have ph: "physicalPage (pte vm' s v) \<in> bm_used (SWAPmap vm) \<and> physicalPage (pte vm' s v) = physicalPage (pte vm s v)" if "swapped vm s v" for s v
  proof -
    have "pte vm' s v = pte vm s v" using that inval by (simp add: swapped_def)
    then show ?thesis using so that by (simp add: swap_ok_def)
  qed
  have new: "physicalPage (pte vm' t VP) = q" using pt [OF hp(1)] by simp
  have "sizes_ok vm'" using inv mm k sm sw by (auto simp: vm_inv_def sizes_ok_def vm')
  moreover have "frames_ok vm'"
    unfolding frames_ok_def sel has
  proof (intro conjI allI impI ballI)
    fix s v assume a: "has_pte vm s v \<and> te_valid (pte vm' s v)"
    then have b: "te_valid (pte vm s v)" "pte vm' s v = pte vm s v" "\<not> (s = t \<and> v = VP)" using pt [of s v] by (auto split: if_splits)
    show "physicalPage (pte vm' s v) \<in> bm_used mm" "owner vm (physicalPage (pte vm' s v)) = (s, v)"
      using frames_okD(1) [OF inv, of s v] others [of s v] a b mm(3) by auto
  next
    fix g s v assume g: "g \<in> bm_used mm" "owner vm g = (s, v)"
    then have "has_pte vm s v \<and> te_valid (pte vm s v) \<and> physicalPage (pte vm s v) = g" using frames_okD(2) [OF inv] mm(3) by blast
    moreover have "\<not> (s = t \<and> v = VP)" using calculation g(1) hp(3) mm(3) by auto
    ultimately show "has_pte vm s v" "te_valid (pte vm' s v)" "physicalPage (pte vm' s v) = g" using pt [of s v] by auto
  qed
  moreover have "swap_ok vm'"
    unfolding swap_ok_def sel
  proof (intro conjI allI impI)
    fix s v assume "swapped vm' s v"
    then show "physicalPage (pte vm' s v) \<in> bm_used sm" using ph [of s v] new dirty sm(3) unfolding swp by auto
  next
    fix s v s' v' assume a: "swapped vm' s v \<and> swapped vm' s' v' \<and> physicalPage (pte vm' s v) = physicalPage (pte vm' s' v')"
    have "s = s' \<and> v = v'"
    proof (cases "swapped vm s v"; cases "swapped vm s' v'")
      assume "swapped vm s v" "swapped vm s' v'"
      then show ?thesis using ph a so unfolding swap_ok_def by metis
    next
      assume "swapped vm s v" "\<not> swapped vm s' v'"
      then show ?thesis using ph [of s v] new dirty a swp [of s' v'] by auto
    next
      assume "\<not> swapped vm s v" "swapped vm s' v'"
      then show ?thesis using ph [of s' v'] new dirty a swp [of s v] by auto
    next
      assume "\<not> swapped vm s v" "\<not> swapped vm s' v'"
      then show ?thesis using a swp [of s v] swp [of s' v'] by blast
    qed
    then show "s = s'" "v = v'" by blast+
  qed
  moreover have "tlb_ok vm'"
    using inv out unfolding vm_inv_def tlb_ok_def sel mm(3) tlb_of_None by auto
  moreover have "clean_ok exe vm'"
    unfolding clean_ok_def sel has
  proof (intro allI impI)
    fix s v assume a: "has_pte vm s v \<and> te_valid (pte vm' s v) \<and> \<not> page_dirty vm' s v"
    then have "pte vm' s v = pte vm s v" using pt [of s v] by (auto split: if_splits)
    then show "take (length (backing exe vm' s v)) (frame (vm_mem vm) (physicalPage (pte vm' s v))) = backing exe vm' s v"
      using inv a pd [of s v] bk [of s v] unfolding vm_inv_def clean_ok_def by simp
  qed
  ultimately show "vm_inv exe vm'" by (simp add: vm_inv_def)
  have "content exe vm' s v = content exe vm s v" if h: "has_pte vm s v" for s v
  proof (cases "s = t \<and> v = VP")
    case True
    then show ?thesis using pt [OF h] pd [OF h] bk [OF h] hp dp dirty by (auto simp: content_def)
  next
    case False
    then have e: "pte vm' s v = pte vm s v" using pt [OF h] by auto
    have "swap_page vm' (physicalPage (pte vm s v)) = swap_page vm (physicalPage (pte vm s v))" if "\<not> te_valid (pte vm s v)" "page_dirty vm s v"
      using keep so that h by (auto simp: swap_ok_def swapped_def page_dirty_def Let_def)
    then show ?thesis using pd [OF h] bk [OF h] e by (auto simp: content_def sel)
  qed
  moreover have "readOnly (pte vm' s v) = readOnly (pte vm s v)" if "has_pte vm s v" for s v using pt [OF that] by auto
  ultimately show "keeps exe vm vm'" using stat sel(3) by (auto simp: keeps_def has)
qed

lemma fill:
  assumes inv: "vm_inv exe vm" and f: "0 \<le> f" "f < 32" "f \<notin> bm_used (mainMemoryMap vm)"
    and t: "t = currentThread vm" "has_pte vm t vp" "\<not> te_valid (pte vm t vp)"
    and vm': "vm' = (put_pte t vp ((pte vm t vp)\<lparr>physicalPage := f, te_valid := True\<rparr>) vm)\<lparr>vm_mem := mem, SWAPmap := sm, mainMemoryMap := mm,
      invertedTable := (invertedTable vm)[nat f := t], invertedTableVP := (invertedTableVP vm)[nat f := vp]\<rparr>"
    and mm: "bm_inv mm" "numBits mm = 32" "bm_used mm = insert f (bm_used (mainMemoryMap vm))"
    and mem: "length mem = 4096" "\<And>g. 0 \<le> g \<Longrightarrow> g < 32 \<Longrightarrow> g \<noteq> f \<Longrightarrow> frame mem g = frame (vm_mem vm) g"
    and load: "take (length (content exe vm t vp)) (frame mem f) = content exe vm t vp" "te_dirty (pte vm t vp) \<Longrightarrow> frame mem f = content exe vm t vp"
    and sm: "bm_inv sm" "numBits sm = 64" "bm_used sm = bm_used (SWAPmap vm) - (if te_dirty (pte vm t vp) then {physicalPage (pte vm t vp)} else {})"
  shows "vm_inv exe vm'" "keeps exe vm vm'" "has_pte vm' t vp \<and> te_valid (pte vm' t vp)" "vm_tlb vm' = vm_tlb vm"
proof -
  let ?p = "pte vm t vp"
  have has: "has_pte vm' = has_pte vm" by (intro ext) (simp add: vm')
  have pt: "pte vm' s v = (if s = t \<and> v = vp then ?p\<lparr>physicalPage := f, te_valid := True\<rparr> else pte vm s v)" if "has_pte vm s v" for s v
    using that t(2) by (simp add: vm' pte_put)
  have stat: "static vm' s = static vm s" if "has_pte vm s v" for s v using static_put [OF that] by (simp add: vm')
  have sel: "vm_mem vm' = mem" "vm_tlb vm' = vm_tlb vm" "currentThread vm' = currentThread vm" "mainMemoryMap vm' = mm" "SWAPmap vm' = sm"
    "SWAP vm' = SWAP vm" "tlb_of vm' = tlb_of vm" by (simp_all add: vm')
  show "vm_tlb vm' = vm_tlb vm" by (rule sel)
  show "has_pte vm' t vp \<and> te_valid (pte vm' t vp)" using pt [OF t(2)] t(2) by (simp add: has)
  have sz: "length (invertedTable vm) = 32" "length (invertedTableVP vm) = 32" using inv by (simp_all add: vm_inv_def sizes_ok_def)
  have own: "owner vm' g = (if g = f then (t, vp) else owner vm g)" if "0 \<le> g" "g < 32" for g
    using that f(1,2) sz by (auto simp: owner_def vm' nth_list_update eq_nat_nat_iff)
  have rng: "0 \<le> g \<and> g < 32 \<and> g \<noteq> f" if "g \<in> bm_used (mainMemoryMap vm)" for g
    using that f(3) inv by (auto simp: bm_used_def vm_inv_def sizes_ok_def)
  have out: "tlb_of vm f = None"
  proof -
    have "tlb_ok vm" using inv by (simp add: vm_inv_def)
    then show ?thesis unfolding tlb_of_None tlb_ok_def using f(1,3) by (metis (full_types))
  qed
  have others: "physicalPage (pte vm s v) \<in> bm_used (mainMemoryMap vm)" "owner vm (physicalPage (pte vm s v)) = (s, v)"
    if "has_pte vm s v" "te_valid (pte vm s v)" for s v using frames_okD(1) [OF inv that] by simp_all
  have pd: "page_dirty vm' s v = page_dirty vm s v" if "has_pte vm s v" for s v
    using that pt [OF that] t(3) out by (auto simp: page_dirty_def Let_def sel(7))
  have bk: "backing exe vm' s v = backing exe vm s v" if "has_pte vm s v" for s v
    using pt [OF that] stat [OF that] by (auto simp: backing_def)
  have dp: "page_dirty vm t vp = te_dirty ?p" using t(3) by (simp add: page_dirty_def Let_def)
  have so: "swap_ok vm" using inv by (simp add: vm_inv_def)
  have swp: "swapped vm' s v \<longleftrightarrow> swapped vm s v \<and> \<not> (s = t \<and> v = vp)" for s v
    using pt [of s v] by (auto simp: swapped_def has split: if_splits)
  have swe: "pte vm' s v = pte vm s v" if "swapped vm' s v" for s v
    using that pt [of s v] by (auto simp: swapped_def has split: if_splits)
  have "sizes_ok vm'" using inv mm sm mem(1) by (auto simp: vm_inv_def sizes_ok_def vm')
  moreover have "frames_ok vm'"
    unfolding frames_ok_def sel has
  proof (intro conjI allI impI ballI)
    fix s v assume a: "has_pte vm s v \<and> te_valid (pte vm' s v)"
    show "physicalPage (pte vm' s v) \<in> bm_used mm" "owner vm' (physicalPage (pte vm' s v)) = (s, v)"
      using a pt [of s v] others [of s v] rng [of "physicalPage (pte vm s v)"] own f(1,2) mm(3) by (auto split: if_splits)
  next
    fix g s v assume g: "g \<in> bm_used mm" "owner vm' g = (s, v)"
    show "has_pte vm s v" "te_valid (pte vm' s v)" "physicalPage (pte vm' s v) = g"
    proof (atomize (full), cases "g = f")
      case True
      then have "(s, v) = (t, vp)" using g(2) own [of f] f by simp
      then show "has_pte vm s v \<and> te_valid (pte vm' s v) \<and> physicalPage (pte vm' s v) = g" using t(2) pt [OF t(2)] True by simp
    next
      case False
      then have u: "g \<in> bm_used (mainMemoryMap vm)" "owner vm g = (s, v)" using g mm(3) own rng by auto
      note h = frames_okD(2) [OF inv u]
      then have "\<not> (s = t \<and> v = vp)" using t(3) by auto
      then show "has_pte vm s v \<and> te_valid (pte vm' s v) \<and> physicalPage (pte vm' s v) = g" using h pt [of s v] by auto
    qed
  qed
  moreover have "swap_ok vm'"
    unfolding swap_ok_def sel
  proof (intro conjI allI impI)
    fix s v assume a: "swapped vm' s v"
    then have b: "swapped vm s v" "\<not> (s = t \<and> v = vp)" "pte vm' s v = pte vm s v" using swp swe by auto
    have "physicalPage (pte vm s v) \<noteq> physicalPage ?p" if "te_dirty ?p"
    proof -
      have "swapped vm t vp" using t that by (simp add: swapped_def)
      then show ?thesis using so b(1,2) unfolding swap_ok_def by metis
    qed
    then show "physicalPage (pte vm' s v) \<in> bm_used sm" using so b(1,3) sm(3) by (auto simp: swap_ok_def)
  next
    fix s v s' v' assume a: "swapped vm' s v \<and> swapped vm' s' v' \<and> physicalPage (pte vm' s v) = physicalPage (pte vm' s' v')"
    then have "swapped vm s v" "swapped vm s' v'" "physicalPage (pte vm s v) = physicalPage (pte vm s' v')" using swp swe by auto
    then show "s = s'" "v = v'" using so unfolding swap_ok_def by metis+
  qed
  moreover have "tlb_ok vm'"
  proof -
    have o: "tlb_ok vm" using inv by (simp add: vm_inv_def)
    have "owner vm' (physicalPage e) = owner vm (physicalPage e)" if "e \<in> set (vm_tlb vm)" "physicalPage e \<ge> 0" for e
      using o that own rng unfolding tlb_ok_def by (metis (full_types))
    then show ?thesis using o unfolding tlb_ok_def sel mm(3) by auto
  qed
  moreover have "clean_ok exe vm'"
    unfolding clean_ok_def sel has
  proof (intro allI impI)
    fix s v assume a: "has_pte vm s v \<and> te_valid (pte vm' s v) \<and> \<not> page_dirty vm' s v"
    show "take (length (backing exe vm' s v)) (frame mem (physicalPage (pte vm' s v))) = backing exe vm' s v"
    proof (cases "s = t \<and> v = vp")
      case True
      then show ?thesis using a load(1) pt [of s v] pd [of s v] bk [of s v] by (simp add: content_def)
    next
      case False
      then have e: "pte vm' s v = pte vm s v" using a pt [of s v] by auto
      then have "frame mem (physicalPage (pte vm s v)) = frame (vm_mem vm) (physicalPage (pte vm s v))"
        using mem(2) others [of s v] rng a by auto
      then show ?thesis using inv a pd [of s v] bk [of s v] e unfolding vm_inv_def clean_ok_def by simp
    qed
  qed
  ultimately show "vm_inv exe vm'" by (simp add: vm_inv_def)
  have "content exe vm' s v = content exe vm s v" if h: "has_pte vm s v" for s v
  proof (cases "s = t \<and> v = vp")
    case True
    then show ?thesis using pt [OF h] pd [OF h] bk [OF h] dp load(2) by (auto simp: content_def sel)
  next
    case False
    then have e: "pte vm' s v = pte vm s v" using pt [OF h] by auto
    then have "te_valid (pte vm s v) \<Longrightarrow> frame mem (physicalPage (pte vm s v)) = frame (vm_mem vm) (physicalPage (pte vm s v))"
      using mem(2) others [OF h] rng by auto
    then show ?thesis using pd [OF h] bk [OF h] e by (auto simp: content_def sel swap_page_def)
  qed
  moreover have "readOnly (pte vm' s v) = readOnly (pte vm s v)" if "has_pte vm s v" for s v using pt [OF that] by auto
  ultimately show "keeps exe vm vm'" using stat sel(3) by (auto simp: keeps_def has)
qed

section \<open>Changing the TLB\<close>

lemma tlb_okD:
  assumes "vm_inv exe vm"
  shows "e \<in> set (vm_tlb vm) \<Longrightarrow> physicalPage e \<ge> 0 \<Longrightarrow> te_valid e \<and> physicalPage e \<in> bm_used (mainMemoryMap vm) \<and>
      owner vm (physicalPage e) = (currentThread vm, virtualPage e)"
    "e \<in> set (vm_tlb vm) \<Longrightarrow> \<not> physicalPage e \<ge> 0 \<Longrightarrow> \<not> te_valid e"
    "i < 4 \<Longrightarrow> j < 4 \<Longrightarrow> physicalPage (vm_tlb vm ! i) \<ge> 0 \<Longrightarrow> physicalPage (vm_tlb vm ! i) = physicalPage (vm_tlb vm ! j) \<Longrightarrow> i = j"
    "length (vm_tlb vm) = 4"
  using assms unfolding vm_inv_def tlb_ok_def sizes_ok_def by (metis, metis, metis, metis)

lemma tlb_of_in: "tlb_of vm g = Some y \<Longrightarrow> y \<in> set (vm_tlb vm) \<and> physicalPage y = g"
  by (auto simp: tlb_of_def find_Some_iff)

lemma tlb_of_unique:
  assumes "tlb_ok vm" "length (vm_tlb vm) = 4" "0 \<le> g"
  shows "tlb_of vm g = Some x \<longleftrightarrow> x \<in> set (vm_tlb vm) \<and> physicalPage x = g"
proof
  assume x: "x \<in> set (vm_tlb vm) \<and> physicalPage x = g"
  show "tlb_of vm g = Some x"
  proof (cases "tlb_of vm g")
    case None
    then show ?thesis using x unfolding tlb_of_None by blast
  next
    case (Some y)
    then have y: "y \<in> set (vm_tlb vm)" "physicalPage y = g" using tlb_of_in by blast+
    obtain i j where "i < 4" "j < 4" "vm_tlb vm ! i = x" "vm_tlb vm ! j = y" using x y(1) assms(2) by (metis in_set_conv_nth)
    then have "x = y" using assms(1,3) x y(2) unfolding tlb_ok_def by metis
    then show ?thesis using Some by simp
  qed
qed (rule tlb_of_in)

lemma tlb_of_Some: "vm_inv exe vm \<Longrightarrow> 0 \<le> g \<Longrightarrow> tlb_of vm g = Some x \<longleftrightarrow> x \<in> set (vm_tlb vm) \<and> physicalPage x = g"
  by (rule tlb_of_unique) (auto simp: vm_inv_def sizes_ok_def)

lemma tlb_replace:
  assumes inv: "vm_inv exe vm" and cur: "t = currentThread vm" and vpn: "has_pte vm t vpn" "te_valid (pte vm t vpn)"
    and miss: "\<forall>e \<in> set (vm_tlb vm). \<not> (te_valid e \<and> virtualPage e = vpn)" and i: "i < 4"
    and vm1: "vm1 = (let v = vm_tlb vm ! i in if physicalPage v \<ge> 0
        then put_pte t (virtualPage v) ((pte vm t (virtualPage v))\<lparr>physicalPage := physicalPage v, te_valid := te_valid v, te_use := u, te_dirty := te_dirty v\<rparr>) vm
        else vm)"
    and e: "e = \<lparr>virtualPage = vpn, physicalPage = physicalPage (pte vm1 t vpn), te_valid = True, readOnly = readOnly (pte vm1 t vpn),
       te_use = True, te_dirty = te_dirty (pte vm1 t vpn)\<rparr>"
    and vm': "vm' = vm1\<lparr>vm_tlb := (vm_tlb vm)[i := e]\<rparr>"
  shows "vm_inv exe vm'" "keeps exe vm vm'" "has_pte vm' t vpn" "te_valid (pte vm' t vpn)" "physicalPage e = physicalPage (pte vm' t vpn)"
proof -
  let ?v = "vm_tlb vm ! i" and ?VP = "virtualPage (vm_tlb vm ! i)"
  have l4: "length (vm_tlb vm) = 4" by (rule tlb_okD(4) [OF inv])
  then have vin: "?v \<in> set (vm_tlb vm)" using i by simp
  have v: "te_valid ?v" "physicalPage ?v \<in> bm_used (mainMemoryMap vm)" "owner vm (physicalPage ?v) = (t, ?VP)"
    "has_pte vm t ?VP" "te_valid (pte vm t ?VP)" "physicalPage (pte vm t ?VP) = physicalPage ?v" "?VP \<noteq> vpn" if "physicalPage ?v \<ge> 0"
    using tlb_okD(1) [OF inv vin that] frames_okD(2) [OF inv, of "physicalPage ?v" t ?VP] miss vin cur by auto
  have has: "has_pte vm' = has_pte vm" by (intro ext) (simp add: vm' vm1 Let_def)
  have pt: "pte vm' s w = (if physicalPage ?v \<ge> 0 \<and> s = t \<and> w = ?VP then (pte vm s w)\<lparr>te_use := u, te_dirty := te_dirty ?v\<rparr> else pte vm s w)"
    if "has_pte vm s w" for s w
  proof (cases "physicalPage ?v \<ge> 0 \<and> s = t \<and> w = ?VP")
    case True
    then have "pte vm' s w = (pte vm t ?VP)\<lparr>physicalPage := physicalPage ?v, te_valid := te_valid ?v, te_use := u, te_dirty := te_dirty ?v\<rparr>"
      using v(4) by (simp add: vm' vm1 Let_def pte_put)
    also have "\<dots> = (pte vm t ?VP)\<lparr>te_use := u, te_dirty := te_dirty ?v\<rparr>" using v(1,5,6) True by (cases "pte vm t ?VP") simp
    finally show ?thesis using True by simp
  next
    case False
    then show ?thesis using v(4) that by (auto simp: vm' vm1 Let_def pte_put)
  qed
  have stat: "static vm' s = static vm s" if "has_pte vm s w" for s w using static_put [OF that] by (simp add: vm' vm1 Let_def)
  have sel: "vm_mem vm' = vm_mem vm" "vm_tlb vm' = (vm_tlb vm)[i := e]" "currentThread vm' = currentThread vm" "mainMemoryMap vm' = mainMemoryMap vm"
    "SWAPmap vm' = SWAPmap vm" "SWAP vm' = SWAP vm" "owner vm' = owner vm" by (simp_all add: vm' vm1 Let_def owner_def fun_eq_iff)
  have same: "te_valid (pte vm' s w) = te_valid (pte vm s w)" "physicalPage (pte vm' s w) = physicalPage (pte vm s w)" "readOnly (pte vm' s w) = readOnly (pte vm s w)"
    if "has_pte vm s w" for s w using pt [OF that] by simp_all
  have inval: "pte vm' s w = pte vm s w" if "has_pte vm s w" "\<not> te_valid (pte vm s w)" for s w using pt [OF that(1)] that(2) v(5) by auto
  have pv: "pte vm1 t vpn = pte vm t vpn" using v(4,7) vpn(1) by (auto simp: vm1 Let_def pte_put)
  then have ee: "physicalPage e = physicalPage (pte vm t vpn)" "te_dirty e = te_dirty (pte vm t vpn)" "te_valid e" "virtualPage e = vpn" by (simp_all add: e)
  have fe: "physicalPage e \<in> bm_used (mainMemoryMap vm)" "owner vm (physicalPage e) = (t, vpn)" "0 \<le> physicalPage e"
    using frames_okD(1) [OF inv vpn] by (auto simp: ee bm_used_def)
  have newp: "physicalPage x \<noteq> physicalPage e" if "x \<in> set (vm_tlb vm)" for x
    using tlb_okD(1) [OF inv that] miss that fe by (cases "physicalPage x \<ge> 0") auto
  show "has_pte vm' t vpn" "te_valid (pte vm' t vpn)" "physicalPage e = physicalPage (pte vm' t vpn)"
    using vpn same [OF vpn(1)] ee by (simp_all add: has)
  have nth: "vm_tlb vm' ! j = (if j = i then e else vm_tlb vm ! j)" if "j < 4" for j using that i l4 by (simp add: sel)
  have len': "length (vm_tlb vm') = 4" using l4 by (simp add: sel)
  have tin: "x \<in> set (vm_tlb vm') \<longleftrightarrow> (\<exists>j < 4. x = (if j = i then e else vm_tlb vm ! j))" for x
    using nth len' by (metis in_set_conv_nth)
  have tok: "tlb_ok vm'"
    unfolding tlb_ok_def sel(3,4,7)
  proof (intro conjI ballI allI impI)
    fix x assume "x \<in> set (vm_tlb vm')"
    then obtain j where j: "j < 4" "x = (if j = i then e else vm_tlb vm ! j)" unfolding tin by blast
    show "if 0 \<le> physicalPage x then te_valid x \<and> physicalPage x \<in> bm_used (mainMemoryMap vm) \<and> owner vm (physicalPage x) = (currentThread vm, virtualPage x)
      else \<not> te_valid x"
    proof (cases "j = i")
      case True
      then show ?thesis using j(2) ee fe cur by simp
    next
      case False
      then have "x \<in> set (vm_tlb vm)" using j l4 by simp
      then show ?thesis using tlb_okD(1,2) [OF inv] by simp
    qed
  next
    fix j k assume a: "j < 4" "k < 4" "0 \<le> physicalPage (vm_tlb vm' ! j) \<and> physicalPage (vm_tlb vm' ! j) = physicalPage (vm_tlb vm' ! k)"
    have "vm_tlb vm ! j \<in> set (vm_tlb vm)" "vm_tlb vm ! k \<in> set (vm_tlb vm)" using a l4 by simp_all
    then show "j = k" using a nth newp tlb_okD(3) [OF inv, of j k] by (auto split: if_splits)
  qed
  have dirty: "page_dirty vm' s w = page_dirty vm s w" if h: "has_pte vm s w" for s w
  proof (cases "te_valid (pte vm s w)")
    case False
    then show ?thesis using inval [OF h False] by (simp add: page_dirty_def Let_def)
  next
    case True
    let ?g = "physicalPage (pte vm s w)"
    have g: "?g \<in> bm_used (mainMemoryMap vm)" "owner vm ?g = (s, w)" "0 \<le> ?g" using frames_okD(1) [OF inv h True] by (auto simp: bm_used_def)
    have fnd: "tlb_of vm' ?g = (if ?g = physicalPage e then Some e else if ?g = physicalPage ?v then None else tlb_of vm ?g)"
    proof -
      have uniq: "tlb_of vm' ?g = Some x" if "x \<in> set (vm_tlb vm')" "physicalPage x = ?g" for x
        using tlb_of_unique [OF tok len' g(3), of x] that by blast
      consider "?g = physicalPage e" | "?g \<noteq> physicalPage e" "?g = physicalPage ?v" | "?g \<noteq> physicalPage e" "?g \<noteq> physicalPage ?v" by blast
      then show ?thesis
      proof cases
        case 1
        moreover have "e \<in> set (vm_tlb vm')" unfolding tin using i by (intro exI [of _ i]) simp
        ultimately show ?thesis using uniq [of e] by simp
      next
        case 2
        have "physicalPage x \<noteq> ?g" if "x \<in> set (vm_tlb vm')" for x
        proof -
          obtain j where j: "j < 4" "x = (if j = i then e else vm_tlb vm ! j)" using \<open>x \<in> set (vm_tlb vm')\<close> unfolding tin by blast
          show ?thesis
          proof (cases "j = i")
            case True
            then show ?thesis using 2(1) j(2) by metis
          next
            case False
            then have "physicalPage ?v \<noteq> physicalPage (vm_tlb vm ! j)" using tlb_okD(3) [OF inv i j(1)] g(3) 2(2) by metis
            then show ?thesis using j(2) False 2(2) by metis
          qed
        qed
        then show ?thesis using 2 by (simp add: tlb_of_None)
      next
        case 3
        have mem: "x \<in> set (vm_tlb vm') \<and> physicalPage x = ?g \<longleftrightarrow> x \<in> set (vm_tlb vm) \<and> physicalPage x = ?g" for x
          unfolding tin using 3 l4 by (auto simp: in_set_conv_nth split: if_splits)
        show ?thesis
        proof (cases "tlb_of vm ?g")
          case None
          then have "tlb_of vm' ?g = None" using mem unfolding tlb_of_None by blast
          then show ?thesis using 3 None by simp
        next
          case (Some x)
          then have "x \<in> set (vm_tlb vm) \<and> physicalPage x = ?g" using tlb_of_Some [OF inv g(3)] by blast
          then show ?thesis using 3 Some uniq [of x] mem by auto
        qed
      qed
    qed
    consider "?g = physicalPage e" | "?g \<noteq> physicalPage e" "?g = physicalPage ?v" | "?g \<noteq> physicalPage e" "?g \<noteq> physicalPage ?v" by blast
    then show ?thesis
    proof cases
      case 1
      then have sw: "s = t" "w = vpn" using g(2) fe(2) by auto
      have "tlb_of vm ?g = None" using newp 1 by (simp add: tlb_of_None)
      then show ?thesis using 1 fnd same [OF h] True ee sw by (simp add: page_dirty_def Let_def)
    next
      case 2
      then have sw: "s = t" "w = ?VP" "physicalPage ?v \<ge> 0" using g v(3) by auto
      have "tlb_of vm ?g = Some ?v" using tlb_of_Some [OF inv g(3)] vin 2 by simp
      then show ?thesis using 2 fnd same [OF h] True pt [OF h] sw by (simp add: page_dirty_def Let_def)
    next
      case 3
      have "pte vm' s w = pte vm s w" using pt [OF h] 3(2) v(6) by auto
      then show ?thesis using 3 fnd True by (simp add: page_dirty_def Let_def)
    qed
  qed
  have bk: "backing exe vm' s w = backing exe vm s w" if "has_pte vm s w" for s w using same [OF that] stat [OF that] by (simp add: backing_def)
  have "sizes_ok vm'" using inv l4 by (auto simp: vm_inv_def sizes_ok_def vm' vm1 Let_def)
  moreover have "frames_ok vm'" using inv same unfolding vm_inv_def frames_ok_def sel has by auto
  moreover have "swap_ok vm'"
  proof -
    have "swapped vm' s w \<longleftrightarrow> swapped vm s w" for s w using same inval pt [of s w] v(5) by (auto simp: swapped_def has split: if_splits)
    moreover have "pte vm' s w = pte vm s w" if "swapped vm s w" for s w using that inval by (simp add: swapped_def)
    ultimately show ?thesis using inv unfolding vm_inv_def swap_ok_def sel by auto
  qed
  moreover have "clean_ok exe vm'" using inv same dirty bk unfolding vm_inv_def clean_ok_def sel has by auto
  ultimately show "vm_inv exe vm'" using tok by (simp add: vm_inv_def)
  have "content exe vm' s w = content exe vm s w" if "has_pte vm s w" for s w
    using same [OF that] dirty [OF that] bk [OF that] by (simp add: content_def sel swap_page_def)
  then show "keeps exe vm vm'" using stat same sel(3) by (auto simp: keeps_def has)
qed

lemma updateTLB_ok:
  assumes inv: "vm_inv exe vm" and cur: "t = currentThread vm" and vpn: "has_pte vm t vpn" "te_valid (pte vm t vpn)"
    and miss: "\<forall>e \<in> set (vm_tlb vm). \<not> (te_valid e \<and> virtualPage e = vpn)"
  shows "\<exists>vm'. updateTLB vpn vm = Inr vm' \<and> vm_inv exe vm' \<and> keeps exe vm vm' \<and> te_valid (pte vm' t vpn) \<and>
           (\<exists>e \<in> set (vm_tlb vm'). te_valid e \<and> virtualPage e = vpn \<and> physicalPage e = physicalPage (pte vm' t vpn))"
proof -
  have sz: "length (vm_tlb vm) = 4" "0 \<le> tlbIterator vm" "tlbIterator vm < 4" using inv by (simp_all add: vm_inv_def sizes_ok_def)
  from tlb_clock_spec [OF sz] obtain ts it where ts: "tlb_clock (vm_tlb vm) (tlbIterator vm) = Inr (ts, it)" "map no_use ts = map no_use (vm_tlb vm)"
    "0 \<le> it" "it < 4" "\<not> te_use (ts ! nat it)" by blast
  let ?vm0 = "vm\<lparr>vm_tlb := ts, tlbIterator := it\<rparr>"
  have ue: "use_eq vm ?vm0" using ts(2-4) inv by (simp add: use_eq_def vm_inv_def sizes_ok_def)
  have inv0: "vm_inv exe ?vm0" by (rule use_eq_inv [OF ue inv])
  have k0: "keeps exe vm ?vm0" by (rule keeps_use_eq [OF ue])
  have lts: "length ts = 4" using ts(2) sz(1) by (metis length_map)
  have miss0: "\<forall>e \<in> set ts. \<not> (te_valid e \<and> virtualPage e = vpn)"
  proof
    fix e assume "e \<in> set ts"
    then obtain k where k: "k < 4" "e = ts ! k" using lts by (metis in_set_conv_nth)
    then have "no_use e = no_use (vm_tlb vm ! k)" using ts(2) lts sz(1) by (metis nth_map)
    moreover have "vm_tlb vm ! k \<in> set (vm_tlb vm)" using k(1) sz(1) by simp
    ultimately show "\<not> (te_valid e \<and> virtualPage e = vpn)" using miss no_use_eq [of e "vm_tlb vm ! k"] by auto
  qed
  define v where "v = ts ! nat it"
  define vm1 where "vm1 = (if physicalPage v \<ge> 0 then put_pte t (virtualPage v) ((pte ?vm0 t (virtualPage v))
      \<lparr>physicalPage := physicalPage v, te_valid := te_valid v, te_use := te_use v, te_dirty := te_dirty v\<rparr>) ?vm0 else ?vm0)"
  define e where "e = \<lparr>virtualPage = vpn, physicalPage = physicalPage (pte vm1 t vpn), te_valid = True, readOnly = readOnly (pte vm1 t vpn),
       te_use = True, te_dirty = te_dirty (pte vm1 t vpn)\<rparr>"
  have n4: "nat it < 4" using ts(3,4) by simp
  have vin: "v \<in> set (vm_tlb ?vm0)" using lts n4 by (simp add: v_def)
  note tr = tlb_replace [OF inv0, of t vpn "nat it" vm1 "te_use v" e "vm1\<lparr>vm_tlb := ts[nat it := e]\<rparr>"]
  have R: "vm_inv exe (vm1\<lparr>vm_tlb := ts[nat it := e]\<rparr>)" "keeps exe ?vm0 (vm1\<lparr>vm_tlb := ts[nat it := e]\<rparr>)"
    "has_pte (vm1\<lparr>vm_tlb := ts[nat it := e]\<rparr>) t vpn" "te_valid (pte (vm1\<lparr>vm_tlb := ts[nat it := e]\<rparr>) t vpn)"
    "physicalPage e = physicalPage (pte (vm1\<lparr>vm_tlb := ts[nat it := e]\<rparr>) t vpn)"
    using cur vpn miss0 n4 by (intro tr; simp add: v_def [symmetric] vm1_def e_def)+
  have own: "arr_get (invertedTable ?vm0) (physicalPage v) = Inr t" "arr_get (invertedTableVP ?vm0) (physicalPage v) = Inr (virtualPage v)"
    "has_pte ?vm0 t (virtualPage v)" if "physicalPage v \<ge> 0"
  proof -
    note d = tlb_okD(1) [OF inv0 vin that]
    have "physicalPage v < 32" using d inv by (auto simp: bm_used_def vm_inv_def sizes_ok_def)
    then show "arr_get (invertedTable ?vm0) (physicalPage v) = Inr t" "arr_get (invertedTableVP ?vm0) (physicalPage v) = Inr (virtualPage v)"
      using that d cur inv by (simp_all add: owner_def vm_inv_def sizes_ok_def)
    show "has_pte ?vm0 t (virtualPage v)" using frames_okD(2) [OF inv0, of "physicalPage v" t "virtualPage v"] d cur by simp
  qed
  have wb: "(if physicalPage v \<ge> 0 then bindE (arr_get (invertedTable ?vm0) (physicalPage v)) (\<lambda>thr. bindE (arr_get (invertedTableVP ?vm0) (physicalPage v)) (\<lambda>VP.
      upd_pte thr VP (\<lambda>e. e\<lparr>physicalPage := physicalPage v, te_valid := te_valid v, te_use := te_use v, te_dirty := te_dirty v\<rparr>) ?vm0)) else Inr ?vm0) = Inr vm1"
    using own upd_pte_eq [OF own(3)] by (simp add: vm1_def)
  have cur1: "currentThread vm1 = t" "vm_tlb vm1 = ts" using cur by (simp_all add: vm1_def)
  have "has_pte vm1 t vpn" using R(3) by simp
  note g = get_pte_eq [OF this]
  have "updateTLB vpn vm = Inr (vm1\<lparr>vm_tlb := ts[nat it := e]\<rparr>)"
    using ts(1) lts ts(3,4) wb g cur1 by (simp add: updateTLB_def Let_def v_def [symmetric] e_def)
  moreover have "e \<in> set (vm_tlb (vm1\<lparr>vm_tlb := ts[nat it := e]\<rparr>))" "te_valid e" "virtualPage e = vpn"
    using n4 lts by (simp_all add: set_update_memI e_def)
  ultimately show ?thesis using R keeps_trans [OF k0 R(2)] by blast
qed

section \<open>Replacing a frame\<close>

lemma tlb_pos_absent: "\<forall>e \<in> set ts. physicalPage e \<noteq> f \<Longrightarrow> tlb_pos ts f = int (length ts)"
  by (induction ts) auto

lemma put_put:
  "put_pte t vp e' ((put_pte t vp e vm)\<lparr>SWAPmap := sm, SWAP := sw\<rparr>) = (put_pte t vp e' vm)\<lparr>SWAPmap := sm, SWAP := sw\<rparr>"
  by (cases "t < length (spaces vm)"; cases "spaces vm ! t") (simp_all add: put_pte_def list_update_beyond)

lemma stub_WriteAt_page:
  assumes "length sw = 8192" "0 \<le> k" "k < 64" "length bs = 128"
  shows "stub_WriteAt sw bs (k * 128) = bcopy bs sw (k * 128)"
proof -
  obtain n where n: "k = int n" "n < 64" using assms(2,3) by (metis nonneg_int_cases of_nat_less_iff of_nat_numeral)
  have "nat (k * 128) = n * 128" using n by simp
  then show ?thesis using assms n by (simp add: stub_WriteAt_def bcopy_def)
qed

lemma replace_ok:
  assumes inv: "vm_inv exe vm" and full: "bm_used (mainMemoryMap vm) = {0..<32}" and swap: "bm_used (SWAPmap vm) \<noteq> {0..<64}"
    and victim: "\<And>t VP vm1. frame_clock vm = Inr (t, VP, vm1) \<Longrightarrow> \<forall>e \<in> set (vm_tlb vm). physicalPage e \<noteq> mainMemoryIterator vm1"
  shows "\<exists>vm'. replaceMainMemoryFrame vm = Inr vm' \<and> vm_inv exe vm' \<and> keeps exe vm vm' \<and> vm_tlb vm' = vm_tlb vm \<and>
           bm_used (mainMemoryMap vm') \<noteq> {0..<32} \<and>
           (\<forall>s v. has_pte vm s v \<and> \<not> te_valid (pte vm s v) \<longrightarrow> no_use (pte vm' s v) = no_use (pte vm s v))"
proof -
  from frame_clock_spec [OF inv full] obtain t VP vm1 where
    c: "frame_clock vm = Inr (t, VP, vm1)" "use_eq vm vm1" "owner vm1 (mainMemoryIterator vm1) = (t, VP)" "vm_tlb vm1 = vm_tlb vm" by blast
  let ?f = "mainMemoryIterator vm1" and ?k = "(mainMemoryIterator vm1 + 1) mod 32"
  have inv1: "vm_inv exe vm1" by (rule use_eq_inv [OF c(2) inv])
  have f: "0 \<le> ?f" "?f < 32" using inv1 by (simp_all add: vm_inv_def sizes_ok_def)
  have mm1: "mainMemoryMap vm1 = mainMemoryMap vm" "SWAPmap vm1 = SWAPmap vm" using c(2) by (simp_all add: use_eq_def)
  have fu: "?f \<in> bm_used (mainMemoryMap vm1)" using f full mm1 by simp
  note p = frames_okD(2) [OF inv1 fu c(3)]
  let ?p = "pte vm1 t VP"
  have out: "tlb_of vm1 ?f = None" using victim [OF c(1)] c(4) by (simp add: tlb_of_None)
  have len4: "length (vm_tlb vm1) = 4" by (rule tlb_okD(4) [OF inv1])
  let ?vm2 = "put_pte t VP (?p\<lparr>te_valid := False, physicalPage := - 1\<rparr>) vm1"
  have u1: "upd_pte t VP (\<lambda>e. e\<lparr>te_valid := False, physicalPage := - 1\<rparr>) vm1 = Inr ?vm2" using upd_pte_eq p by blast
  have pos: "tlb_pos (vm_tlb ?vm2) ?f = 4" using tlb_pos_absent out len4 by (simp add: tlb_of_None)
  have p2: "get_pte t VP ?vm2 = Inr (?p\<lparr>te_valid := False, physicalPage := - 1\<rparr>)" using p get_pte_eq [of ?vm2 t VP] by (simp add: pte_put)
  have bmi: "bm_inv (mainMemoryMap vm1)" "numBits (mainMemoryMap vm1) = 32" "bm_inv (SWAPmap vm1)" "numBits (SWAPmap vm1) = 64" "length (SWAP vm1) = 8192"
    "length (vm_mem vm1) = 4096" using inv1 by (simp_all add: vm_inv_def sizes_ok_def)
  obtain mm where mm: "Clear (mainMemoryMap vm1) ?f = Inr mm" "bm_inv mm" "numBits mm = 32" "bm_used mm = bm_used (mainMemoryMap vm1) - {?f}"
    using Clear_eq [OF bmi(1) f(1)] f(2) bmi(2) by auto
  have ke: "keeps exe vm vm1" by (rule keeps_use_eq [OF c(2)])
  have has1: "has_pte vm1 s v = has_pte vm s v" for s v using c(2) by (simp add: use_eq_def)
  have nu: "no_use (pte vm1 s v) = no_use (pte vm s v)" if "has_pte vm s v" for s v using c(2) that by (simp add: use_eq_def)
  have notfull: "bm_used mm \<noteq> {0..<32}"
  proof -
    have "?f \<notin> bm_used mm" "?f \<in> {0..<32}" using mm(4) f by simp_all
    then show ?thesis by metis
  qed
  show ?thesis
  proof (cases "te_dirty ?p")
    case False
    let ?vm' = "?vm2\<lparr>mainMemoryMap := mm, mainMemoryIterator := ?k\<rparr>"
    have eq: "?vm' = ?vm2\<lparr>SWAP := SWAP vm1, SWAPmap := SWAPmap vm1, mainMemoryMap := mm, mainMemoryIterator := ?k\<rparr>" by (simp add: put_pte_def)
    have R: "replaceMainMemoryFrame vm = Inr ?vm'"
      using c(1) u1 pos p2 False mm(1) by (simp add: replaceMainMemoryFrame_def Let_def)
    note ev = evict [OF inv1 c(3) fu out eq mm(2-4) _ _ bmi(3,4) order_refl bmi(5)]
    have "vm_inv exe ?vm'" "keeps exe vm1 ?vm'" "\<And>s v. has_pte vm1 s v \<Longrightarrow> \<not> te_valid (pte vm1 s v) \<Longrightarrow> pte ?vm' s v = pte vm1 s v"
      by (rule ev; simp add: False swap_page_def)+
    note ev = this
    have fin: "vm_tlb ?vm' = vm_tlb vm" "bm_used (mainMemoryMap ?vm') \<noteq> {0..<32}" using c(4) notfull by simp_all
    have "no_use (pte ?vm' s v) = no_use (pte vm s v)" if "has_pte vm s v \<and> \<not> te_valid (pte vm s v)" for s v
      using ev(3) [of s v] nu [of s v] use_eq_pages(1) [OF c(2), of s v] has1 [of s v] that by simp
    then show ?thesis using R ev(1) keeps_trans [OF ke ev(2)] fin by blast
  next
    case True
    have "bm_used (SWAPmap vm1) \<noteq> {0..<numBits (SWAPmap vm1)}" using swap mm1 bmi(4) by simp
    from Find_free [OF bmi(3) this] bmi(4) obtain q sm where q: "Find (SWAPmap vm1) = Inr (q, sm)" "0 \<le> q" "q < 64" "q \<notin> bm_used (SWAPmap vm1)"
      "bm_inv sm" "numBits sm = 64" "bm_used sm = insert q (bm_used (SWAPmap vm1))" by auto
    have sl: "slice (vm_mem vm1) (?f * 128) 128 = Inr (frame (vm_mem vm1) ?f)" using f bmi(6) by (simp add: slice_def frame_def nat_mult_distrib)
    have lf: "length (frame (vm_mem vm1) ?f) = 128" using length_frame [OF bmi(6) f] .
    obtain sw where "bcopy (frame (vm_mem vm1) ?f) (SWAP vm1) (q * 128) = Inr sw" "length sw = length (SWAP vm1)"
      "frame sw q = frame (vm_mem vm1) ?f @ drop (length (frame (vm_mem vm1) ?f)) (frame (SWAP vm1) q)"
      "\<And>j. 0 \<le> j \<Longrightarrow> j < int 64 \<Longrightarrow> j \<noteq> q \<Longrightarrow> frame sw j = frame (SWAP vm1) j"
      using page_copy [of "SWAP vm1" 64 q "frame (vm_mem vm1) ?f"] bmi(5) q(2,3) lf by auto
    then have sw: "stub_WriteAt (SWAP vm1) (frame (vm_mem vm1) ?f) (q * 128) = Inr sw" "length sw = 8192" "frame sw q = frame (vm_mem vm1) ?f"
      "\<And>j. 0 \<le> j \<Longrightarrow> j < 64 \<Longrightarrow> j \<noteq> q \<Longrightarrow> frame sw j = frame (SWAP vm1) j"
      using stub_WriteAt_page [OF bmi(5) q(2,3) lf] bmi(5) lf length_page [of "SWAP vm1" 64 q] q(2,3) by simp_all
    let ?vm4 = "put_pte t VP (?p\<lparr>te_valid := False, physicalPage := q\<rparr>) vm1"
    let ?vm' = "?vm4\<lparr>SWAP := sw, SWAPmap := sm, mainMemoryMap := mm, mainMemoryIterator := ?k\<rparr>"
    have u: "u32 q = q" "s32 (q * 128) = q * 128" "s32 q = q" using q(2,3) by (simp_all add: u32_def s32_id)
    have hp3: "has_pte (?vm2\<lparr>SWAPmap := sm, SWAP := sw\<rparr>) t VP" using p by simp
    have "upd_pte t VP (\<lambda>e. e\<lparr>physicalPage := q\<rparr>) (?vm2\<lparr>SWAPmap := sm, SWAP := sw\<rparr>) = Inr (?vm4\<lparr>SWAPmap := sm, SWAP := sw\<rparr>)"
      using upd_pte_eq [OF hp3] p by (simp add: pte_put put_put)
    then have st: "storeInSWAP t ?f VP ?vm2 = Inr (?vm4\<lparr>SWAPmap := sm, SWAP := sw\<rparr>)" using q(1) sl sw(1) u by (simp add: storeInSWAP_def Let_def)
    have R: "replaceMainMemoryFrame vm = Inr ?vm'"
      using c(1) u1 pos p2 True st mm(1) by (simp add: replaceMainMemoryFrame_def Let_def)
    have sub: "bm_used (SWAPmap vm1) \<subseteq> bm_used sm" using q(7) by auto
    note ev = evict [OF inv1 c(3) fu out refl mm(2-4) _ _ q(5,6) sub sw(2), where q = q]
    have sp: "swap_page ?vm' j = swap_page vm1 j" if "j \<in> bm_used (SWAPmap vm1)" for j
    proof -
      have "0 \<le> j" "j < 64" "j \<noteq> q" using that q(4) bmi(4) by (auto simp: bm_used_def)
      then show ?thesis using sw(4) by (simp add: swap_page_def)
    qed
    have nw: "q \<in> bm_used sm \<and> q \<notin> bm_used (SWAPmap vm1) \<and> swap_page ?vm' q = frame (vm_mem vm1) ?f" using q(4,7) sw(3) by (simp add: swap_page_def)
    have k: "0 \<le> ?k" "?k < 32" by simp_all
    note ev = ev [OF k sp nw]
    have fin: "vm_tlb ?vm' = vm_tlb vm" "bm_used (mainMemoryMap ?vm') \<noteq> {0..<32}" using c(4) notfull by simp_all
    have "no_use (pte ?vm' s v) = no_use (pte vm s v)" if "has_pte vm s v \<and> \<not> te_valid (pte vm s v)" for s v
      using ev(3) [of s v] nu [of s v] use_eq_pages(1) [OF c(2), of s v] has1 [of s v] that by simp
    then show ?thesis using R ev(1) keeps_trans [OF ke ev(2)] fin by blast
  qed
qed

section \<open>The handler\<close>

text \<open>The running program has its executable, and the numbers of its pages do not overflow.\<close>

definition program_ok :: "(bytes \<Rightarrow> bytes option) \<Rightarrow> VM \<Rightarrow> nat \<Rightarrow> bool" where
  "program_ok exe vm t \<longleftrightarrow> (let (nc, ni, fn) = static vm t in \<exists>f. exe fn = Some f \<and> 40 \<le> length f \<and> noffMagic (exe_hdr f) = 0xbadfad \<and>
     0 \<le> inFileAddr (seg_code (exe_hdr f)) \<and>
     (\<forall>vp. has_pte vm t vp \<longrightarrow> inFileAddr (seg_code (exe_hdr f)) + vp * 128 < 2 ^ 31))"

lemma load_frame_ok:
  assumes inv: "vm_inv exe vm" and t: "t = currentThread vm" "has_pte vm t vpn" "\<not> te_valid (pte vm t vpn)" and prog: "program_ok exe vm t"
    and junk: "length junk = 40" and f: "0 \<le> f" "f < 32" and bits: "no_use bits = no_use (pte vm t vpn)"
  shows "\<exists>mem sm. load_frame exe junk bits vpn f (vm\<lparr>mainMemoryMap := mm\<rparr>) = Inr (vm\<lparr>mainMemoryMap := mm, vm_mem := mem, SWAPmap := sm\<rparr>) \<and> length mem = 4096 \<and>
           (\<forall>g. 0 \<le> g \<and> g < 32 \<and> g \<noteq> f \<longrightarrow> frame mem g = frame (vm_mem vm) g) \<and>
           take (length (content exe vm t vpn)) (frame mem f) = content exe vm t vpn \<and> (te_dirty (pte vm t vpn) \<longrightarrow> frame mem f = content exe vm t vpn) \<and>
           bm_inv sm \<and> numBits sm = 64 \<and> bm_used sm = bm_used (SWAPmap vm) - (if te_dirty (pte vm t vpn) then {physicalPage (pte vm t vpn)} else {})"
proof -
  let ?p = "pte vm t vpn" and ?vm = "vm\<lparr>mainMemoryMap := mm\<rparr>"
  note b = no_use_eq [OF bits]
  have sz: "length (vm_mem vm) = 4096" "length (SWAP vm) = 8192" "bm_inv (SWAPmap vm)" "numBits (SWAPmap vm) = 64" using inv by (simp_all add: vm_inv_def sizes_ok_def)
  have g: "get_pte t vpn ?vm = Inr ?p" using get_pte_eq [of ?vm t vpn] t(2) by simp
  show ?thesis
  proof (cases "te_dirty ?p")
    case True
    let ?q = "physicalPage ?p"
    have "swapped vm t vpn" using t True by (simp add: swapped_def)
    then have "?q \<in> bm_used (SWAPmap vm)" using inv by (simp add: vm_inv_def swap_ok_def)
    then have q: "0 \<le> ?q" "?q < 64" using sz(4) by (auto simp: bm_used_def)
    have c: "content exe vm t vpn = frame (SWAP vm) ?q" using True t(3) by (simp add: content_def page_dirty_def Let_def swap_page_def)
    have lq: "length (frame (SWAP vm) ?q) = 128" using length_page [of "SWAP vm" 64 ?q] sz(2) q by simp
    have rd: "stub_ReadAt (SWAP vm) 128 (?q * 128) = Inr (frame (SWAP vm) ?q)" using q by (simp add: stub_ReadAt_def frame_def nat_mult_distrib)
    obtain mem where mem: "bcopy (frame (SWAP vm) ?q) (vm_mem vm) (f * 128) = Inr mem" "length mem = 4096"
      "frame mem f = frame (SWAP vm) ?q @ drop (length (frame (SWAP vm) ?q)) (frame (vm_mem vm) f)"
      "\<And>g. 0 \<le> g \<Longrightarrow> g < 32 \<Longrightarrow> g \<noteq> f \<Longrightarrow> frame mem g = frame (vm_mem vm) g"
      using frame_copy [OF sz(1) f, of "frame (SWAP vm) ?q"] lq by auto
    obtain sm where sm: "Clear (SWAPmap vm) ?q = Inr sm" "bm_inv sm" "numBits sm = 64" "bm_used sm = bm_used (SWAPmap vm) - {?q}"
      using Clear_eq [OF sz(3) q(1)] q(2) sz(4) by auto
    have "frame mem f = content exe vm t vpn" using mem(3) lq length_frame [OF sz(1) f] c by simp
    moreover have "load_frame exe junk bits vpn f ?vm = Inr (vm\<lparr>mainMemoryMap := mm, vm_mem := mem, SWAPmap := sm\<rparr>)"
      using b True g t(1) rd mem(1) sm(1) by (simp add: load_frame_def readFromSWAP_def)
    ultimately show ?thesis using mem(2,4) sm(2-4) True by (intro exI [of _ mem] exI [of _ sm]) simp
  next
    case False
    obtain nc ni fn where st: "static vm t = (nc, ni, fn)" by (cases "static vm t")
    let ?sp = "the (spaces vm ! t)"
    have sp: "get_space t ?vm = Inr ?sp" "numPagesCode ?sp = nc" "numPagesInitData ?sp = ni" "executableFilename ?sp = fn"
      using get_space_Some [of ?vm t vpn] t(2) st by (simp_all add: static_def Let_def)
    have c: "content exe vm t vpn = backing exe vm t vpn" using False t(3) by (simp add: content_def page_dirty_def Let_def)
    have lb: "length (backing exe vm t vpn) \<le> 128" by (simp add: backing_def st Let_def exe_page_def)
    obtain mem where mem: "bcopy (backing exe vm t vpn) (vm_mem vm) (f * 128) = Inr mem" "length mem = 4096"
      "frame mem f = backing exe vm t vpn @ drop (length (backing exe vm t vpn)) (frame (vm_mem vm) f)"
      "\<And>g. 0 \<le> g \<Longrightarrow> g < 32 \<Longrightarrow> g \<noteq> f \<Longrightarrow> frame mem g = frame (vm_mem vm) g"
      using frame_copy [OF sz(1) f lb] by blast
    have "load_frame exe junk bits vpn f ?vm = Inr (?vm\<lparr>vm_mem := mem\<rparr>)"
    proof (cases "readOnly ?p \<or> vpn < u32 (nc + ni)")
      case True
      obtain xf where xf: "exe fn = Some xf" "40 \<le> length xf" "noffMagic (exe_hdr xf) = 0xbadfad"
        "0 \<le> inFileAddr (seg_code (exe_hdr xf))" "inFileAddr (seg_code (exe_hdr xf)) + vpn * 128 < 2 ^ 31"
        using prog t(2) by (auto simp: program_ok_def st)
      have vp0: "0 \<le> vpn" using t(2) by (auto simp: has_pte_def)
      have off: "s32 (inFileAddr (seg_code (exe_hdr xf)) + vpn * 128) = inFileAddr (seg_code (exe_hdr xf)) + vpn * 128"
        using xf(4,5) vp0 by (intro s32_id) auto
      have bk: "backing exe vm t vpn = exe_page xf (exe_hdr xf) vpn" using True xf(1) by (simp add: backing_def st)
      have rd: "stub_ReadAt xf 128 (inFileAddr (seg_code (exe_hdr xf)) + vpn * 128) = Inr (exe_page xf (exe_hdr xf) vpn)"
        using xf(4) vp0 by (simp add: stub_ReadAt_def exe_page_def)
      show ?thesis
        using b False True t(1) sp xf(1,3) read_noff_eq [OF xf(2) junk] rd mem(1) bk off by (simp add: load_frame_def)
    next
      case no: False
      then have "backing exe vm t vpn = replicate 128 0" by (simp add: backing_def st)
      then show ?thesis using b False no t(1) sp mem(1) by (simp add: load_frame_def)
    qed
    moreover have "vm\<lparr>mainMemoryMap := mm, vm_mem := mem, SWAPmap := SWAPmap vm\<rparr> = ?vm\<lparr>vm_mem := mem\<rparr>" by simp
    ultimately show ?thesis using mem(2-4) c sz(3,4) False by (intro exI [of _ mem] exI [of _ "SWAPmap vm"]) simp
  qed
qed

text \<open>
  When main memory is full, the swap file has room and the frame that second chance selects is not in the TLB.
\<close>

definition victim_ok :: "VM \<Rightarrow> bool" where
  "victim_ok vm \<longleftrightarrow> (bm_used (mainMemoryMap vm) = {0..<32} \<longrightarrow> bm_used (SWAPmap vm) \<noteq> {0..<64} \<and>
     (\<forall>t VP vm1. frame_clock vm = Inr (t, VP, vm1) \<longrightarrow> (\<forall>e \<in> set (vm_tlb vm). physicalPage e \<noteq> mainMemoryIterator vm1)))"

text \<open>The faulting page number.\<close>

definition fault_page :: "32 word \<Rightarrow> int" where
  "fault_page badVAddr = u32 (sint badVAddr sdiv 128)"

lemma page_fault_ok:
  assumes inv: "vm_inv exe vm" and t: "t = currentThread vm" "has_pte vm t (fault_page a)" and prog: "program_ok exe vm t" and junk: "length junk = 40"
    and miss: "\<forall>e \<in> set (vm_tlb vm). \<not> (te_valid e \<and> virtualPage e = fault_page a)" and victim: "victim_ok vm"
  shows "\<exists>vm'. page_fault exe junk a vm = Inr vm' \<and> vm_inv exe vm' \<and> keeps exe vm vm' \<and> te_valid (pte vm' t (fault_page a)) \<and>
           (\<exists>e \<in> set (vm_tlb vm'). te_valid e \<and> virtualPage e = fault_page a \<and> physicalPage e = physicalPage (pte vm' t (fault_page a)))"
proof -
  let ?vpn = "fault_page a"
  let ?prep = "bindE (NumClear (mainMemoryMap vm)) (\<lambda>c. bindE (if c = 0 then replaceMainMemoryFrame vm else Inr vm) (\<lambda>vm1.
     bindE (Find (mainMemoryMap vm1)) (\<lambda>(nextFreeFrame, mm). bindE (load_frame exe junk (pte vm t ?vpn) ?vpn nextFreeFrame (vm1\<lparr>mainMemoryMap := mm\<rparr>)) (\<lambda>vm2.
     bindE (upd_pte (currentThread vm2) ?vpn (\<lambda>e. e\<lparr>physicalPage := nextFreeFrame, te_valid := True\<rparr>) vm2) (\<lambda>vm3.
     bindE (arr_set (invertedTable vm3) nextFreeFrame (currentThread vm3)) (\<lambda>inv.
     bindE (arr_set (invertedTableVP vm3) nextFreeFrame ?vpn) (\<lambda>invVP. Inr (vm3\<lparr>invertedTable := inv, invertedTableVP := invVP\<rparr>))))))))"
  have pf: "page_fault exe junk a vm = bindE (if \<not> te_valid (pte vm t ?vpn) then ?prep else Inr vm) (updateTLB ?vpn)"
    using get_pte_eq [OF t(2)] t(1) by (simp add: page_fault_def fault_page_def Let_def)
  have "\<exists>vm2. (if \<not> te_valid (pte vm t ?vpn) then ?prep else Inr vm) = Inr vm2 \<and> vm_inv exe vm2 \<and> keeps exe vm vm2 \<and> vm_tlb vm2 = vm_tlb vm \<and> te_valid (pte vm2 t ?vpn)"
  proof (cases "te_valid (pte vm t ?vpn)")
    case True
    then show ?thesis using inv by (auto simp: keeps_def)
  next
    case False
    have bmi: "bm_inv (mainMemoryMap vm)" "numBits (mainMemoryMap vm) = 32" using inv by (simp_all add: vm_inv_def sizes_ok_def)
    define c where "c = 32 - int (card (bm_used (mainMemoryMap vm)))"
    have nc: "NumClear (mainMemoryMap vm) = Inr c" using NumClear_eq [OF bmi(1)] bmi(2) by (simp add: c_def)
    have full: "c = 0 \<longleftrightarrow> bm_used (mainMemoryMap vm) = {0..<32}"
    proof
      assume "c = 0"
      then show "bm_used (mainMemoryMap vm) = {0..<32}" using bm_used_subset [of "mainMemoryMap vm"] bmi(2)
        by (intro card_subset_eq) (simp_all add: c_def)
    qed (simp add: c_def)
    have "\<exists>vm1. (if c = 0 then replaceMainMemoryFrame vm else Inr vm) = Inr vm1 \<and> vm_inv exe vm1 \<and> keeps exe vm vm1 \<and> vm_tlb vm1 = vm_tlb vm \<and>
        bm_used (mainMemoryMap vm1) \<noteq> {0..<32} \<and> no_use (pte vm1 t ?vpn) = no_use (pte vm t ?vpn)"
    proof (cases "c = 0")
      case True
      then have fl: "bm_used (mainMemoryMap vm) = {0..<32}" using full by blast
      then obtain vm1 where "replaceMainMemoryFrame vm = Inr vm1" "vm_inv exe vm1" "keeps exe vm vm1" "vm_tlb vm1 = vm_tlb vm"
        "bm_used (mainMemoryMap vm1) \<noteq> {0..<32}" "no_use (pte vm1 t ?vpn) = no_use (pte vm t ?vpn)"
        using replace_ok [OF inv fl] victim t(2) False unfolding victim_ok_def by metis
      then show ?thesis using True by auto
    next
      case False
      then show ?thesis using inv full by (auto simp: keeps_def)
    qed
    then obtain vm1 where vm1: "(if c = 0 then replaceMainMemoryFrame vm else Inr vm) = Inr vm1" "vm_inv exe vm1" "keeps exe vm vm1" "vm_tlb vm1 = vm_tlb vm"
      "bm_used (mainMemoryMap vm1) \<noteq> {0..<32}" "no_use (pte vm1 t ?vpn) = no_use (pte vm t ?vpn)" by blast
    have t1: "t = currentThread vm1" "has_pte vm1 t ?vpn" "\<not> te_valid (pte vm1 t ?vpn)"
      using vm1(3) t False no_use_eq [OF vm1(6)] by (simp_all add: keeps_def)
    have prog1: "program_ok exe vm1 t" using prog vm1(3) t(2) by (simp add: program_ok_def keeps_def)
    have bmi1: "bm_inv (mainMemoryMap vm1)" "numBits (mainMemoryMap vm1) = 32" "length (invertedTable vm1) = 32" "length (invertedTableVP vm1) = 32"
      using vm1(2) by (simp_all add: vm_inv_def sizes_ok_def)
    have "bm_used (mainMemoryMap vm1) \<noteq> {0..<numBits (mainMemoryMap vm1)}" using vm1(5) bmi1(2) by simp
    from Find_free [OF bmi1(1) this] bmi1(2) obtain f mm where f: "Find (mainMemoryMap vm1) = Inr (f, mm)" "0 \<le> f" "f < 32" "f \<notin> bm_used (mainMemoryMap vm1)"
      "bm_inv mm" "numBits mm = 32" "bm_used mm = insert f (bm_used (mainMemoryMap vm1))" by auto
    from load_frame_ok [OF vm1(2) t1 prog1 junk f(2,3) vm1(6) [symmetric], of mm] obtain mem sm where
      l: "load_frame exe junk (pte vm t ?vpn) ?vpn f (vm1\<lparr>mainMemoryMap := mm\<rparr>) = Inr (vm1\<lparr>mainMemoryMap := mm, vm_mem := mem, SWAPmap := sm\<rparr>)" "length mem = 4096"
        "\<And>g. 0 \<le> g \<Longrightarrow> g < 32 \<Longrightarrow> g \<noteq> f \<Longrightarrow> frame mem g = frame (vm_mem vm1) g"
        "take (length (content exe vm1 t ?vpn)) (frame mem f) = content exe vm1 t ?vpn"
        "te_dirty (pte vm1 t ?vpn) \<Longrightarrow> frame mem f = content exe vm1 t ?vpn"
        "bm_inv sm" "numBits sm = 64" "bm_used sm = bm_used (SWAPmap vm1) - (if te_dirty (pte vm1 t ?vpn) then {physicalPage (pte vm1 t ?vpn)} else {})"
      by blast
    let ?vm2 = "vm1\<lparr>mainMemoryMap := mm, vm_mem := mem, SWAPmap := sm\<rparr>"
    let ?e = "(pte vm1 t ?vpn)\<lparr>physicalPage := f, te_valid := True\<rparr>"
    have hp2: "has_pte ?vm2 t ?vpn" using t1(2) by simp
    let ?vm3 = "put_pte t ?vpn ?e ?vm2"
    have u: "upd_pte t ?vpn (\<lambda>e. e\<lparr>physicalPage := f, te_valid := True\<rparr>) ?vm2 = Inr ?vm3" using upd_pte_eq [OF hp2] by simp
    let ?vm4 = "?vm3\<lparr>invertedTable := (invertedTable vm1)[nat f := t], invertedTableVP := (invertedTableVP vm1)[nat f := ?vpn]\<rparr>"
    have eq: "?vm4 = (put_pte t ?vpn ?e vm1)\<lparr>vm_mem := mem, SWAPmap := sm, mainMemoryMap := mm,
      invertedTable := (invertedTable vm1)[nat f := t], invertedTableVP := (invertedTableVP vm1)[nat f := ?vpn]\<rparr>" by (simp add: put_pte_def)
    note fl = fill [OF vm1(2) f(2-4) t1 eq f(5-7) l(2-8)]
    have "?prep = Inr ?vm4" using nc vm1(1) f(1-3) l(1) u t1(1) bmi1(3,4) by simp
    then show ?thesis using False fl keeps_trans [OF vm1(3) fl(2)] vm1(4) by auto
  qed
  then obtain vm2 where vm2: "(if \<not> te_valid (pte vm t ?vpn) then ?prep else Inr vm) = Inr vm2" "vm_inv exe vm2" "keeps exe vm vm2" "vm_tlb vm2 = vm_tlb vm"
    "te_valid (pte vm2 t ?vpn)" by blast
  have "t = currentThread vm2" "has_pte vm2 t ?vpn" "\<forall>e \<in> set (vm_tlb vm2). \<not> (te_valid e \<and> virtualPage e = ?vpn)"
    using vm2(3,4) t miss by (simp_all add: keeps_def)
  from updateTLB_ok [OF vm2(2) this(1,2) vm2(5) this(3)] show ?thesis
    using pf vm2(1) keeps_trans [OF vm2(3)] by auto
qed

end
