(* ===== verification/Paging.thy ===== *)
theory Paging
  imports VM_Faults
begin

text \<open>
  What demand paging gives a user program: faults are served without changing any contents, stores change only the bytes they
  name, and the case in which the handler breaks its invariant. \<open>vm_machine\<close> is what the simulated CPU sees of the state and
  \<open>vm_after\<close> the state after the CPU has worked on it. \<open>start_vm\<close> and \<open>loaded_vm\<close> are sample states.
\<close>


section \<open>Stores of the running program\<close>

text \<open>Writing into the frame of a page in the TLB, with its dirty bit set.\<close>

lemma store_dirty:
  assumes inv: "vm_inv exe vm" and i: "i < 4" and e: "e = vm_tlb vm ! i" "te_valid e"
    and mem: "length mem = 4096" "\<And>g. 0 \<le> g \<Longrightarrow> g < 32 \<Longrightarrow> g \<noteq> physicalPage e \<Longrightarrow> frame mem g = frame (vm_mem vm) g"
    and vm': "vm' = vm\<lparr>vm_mem := mem, vm_tlb := (vm_tlb vm)[i := e\<lparr>te_dirty := True\<rparr>]\<rparr>"
  shows "vm_inv exe vm'" "content exe vm' (currentThread vm) (virtualPage e) = frame mem (physicalPage e)"
    "has_pte vm s w \<Longrightarrow> (s, w) \<noteq> (currentThread vm, virtualPage e) \<Longrightarrow> content exe vm' s w = content exe vm s w"
proof -
  let ?t = "currentThread vm" and ?VP = "virtualPage e" and ?f = "physicalPage e" and ?e = "e\<lparr>te_dirty := True\<rparr>"
  have l4: "length (vm_tlb vm) = 4" by (rule tlb_okD(4) [OF inv])
  have ein: "e \<in> set (vm_tlb vm)" using e(1) i l4 by simp
  have f0: "?f \<ge> 0" using tlb_okD(2) [OF inv ein] e(2) by blast
  have f: "?f \<in> bm_used (mainMemoryMap vm)" "owner vm ?f = (?t, ?VP)" using tlb_okD(1) [OF inv ein f0] by simp_all
  note p = frames_okD(2) [OF inv f]
  have sel: "vm_mem vm' = mem" "vm_tlb vm' = (vm_tlb vm)[i := ?e]" "currentThread vm' = ?t" "mainMemoryMap vm' = mainMemoryMap vm"
    "SWAPmap vm' = SWAPmap vm" "SWAP vm' = SWAP vm" "owner vm' = owner vm" "has_pte vm' = has_pte vm" "pte vm' = pte vm" "static vm' = static vm"
    by (simp_all add: vm' owner_def fun_eq_iff)
  have len': "length (vm_tlb vm') = 4" using l4 by (simp add: sel)
  have nth: "vm_tlb vm' ! j = (if j = i then ?e else vm_tlb vm ! j)" if "j < 4" for j using that i l4 by (simp add: sel)
  have tok: "tlb_ok vm'"
  proof -
    have "if 0 \<le> physicalPage x then te_valid x \<and> physicalPage x \<in> bm_used (mainMemoryMap vm) \<and> owner vm (physicalPage x) = (?t, virtualPage x)
      else \<not> te_valid x" if x: "x \<in> set (vm_tlb vm')" for x
    proof -
      obtain j where j: "j < 4" "x = vm_tlb vm' ! j" using x len' by (metis in_set_conv_nth)
      show ?thesis
      proof (cases "j = i")
        case True
        then show ?thesis using j nth f f0 e(2) by simp
      next
        case False
        then have "x \<in> set (vm_tlb vm)" using j nth l4 by simp
        then show ?thesis using tlb_okD(1,2) [OF inv] by simp
      qed
    qed
    moreover have "j = k" if "j < 4" "k < 4" "0 \<le> physicalPage (vm_tlb vm' ! j)" "physicalPage (vm_tlb vm' ! j) = physicalPage (vm_tlb vm' ! k)" for j k
      using that nth e(1) tlb_okD(3) [OF inv, of j k] by (auto split: if_splits)
    ultimately show ?thesis unfolding tlb_ok_def sel(3,4,7) by blast
  qed
  have own_tlb: "tlb_of vm' ?f = Some ?e"
    using tlb_of_unique [OF tok len' f0, of ?e] nth [OF i] i len' by (metis nth_mem TranslationEntry.select_convs(2) TranslationEntry.surjective TranslationEntry.update_convs(6))
  have other_tlb: "tlb_of vm' g = tlb_of vm g" if "g \<noteq> ?f" "0 \<le> g" for g
  proof -
    have "tlb_of vm' g = Some x \<longleftrightarrow> tlb_of vm g = Some x" for x
    proof -
      have "x \<in> set (vm_tlb vm') \<and> physicalPage x = g \<longleftrightarrow> x \<in> set (vm_tlb vm) \<and> physicalPage x = g"
        using that(1) nth e(1) l4 len' by (auto simp: in_set_conv_nth split: if_splits)
      then show ?thesis using tlb_of_unique [OF tok len' that(2)] tlb_of_Some [OF inv that(2)] by blast
    qed
    then show ?thesis by (metis not_Some_eq)
  qed
  have same: "physicalPage (pte vm s w) \<noteq> ?f" if "has_pte vm s w" "te_valid (pte vm s w)" "(s, w) \<noteq> (?t, ?VP)" for s w
    using frames_okD(1) [OF inv that(1,2)] f(2) that(3) by auto
  have rng: "0 \<le> physicalPage (pte vm s w) \<and> physicalPage (pte vm s w) < 32" if "has_pte vm s w" "te_valid (pte vm s w)" for s w
    using frames_okD(1) [OF inv that] inv by (auto simp: bm_used_def vm_inv_def sizes_ok_def)
  have d1: "page_dirty vm' ?t ?VP" using p own_tlb by (simp add: page_dirty_def sel Let_def)
  have d2: "page_dirty vm' s w = page_dirty vm s w" if "has_pte vm s w" "(s, w) \<noteq> (?t, ?VP)" for s w
    using same [of s w] rng [of s w] other_tlb that by (simp add: page_dirty_def sel Let_def)
  have bk: "backing exe vm' s w = backing exe vm s w" for s w by (simp add: backing_def sel)
  have fr: "frame mem (physicalPage (pte vm s w)) = frame (vm_mem vm) (physicalPage (pte vm s w))"
    if "has_pte vm s w" "te_valid (pte vm s w)" "(s, w) \<noteq> (?t, ?VP)" for s w
    using mem(2) same [OF that] rng [OF that(1,2)] by simp
  have "sizes_ok vm'" using inv mem(1) by (simp add: vm_inv_def sizes_ok_def vm')
  moreover have "frames_ok vm'" using inv unfolding vm_inv_def frames_ok_def sel by simp
  moreover have "swap_ok vm'" using inv unfolding vm_inv_def swap_ok_def swapped_def sel by simp
  moreover have "clean_ok exe vm'"
    unfolding clean_ok_def sel bk
  proof (intro allI impI)
    fix s w assume a: "has_pte vm s w \<and> te_valid (pte vm s w) \<and> \<not> page_dirty vm' s w"
    then have ne: "(s, w) \<noteq> (?t, ?VP)" using d1 by auto
    then show "take (length (backing exe vm s w)) (frame mem (physicalPage (pte vm s w))) = backing exe vm s w"
      using a d2 [of s w] fr [of s w] inv by (simp add: vm_inv_def clean_ok_def)
  qed
  ultimately show "vm_inv exe vm'" using tok by (simp add: vm_inv_def)
  show "content exe vm' ?t ?VP = frame mem ?f" using p d1 by (simp add: content_def sel)
  show "content exe vm' s w = content exe vm s w" if "has_pte vm s w" "(s, w) \<noteq> (?t, ?VP)"
    using that fr [of s w] d2 [of s w] bk [of s w] by (simp add: content_def sel swap_page_def)
qed

text \<open>The machine sees memory, the TLB and the page table of the running thread.\<close>

definition vm_machine :: "32 word list \<Rightarrow> VM \<Rightarrow> Machine" where
  "vm_machine regs vm = \<lparr>mainMemory = vm_mem vm, registers = regs, tlb = Some (vm_tlb vm), spaceTable = pageTable (the (spaces vm ! currentThread vm))\<rparr>"

definition vm_after :: "Machine \<Rightarrow> VM \<Rightarrow> VM" where
  "vm_after m vm = vm\<lparr>vm_mem := mainMemory m, vm_tlb := the (tlb m),
     spaces := (spaces vm)[currentThread vm := map_option (\<lambda>sp. sp\<lparr>pageTable := spaceTable m\<rparr>) (spaces vm ! currentThread vm)]\<rparr>"

lemma Translate_TLB:
  assumes res: "Translate w sz True m = Inr (Inr (a, m'))" and ts: "tlb m = Some ts"
  shows "\<exists>i. i < length ts \<and> te_valid (ts ! i) \<and> virtualPage (ts ! i) = uint w div 128 \<and> \<not> readOnly (ts ! i) \<and>
      uint w div 128 < int (length (spaceTable m)) \<and> \<not> misaligned w sz \<and> a = physicalPage (ts ! i) mod 2 ^ 32 * 128 + uint w mod 128 \<and> a + sz \<le> 4096 \<and>
      m' = m\<lparr>tlb := Some (ts[i := (ts ! i)\<lparr>te_use := True, te_dirty := True\<rparr>]),
             spaceTable := (spaceTable m)[nat (uint w div 128) := (spaceTable m ! nat (uint w div 128))\<lparr>te_use := True\<rparr>]\<rparr>"
proof -
  let ?v = "uint w div 128"
  have al: "\<not> misaligned w sz" using res by (auto simp: Translate_def split: if_splits)
  obtain i where i: "find_entry ?v m = Inr i" using res al by (auto simp: Translate_def Let_def split: sum.splits)
  have v: "0 \<le> ?v" by (simp add: pos_imp_zdiv_nonneg_iff)
  have ti: "i < length ts" "virtualPage (ts ! i) = ?v" "te_valid (ts ! i)" "entry_at m i = ts ! i"
    using find_entry_Inr [OF i v] ts by (simp_all add: entry_at_def)
  let ?m0 = "set_entry i ((ts ! i)\<lparr>te_use := True\<rparr>) m"
  obtain m1 where m1: "mark_used ?v ?m0 = Inr m1" and r: "\<not> readOnly (ts ! i)" "a = physicalPage (ts ! i) mod 2 ^ 32 * 128 + uint w mod 128" "a + sz \<le> 4096"
    and m': "m' = mark_dirty True i m1" using res al i ti(4) by (auto simp: Translate_def Let_def nachos_dests split: if_splits)
  have m0: "?m0 = m\<lparr>tlb := Some (ts[i := (ts ! i)\<lparr>te_use := True\<rparr>])\<rparr>" by (simp add: set_entry_def ts)
  have lt: "?v < int (length (spaceTable m))" using mark_used_ok [OF m1] by simp
  have "m1 = ?m0\<lparr>spaceTable := (spaceTable m)[nat ?v := (spaceTable m ! nat ?v)\<lparr>te_use := True\<rparr>]\<rparr>"
    using m1 v lt by (simp add: mark_used_def m0)
  then have "m1 = m\<lparr>tlb := Some (ts[i := (ts ! i)\<lparr>te_use := True\<rparr>]),
      spaceTable := (spaceTable m)[nat ?v := (spaceTable m ! nat ?v)\<lparr>te_use := True\<rparr>]\<rparr>" unfolding m0 by simp
  then have "m' = m\<lparr>tlb := Some (ts[i := (ts ! i)\<lparr>te_use := True, te_dirty := True\<rparr>]),
      spaceTable := (spaceTable m)[nat ?v := (spaceTable m ! nat ?v)\<lparr>te_use := True\<rparr>]\<rparr>"
    using ti(1) by (simp add: m' mark_dirty_def set_entry_def entry_at_def)
  then show ?thesis using ti r lt al by (intro exI [of _ i]) simp
qed


text \<open>The bytes that a store changes.\<close>

lemma store_bytes_mem:
  assumes "store_bytes a sz v m = Inr m'" "sz \<in> {1, 2, 4}" "0 \<le> a" "a + sz \<le> int (length (mainMemory m))"
  shows "tlb m' = tlb m \<and> spaceTable m' = spaceTable m \<and> length (mainMemory m') = length (mainMemory m) \<and>
    (\<forall>k. mainMemory m' ! k = (if a \<le> int k \<and> int k < a + sz then ucast (drop_bit (8 * nat (int k - a)) v) else mainMemory m ! k))"
proof -
  obtain n where n: "a = int n" using assms(3) nonneg_int_cases by blast
  consider "sz = 1" "int n + 1 \<le> int (length (mainMemory m))" | "sz = 2" "int n + 2 \<le> int (length (mainMemory m))" | "sz = 4" "int n + 4 \<le> int (length (mainMemory m))"
    using assms(2,4) n by auto
  then show ?thesis
  proof cases
    case 1
    then show ?thesis using assms(1) by (auto simp: store_bytes_def set_byte_def n nth_list_update)
  next
    case 2
    have "k = n \<or> k = Suc n" if "int n \<le> int k" "int k < int n + 2" for k using that by auto
    moreover have "nat (int n + 1) = Suc n" by simp
    ultimately show ?thesis using assms(1) 2 by (auto simp: store_bytes_def set_byte_def n nth_list_update)
  next
    case 3
    have "k = n \<or> k = Suc n \<or> k = Suc (Suc n) \<or> k = Suc (Suc (Suc n))" if "int n \<le> int k" "int k < int n + 4" for k using that by auto
    moreover have "nat (int n + 1) = Suc n" "nat (int n + 2) = Suc (Suc n)" "nat (int n + 3) = Suc (Suc (Suc n))" by simp_all
    ultimately show ?thesis using assms(1) 3 by (auto simp: store_bytes_def set_byte_def n nth_list_update)
  qed
qed


lemma nth_frame: "length mem = 4096 \<Longrightarrow> 0 \<le> g \<Longrightarrow> g < 32 \<Longrightarrow> k < 128 \<Longrightarrow> frame mem g ! k = mem ! (nat g * 128 + k)"
  by (rule nth_page [of _ 32]) simp_all

text \<open>A store in terms of frames: \<open>n\<close> is the offset in frame \<open>f\<close>.\<close>

lemma store_in_frame:
  assumes mem: "length mem = 4096" "length mem' = 4096" and f: "0 \<le> f" "f < 32" and n: "n + s \<le> 128"
    and st: "\<And>k. mem' ! k = (if nat f * 128 + n \<le> k \<and> k < nat f * 128 + n + s then b (k - (nat f * 128 + n)) else mem ! k)"
  shows "k < 128 \<Longrightarrow> frame mem' f ! k = (if n \<le> k \<and> k < n + s then b (k - n) else frame mem f ! k)"
    "0 \<le> g \<Longrightarrow> g < 32 \<Longrightarrow> g \<noteq> f \<Longrightarrow> frame mem' g = frame mem g"
proof -
  show "frame mem' f ! k = (if n \<le> k \<and> k < n + s then b (k - n) else frame mem f ! k)" if "k < 128"
    using that nth_frame [OF mem(1) f] nth_frame [OF mem(2) f] st by auto
  assume g: "0 \<le> g" "g < 32" "g \<noteq> f"
  show "frame mem' g = frame mem g"
  proof (rule nth_equalityI)
    show "length (frame mem' g) = length (frame mem g)" using length_frame mem g by metis
    fix k assume "k < length (frame mem' g)"
    then have k: "k < 128" using length_frame [OF mem(2) g(1,2)] by simp
    have "nat f \<noteq> nat g" using g f by simp
    then have "nat g < nat f \<or> nat f < nat g" by linarith
    then have "\<not> (nat f * 128 + n \<le> nat g * 128 + k \<and> nat g * 128 + k < nat f * 128 + n + s)" using n k by auto
    then have "mem' ! (nat g * 128 + k) = mem ! (nat g * 128 + k)" by (simp only: st if_False)
    then show "frame mem' g ! k = frame mem g ! k" using nth_frame [OF mem(1) g(1,2) k] nth_frame [OF mem(2) g(1,2) k] by simp
  qed
qed

lemma vm_store:
  assumes inv: "vm_inv exe vm" and sp: "currentThread vm < length (spaces vm)" "spaces vm ! currentThread vm = Some sp"
    and wm: "WriteMem trap addr sz v (vm_machine regs vm) = Inr (True, m')" and sz: "sz \<in> {1, 2, 4}"
  shows "\<exists>f n. vm_inv exe (vm_after m' vm) \<and> has_pte vm (currentThread vm) (uint addr div 128) \<and>
     te_valid (pte vm (currentThread vm) (uint addr div 128)) \<and> physicalPage (pte vm (currentThread vm) (uint addr div 128)) = f \<and>
     (\<forall>t vp. has_pte vm t vp \<and> (t, vp) \<noteq> (currentThread vm, uint addr div 128) \<longrightarrow> content exe (vm_after m' vm) t vp = content exe vm t vp) \<and>
     int n = uint addr mod 128 \<and> n + nat sz \<le> 128 \<and> length (content exe (vm_after m' vm) (currentThread vm) (uint addr div 128)) = 128 \<and>
     (\<forall>k < 128. content exe (vm_after m' vm) (currentThread vm) (uint addr div 128) ! k =
       (if n \<le> k \<and> k < n + nat sz then ucast (drop_bit (8 * (k - n)) v) else frame (vm_mem vm) f ! k))"
proof -
  let ?t = "currentThread vm" and ?v = "uint addr div 128" and ?m = "vm_machine regs vm" and ?ts = "vm_tlb vm"
  obtain a m1 where t: "Translate addr sz True ?m = Inr (Inr (a, m1))" "store_bytes a sz v m1 = Inr m'" using WriteMem_True [OF wm] by blast
  have tl: "tlb ?m = Some ?ts" "spaceTable ?m = pageTable sp" "mainMemory ?m = vm_mem vm" using sp by (simp_all add: vm_machine_def)
  from Translate_TLB [OF t(1) tl(1)] tl obtain i where i: "i < length ?ts" "te_valid (?ts ! i)" "virtualPage (?ts ! i) = ?v"
    "?v < int (length (pageTable sp))" "\<not> misaligned addr sz" "a = physicalPage (?ts ! i) mod 2 ^ 32 * 128 + uint addr mod 128" "a + sz \<le> 4096"
    "m1 = ?m\<lparr>tlb := Some (?ts[i := (?ts ! i)\<lparr>te_use := True, te_dirty := True\<rparr>]),
       spaceTable := (pageTable sp)[nat ?v := (pageTable sp ! nat ?v)\<lparr>te_use := True\<rparr>]\<rparr>" by auto
  have l4: "length ?ts = 4" by (rule tlb_okD(4) [OF inv])
  have v0: "0 \<le> ?v" by (simp add: pos_imp_zdiv_nonneg_iff)
  have hp: "has_pte vm ?t ?v" using sp i(4) v0 by (simp add: has_pte_def)
  have pv: "pte vm ?t ?v = pageTable sp ! nat ?v" using sp by (simp add: pte_def)
  let ?vm0 = "put_pte ?t ?v ((pte vm ?t ?v)\<lparr>te_use := True\<rparr>) vm"
  define vm1 where "vm1 = ?vm0\<lparr>vm_tlb := ?ts[i := (?ts ! i)\<lparr>te_use := True\<rparr>]\<rparr>"
  have ue: "use_eq vm vm1"
  proof -
    have "map no_use (?ts[i := (?ts ! i)\<lparr>te_use := True\<rparr>]) = map no_use ?ts"
      using i(1) by (simp add: map_update list_update_same_conv no_use_def)
    then show ?thesis using inv hp by (auto simp: vm1_def use_eq_def pte_put static_put no_use_def vm_inv_def sizes_ok_def)
  qed
  have inv1: "vm_inv exe vm1" by (rule use_eq_inv [OF ue inv])
  define e where "e = (?ts ! i)\<lparr>te_use := True\<rparr>"
  have e1: "e = vm_tlb vm1 ! i" "te_valid e" "virtualPage e = ?v" "physicalPage e = physicalPage (?ts ! i)" using i(1-3) by (simp_all add: vm1_def e_def)
  let ?f = "physicalPage e"
  have i4: "i < 4" using i(1) l4 by simp
  have ein: "?ts ! i \<in> set ?ts" using i(1) by simp
  have f0: "physicalPage (?ts ! i) \<ge> 0" using tlb_okD(2) [OF inv ein] i(2) by blast
  note fo = tlb_okD(1) [OF inv ein f0]
  have f: "0 \<le> ?f" "?f < 32" using fo f0 inv by (auto simp: e1(4) bm_used_def vm_inv_def sizes_ok_def)
  have pf: "te_valid (pte vm ?t ?v)" "physicalPage (pte vm ?t ?v) = ?f" using frames_okD(2) [OF inv, of "physicalPage (?ts ! i)" ?t ?v] fo i(3) e1(4) by simp_all
  define n where "n = nat (uint addr mod 128)"
  have n: "int n = uint addr mod 128" by (simp add: n_def)
  have aa: "a = ?f * 128 + int n" "0 \<le> a" using i(6) f n by (simp_all add: e1(4) [symmetric])
  have off: "n + nat sz \<le> 128" using offset_fits [OF i(5) sz] n sz by auto
  have lm: "length (vm_mem vm) = 4096" using inv by (simp add: vm_inv_def sizes_ok_def)
  have mm: "mainMemory m1 = vm_mem vm" using i(8) tl(3) by simp
  have "a + sz \<le> int (length (mainMemory m1))" using i(7) lm mm by simp
  note st = store_bytes_mem [OF t(2) sz aa(2) this]
  let ?mem = "mainMemory m'"
  have lm': "length ?mem = 4096" using st lm mm by simp
  have na: "nat ?f * 128 + n = nat a" using aa f by simp
  have bytes: "?mem ! k = (if nat ?f * 128 + n \<le> k \<and> k < nat ?f * 128 + n + nat sz then (\<lambda>j. ucast (drop_bit (8 * j) v)) (k - (nat ?f * 128 + n)) else vm_mem vm ! k)" for k
  proof -
    have "?mem ! k = (if a \<le> int k \<and> int k < a + sz then ucast (drop_bit (8 * nat (int k - a)) v) else vm_mem vm ! k)" using st mm by simp
    moreover have "a \<le> int k \<and> int k < a + sz \<longleftrightarrow> nat a \<le> k \<and> k < nat a + nat sz" using aa(2) sz by auto
    moreover have "nat (int k - a) = k - nat a" using aa(2) by linarith
    ultimately show ?thesis unfolding na by simp
  qed
  note fr = store_in_frame [OF lm lm' f off bytes]
  have va: "vm_after m' vm = vm1\<lparr>vm_mem := ?mem, vm_tlb := (vm_tlb vm1)[i := e\<lparr>te_dirty := True\<rparr>]\<rparr>"
    using st i(8) sp pv by (simp add: vm_after_def vm1_def e_def put_pte_def)
  have cur: "currentThread vm1 = ?t" "vm_mem vm1 = vm_mem vm" by (simp_all add: vm1_def)
  have keep: "frame ?mem g = frame (vm_mem vm1) g" if "0 \<le> g" "g < 32" "g \<noteq> ?f" for g using fr(2) that cur(2) by simp
  note sd = store_dirty [OF inv1 i4 e1(1,2) lm' keep va]
  have "content exe (vm_after m' vm) s w = content exe vm s w" if "has_pte vm s w \<and> (s, w) \<noteq> (?t, ?v)" for s w
  proof -
    have "has_pte vm1 s w" using that ue by (simp add: use_eq_def)
    then show ?thesis using sd(3) [of s w] that cur(1) e1(3) use_eq_pages(7) [OF ue, of s w] by simp
  qed
  moreover have "content exe (vm_after m' vm) ?t ?v = frame ?mem ?f" using sd(2) cur(1) e1(3) by simp
  ultimately show ?thesis using sd(1) hp pf n off fr(1) length_frame [OF lm' f] by (intro exI [of _ ?f] exI [of _ n]) auto
qed


section \<open>A program at its start\<close>

text \<open>
  The first thread runs \<open>sample_exe\<close>: two pages of program, eight of stack, none in memory. A second thread has no address space.
\<close>

definition no_tlb_entry :: TranslationEntry where
  "no_tlb_entry = \<lparr>virtualPage = -1, physicalPage = -1, te_valid = False, readOnly = False, te_use = False, te_dirty = False\<rparr>"

definition fresh_page :: "bool \<Rightarrow> int \<Rightarrow> TranslationEntry" where
  "fresh_page ro vp = \<lparr>virtualPage = vp, physicalPage = -1, te_valid = False, readOnly = ro, te_use = False, te_dirty = False\<rparr>"

definition start_space :: AddrSpace where
  "start_space = \<lparr>pageTable = map (fresh_page False) [0..9], numPages = 10, numPagesCode = 1, numPagesInitData = 1, numPagesDataStack = 8,
     executableFilename = [65]\<rparr>"

definition start_vm :: "BitMap \<Rightarrow> BitMap \<Rightarrow> VM" where
  "start_vm mm sm = \<lparr>vm_mem = replicate 4096 0, vm_tlb = replicate 4 no_tlb_entry, tlbIterator = 0, mainMemoryIterator = 0,
     invertedTable = replicate 32 0, invertedTableVP = replicate 32 0, SWAP = replicate 8192 32, SWAPmap = sm, mainMemoryMap = mm,
     spaces = [Some start_space, None], currentThread = 0\<rparr>"

definition start_exe :: "bytes \<Rightarrow> bytes option" where
  "start_exe fn = (if fn = [65] then Some sample_exe else None)"

lemma start_pages:
  "has_pte (start_vm mm sm) t vp \<longleftrightarrow> t = 0 \<and> 0 \<le> vp \<and> vp < 10"
  "0 \<le> vp \<Longrightarrow> vp < 10 \<Longrightarrow> pte (start_vm mm sm) 0 vp = fresh_page False vp"
proof -
  have l: "length (pageTable start_space) = 10" by (simp add: start_space_def)
  show "has_pte (start_vm mm sm) t vp \<longleftrightarrow> t = 0 \<and> 0 \<le> vp \<and> vp < 10"
    by (cases t) (auto simp: has_pte_def start_vm_def l nth_Cons split: nat.splits)
  assume v: "0 \<le> vp" "vp < 10"
  then have "nat vp < length [0..9]" by simp
  then show "pte (start_vm mm sm) 0 vp = fresh_page False vp" using v by (simp add: pte_def start_vm_def start_space_def del: upto.simps)
qed

lemma start_inv:
  assumes "bm_inv mm" "numBits mm = 32" "bm_used mm = {}" "bm_inv sm" "numBits sm = 64"
  shows "vm_inv start_exe (start_vm mm sm)"
proof -
  have sel: "vm_tlb (start_vm mm sm) = replicate 4 no_tlb_entry" "mainMemoryMap (start_vm mm sm) = mm" by (simp_all add: start_vm_def)
  have nv: "\<not> te_valid (pte (start_vm mm sm) t vp) \<and> \<not> te_dirty (pte (start_vm mm sm) t vp)" if "has_pte (start_vm mm sm) t vp" for t vp
    using that start_pages(2) [of vp mm sm] by (auto simp: start_pages(1) fresh_page_def)
  have "sizes_ok (start_vm mm sm)" using assms by (simp add: sizes_ok_def start_vm_def)
  moreover have "frames_ok (start_vm mm sm)" using nv assms(3) by (auto simp: frames_ok_def sel)
  moreover have "swap_ok (start_vm mm sm)" using nv by (auto simp: swap_ok_def swapped_def)
  moreover have "tlb_ok (start_vm mm sm)" by (auto simp: tlb_ok_def sel no_tlb_entry_def)
  moreover have "clean_ok start_exe (start_vm mm sm)" using nv by (auto simp: clean_ok_def)
  ultimately show ?thesis by (simp add: vm_inv_def)
qed

lemma start_program_ok: "program_ok start_exe (start_vm mm sm) 0"
proof -
  have "static (start_vm mm sm) 0 = (1, 1, [65])" by (simp add: static_def start_vm_def start_space_def)
  moreover have "40 \<le> length sample_exe" using sample_exe_ok(1) by (simp add: exe_ok_def)
  ultimately show ?thesis by (auto simp: program_ok_def start_exe_def sample_hdr start_pages(1))
qed

lemma start_victim_ok: "bm_used mm = {} \<Longrightarrow> victim_ok (start_vm mm sm)"
proof -
  assume "bm_used mm = {}"
  moreover have "(0::int) \<in> {0..<32}" by simp
  ultimately show ?thesis unfolding victim_ok_def start_vm_def by (metis VM.select_convs(9) empty_iff)
qed

section \<open>Properties\<close>




text \<open>
  (C16) A store of one, two or four bytes by the running program changes these bytes of its own page, little endian, and nothing else: every other
  page of every thread keeps its contents, also those that are swapped out or were never loaded, and the state stays consistent
  (in particular the page is now written back before its frame is given away).
\<close>

theorem user_store_changes_only_its_bytes:
  assumes "vm_inv exe vm" "get_space (currentThread vm) vm = Inr sp"
    "WriteMem trap addr sz v (vm_machine regs vm) = Inr (True, m')" "sz \<in> {1, 2, 4}"
  shows "vm_inv exe (vm_after m' vm) \<and>
     (\<forall>t vp. has_pte vm t vp \<and> (t, vp) \<noteq> (currentThread vm, uint addr div 128) \<longrightarrow> content exe (vm_after m' vm) t vp = content exe vm t vp) \<and>
     (let c = content exe vm (currentThread vm) (uint addr div 128); c' = content exe (vm_after m' vm) (currentThread vm) (uint addr div 128) in
       length c' = 128 \<and>
       (\<forall>k < 128. if uint addr mod 128 \<le> int k \<and> int k < uint addr mod 128 + sz
          then c' ! k = ucast (drop_bit (8 * (k - nat (uint addr mod 128))) v)
          else k < length c \<longrightarrow> c' ! k = c ! k))"
proof -
  let ?t = "currentThread vm" and ?v = "uint addr div 128"
  have sp: "?t < length (spaces vm)" "spaces vm ! ?t = Some sp"
    using assms(2) by (auto simp: get_space_def bindE_eq_Inr arr_get_eq_Inr deref_def split: option.splits)
  from vm_store [OF assms(1) sp assms(3,4)] obtain f n where st: "vm_inv exe (vm_after m' vm)" "has_pte vm ?t ?v" "te_valid (pte vm ?t ?v)"
    "physicalPage (pte vm ?t ?v) = f"
    "\<forall>t vp. has_pte vm t vp \<and> (t, vp) \<noteq> (?t, ?v) \<longrightarrow> content exe (vm_after m' vm) t vp = content exe vm t vp"
    "int n = uint addr mod 128" "n + nat sz \<le> 128" "length (content exe (vm_after m' vm) ?t ?v) = 128"
    "\<forall>k < 128. content exe (vm_after m' vm) ?t ?v ! k = (if n \<le> k \<and> k < n + nat sz then ucast (drop_bit (8 * (k - n)) v) else frame (vm_mem vm) f ! k)"
    by blast
  let ?c = "content exe vm ?t ?v"
  have "take (length ?c) (frame (vm_mem vm) f) = ?c" using valid_page_in_memory [OF assms(1) st(2,3)] st(4) by simp
  then have old: "frame (vm_mem vm) f ! k = ?c ! k" if "k < length ?c" for k using that by (metis nth_take)
  have "n \<le> k \<and> k < n + nat sz \<longleftrightarrow> uint addr mod 128 \<le> int k \<and> int k < uint addr mod 128 + sz" for k
    using assms(4) unfolding st(6) [symmetric] by auto
  moreover have "n = nat (uint addr mod 128)" unfolding st(6) [symmetric] by simp
  ultimately show ?thesis using st(1,5,8,9) old by (simp add: Let_def)
qed

text \<open>The program at its start, with page 5 (of its stack) in frame 0 and in the TLB.\<close>

definition stack_entry :: TranslationEntry where
  "stack_entry = \<lparr>virtualPage = 5, physicalPage = 0, te_valid = True, readOnly = False, te_use = True, te_dirty = False\<rparr>"

definition loaded_vm :: "BitMap \<Rightarrow> BitMap \<Rightarrow> VM" where
  "loaded_vm mm sm = (put_pte 0 5 ((fresh_page False 5)\<lparr>physicalPage := 0, te_valid := True\<rparr>) (start_vm mm sm))
     \<lparr>vm_mem := replicate 4096 0, invertedTable := (replicate 32 0)[0 := 0], invertedTableVP := (replicate 32 0)[0 := 5],
      vm_tlb := stack_entry # replicate 3 no_tlb_entry\<rparr>"

lemma replicate4: "replicate 4 x = x # replicate 3 x"
  by (simp add: numeral_eq_Suc)

lemma loaded_inv:
  assumes mm: "bm_inv mm" "numBits mm = 32" "bm_used mm = {0}" and sm: "bm_inv sm" "numBits sm = 64"
  shows "vm_inv start_exe (loaded_vm mm sm)" "has_pte (loaded_vm mm sm) 0 vp \<longleftrightarrow> 0 \<le> vp \<and> vp < 10"
proof -
  obtain m0 where m0: "bm_inv m0" "numBits m0 = 32" "bm_used m0 = {}" using new_BitMap_eq [of 32 "\<lambda>_. 5"] by auto
  let ?s = "start_vm m0 sm"
  let ?p = "put_pte 0 5 ((pte ?s 0 5)\<lparr>physicalPage := 0, te_valid := True\<rparr>) ?s"
  let ?vm = "?p\<lparr>vm_mem := replicate 4096 0, SWAPmap := sm, mainMemoryMap := mm,
      invertedTable := (invertedTable ?s)[nat 0 := 0], invertedTableVP := (invertedTableVP ?s)[nat 0 := 5]\<rparr>"
  have p5: "pte ?s 0 5 = fresh_page False 5" using start_pages(2) [of 5] by simp
  have st: "static ?s 0 = (1, 1, [65])" by (simp add: static_def start_vm_def start_space_def)
  have c: "content start_exe ?s 0 5 = replicate 128 0"
    using p5 st by (simp add: content_def page_dirty_def backing_def fresh_page_def u32_def)
  have sel: "mainMemoryMap ?s = m0" "SWAPmap ?s = sm" "currentThread ?s = 0" "vm_tlb ?s = replicate 4 no_tlb_entry" by (simp_all add: start_vm_def)
  have fr: "frame (replicate 4096 0) g = replicate 128 0" if "0 \<le> g" "g < 32" for g
  proof -
    have "nat g * 128 + 128 \<le> 4096" using that by linarith
    then show ?thesis by (simp add: frame_def min_def)
  qed
  have hz: "0 = currentThread ?s" "has_pte ?s 0 5" "\<not> te_valid (pte ?s 0 5)" "\<not> te_dirty (pte ?s 0 5)" using sel(3) start_pages(1) p5 by (simp_all add: fresh_page_def)
  have uz: "(0::int) \<notin> bm_used (mainMemoryMap ?s)" "bm_used mm = insert 0 (bm_used (mainMemoryMap ?s))" using sel(1) m0(3) mm(3) by simp_all
  have lz: "take (length (content start_exe ?s 0 5)) (frame (replicate 4096 0) 0) = content start_exe ?s 0 5" using c fr [of 0] by simp
  have ms: "vm_mem ?s = replicate 4096 0" by (simp add: start_vm_def)
  have F: "vm_inv start_exe ?vm" "has_pte ?vm 0 5 \<and> te_valid (pte ?vm 0 5)"
    by (rule fill [OF start_inv [OF m0 sm] _ _ uz(1) hz(1-3) refl mm(1,2) uz(2)]; use hz(4) lz sm sel(2) ms in simp)+
  have p: "pte ?vm 0 5 = (fresh_page False 5)\<lparr>physicalPage := 0, te_valid := True\<rparr>"
    using p5 start_pages(1) by (simp add: pte_put)
  have T: "loaded_vm mm sm = ?vm\<lparr>vm_tlb := (vm_tlb ?vm)[0 := stack_entry]\<rparr>"
    unfolding loaded_vm_def p5 by (simp add: start_vm_def put_pte_def replicate4)
  have v: "physicalPage (vm_tlb ?vm ! 0) = - 1" using sel(4) by (simp add: no_tlb_entry_def)
  have miss: "\<forall>e \<in> set (vm_tlb ?vm). \<not> (te_valid e \<and> virtualPage e = 5)" using sel(4) by (simp add: no_tlb_entry_def)
  show "vm_inv start_exe (loaded_vm mm sm)"
    by (rule tlb_replace(1) [OF F(1), of 0 5 0 ?vm True stack_entry]) (use F(2) sel(3) v miss p T in \<open>simp_all add: stack_entry_def fresh_page_def\<close>)
  show "has_pte (loaded_vm mm sm) 0 vp \<longleftrightarrow> 0 \<le> vp \<and> vp < 10" by (simp add: T start_pages(1))
qed

lemma served_page_is_writable:
  assumes "vm_inv exe vm" "has_pte vm (currentThread vm) 5" "e \<in> set (vm_tlb vm)" "te_valid e" "virtualPage e = 5"
    and ro: "\<forall>x \<in> set (vm_tlb vm). virtualPage x = 5 \<longrightarrow> \<not> readOnly x"
  shows "\<exists>m'. WriteMem trap 642 1 v (vm_machine regs vm) = Inr (True, m')"
proof -
  have hit: "\<exists>j. tlb_lookup ts 5 n = Some j" if "\<exists>x \<in> set ts. te_valid x \<and> virtualPage x = 5" for ts n
    using that by (induction ts "5 :: int" n rule: tlb_lookup.induct) auto
  obtain i where i: "tlb_lookup (vm_tlb vm) 5 0 = Some i" using hit assms(3-5) by blast
  let ?x = "vm_tlb vm ! i"
  have x: "i < length (vm_tlb vm)" "te_valid ?x" "virtualPage ?x = 5" using tlb_lookup_bounds [OF i] by simp_all
  then have xin: "?x \<in> set (vm_tlb vm)" by simp
  have f0: "physicalPage ?x \<ge> 0" using tlb_okD(2) [OF assms(1) xin] x(2) by blast
  have f: "physicalPage ?x < 32" using tlb_okD(1) [OF assms(1) xin f0] assms(1) by (auto simp: bm_used_def vm_inv_def sizes_ok_def)
  obtain sp where sp: "spaces vm ! currentThread vm = Some sp" "5 < int (length (pageTable sp))" using assms(2) by (auto simp: has_pte_def)
  show ?thesis using i x f0 f sp ro xin
    by (simp add: WriteMem_def Translate_def misaligned_def find_entry_def entry_at_def set_entry_def mark_used_def vm_machine_def Let_def store_bytes_def)
qed


theorem user_store_changes_only_its_bytes_witness:
  "\<exists>mm sm m'. WriteMem no_trap 642 1 77 (vm_machine [] (loaded_vm mm sm)) = Inr (True, m') \<and>
     vm_inv start_exe (vm_after m' (loaded_vm mm sm)) \<and> content start_exe (vm_after m' (loaded_vm mm sm)) 0 5 ! 2 = 77 \<and>
     content start_exe (vm_after m' (loaded_vm mm sm)) 0 1 = content start_exe (loaded_vm mm sm) 0 1"
proof -
  obtain m0 where m0: "bm_inv m0" "numBits m0 = 32" "bm_used m0 = {}" using new_BitMap_eq [of 32 "\<lambda>_. 5"] by auto
  obtain mm where mm: "bm_inv mm" "numBits mm = 32" "bm_used mm = {0}" using Mark_eq [OF m0(1), of 0] m0(2,3) by auto
  obtain sm where sm: "bm_inv sm" "numBits sm = 64" using new_BitMap_eq [of 64 "\<lambda>_. 5"] by auto
  let ?vm = "loaded_vm mm sm"
  note I = loaded_inv [OF mm sm]
  have sel: "currentThread ?vm = 0" "vm_tlb ?vm = stack_entry # replicate 3 no_tlb_entry" by (simp_all add: loaded_vm_def start_vm_def)
  have sp: "get_space (currentThread ?vm) ?vm = Inr (the (spaces ?vm ! 0))" using get_space_Some [of ?vm 0 5] I(2) sel(1) by simp
  obtain m' where m': "WriteMem no_trap 642 1 77 (vm_machine [] ?vm) = Inr (True, m')"
    using served_page_is_writable [OF I(1), of stack_entry no_trap 77 "[]"] I(2) sel by (simp add: stack_entry_def no_tlb_entry_def) blast
  have "vm_inv start_exe (vm_after m' ?vm) \<and> content start_exe (vm_after m' ?vm) 0 1 = content start_exe ?vm 0 1 \<and>
      content start_exe (vm_after m' ?vm) 0 5 ! 2 = 77"
    using user_store_changes_only_its_bytes [OF I(1) sp m'] I(2) sel(1) by (simp add: Let_def)
  then show ?thesis using m' by blast
qed


lemma upd_pte_keeps: "upd_pte t vp f vm = Inr vm' \<Longrightarrow> vm_tlb vm' = vm_tlb vm \<and> mainMemoryMap vm' = mainMemoryMap vm \<and> mainMemoryIterator vm' = mainMemoryIterator vm"
  by (auto simp: upd_pte_def bindE_eq_Inr)

lemma frame_clock_keeps: "frame_clock vm = Inr (t, VP, vm1) \<Longrightarrow> vm_tlb vm1 = vm_tlb vm \<and> mainMemoryMap vm1 = mainMemoryMap vm"
proof (induction vm rule: frame_clock.induct)
  case (1 vm)
  obtain thr vp e where g: "arr_get (invertedTable vm) (mainMemoryIterator vm) = Inr thr" "arr_get (invertedTableVP vm) (mainMemoryIterator vm) = Inr vp"
    "get_pte thr vp vm = Inr e" using "1.prems" by (auto simp: frame_clock.simps [of vm] bindE_eq_Inr)
  show ?case
  proof (cases "te_use e")
    case True
    then obtain vm' where u: "upd_pte thr vp (\<lambda>e. e\<lparr>te_use := False\<rparr>) vm = Inr vm'"
      using "1.prems" g by (auto simp: frame_clock.simps [of vm] bindE_eq_Inr)
    then show ?thesis using "1.IH" [OF g True u] "1.prems" g True upd_pte_keeps [OF u] by (simp add: frame_clock.simps [of vm])
  next
    case False
    then show ?thesis using "1.prems" g by (simp add: frame_clock.simps [of vm])
  qed
qed

lemma storeInSWAP_keeps: "storeInSWAP t f vp vm = Inr vm' \<Longrightarrow> vm_tlb vm' = vm_tlb vm \<and> mainMemoryMap vm' = mainMemoryMap vm"
  by (auto simp: storeInSWAP_def bindE_eq_Inr Let_def dest!: upd_pte_keeps)

lemma replace_keeps:
  assumes "replaceMainMemoryFrame vm = Inr vm'" "frame_clock vm = Inr (t, VP, vm1)"
  shows "vm_tlb vm' = vm_tlb vm1 \<and> Clear (mainMemoryMap vm1) (mainMemoryIterator vm1) = Inr (mainMemoryMap vm')"
  using assms by (auto simp: replaceMainMemoryFrame_def Let_def bindE_eq_Inr split: if_splits dest!: upd_pte_keeps storeInSWAP_keeps)

text \<open>
  (C40) The victim of a replacement is not taken out of the TLB, although its frame is marked free and then given to another page: the running
  program can still read and write the frame through the old entry, and the state is no longer consistent.
\<close>

theorem replaced_frame_stays_in_TLB:
  assumes "replaceMainMemoryFrame vm = Inr vm'" "bm_inv (mainMemoryMap vm)" "frame_clock vm = Inr (t, VP, vm1)"
    "e \<in> set (vm_tlb vm)" "te_valid e" "physicalPage e = mainMemoryIterator vm1"
  shows "e \<in> set (vm_tlb vm') \<and> physicalPage e \<notin> bm_used (mainMemoryMap vm') \<and> \<not> vm_inv exe vm'"
proof -
  let ?it = "mainMemoryIterator vm1"
  note k1 = frame_clock_keeps [OF assms(3)]
  obtain mm where r: "vm_tlb vm' = vm_tlb vm" "Clear (mainMemoryMap vm) ?it = Inr mm" "mainMemoryMap vm' = mm"
    using replace_keeps [OF assms(1,3)] k1 by auto
  have rng: "0 \<le> ?it" "?it < numBits (mainMemoryMap vm)" using r(2) by (auto simp: Clear_def bindE_eq_Inr ASSERT_def split: if_splits)
  have "bm_used mm = bm_used (mainMemoryMap vm) - {?it}" using Clear_eq [OF assms(2) rng] r(2) by auto
  then have out: "physicalPage e \<notin> bm_used (mainMemoryMap vm')" using assms(6) r(3) by simp
  have e': "e \<in> set (vm_tlb vm')" using assms(4) r(1) by simp
  have "\<not> vm_inv exe vm'" using tlb_okD(1) [OF _ e'] out rng(1) assms(6) by auto
  then show ?thesis using out e' by blast
qed

theorem replaced_frame_stays_in_TLB_witness:
  "\<exists>mm sm vm'. vm_inv start_exe (loaded_vm mm sm) \<and> replaceMainMemoryFrame (loaded_vm mm sm) = Inr vm' \<and>
     stack_entry \<in> set (vm_tlb vm') \<and> 0 \<notin> bm_used (mainMemoryMap vm') \<and> \<not> vm_inv start_exe vm'"
proof -
  obtain m0 where m0: "bm_inv m0" "numBits m0 = 32" "bm_used m0 = {}" using new_BitMap_eq [of 32 "\<lambda>_. 5"] by auto
  obtain mm where mm: "bm_inv mm" "numBits mm = 32" "bm_used mm = {0}" using Mark_eq [OF m0(1), of 0] m0(2,3) by auto
  obtain sm where sm: "bm_inv sm" "numBits sm = 64" using new_BitMap_eq [of 64 "\<lambda>_. 5"] by auto
  let ?vm = "loaded_vm mm sm"
  note I = loaded_inv [OF mm sm]
  have sel: "vm_tlb ?vm = stack_entry # replicate 3 no_tlb_entry" "mainMemoryMap ?vm = mm" "mainMemoryIterator ?vm = 0"
    "invertedTable ?vm = (replicate 32 0)[0 := 0]" "invertedTableVP ?vm = (replicate 32 0)[0 := 5]" by (simp_all add: loaded_vm_def start_vm_def)
  have p: "pte ?vm 0 5 = (fresh_page False 5)\<lparr>physicalPage := 0, te_valid := True\<rparr>"
    using start_pages(1) [of mm sm 0 5] start_pages(2) [of 5 mm sm] by (simp add: loaded_vm_def pte_put)
  have g: "get_pte 0 5 ?vm = Inr (pte ?vm 0 5)" using get_pte_eq I(2) by simp
  have fc: "frame_clock ?vm = Inr (0, 5, ?vm)" using g p by (simp add: frame_clock.simps [of ?vm] sel fresh_page_def)
  let ?vm2 = "put_pte 0 5 ((pte ?vm 0 5)\<lparr>te_valid := False, physicalPage := - 1\<rparr>) ?vm"
  have u2: "upd_pte 0 5 (\<lambda>e. e\<lparr>te_valid := False, physicalPage := - 1\<rparr>) ?vm = Inr ?vm2" using upd_pte_eq [of ?vm 0 5] I(2) by simp
  have h2: "has_pte ?vm2 0 5" using I(2) by simp
  let ?vm3 = "put_pte 0 5 ((pte ?vm2 0 5)\<lparr>te_dirty := False\<rparr>) ?vm2"
  have u3: "upd_pte 0 5 (\<lambda>e. e\<lparr>te_dirty := False\<rparr>) ?vm2 = Inr ?vm3" using upd_pte_eq [OF h2] by simp
  have g3: "get_pte 0 5 ?vm3 = Inr ((pte ?vm2 0 5)\<lparr>te_dirty := False\<rparr>)" using get_pte_eq [of ?vm3 0 5] h2 by (simp add: pte_put)
  obtain mm' where mm': "Clear mm 0 = Inr mm'" using Clear_eq [OF mm(1), of 0] mm(2) by auto
  have "\<exists>vm'. replaceMainMemoryFrame ?vm = Inr vm'"
    using fc u2 u3 g3 mm' sel by (simp add: replaceMainMemoryFrame_def Let_def stack_entry_def)
  then obtain vm' where "replaceMainMemoryFrame ?vm = Inr vm'" by blast
  with replaced_frame_stays_in_TLB [OF this _ fc, of stack_entry start_exe] show ?thesis using I(1) sel mm(1) by (auto simp: stack_entry_def)
qed

end
