(* ===== verification/Coff_Noff.thy ===== *)
theory Coff_Noff
  imports Addr_Space
begin

text \<open>
  The object file converter \<open>bin/coff2noff.c\<close>, with the structures of \<open>bin/coff.h\<close>: it turns the COFF file that the cross
  compiler makes into the NOFF file that \<open>Addr_Space\<close> loads.

  A file is its list of bytes and a descriptor is a position in it: \<open>lseek\<close> refuses a negative offset and leaves the position
  alone, \<open>read\<close> stops at the end of the file, \<open>write\<close> behind the end fills with zeros, and both refuse a negative count with the
  result -1. \<open>DWORD\<close> is the 32-bit \<open>int\<close> of the 64-bit host, which is little endian, so \<open>WordToHost\<close> and \<open>ShortToHost\<close> are the
  identity. Each call of \<open>exit(1)\<close>, which follows the deletion of the output, is an error value. Messages are not modelled.
\<close>

section \<open>Format\<close>

datatype coff_error =
    TooShort           \<comment> \<open>File is too short\<close>
  | NotMipsel          \<comment> \<open>File is not a MIPSEL COFF file\<close>
  | NotOmagic          \<comment> \<open>File is not a OMAGIC file\<close>
  | BothData           \<comment> \<open>Can't handle both data and rdata\<close>
  | BothBss            \<comment> \<open>Can't handle both bss and sbss\<close>
  | UnknownSegment     \<comment> \<open>Unknown segment type\<close>

abbreviation (input) MIPSELMAGIC :: int where "MIPSELMAGIC \<equiv> 0x0162"
abbreviation (input) OMAGIC :: int where "OMAGIC \<equiv> 263"

record scnhdr =
  s_name :: bytes
  s_paddr :: int
  s_size :: int
  s_scnptr :: int

text \<open>An \<open>unsigned short\<close> and an \<open>int\<close> at an offset of a structure.\<close>

definition short_at :: "nat \<Rightarrow> bytes \<Rightarrow> int" where
  "short_at i bs = uint (bs ! i) + 256 * uint (bs ! (i + 1))"

definition dword_at :: "nat \<Rightarrow> bytes \<Rightarrow> int" where
  "dword_at i bs = sint (bytes_to_word (take 4 (drop i bs)))"

definition bytes_to_scnhdr :: "bytes \<Rightarrow> scnhdr" where
  "bytes_to_scnhdr bs = \<lparr>s_name = take 8 bs, s_paddr = dword_at 8 bs, s_size = dword_at 16 bs, s_scnptr = dword_at 20 bs\<rparr>"

definition noff_to_bytes :: "NoffHeader \<Rightarrow> bytes" where
  "noff_to_bytes h =
     (let seg = (\<lambda>s. [virtualAddr s, inFileAddr s, seg_size s]) in
      words_to_bytes (map word_of_int (noffMagic h # seg (seg_code h) @ seg (seg_initData h) @ seg (seg_uninitData h))))"

text \<open>\<open>!strcmp(s_name, name)\<close> for the names that occur, which are shorter than the array.\<close>

definition named :: "bytes \<Rightarrow> scnhdr \<Rightarrow> bool" where
  "named name s \<longleftrightarrow> take (length name + 1) (s_name s) = name @ [0]"

definition dot_text :: bytes where "dot_text = [46, 116, 101, 120, 116]"
definition dot_data :: bytes where "dot_data = [46, 100, 97, 116, 97]"
definition dot_rdata :: bytes where "dot_rdata = [46, 114, 100, 97, 116, 97]"
definition dot_bss :: bytes where "dot_bss = [46, 98, 115, 115]"
definition dot_sbss :: bytes where "dot_sbss = [46, 115, 98, 115, 115]"

section \<open>The program\<close>

text \<open>\<open>Read\<close> of \<open>n\<close> bytes at position \<open>p\<close>; the result -1 of a refused call is accepted when -1 bytes are asked for.\<close>

definition coff_Read :: "bytes \<Rightarrow> int \<Rightarrow> int \<Rightarrow> coff_error + bytes \<times> int" where
  "coff_Read f p n =
     (if n = - 1 then Inr ([], p)
      else if n < 0 \<or> int (length (take (nat n) (drop (nat p) f))) \<noteq> n then Inl TooShort
      else Inr (take (nat n) (drop (nat p) f), p + n))"

definition file_write :: "bytes \<Rightarrow> bytes \<Rightarrow> int \<Rightarrow> bytes" where
  "file_write f bs p = take (nat p) (f @ replicate (nat p - length f) 0) @ bs @ drop (nat p + length bs) f"

record conv =
  noffH :: NoffHeader
  outFile :: bytes
  outPos :: int
  inPos :: int
  inNoffFile :: int

text \<open>Copying the raw data of a section: \<open>lseek\<close>, \<open>Read\<close>, \<open>Write\<close> and \<open>inNoffFile += s_size\<close>.\<close>

definition copy_raw :: "bytes \<Rightarrow> scnhdr \<Rightarrow> conv \<Rightarrow> coff_error + conv" where
  "copy_raw f s c =
     bindE (coff_Read f (if s_scnptr s \<ge> 0 then s_scnptr s else inPos c) (s_size s)) (\<lambda>(buffer, p).
     Inr (c\<lparr>inPos := p, outFile := (if s_size s < 0 then outFile c else file_write (outFile c) buffer (outPos c)),
            outPos := outPos c + int (length buffer), inNoffFile := s32 (inNoffFile c + s_size s)\<rparr>))"

definition coff_section :: "bytes \<Rightarrow> scnhdr \<Rightarrow> conv \<Rightarrow> coff_error + conv" where
  "coff_section f s c =
     (let h = noffH c in
      if s_size s = 0 then Inr c
      else if named dot_text s then
        copy_raw f s (c\<lparr>noffH := h\<lparr>seg_code := \<lparr>virtualAddr = s_paddr s, inFileAddr = inNoffFile c, seg_size = s_size s\<rparr>\<rparr>\<rparr>)
      else if named dot_data s \<or> named dot_rdata s then
        if seg_size (seg_initData h) \<noteq> 0 then Inl BothData
        else copy_raw f s (c\<lparr>noffH := h\<lparr>seg_initData := \<lparr>virtualAddr = s_paddr s, inFileAddr = inNoffFile c, seg_size = s_size s\<rparr>\<rparr>\<rparr>)
      else if named dot_bss s \<or> named dot_sbss s then
        let u = seg_uninitData h in
        if seg_size u \<noteq> 0 then
          if s_paddr s = s32 (virtualAddr u + seg_size u) then Inl BothBss
          else Inr (c\<lparr>noffH := h\<lparr>seg_uninitData := u\<lparr>seg_size := s32 (seg_size u + s_size s)\<rparr>\<rparr>\<rparr>)
        else Inr (c\<lparr>noffH := h\<lparr>seg_uninitData := u\<lparr>virtualAddr := s_paddr s, seg_size := s_size s\<rparr>\<rparr>\<rparr>)
      else Inl UnknownSegment)"

primrec coff_sections :: "bytes \<Rightarrow> scnhdr list \<Rightarrow> conv \<Rightarrow> coff_error + conv" where
  "coff_sections f [] c = Inr c"
| "coff_sections f (s # ss) c = bindE (coff_section f s c) (coff_sections f ss)"

text \<open>The headers: the sections of the file and the position behind them.\<close>

definition coff_headers :: "bytes \<Rightarrow> coff_error + scnhdr list \<times> int" where
  "coff_headers f =
     bindE (coff_Read f 0 20) (\<lambda>(fileh, p1).
       if short_at 0 fileh \<noteq> MIPSELMAGIC then Inl NotMipsel
       else
         bindE (coff_Read f p1 56) (\<lambda>(systemh, p2).
           if short_at 0 systemh \<noteq> OMAGIC then Inl NotOmagic
           else
             let numsections = short_at 2 fileh in
             bindE (coff_Read f p2 (numsections * 40)) (\<lambda>(bs, p3).
             Inr (map (\<lambda>i. bytes_to_scnhdr (take 40 (drop (40 * i) bs))) [0..<nat numsections], p3))))"

text \<open>The whole of \<open>main\<close>: \<open>junk\<close> is the uninitialised header, the result is the NOFF file.\<close>

definition coff2noff :: "NoffHeader \<Rightarrow> bytes \<Rightarrow> coff_error + bytes" where
  "coff2noff junk f =
     bindE (coff_headers f) (\<lambda>(sections, p).
     let h = junk\<lparr>noffMagic := NOFFMAGIC, seg_code := (seg_code junk)\<lparr>seg_size := 0\<rparr>,
                  seg_initData := (seg_initData junk)\<lparr>seg_size := 0\<rparr>, seg_uninitData := (seg_uninitData junk)\<lparr>seg_size := 0\<rparr>\<rparr> in
     bindE (coff_sections f sections \<lparr>noffH = h, outFile = [], outPos = 40, inPos = p, inNoffFile = 40\<rparr>) (\<lambda>c.
     Inr (file_write (outFile c) (noff_to_bytes (noffH c)) 0)))"

section \<open>What is in the output\<close>

text \<open>A segment of the header describes section \<open>s\<close>: its address and size are there, and the output has its raw data.\<close>

definition seg_holds :: "bytes \<Rightarrow> bytes \<Rightarrow> Segment \<Rightarrow> scnhdr \<Rightarrow> bool" where
  "seg_holds f out g s \<longleftrightarrow> virtualAddr g = s_paddr s \<and> seg_size g = s_size s \<and> 40 \<le> inFileAddr g \<and> inFileAddr g + s_size s \<le> int (length out) \<and>
     inFileAddr g < 2 ^ 31 \<and> s_scnptr s + s_size s \<le> int (length f) \<and>
     take (nat (s_size s)) (drop (nat (inFileAddr g)) out) = take (nat (s_size s)) (drop (nat (s_scnptr s)) f)"

definition is_text :: "scnhdr \<Rightarrow> bool" where
  "is_text s \<longleftrightarrow> s_size s \<noteq> 0 \<and> named dot_text s"

definition is_data :: "scnhdr \<Rightarrow> bool" where
  "is_data s \<longleftrightarrow> s_size s \<noteq> 0 \<and> (named dot_data s \<or> named dot_rdata s)"

text \<open>The last section of a kind.\<close>

definition last_of :: "(scnhdr \<Rightarrow> bool) \<Rightarrow> scnhdr list \<Rightarrow> scnhdr option" where
  "last_of P ss = List.find P (rev ss)"

definition raw_size :: "scnhdr list \<Rightarrow> int" where
  "raw_size ss = sum_list (map s_size (filter (\<lambda>s. is_text s \<or> is_data s) ss))"

definition conv_inv :: "bytes \<Rightarrow> scnhdr list \<Rightarrow> conv \<Rightarrow> bool" where
  "conv_inv f ss c \<longleftrightarrow> outPos c = 40 + raw_size ss \<and> inNoffFile c = outPos c \<and>
     (outFile c = [] \<and> outPos c = 40 \<or> int (length (outFile c)) = outPos c) \<and> noffMagic (noffH c) = NOFFMAGIC \<and>
     (\<forall>s. last_of is_text ss = Some s \<longrightarrow> seg_holds f (outFile c) (seg_code (noffH c)) s) \<and>
     (\<forall>s. last_of is_data ss = Some s \<longrightarrow> seg_holds f (outFile c) (seg_initData (noffH c)) s)"

lemma last_of_simps [simp]: "last_of P [] = None" "last_of P (ss @ [s]) = (if P s then Some s else last_of P ss)"
  by (simp_all add: last_of_def)

lemma raw_size_simps [simp]:
  "raw_size [] = 0" "raw_size (ss @ [s]) = raw_size ss + (if is_text s \<or> is_data s then s_size s else 0)"
  by (simp_all add: raw_size_def)

lemma named_nth: "named n s \<Longrightarrow> i < length n \<Longrightarrow> s_name s ! i = n ! i"
  unfolding named_def by (metis less_SucI Suc_eq_plus1 nth_append nth_take)

lemma names_disjoint: "named dot_text s \<Longrightarrow> \<not> named dot_data s \<and> \<not> named dot_rdata s"
  using named_nth [of dot_text s 1] named_nth [of dot_data s 1] named_nth [of dot_rdata s 1]
  by (auto simp: dot_text_def dot_data_def dot_rdata_def)

lemma seg_holds_append:
  assumes "seg_holds f out g s" "0 \<le> s_size s"
  shows "seg_holds f (out @ d) g s"
proof -
  have "nat (inFileAddr g) + nat (s_size s) \<le> length out" using assms unfolding seg_holds_def by linarith
  then have "take (nat (s_size s)) (drop (nat (inFileAddr g)) (out @ d)) = take (nat (s_size s)) (drop (nat (inFileAddr g)) out)" by simp
  then show ?thesis using assms by (simp add: seg_holds_def)
qed

lemma seg_holds_Nil: "0 \<le> s_size s \<Longrightarrow> \<not> seg_holds f [] g s"
  by (auto simp: seg_holds_def)

lemma copy_raw_Inr:
  assumes "copy_raw f s c = Inr c'" "0 < s_size s" "0 \<le> s_scnptr s"
  obtains d where "length d = nat (s_size s)" "d = take (nat (s_size s)) (drop (nat (s_scnptr s)) f)" "s_scnptr s + s_size s \<le> int (length f)"
    "c' = c\<lparr>inPos := s_scnptr s + s_size s, outFile := file_write (outFile c) d (outPos c), outPos := outPos c + s_size s,
       inNoffFile := s32 (inNoffFile c + s_size s)\<rparr>"
proof -
  let ?d = "take (nat (s_size s)) (drop (nat (s_scnptr s)) f)"
  have r: "int (length ?d) = s_size s" "c' = c\<lparr>inPos := s_scnptr s + s_size s, outFile := file_write (outFile c) ?d (outPos c),
      outPos := outPos c + s_size s, inNoffFile := s32 (inNoffFile c + s_size s)\<rparr>"
    using assms by (auto simp: copy_raw_def coff_Read_def split: if_splits)
  moreover have "s_scnptr s + s_size s \<le> int (length f)" using r(1) assms(2,3) by (simp add: min_def split: if_splits)
  ultimately show ?thesis using that [of ?d] by simp
qed

text \<open>Raw data goes to the end of the output, which starts behind the header.\<close>

lemma file_write_end:
  assumes "out = [] \<and> p = 40 \<or> int (length out) = p"
  obtains x where "file_write out d p = x @ d" "int (length x) = p" "out \<noteq> [] \<longrightarrow> x = out"
  using assms that [of "replicate 40 0"] that [of out] by (auto simp: file_write_def)

lemma copy_raw_inv:
  assumes "copy_raw f s c = Inr c'" "0 < s_size s" "0 \<le> s_scnptr s" "conv_inv f ss c0" "outFile c = outFile c0" "outPos c = outPos c0" "inNoffFile c = inNoffFile c0"
    and b: "40 + raw_size ss + s_size s < 2 ^ 31" "0 \<le> raw_size ss"
  shows "noffH c' = noffH c \<and> outPos c' = 40 + raw_size ss + s_size s \<and> inNoffFile c' = outPos c' \<and> int (length (outFile c')) = outPos c' \<and>
    (\<forall>g t. 0 \<le> s_size t \<longrightarrow> seg_holds f (outFile c0) g t \<longrightarrow> seg_holds f (outFile c') g t) \<and>
    seg_holds f (outFile c') \<lparr>virtualAddr = s_paddr s, inFileAddr = inNoffFile c, seg_size = s_size s\<rparr> s"
proof -
  obtain d where d: "length d = nat (s_size s)" "d = take (nat (s_size s)) (drop (nat (s_scnptr s)) f)" "s_scnptr s + s_size s \<le> int (length f)"
    "c' = c\<lparr>inPos := s_scnptr s + s_size s, outFile := file_write (outFile c) d (outPos c), outPos := outPos c + s_size s,
       inNoffFile := s32 (inNoffFile c + s_size s)\<rparr>" by (rule copy_raw_Inr [OF assms(1-3)])
  have i: "outPos c0 = 40 + raw_size ss" "inNoffFile c0 = outPos c0" "outFile c0 = [] \<and> outPos c0 = 40 \<or> int (length (outFile c0)) = outPos c0"
    using assms(4) unfolding conv_inv_def by blast+
  obtain x where x: "file_write (outFile c0) d (outPos c0) = x @ d" "int (length x) = outPos c0" "outFile c0 \<noteq> [] \<longrightarrow> x = outFile c0"
    by (rule file_write_end [OF i(3)])
  have o: "outFile c' = x @ d" using d(4) x(1) assms(5,6) by simp
  have "s32 (inNoffFile c + s_size s) = inNoffFile c + s_size s" using assms(2,7) i b by (intro s32_id) auto
  then have p: "outPos c' = 40 + raw_size ss + s_size s" "inNoffFile c' = outPos c'" using d(4) i assms(6,7) by simp_all
  have keep: "seg_holds f (outFile c') g t" if "0 \<le> s_size t" "seg_holds f (outFile c0) g t" for g t
    using that seg_holds_append [of f "outFile c0" g t d] seg_holds_Nil [of t f g] x(3) o by (cases "outFile c0 = []") auto
  have l: "nat (inNoffFile c) = length x" using x(2) i(2) assms(7) by simp
  have "seg_holds f (outFile c') \<lparr>virtualAddr = s_paddr s, inFileAddr = inNoffFile c, seg_size = s_size s\<rparr> s"
    unfolding seg_holds_def o using d(1,2,3) l x(2) i assms(2,7) b by simp
  then show ?thesis using d(1,4) p o x(2) i keep assms(2) by simp
qed

lemma raw_size_nonneg: "(\<And>s. s \<in> set ss \<Longrightarrow> 0 \<le> s_size s) \<Longrightarrow> 0 \<le> raw_size ss"
  by (auto simp: raw_size_def intro!: sum_list_nonneg)

lemma last_of_in: "last_of P ss = Some s \<Longrightarrow> s \<in> set ss"
  by (auto simp: last_of_def find_Some_iff) (metis length_rev nth_mem set_rev)

lemma conv_invD:
  assumes "conv_inv f ss c"
  shows "noffMagic (noffH c) = NOFFMAGIC" "last_of is_text ss = Some s \<Longrightarrow> seg_holds f (outFile c) (seg_code (noffH c)) s"
    "last_of is_data ss = Some s \<Longrightarrow> seg_holds f (outFile c) (seg_initData (noffH c)) s"
  using assms by (auto simp: conv_inv_def)

text \<open>One section of the loop.\<close>

lemma coff_section_inv:
  assumes "coff_section f s c = Inr c'" "conv_inv f ss c" and z: "\<And>t. t \<in> set (ss @ [s]) \<Longrightarrow> 0 \<le> s_size t"
    and p: "is_text s \<or> is_data s \<longrightarrow> 0 \<le> s_scnptr s" and b: "40 + raw_size (ss @ [s]) < 2 ^ 31"
  shows "conv_inv f (ss @ [s]) c'"
proof -
  have nn: "0 \<le> raw_size ss" using z by (intro raw_size_nonneg) simp
  have old: "0 \<le> s_size t" if "last_of P ss = Some t" for P t using last_of_in [OF that] z by simp
  consider (tx) "is_text s" "\<not> is_data s" "s_size s \<noteq> 0" "named dot_text s"
    | (data) "is_data s" "\<not> is_text s" "s_size s \<noteq> 0" "\<not> named dot_text s" "named dot_data s \<or> named dot_rdata s"
    | (none) "\<not> is_text s" "\<not> is_data s"
    using names_disjoint by (auto simp: is_text_def is_data_def)
  then show ?thesis
  proof cases
    case tx
    let ?g = "\<lparr>virtualAddr = s_paddr s, inFileAddr = inNoffFile c, seg_size = s_size s\<rparr>"
    have r: "copy_raw f s (c\<lparr>noffH := (noffH c)\<lparr>seg_code := ?g\<rparr>\<rparr>) = Inr c'" using assms(1) tx by (simp add: coff_section_def Let_def)
    have pos: "0 < s_size s" "40 + raw_size ss + s_size s < 2 ^ 31" "0 \<le> s_scnptr s" using tx z [of s] b p by auto
    note k = copy_raw_inv [OF r pos(1,3) assms(2) _ _ _ pos(2) nn, simplified]
    show ?thesis unfolding conv_inv_def using k tx conv_invD [OF assms(2)] old by auto
  next
    case data
    let ?g = "\<lparr>virtualAddr = s_paddr s, inFileAddr = inNoffFile c, seg_size = s_size s\<rparr>"
    have r: "copy_raw f s (c\<lparr>noffH := (noffH c)\<lparr>seg_initData := ?g\<rparr>\<rparr>) = Inr c'"
      using assms(1) data by (auto simp: coff_section_def Let_def split: if_splits)
    have pos: "0 < s_size s" "40 + raw_size ss + s_size s < 2 ^ 31" "0 \<le> s_scnptr s" using data z [of s] b p by auto
    note k = copy_raw_inv [OF r pos(1,3) assms(2) _ _ _ pos(2) nn, simplified]
    show ?thesis unfolding conv_inv_def using k data conv_invD [OF assms(2)] old by auto
  next
    case none
    then have "outFile c' = outFile c \<and> outPos c' = outPos c \<and> inNoffFile c' = inNoffFile c \<and> noffMagic (noffH c') = noffMagic (noffH c) \<and>
        seg_code (noffH c') = seg_code (noffH c) \<and> seg_initData (noffH c') = seg_initData (noffH c)"
      using assms(1) by (auto simp: coff_section_def Let_def is_text_def is_data_def split: if_splits)
    then show ?thesis using none assms(2) unfolding conv_inv_def by (auto simp del: of_nat_add)
  qed
qed

lemma coff_sections_inv:
  assumes "coff_sections f ts c = Inr c'" "conv_inv f ss c" "\<And>t. t \<in> set (ss @ ts) \<Longrightarrow> 0 \<le> s_size t"
    "\<And>t. t \<in> set ts \<Longrightarrow> is_text t \<or> is_data t \<Longrightarrow> 0 \<le> s_scnptr t" "40 + raw_size (ss @ ts) < 2 ^ 31"
  shows "conv_inv f (ss @ ts) c'"
  using assms
proof (induction ts arbitrary: ss c)
  case (Cons s ts)
  from Cons.prems(1) obtain c1 where c1: "coff_section f s c = Inr c1" "coff_sections f ts c1 = Inr c'" by (auto simp: bindE_eq_Inr)
  have "raw_size (ss @ s # ts) = raw_size (ss @ [s]) + raw_size ts" by (simp add: raw_size_def)
  moreover have "0 \<le> raw_size ts" using Cons.prems(3) by (intro raw_size_nonneg) simp
  ultimately have "40 + raw_size (ss @ [s]) < 2 ^ 31" using Cons.prems(5) by simp
  then have "conv_inv f (ss @ [s]) c1" using Cons.prems(3,4) by (intro coff_section_inv [OF c1(1) Cons.prems(2)]) auto
  from Cons.IH [OF c1(2) this] Cons.prems(3-5) show ?case by simp
qed simp

lemma exe_hdr_written:
  assumes "out = [] \<or> 40 \<le> length out"
  shows "exe_hdr (file_write out (noff_to_bytes h) 0) = bytes_to_noff (noff_to_bytes h)"
    "drop (40 + n) (file_write out (noff_to_bytes h) 0) = drop (40 + n) out"
proof -
  have l: "length (noff_to_bytes h) = 40" by (simp add: noff_to_bytes_def Let_def)
  have w: "file_write out (noff_to_bytes h) 0 = noff_to_bytes h @ drop 40 out" by (simp add: file_write_def l)
  show "exe_hdr (file_write out (noff_to_bytes h) 0) = bytes_to_noff (noff_to_bytes h)" unfolding w exe_hdr_def by (simp add: l)
  show "drop (40 + n) (file_write out (noff_to_bytes h) 0) = drop (40 + n) out" unfolding w by (simp add: l add.commute)
qed

lemma bytes_to_noff_to_bytes:
  "bytes_to_noff (noff_to_bytes h) =
     \<lparr>noffMagic = s32 (noffMagic h),
      seg_code = \<lparr>virtualAddr = s32 (virtualAddr (seg_code h)), inFileAddr = s32 (inFileAddr (seg_code h)), seg_size = s32 (seg_size (seg_code h))\<rparr>,
      seg_initData = \<lparr>virtualAddr = s32 (virtualAddr (seg_initData h)), inFileAddr = s32 (inFileAddr (seg_initData h)), seg_size = s32 (seg_size (seg_initData h))\<rparr>,
      seg_uninitData = \<lparr>virtualAddr = s32 (virtualAddr (seg_uninitData h)), inFileAddr = s32 (inFileAddr (seg_uninitData h)), seg_size = s32 (seg_size (seg_uninitData h))\<rparr>\<rparr>"
  by (simp add: bytes_to_noff_def noff_to_bytes_def Let_def s32_def)

lemma dword_at_range: "s32 (dword_at i bs) = dword_at i bs"
  by (simp add: s32_def dword_at_def)

lemma coff_headers_range:
  assumes "coff_headers f = Inr (ss, p)" "s \<in> set ss"
  shows "s32 (s_paddr s) = s_paddr s" "s32 (s_size s) = s_size s"
  using assms by (auto simp: coff_headers_def bindE_eq_Inr Let_def bytes_to_scnhdr_def dword_at_range split: if_splits)

lemma seg_holds_final:
  assumes "seg_holds f out g s" "0 \<le> s_size s" "s32 (s_paddr s) = s_paddr s" "s32 (s_size s) = s_size s" "\<And>n. drop (40 + n) out' = drop (40 + n) out" "length out \<le> length out'"
  shows "seg_holds f out' \<lparr>virtualAddr = s32 (virtualAddr g), inFileAddr = s32 (inFileAddr g), seg_size = s32 (seg_size g)\<rparr> s"
proof -
  have g: "40 \<le> inFileAddr g" "inFileAddr g < 2 ^ 31" using assms(1) by (simp_all add: seg_holds_def)
  then have "nat (inFileAddr g) = 40 + (nat (inFileAddr g) - 40)" by simp
  then have "drop (nat (inFileAddr g)) out' = drop (nat (inFileAddr g)) out" using assms(5) by metis
  moreover have "s32 (inFileAddr g) = inFileAddr g" using g by (intro s32_id) auto
  ultimately show ?thesis using assms(1-4,6) by (simp add: seg_holds_def)
qed

lemma seg_holds_page:
  assumes "seg_holds f out (seg_code (exe_hdr out)) s" "j < nat (s_size s)" "0 \<le> s_scnptr s"
  shows "j mod 128 < length (exe_page out (exe_hdr out) (int (j div 128)))"
    "exe_page out (exe_hdr out) (int (j div 128)) ! (j mod 128) = f ! (nat (s_scnptr s) + j)"
proof -
  let ?a = "nat (inFileAddr (seg_code (exe_hdr out)))"
  have i: "nat (inFileAddr (seg_code (exe_hdr out)) + int (j div 128) * 128) = ?a + j div 128 * 128"
    using assms(1) by (simp add: seg_holds_def nat_add_distrib nat_mult_distrib)
  have len: "?a + j < length out" "nat (s_scnptr s) + j < length f" using assms by (auto simp: seg_holds_def)
  have jj: "j div 128 * 128 + j mod 128 = j" by simp
  show "j mod 128 < length (exe_page out (exe_hdr out) (int (j div 128)))" unfolding exe_page_def i length_take length_drop
    using len(1) jj mod_less_divisor [of 128 j] by linarith
  have "take (nat (s_size s)) (drop ?a out) ! j = take (nat (s_size s)) (drop (nat (s_scnptr s)) f) ! j" using assms(1) by (simp add: seg_holds_def)
  then have "out ! (?a + j) = f ! (nat (s_scnptr s) + j)" using assms(2) len by simp
  moreover have "exe_page out (exe_hdr out) (int (j div 128)) ! (j mod 128) = out ! (?a + j div 128 * 128 + j mod 128)"
    unfolding exe_page_def i using len(1) jj by (subst nth_take) (simp_all del: div_mult_mod_eq)
  ultimately show "exe_page out (exe_hdr out) (int (j div 128)) ! (j mod 128) = f ! (nat (s_scnptr s) + j)" by (simp add: add.assoc)
qed

lemma coff2noff_segments:
  assumes "coff_headers f = Inr (ss, p)" "coff2noff junk f = Inr out" "\<forall>s \<in> set ss. 0 \<le> s_size s \<and> 0 \<le> s_scnptr s" "40 + raw_size ss < 2 ^ 31"
  shows "noffMagic (exe_hdr out) = NOFFMAGIC \<and> (\<forall>s. last_of is_text ss = Some s \<longrightarrow> seg_holds f out (seg_code (exe_hdr out)) s) \<and>
    (\<forall>s. last_of is_data ss = Some s \<longrightarrow> seg_holds f out (seg_initData (exe_hdr out)) s)"
proof -
  obtain c where c: "coff_sections f ss \<lparr>noffH = junk\<lparr>noffMagic := NOFFMAGIC, seg_code := (seg_code junk)\<lparr>seg_size := 0\<rparr>,
        seg_initData := (seg_initData junk)\<lparr>seg_size := 0\<rparr>, seg_uninitData := (seg_uninitData junk)\<lparr>seg_size := 0\<rparr>\<rparr>,
        outFile = [], outPos = 40, inPos = p, inNoffFile = 40\<rparr> = Inr c" (is "coff_sections f ss ?c = _")
    "out = file_write (outFile c) (noff_to_bytes (noffH c)) 0"
    using assms(1,2) by (auto simp: coff2noff_def bindE_eq_Inr Let_def)
  have "conv_inv f [] ?c" by (simp add: conv_inv_def)
  then have inv: "conv_inv f ss c" using coff_sections_inv [OF c(1), of "[]"] assms(3,4) by auto
  have "outFile c = [] \<or> 40 \<le> int (length (outFile c))" using inv raw_size_nonneg [of ss] assms(3) by (auto simp: conv_inv_def)
  then have l: "outFile c = [] \<or> 40 \<le> length (outFile c)" by auto
  note w = exe_hdr_written [OF l, where h = "noffH c", folded c(2)]
  have len: "length (outFile c) \<le> length out" unfolding c(2) file_write_def by simp
  have fin: "seg_holds f out \<lparr>virtualAddr = s32 (virtualAddr g), inFileAddr = s32 (inFileAddr g), seg_size = s32 (seg_size g)\<rparr> s"
    if "last_of P ss = Some s" "seg_holds f (outFile c) g s" for P g s
    using seg_holds_final [OF that(2) _ coff_headers_range [OF assms(1) last_of_in [OF that(1)]] w(2) len] last_of_in [OF that(1)] assms(3) by blast
  have "s32 NOFFMAGIC = NOFFMAGIC" by (rule s32_id) auto
  then show ?thesis using w(1) conv_invD [OF inv] fin by (simp add: bytes_to_noff_to_bytes)
qed

section \<open>Properties\<close>

text \<open>
  The converter keeps the program: the output has the magic number of NOFF, its code segment has the address, the size and the
  raw bytes of the last non-empty .text section of the input, and its segment of initialised data those of the last .data or .rdata section.
\<close>

theorem coff2noff_keeps_sections:
  assumes "coff_headers f = Inr (ss, p)" "coff2noff junk f = Inr out" "\<forall>s \<in> set ss. 0 \<le> s_size s \<and> 0 \<le> s_scnptr s" "40 + raw_size ss < 2 ^ 31"
  shows "noffMagic (exe_hdr out) = NOFFMAGIC \<and> (\<forall>s. last_of is_text ss = Some s \<longrightarrow> seg_holds f out (seg_code (exe_hdr out)) s) \<and>
    (\<forall>s. last_of is_data ss = Some s \<longrightarrow> seg_holds f out (seg_initData (exe_hdr out)) s)"
  by (rule coff2noff_segments [OF assms])

text \<open>A program of one instruction, loaded at address 0.\<close>

definition demo_section :: scnhdr where
  "demo_section = \<lparr>s_name = dot_text @ [0, 0, 0], s_paddr = 0, s_size = 4, s_scnptr = 116\<rparr>"

definition demo_coff :: bytes where
  "demo_coff = [98, 1, 1, 0] @ replicate 16 0 @ [7, 1] @ replicate 54 0 @ dot_text @ replicate 11 0 @ [4, 0, 0, 0, 116, 0, 0, 0] @ replicate 16 0 @ [8, 0, 224, 3]"

lemma demo_headers: "coff_headers demo_coff = Inr ([demo_section], 116)"
  by code_simp

definition demo_noff :: bytes where
  "demo_noff = words_to_bytes [0xbadfad, 0, 40, 4, 0, 0, 0, 0, 0, 0] @ [8, 0, 224, 3]"

definition demo_junk :: NoffHeader where
  "demo_junk = \<lparr>noffMagic = 0, seg_code = \<lparr>virtualAddr = 0, inFileAddr = 0, seg_size = 0\<rparr>,
     seg_initData = \<lparr>virtualAddr = 0, inFileAddr = 0, seg_size = 0\<rparr>, seg_uninitData = \<lparr>virtualAddr = 0, inFileAddr = 0, seg_size = 0\<rparr>\<rparr>"

lemma demo_converts: "coff2noff demo_junk demo_coff = Inr demo_noff"
  by code_simp

lemma demo_noff_ok: "exe_ok demo_noff" "exe_pages demo_noff = 9"
  by code_simp+

theorem coff2noff_keeps_sections_witness:
  "noffMagic (exe_hdr demo_noff) = NOFFMAGIC \<and> seg_holds demo_coff demo_noff (seg_code (exe_hdr demo_noff)) demo_section"
proof -
  have "last_of is_text [demo_section] = Some demo_section" "raw_size [demo_section] = 4" by code_simp+
  then show ?thesis using coff2noff_keeps_sections [OF demo_headers demo_converts] by (simp add: demo_section_def)
qed

text \<open>
  (C24) From the compiler to memory: when the converted program is accepted by the loader and its pages are free, byte \<open>j\<close> of the .text
  section of the COFF file is at offset \<open>j mod 128\<close> of the frame that virtual page \<open>j div 128\<close> of the new address space maps to.
\<close>

theorem coff_program_in_memory:
  assumes "coff_headers f = Inr (ss, p)" "coff2noff h0 f = Inr out" "\<forall>s \<in> set ss. 0 \<le> s_size s \<and> 0 \<le> s_scnptr s" "40 + raw_size ss < 2 ^ 31"
    and "last_of is_text ss = Some s" "exe_ok out" "length junk = 40" "length mem = 4096" "bm_inv mm" "numBits mm = 32" "exe_pages out \<le> 32 - int (card (bm_used mm))"
  shows "\<exists>sp mm' mem'. new_AddrSpace False junk nm out mm mem = Inr (sp, mm', mem') \<and>
    (\<forall>j < nat (s_size s). frame mem' (physicalPage (pageTable sp ! (j div 128))) ! (j mod 128) = f ! (nat (s_scnptr s) + j))"
proof -
  let ?h = "exe_hdr out"
  have g: "seg_holds f out (seg_code ?h) s" using coff2noff_segments [OF assms(1-4)] assms(5) by blast
  from new_AddrSpace_eq [OF assms(6-11), of nm] obtain sp mm' mem' where N: "new_AddrSpace False junk nm out mm mem = Inr (sp, mm', mem')"
    and L: "\<forall>i. 0 \<le> i \<and> i < max (divRoundUp (seg_size (seg_code ?h)) 128) (divRoundUp (seg_size (seg_initData ?h)) 128) \<longrightarrow>
      frame mem' (physicalPage (pageTable sp ! nat i)) = exe_page out ?h i @ drop (length (exe_page out ?h i)) (frame mem (physicalPage (pageTable sp ! nat i)))" by blast
  have "frame mem' (physicalPage (pageTable sp ! (j div 128))) ! (j mod 128) = f ! (nat (s_scnptr s) + j)" if j: "j < nat (s_size s)" for j
  proof -
    have nn: "0 \<le> s_scnptr s" using assms(3) last_of_in [OF assms(5)] by blast
    have "int (j div 128) < divRoundUp (seg_size (seg_code ?h)) 128"
      using j g divRoundUp_bounds(1) [of "seg_size (seg_code ?h)" 128] by (simp add: seg_holds_def) linarith
    then have fr: "frame mem' (physicalPage (pageTable sp ! (j div 128))) =
        exe_page out ?h (int (j div 128)) @ drop (length (exe_page out ?h (int (j div 128)))) (frame mem (physicalPage (pageTable sp ! (j div 128))))"
      using L [rule_format, of "int (j div 128)"] by simp
    note pg = seg_holds_page [OF g j nn]
    show ?thesis unfolding fr nth_append using pg by simp
  qed
  then show ?thesis using N by blast
qed

theorem coff_program_in_memory_witness:
  "\<exists>mm sp mm' mem'. new_BitMap (\<lambda>_. 5) 32 = Inr mm \<and> new_AddrSpace False (replicate 40 0) [] demo_noff mm (replicate 4096 1) = Inr (sp, mm', mem') \<and>
     frame mem' (physicalPage (pageTable sp ! 0)) ! 2 = 224"
proof -
  obtain mm where mm: "new_BitMap (\<lambda>_. 5) 32 = Inr mm" "bm_inv mm" "numBits mm = 32" "bm_used mm = {}" using new_BitMap_eq [of 32 "\<lambda>_. 5"] by auto
  have l: "last_of is_text [demo_section] = Some demo_section" "raw_size [demo_section] = 4" "demo_coff ! 118 = 224" by code_simp+
  obtain sp mm' mem' where "new_AddrSpace False (replicate 40 0) [] demo_noff mm (replicate 4096 1) = Inr (sp, mm', mem') \<and>
     (\<forall>j < nat (s_size demo_section). frame mem' (physicalPage (pageTable sp ! (j div 128))) ! (j mod 128) = demo_coff ! (nat (s_scnptr demo_section) + j))"
    using coff_program_in_memory [OF demo_headers demo_converts _ _ l(1) demo_noff_ok(1), of "replicate 40 0" "replicate 4096 1" mm "[]"] mm l demo_noff_ok(2)
    by (auto simp: demo_section_def)
  then show ?thesis using mm(1) l(3) by (fastforce simp: demo_section_def)
qed

text \<open>
  The test for two sections of uninitialised data is inverted. The comment asks for .bss and .sbss to be contiguous, but a
  second section is refused exactly when it is contiguous with the first one, and a gap is accepted.
\<close>

theorem bss_check_inverted:
  assumes "named dot_bss s \<or> named dot_sbss s" "s_size s \<noteq> 0" "seg_size (seg_uninitData (noffH c)) \<noteq> 0"
  shows "coff_section f s c = Inl BothBss \<longleftrightarrow> s_paddr s = s32 (virtualAddr (seg_uninitData (noffH c)) + seg_size (seg_uninitData (noffH c)))"
proof -
  have "\<not> named dot_text s" "\<not> named dot_data s" "\<not> named dot_rdata s"
    using assms(1) named_nth [of dot_text s 1] named_nth [of dot_data s 1] named_nth [of dot_rdata s 1] named_nth [of dot_bss s 1] named_nth [of dot_sbss s 1]
    by (auto simp: dot_text_def dot_data_def dot_rdata_def dot_bss_def dot_sbss_def)
  then show ?thesis using assms by (auto simp: coff_section_def Let_def)
qed

theorem bss_check_inverted_witness:
  "coff_section [] \<lparr>s_name = dot_sbss @ [0, 0, 0], s_paddr = 300, s_size = 8, s_scnptr = 0\<rparr>
     \<lparr>noffH = \<lparr>noffMagic = NOFFMAGIC, seg_code = \<lparr>virtualAddr = 0, inFileAddr = 0, seg_size = 0\<rparr>,
        seg_initData = \<lparr>virtualAddr = 0, inFileAddr = 0, seg_size = 0\<rparr>, seg_uninitData = \<lparr>virtualAddr = 200, inFileAddr = 0, seg_size = 100\<rparr>\<rparr>,
      outFile = [], outPos = 40, inPos = 0, inNoffFile = 40\<rparr> = Inl BothBss"
  by (subst bss_check_inverted) (simp_all add: named_def dot_sbss_def s32_def)

end
