(* ===== verification/Disk_Device.thy ===== *)
theory Disk_Device
  imports Interrupts Addr_Space
begin

text \<open>
  The simulated disk (\<open>machine/disk.cc\<close>) and the synchronous interface to it (\<open>filesys/synchdisk.cc\<close>), on the interrupt
  simulation of \<open>Interrupts\<close>.

  The UNIX file that holds the disk is a list of bytes. \<open>kern\<close> is the state of the \<open>SynchDisk\<close> object with its disk, its semaphore
  and its lock. One thread uses the disk: where \<open>Semaphore::P\<close> makes it sleep no other thread is ready, so \<open>Thread::Sleep\<close>
  idles until the interrupt handler calls \<open>V\<close>; \<open>Synch_Safety\<close> treats several threads. \<open>SetLevel\<close> advances the clock
  whenever interrupts are enabled again, as in the sources.

  The theorems: the latency of a request is the least time in which the head reaches the sector and the sector passes it,
  and \<open>SynchDisk\<close> behaves as the list of sectors that \<open>Open_File\<close> and \<open>File_System\<close> work on. \<open>sector_device\<close> is the interface.
\<close>

section \<open>The device\<close>

abbreviation (input) SectorsPerTrack :: int where "SectorsPerTrack \<equiv> 32"
abbreviation (input) SeekTime :: int where "SeekTime \<equiv> 500"
abbreviation (input) RotationTime :: int where "RotationTime \<equiv> 500"
abbreviation (input) MagicNumber :: "32 word" where "MagicNumber \<equiv> 0x456789ab"
abbreviation (input) MagicSize :: int where "MagicSize \<equiv> 4"
abbreviation (input) DiskSize :: int where "DiskSize \<equiv> 131076"

record Disk =
  dk_file :: bytes
  active :: bool
  lastSector :: int
  bufferInit :: int

record SynchDisk =
  sd_disk :: Disk
  sd_sem :: int
  sd_mutex :: int
  sd_held :: bool

datatype disk_handler = DiskDone

type_synonym disk_machine = "(disk_handler, SynchDisk) sim"

text \<open>\<open>Read\<close> of \<open>machine/sysdep.cc\<close> behind \<open>Lseek\<close>: all bytes or an abort.\<close>

definition unix_Read :: "bytes \<Rightarrow> int \<Rightarrow> int \<Rightarrow> bytes result" where
  "unix_Read f nBytes offset =
     bindE (stub_ReadAt f nBytes offset) (\<lambda>bs. bindE (ASSERT (int (length bs) = nBytes)) (\<lambda>_. Inr bs))"

text \<open>The file is \<open>None\<close> when it does not exist yet.\<close>

definition new_Disk :: "bytes option \<Rightarrow> Disk result" where
  "new_Disk f =
     bindE (case f of
         Some fileno \<Rightarrow>
           bindE (unix_Read fileno MagicSize 0) (\<lambda>bs.
           bindE (ASSERT (bytes_to_word bs = MagicNumber)) (\<lambda>_. Inr fileno))
       | None \<Rightarrow>
           bindE (stub_WriteAt [] (word_to_bytes MagicNumber) 0) (\<lambda>f1. stub_WriteAt f1 (word_to_bytes 0) (DiskSize - 4)))
       (\<lambda>fileno. Inr \<lparr>dk_file = fileno, active = False, lastSector = 0, bufferInit = 0\<rparr>)"

text \<open>The time for the seek, and the time until the head is at the next sector boundary.\<close>

definition TimeToSeek :: "Disk \<Rightarrow> Statistics \<Rightarrow> int \<Rightarrow> int \<times> int" where
  "TimeToSeek d st newSector =
     (let newTrack = newSector sdiv SectorsPerTrack;
          oldTrack = lastSector d sdiv SectorsPerTrack;
          seek = \<bar>newTrack - oldTrack\<bar> * SeekTime;
          over = (totalTicks st + seek) smod RotationTime
      in (seek, if over > 0 then RotationTime - over else 0))"

definition ModuloDiff :: "int \<Rightarrow> int \<Rightarrow> int" where
  "ModuloDiff to frm =
     (let toOffset = to smod SectorsPerTrack; fromOffset = frm smod SectorsPerTrack
      in ((toOffset - fromOffset) + SectorsPerTrack) smod SectorsPerTrack)"

definition ComputeLatency :: "Disk \<Rightarrow> Statistics \<Rightarrow> int \<Rightarrow> bool \<Rightarrow> int" where
  "ComputeLatency d st newSector writing =
     (let (seek, rotation) = TimeToSeek d st newSector;
          timeAfter = totalTicks st + seek + rotation
      in if \<not> writing \<and> seek = 0 \<and> (timeAfter - bufferInit d) sdiv RotationTime > ModuloDiff newSector (bufferInit d sdiv RotationTime)
         then RotationTime
         else seek + (rotation + ModuloDiff newSector (timeAfter sdiv RotationTime) * RotationTime) + RotationTime)"

definition UpdateLast :: "Statistics \<Rightarrow> int \<Rightarrow> Disk \<Rightarrow> Disk" where
  "UpdateLast st newSector d =
     (let (seek, rotate) = TimeToSeek d st newSector;
          d1 = (if seek \<noteq> 0 then d\<lparr>bufferInit := totalTicks st + seek + rotate\<rparr> else d)
      in d1\<lparr>lastSector := newSector\<rparr>)"

definition put_disk :: "Disk \<Rightarrow> disk_machine \<Rightarrow> disk_machine" where
  "put_disk d s = s\<lparr>kern := (kern s)\<lparr>sd_disk := d\<rparr>\<rparr>"

definition ReadRequest :: "int \<Rightarrow> disk_machine \<Rightarrow> (bytes \<times> disk_machine) result" where
  "ReadRequest sectorNumber s =
     (let d = sd_disk (kern s); ticks = ComputeLatency d (stats s) sectorNumber False in
      bindE (ASSERT (\<not> active d)) (\<lambda>_.
      bindE (ASSERT (sectorNumber \<ge> 0 \<and> sectorNumber < NumSectors)) (\<lambda>_.
      bindE (unix_Read (dk_file d) SectorSize (SectorSize * sectorNumber + MagicSize)) (\<lambda>data.
      let s1 = put_disk (UpdateLast (stats s) sectorNumber (d\<lparr>active := True\<rparr>)) s;
          s2 = s1\<lparr>stats := (stats s1)\<lparr>numDiskReads := numDiskReads (stats s1) + 1\<rparr>\<rparr> in
      bindE (Schedule DiskDone ticks DiskInt s2) (\<lambda>s3. Inr (data, s3))))))"

definition WriteRequest :: "int \<Rightarrow> bytes \<Rightarrow> disk_machine \<Rightarrow> disk_machine result" where
  "WriteRequest sectorNumber data s =
     (let d = sd_disk (kern s); ticks = ComputeLatency d (stats s) sectorNumber True in
      bindE (ASSERT (\<not> active d)) (\<lambda>_.
      bindE (ASSERT (sectorNumber \<ge> 0 \<and> sectorNumber < NumSectors)) (\<lambda>_.
      bindE (stub_WriteAt (dk_file d) data (SectorSize * sectorNumber + MagicSize)) (\<lambda>f.
      let s1 = put_disk (UpdateLast (stats s) sectorNumber (d\<lparr>dk_file := f, active := True\<rparr>)) s;
          s2 = s1\<lparr>stats := (stats s1)\<lparr>numDiskWrites := numDiskWrites (stats s1) + 1\<rparr>\<rparr> in
      Schedule DiskDone ticks DiskInt s2))))"

section \<open>The synchronous disk\<close>

text \<open>\<open>RequestDone\<close> calls \<open>V\<close> in an interrupt handler: interrupts are off before and after, and no time passes.\<close>

definition RequestDone :: "disk_machine \<Rightarrow> disk_machine" where
  "RequestDone s = s\<lparr>kern := (kern s)\<lparr>sd_sem := sd_sem (kern s) + 1\<rparr>\<rparr>"

definition HandleInterrupt :: "disk_machine \<Rightarrow> disk_machine" where
  "HandleInterrupt s = RequestDone (put_disk ((sd_disk (kern s))\<lparr>active := False\<rparr>) s)"

fun disk_call :: "(disk_handler, SynchDisk) handler_call" where
  "disk_call DiskDone s = Inr (HandleInterrupt s)"

text \<open>The thread is alone, so a \<open>Yield\<close> returns at once.\<close>

definition disk_SetLevel :: "IntStatus \<Rightarrow> disk_machine \<Rightarrow> (IntStatus \<times> disk_machine) result option" where
  "disk_SetLevel now s = SetLevel disk_call (\<lambda>k. k) (\<lambda>s. Some (Inr s)) now s"

text \<open>\<open>P\<close> and \<open>V\<close> on a semaphore of the object, given by how its value is read and written.\<close>

partial_function (option) wait_sem :: "(SynchDisk \<Rightarrow> int) \<Rightarrow> disk_machine \<Rightarrow> disk_machine result option" where
  "wait_sem val s =
     (if val (kern s) = 0
      then Option.bind (Idle disk_call (\<lambda>k. k) s) (\<lambda>r. case r of Inl e \<Rightarrow> Some (Inl e) | Inr s' \<Rightarrow> wait_sem val s')
      else Some (Inr s))"

definition disk_P :: "(SynchDisk \<Rightarrow> int) \<Rightarrow> (int \<Rightarrow> SynchDisk \<Rightarrow> SynchDisk) \<Rightarrow> disk_machine \<Rightarrow> disk_machine result option" where
  "disk_P val put s =
     bindO (disk_SetLevel IntOff s) (\<lambda>(oldLevel, s1).
     bindO (wait_sem val s1) (\<lambda>s2.
     bindO (disk_SetLevel oldLevel (s2\<lparr>kern := put (val (kern s2) - 1) (kern s2)\<rparr>)) (\<lambda>(_, s3). Some (Inr s3))))"

definition disk_V :: "(SynchDisk \<Rightarrow> int) \<Rightarrow> (int \<Rightarrow> SynchDisk \<Rightarrow> SynchDisk) \<Rightarrow> disk_machine \<Rightarrow> disk_machine result option" where
  "disk_V val put s =
     bindO (disk_SetLevel IntOff s) (\<lambda>(oldLevel, s1).
     bindO (disk_SetLevel oldLevel (s1\<lparr>kern := put (val (kern s1) + 1) (kern s1)\<rparr>)) (\<lambda>(_, s2). Some (Inr s2)))"

definition disk_Acquire :: "disk_machine \<Rightarrow> disk_machine result option" where
  "disk_Acquire s =
     bindO (disk_P sd_mutex (\<lambda>v k. k\<lparr>sd_mutex := v\<rparr>) s) (\<lambda>s1. Some (Inr (s1\<lparr>kern := (kern s1)\<lparr>sd_held := True\<rparr>\<rparr>)))"

definition disk_Release :: "disk_machine \<Rightarrow> disk_machine result option" where
  "disk_Release s =
     (if sd_held (kern s) then disk_V sd_mutex (\<lambda>v k. k\<lparr>sd_mutex := v\<rparr>) (s\<lparr>kern := (kern s)\<lparr>sd_held := False\<rparr>\<rparr>) else Some (Inl AssertFailed))"

definition new_SynchDisk :: "bytes option \<Rightarrow> SynchDisk result" where
  "new_SynchDisk f = bindE (new_Disk f) (\<lambda>d. Inr \<lparr>sd_disk = d, sd_sem = 0, sd_mutex = 1, sd_held = False\<rparr>)"

definition SD_ReadSector :: "int \<Rightarrow> disk_machine \<Rightarrow> (bytes \<times> disk_machine) result option" where
  "SD_ReadSector sectorNumber s =
     bindO (disk_Acquire s) (\<lambda>s1.
     bindO (Some (ReadRequest sectorNumber s1)) (\<lambda>(data, s2).
     bindO (disk_P sd_sem (\<lambda>v k. k\<lparr>sd_sem := v\<rparr>) s2) (\<lambda>s3.
     bindO (disk_Release s3) (\<lambda>s4. Some (Inr (data, s4))))))"

definition SD_WriteSector :: "int \<Rightarrow> bytes \<Rightarrow> disk_machine \<Rightarrow> disk_machine result option" where
  "SD_WriteSector sectorNumber data s =
     bindO (disk_Acquire s) (\<lambda>s1.
     bindO (Some (WriteRequest sectorNumber data s1)) (\<lambda>s2.
     bindO (disk_P sd_sem (\<lambda>v k. k\<lparr>sd_sem := v\<rparr>) s2) disk_Release))"


section \<open>Latency\<close>

text \<open>
  The head passes one sector in every \<open>RotationTime\<close> ticks, starting with sector 0 of a track at time 0. A request that arrives at time \<open>now\<close>
  and needs \<open>seek\<close> ticks for the seek is served \<open>t\<close> ticks later when its sector has passed the head completely since the end of the seek.
\<close>

definition passes :: "int \<Rightarrow> int \<Rightarrow> int \<Rightarrow> int \<Rightarrow> bool" where
  "passes now seek sector t \<longleftrightarrow>
     (let k = (now + t) div 500 - 1 in (now + t) mod 500 = 0 \<and> k mod 32 = sector mod 32 \<and> k * 500 \<ge> now + seek)"

lemma TimeToSeek_eq:
  assumes "0 \<le> totalTicks st" "0 \<le> lastSector d" "0 \<le> n"
  shows "TimeToSeek d st n = (\<bar>n div 32 - lastSector d div 32\<bar> * 500,
    (- (totalTicks st + \<bar>n div 32 - lastSector d div 32\<bar> * 500)) mod 500)"
proof -
  let ?a = "totalTicks st + \<bar>n div 32 - lastSector d div 32\<bar> * 500"
  have a: "0 \<le> ?a" using assms(1) by simp
  have "(if x mod 500 > 0 then 500 - x mod 500 else 0) = (- x) mod 500" for x :: int
    using pos_mod_sign [of 500 x] by (auto simp: zmod_zminus1_eq_if)
  note m = this [of ?a]
  have "n sdiv 32 = n div 32" "lastSector d sdiv 32 = lastSector d div 32" using assms by (simp_all add: sdiv_nonneg)
  moreover have "?a smod 500 = ?a mod 500" by (rule smod_nonneg [OF a]) simp
  ultimately show ?thesis unfolding TimeToSeek_def Let_def by (simp only: m)
qed

lemma ModuloDiff_eq: "0 \<le> n \<Longrightarrow> 0 \<le> m \<Longrightarrow> ModuloDiff n m = (n - m) mod 32"
proof -
  assume "0 \<le> n" "0 \<le> m"
  then have "0 \<le> n mod 32 - m mod 32 + 32" using pos_mod_sign [of 32 n] pos_mod_bound [of 32 m] by linarith
  then show ?thesis using \<open>0 \<le> n\<close> \<open>0 \<le> m\<close> by (simp add: ModuloDiff_def Let_def smod_nonneg mod_diff_eq)
qed

text \<open>The next sector boundary \<open>q\<close>.\<close>

lemma next_boundary: "\<exists>q. a + (- a) mod 500 = q * (500 :: int)"
proof -
  have "(a + (- a) mod 500) mod 500 = 0" by (simp add: mod_add_right_eq)
  then show ?thesis by (metis add.commute add_0 div_mult_mod_eq)
qed

lemma wait_rotations:
  fixes q n a :: int
  assumes "(q - 1) * 500 < a" "a \<le> q * 500"
  shows "(q + (n - q) mod 32) mod 32 = n mod 32" "k mod 32 = n mod 32 \<Longrightarrow> a \<le> k * 500 \<Longrightarrow> q + (n - q) mod 32 \<le> k"
proof -
  show "(q + (n - q) mod 32) mod 32 = n mod 32" by (simp add: mod_add_right_eq)
  assume k: "k mod 32 = n mod 32" "a \<le> k * 500"
  have "(q - 1) * 500 < k * 500" using assms(1) k(2) by (rule less_le_trans)
  then have "q \<le> k" by simp
  moreover have "(n - q) mod 32 = (k - q) mod 32" using k(1) by (metis mod_diff_left_eq)
  ultimately show "q + (n - q) mod 32 \<le> k" using zmod_le_nonneg_dividend [of "k - q" 32] by linarith
qed

text \<open>Whether the track buffer holds the sector.\<close>

definition buffered :: "Disk \<Rightarrow> Statistics \<Rightarrow> int \<Rightarrow> bool" where
  "buffered d st n \<longleftrightarrow> n div 32 = lastSector d div 32 \<and>
     ((totalTicks st + 499) div 500 * 500 - bufferInit d) sdiv 500 > (n - bufferInit d div 500) mod 32"

definition disk_times :: "Disk \<Rightarrow> Statistics \<Rightarrow> bool" where
  "disk_times d st \<longleftrightarrow> 0 \<le> totalTicks st \<and> 0 \<le> lastSector d \<and> 0 \<le> bufferInit d \<and> bufferInit d mod 500 = 0"

lemma ComputeLatency_eq:
  fixes n :: int
  assumes "disk_times d st" "0 \<le> n"
  defines "seek \<equiv> \<bar>n div 32 - lastSector d div 32\<bar> * 500"
  obtains q where "totalTicks st + seek + (- (totalTicks st + seek)) mod 500 = q * 500" "(q - 1) * 500 < totalTicks st + seek" "totalTicks st + seek \<le> q * 500"
    "ComputeLatency d st n w = (if \<not> w \<and> buffered d st n then 500 else q * 500 + (n - q) mod 32 * 500 + 500 - totalTicks st)"
proof -
  let ?a = "totalTicks st + seek"
  have t: "0 \<le> totalTicks st" "0 \<le> lastSector d" "0 \<le> bufferInit d" using assms(1) by (simp_all add: disk_times_def)
  define r where "r = (- ?a) mod 500"
  obtain q where q: "?a + r = q * 500" unfolding r_def using next_boundary by blast
  have m: "0 \<le> r" "r < 500" by (simp_all add: r_def)
  have b1: "(q - 1) * 500 < ?a" using q m by (simp add: left_diff_distrib)
  have b2: "?a \<le> q * 500" using q m by linarith
  note b = b1 b2
  have a0: "0 \<le> ?a" "0 \<le> seek" using t(1) by (simp_all add: seek_def)
  then have q0: "0 \<le> q" using b by linarith
  have s0: "seek = 0 \<longleftrightarrow> n div 32 = lastSector d div 32" by (simp add: seek_def)
  have bf: "(totalTicks st + 499) div 500 * 500 = q * 500" if "seek = 0"
  proof -
    have "(totalTicks st + 499) div 500 = q" using b that by (intro int_div_pos_eq [where r = "totalTicks st + 499 - 500 * q"]) auto
    then show ?thesis by simp
  qed
  have "ComputeLatency d st n w = (if \<not> w \<and> buffered d st n then 500 else seek + (r + (n - q) mod 32 * 500) + 500)"
    using TimeToSeek_eq [OF t(1,2) assms(2), folded seek_def, folded r_def] q s0 bf ModuloDiff_eq [OF assms(2) q0] ModuloDiff_eq [OF assms(2), of "bufferInit d div 500"] t(3) q0
    by (auto simp: ComputeLatency_def Let_def buffered_def seek_def [symmetric] sdiv_nonneg add.assoc [symmetric])
  moreover have "seek + (r + (n - q) mod 32 * 500) + 500 = q * 500 + (n - q) mod 32 * 500 + 500 - totalTicks st" using q by linarith
  ultimately show ?thesis using that [OF q [unfolded r_def] b] by simp
qed

lemma ComputeLatency_pos:
  assumes "disk_times d st" "0 \<le> n"
  shows "500 \<le> ComputeLatency d st n w"
proof -
  let ?s = "\<bar>n div 32 - lastSector d div 32\<bar> * 500"
  obtain q where "totalTicks st + ?s \<le> q * 500"
    "ComputeLatency d st n w = (if \<not> w \<and> buffered d st n then 500 else q * 500 + (n - q) mod 32 * 500 + 500 - totalTicks st)"
    using ComputeLatency_eq [OF assms, of w] by blast
  moreover have "500 \<le> b + m * 500 + 500 - c" if "c + e \<le> b" "0 \<le> e" "0 \<le> m" for b c e m :: int using that by linarith
  from this [OF calculation(1)] have "500 \<le> q * 500 + (n - q) mod 32 * 500 + 500 - totalTicks st" by simp
  ultimately show ?thesis by (metis order_refl)
qed


section \<open>One request\<close>

text \<open>The disk handler fulfils the contract of interrupt handlers.\<close>

lemma disk_call_ok: "int_inv s \<Longrightarrow> \<exists>s'. disk_call h s = Inr s' \<and> adds_later s s'"
  by (cases h) (simp add: adds_later_def HandleInterrupt_def RequestDone_def put_disk_def)

interpretation disk: device_handlers disk_call hook for hook
  by unfold_locales (rule disk_call_ok)

text \<open>The kernel runs and no request is waiting for its interrupt, or exactly one is, and the semaphore counts the finished one.\<close>

definition sys :: "disk_machine \<Rightarrow> bool" where
  "sys s \<longleftrightarrow> int_inv s \<and> int_status s = SystemMode \<and> \<not> yieldOnReturn s \<and> \<not> inHandler s \<and> disk_times (sd_disk (kern s)) (stats s)"

definition at_rest :: "disk_machine \<Rightarrow> bool" where
  "at_rest s \<longleftrightarrow> pending s = [] \<and> \<not> active (sd_disk (kern s)) \<and> sd_sem (kern s) = 0"

definition in_flight :: "disk_machine \<Rightarrow> bool" where
  "in_flight s \<longleftrightarrow>
     (pending s = [] \<and> \<not> active (sd_disk (kern s)) \<and> sd_sem (kern s) = 1) \<or>
     (\<exists>w. pending s = [(w, \<lparr>pi_handler = DiskDone, pi_when = w, pi_type = DiskInt\<rparr>)] \<and> active (sd_disk (kern s)) \<and> sd_sem (kern s) = 0)"

text \<open>The state of the object behind the request.\<close>

definition completed :: "SynchDisk \<Rightarrow> SynchDisk" where
  "completed k = k\<lparr>sd_disk := (sd_disk k)\<lparr>active := False\<rparr>, sd_sem := 1\<rparr>"

lemma due_loop_empty: "int_level s = IntOff \<Longrightarrow> pending s = [] \<Longrightarrow> due_loop call hook s = Some (Inr s)"
  by (simp add: due_loop.simps CheckIfDue_def)

lemma due_loop_flight:
  assumes "int_level s = IntOff" "pending s = [(w, \<lparr>pi_handler = DiskDone, pi_when = w, pi_type = DiskInt\<rparr>)]" "sd_sem (kern s) = 0"
  shows "due_loop disk_call (\<lambda>k. k) s =
    Some (Inr (if w > totalTicks (stats s) then s else s\<lparr>pending := [], kern := completed (kern s), inHandler := False\<rparr>))"
proof (cases "w > totalTicks (stats s)")
  case True
  then show ?thesis using assms by (simp add: due_loop.simps CheckIfDue_def)
next
  case False
  let ?s = "s\<lparr>pending := [], kern := completed (kern s), inHandler := False\<rparr>"
  have "CheckIfDue disk_call (\<lambda>k. k) False s = Inr (True, ?s)"
    using False assms by (simp add: CheckIfDue_def Let_def HandleInterrupt_def RequestDone_def put_disk_def completed_def)
  then have "due_loop disk_call (\<lambda>k. k) s = due_loop disk_call (\<lambda>k. k) ?s" by (simp add: due_loop.simps [of _ _ s])
  then show ?thesis using False due_loop_empty [of ?s] assms(1) by simp
qed

text \<open>Enabling interrupts: the clock advances, and a request may complete.\<close>

lemma enable_rest:
  assumes "sys s" "int_level s = IntOff" "pending s = []"
  shows "\<exists>s'. disk_SetLevel IntOn s = Some (Inr (IntOff, s')) \<and> sys s' \<and> int_level s' = IntOn \<and> pending s' = [] \<and> kern s' = kern s \<and>
     totalTicks (stats s') = totalTicks (stats s) + 10"
proof -
  let ?s = "ChangeLevel IntOff (s\<lparr>stats := advance_tick (int_status s) (stats s)\<rparr>)"
  have i: "int_inv ?s" using assms(1) int_inv_advance [of s] by (simp add: sys_def ChangeLevel_def)
  have dl: "due_loop disk_call (\<lambda>k. k) ?s = Some (Inr ?s)" using assms(3) by (intro due_loop_empty) (simp_all add: ChangeLevel_def)
  have T: "totalTicks (stats ?s) = totalTicks (stats s) + 10" using assms(1) by (simp add: ChangeLevel_def advance_tick_def sys_def)
  then have dt: "disk_times (sd_disk (kern s)) (stats ?s)" using assms(1) by (simp add: sys_def disk_times_def)
  have "disk_SetLevel IntOn s = Some (Inr (IntOff, ?s\<lparr>int_level := IntOn\<rparr>))"
    using dl assms(1,2) by (simp add: disk_SetLevel_def SetLevel_def OneTick_def ChangeLevel_def sys_def Let_def)
  moreover have "sys (?s\<lparr>int_level := IntOn\<rparr>)" using assms(1) i dt by (simp add: sys_def ChangeLevel_def)
  ultimately show ?thesis using T assms(3) by (auto simp: ChangeLevel_def)
qed

lemma enable_flight:
  assumes "sys s" "int_level s = IntOff" "in_flight s"
  shows "\<exists>s'. disk_SetLevel IntOn s = Some (Inr (IntOff, s')) \<and> sys s' \<and> int_level s' = IntOn \<and> in_flight s' \<and> completed (kern s') = completed (kern s) \<and>
     totalTicks (stats s') = totalTicks (stats s) + 10"
proof (cases "pending s = []")
  case True
  then have "active (sd_disk (kern s)) = False" "sd_sem (kern s) = 1" using assms(3) by (auto simp: in_flight_def)
  then show ?thesis using enable_rest [OF assms(1,2) True] by (auto simp: in_flight_def)
next
  case False
  let ?s = "ChangeLevel IntOff (s\<lparr>stats := advance_tick (int_status s) (stats s)\<rparr>)"
  obtain w where w: "pending s = [(w, \<lparr>pi_handler = DiskDone, pi_when = w, pi_type = DiskInt\<rparr>)]" "active (sd_disk (kern s))" "sd_sem (kern s) = 0"
    using assms(3) False by (auto simp: in_flight_def)
  have i: "int_inv ?s" using assms(1) int_inv_advance [of s] by (simp add: sys_def ChangeLevel_def)
  have dl: "due_loop disk_call (\<lambda>k. k) ?s = Some (Inr (if w > totalTicks (stats ?s) then ?s else ?s\<lparr>pending := [], kern := completed (kern ?s), inHandler := False\<rparr>))"
    using due_loop_flight [of ?s w] w by (simp add: ChangeLevel_def)
  have T: "totalTicks (stats ?s) = totalTicks (stats s) + 10" using assms(1) by (simp add: ChangeLevel_def advance_tick_def sys_def)
  have dd: "completed (completed k) = completed k" "disk_times (sd_disk (completed k)) = disk_times (sd_disk k)" "\<not> active (sd_disk (completed k))" "sd_sem (completed k) = 1" for k
    by (simp_all add: completed_def disk_times_def fun_eq_iff)
  have dt: "disk_times (sd_disk (kern s)) (stats ?s)" using assms(1) T by (simp add: sys_def disk_times_def)
  have ip: "int_inv (?s\<lparr>pending := []\<rparr>)" using i by (simp add: int_inv_def)
  show ?thesis
  proof (cases "w > totalTicks (stats ?s)")
    case True
    then have "disk_SetLevel IntOn s = Some (Inr (IntOff, ?s\<lparr>int_level := IntOn\<rparr>))"
      using dl assms(1,2) by (simp add: disk_SetLevel_def SetLevel_def OneTick_def ChangeLevel_def sys_def Let_def)
    moreover have "sys (?s\<lparr>int_level := IntOn\<rparr>)" using assms(1) i dt by (simp add: sys_def ChangeLevel_def)
    ultimately show ?thesis using w T by (auto simp: in_flight_def ChangeLevel_def)
  next
    case F: False
    let ?u = "?s\<lparr>pending := [], kern := completed (kern ?s), inHandler := False, int_level := IntOn\<rparr>"
    have "disk_SetLevel IntOn s = Some (Inr (IntOff, ?u))"
      using F dl assms(1,2) by (simp add: disk_SetLevel_def SetLevel_def OneTick_def ChangeLevel_def sys_def Let_def)
    moreover have "sys ?u" using assms(1) ip dt by (simp add: sys_def ChangeLevel_def dd int_inv_def)
    ultimately show ?thesis using T by (auto simp: in_flight_def ChangeLevel_def dd)
  qed
qed

lemma disable: "disk_SetLevel IntOff s = Some (Inr (int_level s, s\<lparr>int_level := IntOff\<rparr>))"
  by (simp add: disk_SetLevel_def SetLevel_def ChangeLevel_def Let_def)


text \<open>Waiting for the request.\<close>

lemma Idle_flight:
  assumes "sys s" "int_level s = IntOff" "in_flight s" "sd_sem (kern s) = 0"
  shows "\<exists>s'. Idle disk_call (\<lambda>k. k) s = Some (Inr s') \<and> sys s' \<and> int_level s' = IntOff \<and> pending s' = [] \<and> kern s' = completed (kern s) \<and>
     totalTicks (stats s) \<le> totalTicks (stats s')"
proof -
  obtain w where w: "pending s = [(w, \<lparr>pi_handler = DiskDone, pi_when = w, pi_type = DiskInt\<rparr>)]" using assms(3,4) by (auto simp: in_flight_def)
  let ?st = "if w > totalTicks (stats s) then (stats s)\<lparr>idleTicks := idleTicks (stats s) + (w - totalTicks (stats s)), totalTicks := w\<rparr> else stats s"
  let ?u = "s\<lparr>int_status := IdleMode, pending := [], stats := ?st, kern := completed (kern s), inHandler := False\<rparr>"
  have "CheckIfDue disk_call (\<lambda>k. k) True (s\<lparr>int_status := IdleMode\<rparr>) = Inr (True, ?u)"
    using w assms(2,4) by (simp add: CheckIfDue_def Let_def HandleInterrupt_def RequestDone_def put_disk_def completed_def)
  moreover have "due_loop disk_call (\<lambda>k. k) ?u = Some (Inr ?u)" using assms(2) by (intro due_loop_empty) simp_all
  ultimately have "Idle disk_call (\<lambda>k. k) s = Some (Inr (?u\<lparr>yieldOnReturn := False, int_status := SystemMode\<rparr>))" by (simp add: Idle_def)
  moreover have "sys (?u\<lparr>yieldOnReturn := False, int_status := SystemMode\<rparr>)"
    using assms(1) by (auto simp: sys_def int_inv_def disk_times_def completed_def)
  ultimately show ?thesis using assms(2) by auto
qed

lemma P_sem_ok:
  assumes "sys s" "int_level s = IntOn" "in_flight s"
  shows "\<exists>s'. disk_P sd_sem (\<lambda>v k. k\<lparr>sd_sem := v\<rparr>) s = Some (Inr s') \<and> sys s' \<and> int_level s' = IntOn \<and> at_rest s' \<and>
     kern s' = (completed (kern s))\<lparr>sd_sem := 0\<rparr> \<and> totalTicks (stats s) < totalTicks (stats s')"
proof -
  let ?s = "s\<lparr>int_level := IntOff\<rparr>"
  have b: "sys ?s" "in_flight ?s" using assms by (simp_all add: sys_def in_flight_def)
  have "\<exists>s2. wait_sem sd_sem ?s = Some (Inr s2) \<and> sys s2 \<and> int_level s2 = IntOff \<and> pending s2 = [] \<and> kern s2 = completed (kern s) \<and>
      totalTicks (stats s) \<le> totalTicks (stats s2)"
  proof (cases "sd_sem (kern s) = 0")
    case True
    then obtain s2 where s2: "Idle disk_call (\<lambda>k. k) ?s = Some (Inr s2)" "sys s2" "int_level s2 = IntOff" "pending s2 = []" "kern s2 = completed (kern s)"
      "totalTicks (stats s) \<le> totalTicks (stats s2)" using Idle_flight [OF b(1) _ b(2)] by auto
    moreover have "wait_sem sd_sem s2 = Some (Inr s2)" using s2(5) by (subst wait_sem.simps) (simp add: completed_def)
    moreover have "wait_sem sd_sem ?s = wait_sem sd_sem s2" using True s2(1) by (subst wait_sem.simps) simp
    ultimately show ?thesis by auto
  next
    case False
    then have "pending s = []" "kern s = completed (kern s)" using assms(3) by (auto simp: in_flight_def completed_def)
    moreover have "wait_sem sd_sem ?s = Some (Inr ?s)" using False by (subst wait_sem.simps) simp
    ultimately show ?thesis using b(1) by auto
  qed
  then obtain s2 where s2: "wait_sem sd_sem ?s = Some (Inr s2)" "sys s2" "int_level s2 = IntOff" "pending s2 = []" "kern s2 = completed (kern s)"
    "totalTicks (stats s) \<le> totalTicks (stats s2)" by blast
  let ?s2 = "s2\<lparr>kern := (kern s2)\<lparr>sd_sem := sd_sem (kern s2) - 1\<rparr>\<rparr>"
  have k2: "kern ?s2 = (completed (kern s))\<lparr>sd_sem := 0\<rparr>" using s2(5) by (simp add: completed_def)
  have "sys ?s2" using s2(2) by (simp add: sys_def)
  from enable_rest [OF this] s2(3,4) obtain s3 where s3: "disk_SetLevel IntOn ?s2 = Some (Inr (IntOff, s3))" "sys s3" "int_level s3 = IntOn" "pending s3 = []"
    "kern s3 = kern ?s2" "totalTicks (stats s3) = totalTicks (stats s2) + 10" by auto
  then show ?thesis using assms(2) s2(1,6) k2 by (auto simp: disk_P_def disable at_rest_def completed_def)
qed

lemma Acquire_ok:
  assumes "sys s" "int_level s = IntOn" "at_rest s" "sd_mutex (kern s) = 1"
  shows "\<exists>s'. disk_Acquire s = Some (Inr s') \<and> sys s' \<and> int_level s' = IntOn \<and> at_rest s' \<and> kern s' = (kern s)\<lparr>sd_mutex := 0, sd_held := True\<rparr> \<and>
     totalTicks (stats s) < totalTicks (stats s')"
proof -
  let ?s = "s\<lparr>int_level := IntOff\<rparr>"
  let ?s2 = "?s\<lparr>kern := (kern s)\<lparr>sd_mutex := 0\<rparr>\<rparr>"
  have w: "wait_sem sd_mutex ?s = Some (Inr ?s)" using assms(4) by (subst wait_sem.simps) simp
  have "sys ?s2" "pending ?s2 = []" using assms(1,3) by (simp_all add: sys_def at_rest_def)
  from enable_rest [OF this(1) _ this(2)] obtain s3 where s3: "disk_SetLevel IntOn ?s2 = Some (Inr (IntOff, s3))" "sys s3" "int_level s3 = IntOn" "pending s3 = []"
    "kern s3 = kern ?s2" "totalTicks (stats s3) = totalTicks (stats s) + 10" by auto
  have "disk_Acquire s = Some (Inr (s3\<lparr>kern := (kern s3)\<lparr>sd_held := True\<rparr>\<rparr>))"
    using w s3(1) assms(2,4) by (simp add: disk_Acquire_def disk_P_def disable)
  moreover have "sys (s3\<lparr>kern := (kern s3)\<lparr>sd_held := True\<rparr>\<rparr>)" using s3(2) by (simp add: sys_def)
  ultimately show ?thesis using s3(3-6) assms(3) by (auto simp: at_rest_def)
qed

lemma Release_ok:
  assumes "sys s" "int_level s = IntOn" "at_rest s" "sd_held (kern s)"
  shows "\<exists>s'. disk_Release s = Some (Inr s') \<and> sys s' \<and> int_level s' = IntOn \<and> at_rest s' \<and>
     kern s' = (kern s)\<lparr>sd_mutex := sd_mutex (kern s) + 1, sd_held := False\<rparr> \<and> totalTicks (stats s) < totalTicks (stats s')"
proof -
  let ?s2 = "s\<lparr>int_level := IntOff, kern := (kern s)\<lparr>sd_held := False, sd_mutex := sd_mutex (kern s) + 1\<rparr>\<rparr>"
  have "sys ?s2" "pending ?s2 = []" using assms(1,3) by (simp_all add: sys_def at_rest_def)
  from enable_rest [OF this(1) _ this(2)] obtain s3 where s3: "disk_SetLevel IntOn ?s2 = Some (Inr (IntOff, s3))" "sys s3" "int_level s3 = IntOn" "pending s3 = []"
    "kern s3 = kern ?s2" "totalTicks (stats s3) = totalTicks (stats s) + 10" by auto
  have "disk_Release s = Some (Inr s3)" using s3(1) assms(2,4) by (simp add: disk_Release_def disk_V_def disable)
  then show ?thesis using s3(2-6) assms(3) by (auto simp: at_rest_def)
qed


section \<open>Sectors\<close>

definition sectors_of :: "disk_machine \<Rightarrow> sectors" where
  "sectors_of s = map (\<lambda>i. take 128 (drop (128 * i + 4) (dk_file (sd_disk (kern s))))) [0..<1024]"

lemma length_sectors_of: "length (sectors_of s) = 1024"
  by (simp add: sectors_of_def)

definition disk_ready :: "disk_machine \<Rightarrow> bool" where
  "disk_ready s \<longleftrightarrow> sys s \<and> int_level s = IntOn \<and> at_rest s \<and> sd_mutex (kern s) = 1 \<and> \<not> sd_held (kern s) \<and>
     length (dk_file (sd_disk (kern s))) = 131076 \<and> take 4 (dk_file (sd_disk (kern s))) = word_to_bytes 0x456789ab"

lemma UpdateLast_sel [simp]:
  "dk_file (UpdateLast st n d) = dk_file d" "active (UpdateLast st n d) = active d" "lastSector (UpdateLast st n d) = n"
  by (simp_all add: UpdateLast_def split: prod.splits)

lemma UpdateLast_times:
  assumes "disk_times d st" "0 \<le> n"
  shows "disk_times (UpdateLast st n d) st"
proof -
  have t: "0 \<le> totalTicks st" "0 \<le> lastSector d" "0 \<le> bufferInit d" using assms(1) by (simp_all add: disk_times_def)
  let ?a = "totalTicks st + \<bar>n div 32 - lastSector d div 32\<bar> * 500"
  have "(?a + (- ?a) mod 500) mod 500 = 0" using next_boundary [of ?a] by auto
  moreover have "0 \<le> ?a + (- ?a) mod 500" using t(1) by simp
  moreover have "UpdateLast st n d = (if \<bar>n div 32 - lastSector d div 32\<bar> * 500 \<noteq> 0 then d\<lparr>bufferInit := ?a + (- ?a) mod 500, lastSector := n\<rparr> else d\<lparr>lastSector := n\<rparr>)"
    by (simp only: UpdateLast_def TimeToSeek_eq [OF t(1,2) assms(2)] Let_def prod.case) simp
  ultimately show ?thesis using assms by (auto simp only: disk_times_def split: if_split) simp_all
qed

text \<open>A request is accepted: afterwards its interrupt is pending.\<close>

lemma request_flight:
  assumes "sys s" "at_rest s" "0 \<le> n" "dk_file d = f" "d = (sd_disk (kern s))\<lparr>dk_file := f, active := True\<rparr>"
    "totalTicks st = totalTicks (stats s)" "idleTicks st = idleTicks (stats s)" "systemTicks st = systemTicks (stats s)" "userTicks st = userTicks (stats s)"
  shows "\<exists>s'. Schedule DiskDone (ComputeLatency (sd_disk (kern s)) (stats s) n w) DiskInt ((put_disk (UpdateLast (stats s) n d) s)\<lparr>stats := st\<rparr>) = Inr s' \<and>
     sys s' \<and> int_level s' = int_level s \<and> in_flight s' \<and> stats s' = st \<and> kern s' = (kern s)\<lparr>sd_disk := UpdateLast (stats s) n d\<rparr>"
proof -
  let ?c = "ComputeLatency (sd_disk (kern s)) (stats s) n w" and ?s = "(put_disk (UpdateLast (stats s) n d) s)\<lparr>stats := st\<rparr>"
  let ?w = "totalTicks (stats s) + ?c"
  have c: "0 < ?c" using ComputeLatency_pos [of "sd_disk (kern s)" "stats s" n w] assms(1,3) by (simp add: sys_def)
  let ?s' = "?s\<lparr>pending := [(?w, \<lparr>pi_handler = DiskDone, pi_when = ?w, pi_type = DiskInt\<rparr>)]\<rparr>"
  have "Schedule DiskDone ?c DiskInt ?s = Inr ?s'"
    using c assms(2,6) by (simp add: Schedule_def Let_def new_PendingInterrupt_def put_disk_def at_rest_def)
  moreover have "disk_times d (stats s)" using assms(1,5) by (simp add: sys_def disk_times_def)
  then have "disk_times (UpdateLast (stats s) n d) st" using UpdateLast_times [of d "stats s" n] assms(3,6) by (simp add: disk_times_def)
  then have "sys ?s'" using assms(1,6-9) by (simp add: sys_def int_inv_def put_disk_def keys_sorted_Cons)
  moreover have "in_flight ?s'" using assms(2,5) by (simp add: in_flight_def put_disk_def at_rest_def)
  ultimately show ?thesis by (intro exI [of _ ?s']) (simp add: put_disk_def)
qed

text \<open>What follows a request in both operations.\<close>

lemma request_completes:
  assumes "sys s" "int_level s = IntOn" "in_flight s" "sd_held (kern s)" "sd_mutex (kern s) = 0"
  shows "\<exists>s1 s2. disk_P sd_sem (\<lambda>v k. k\<lparr>sd_sem := v\<rparr>) s = Some (Inr s1) \<and> disk_Release s1 = Some (Inr s2) \<and> sys s2 \<and> int_level s2 = IntOn \<and> at_rest s2 \<and>
     sd_mutex (kern s2) = 1 \<and> \<not> sd_held (kern s2) \<and> dk_file (sd_disk (kern s2)) = dk_file (sd_disk (kern s)) \<and> totalTicks (stats s) < totalTicks (stats s2)"
proof -
  from P_sem_ok [OF assms(1-3)] obtain s1 where s1: "disk_P sd_sem (\<lambda>v k. k\<lparr>sd_sem := v\<rparr>) s = Some (Inr s1)" "sys s1" "int_level s1 = IntOn" "at_rest s1"
    "kern s1 = (completed (kern s))\<lparr>sd_sem := 0\<rparr>" "totalTicks (stats s) < totalTicks (stats s1)" by blast
  have h: "sd_held (kern s1)" "sd_mutex (kern s1) = 0" using s1(5) assms(4,5) by (simp_all add: completed_def)
  from Release_ok [OF s1(2-4) h(1)] obtain s2 where "disk_Release s1 = Some (Inr s2)" "sys s2" "int_level s2 = IntOn" "at_rest s2"
    "kern s2 = (kern s1)\<lparr>sd_mutex := sd_mutex (kern s1) + 1, sd_held := False\<rparr>" "totalTicks (stats s1) < totalTicks (stats s2)" by blast
  then show ?thesis using s1(1,5,6) h(2) by (auto simp: completed_def)
qed

text \<open>What precedes it.\<close>

lemma ready_Acquire:
  assumes "disk_ready s"
  obtains s1 where "disk_Acquire s = Some (Inr s1)" "sys s1" "int_level s1 = IntOn" "at_rest s1" "sd_mutex (kern s1) = 0" "sd_held (kern s1)"
    "dk_file (sd_disk (kern s1)) = dk_file (sd_disk (kern s))" "\<not> active (sd_disk (kern s1))" "totalTicks (stats s) < totalTicks (stats s1)"
proof -
  have r: "sys s" "int_level s = IntOn" "at_rest s" "sd_mutex (kern s) = 1" using assms by (simp_all add: disk_ready_def)
  from Acquire_ok [OF this] obtain s1 where s1: "disk_Acquire s = Some (Inr s1)" "sys s1" "int_level s1 = IntOn" "at_rest s1"
    "kern s1 = (kern s)\<lparr>sd_mutex := 0, sd_held := True\<rparr>" "totalTicks (stats s) < totalTicks (stats s1)" by blast
  then show ?thesis using that [of s1] by (simp add: at_rest_def)
qed

lemma ready_file: "disk_ready s \<Longrightarrow> length (dk_file (sd_disk (kern s))) = 131076 \<and> take 4 (dk_file (sd_disk (kern s))) = word_to_bytes 0x456789ab"
  by (simp add: disk_ready_def)

lemma Read_ok:
  assumes "disk_ready s" "0 \<le> n" "n < 1024"
  shows "\<exists>s'. SD_ReadSector n s = Some (Inr (sectors_of s ! nat n, s')) \<and> disk_ready s' \<and> sectors_of s' = sectors_of s \<and>
     totalTicks (stats s) < totalTicks (stats s')"
proof -
  note f = ready_file [OF assms(1)]
  let ?f = "dk_file (sd_disk (kern s))"
  obtain s1 where s1: "disk_Acquire s = Some (Inr s1)" "sys s1" "int_level s1 = IntOn" "at_rest s1" "sd_mutex (kern s1) = 0" "sd_held (kern s1)"
    "dk_file (sd_disk (kern s1)) = ?f" "\<not> active (sd_disk (kern s1))" "totalTicks (stats s) < totalTicks (stats s1)"
    by (rule ready_Acquire [OF assms(1)])
  let ?d = "sd_disk (kern s1)"
  obtain m where m: "n = int m" "m < 1024" using assms(2,3) by (metis nonneg_int_cases of_nat_less_iff of_nat_numeral)
  have sec: "sectors_of s ! nat n = take 128 (drop (128 * m + 4) ?f)" using m by (simp add: sectors_of_def)
  have rd: "unix_Read ?f 128 (128 * n + 4) = Inr (sectors_of s ! nat n)"
    using m f sec by (simp add: unix_Read_def stub_ReadAt_def nat_add_distrib nat_mult_distrib)
  let ?d' = "?d\<lparr>active := True\<rparr>" and ?st = "(stats s1)\<lparr>numDiskReads := numDiskReads (stats s1) + 1\<rparr>"
  have "?d' = ?d\<lparr>dk_file := ?f, active := True\<rparr>" using s1(7) by simp
  from request_flight [OF s1(2,4) assms(2) _ this, of ?st False] s1(3,7) obtain s2 where
    s2: "Schedule DiskDone (ComputeLatency ?d (stats s1) n False) DiskInt ((put_disk (UpdateLast (stats s1) n ?d') s1)\<lparr>stats := ?st\<rparr>) = Inr s2"
      "sys s2" "int_level s2 = IntOn" "in_flight s2" "stats s2 = ?st" "kern s2 = (kern s1)\<lparr>sd_disk := UpdateLast (stats s1) n ?d'\<rparr>" by auto
  have q: "ReadRequest n s1 = Inr (sectors_of s ! nat n, s2)"
    using rd s1(7,8) assms(2,3) s2(1) by (simp add: ReadRequest_def Let_def put_disk_def)
  from request_completes [OF s2(2-4)] s2(6) s1(5-7) obtain s3 s4 where
    s4: "disk_P sd_sem (\<lambda>v k. k\<lparr>sd_sem := v\<rparr>) s2 = Some (Inr s3)" "disk_Release s3 = Some (Inr s4)" "sys s4" "int_level s4 = IntOn" "at_rest s4"
      "sd_mutex (kern s4) = 1" "\<not> sd_held (kern s4)" "dk_file (sd_disk (kern s4)) = ?f" "totalTicks (stats s2) < totalTicks (stats s4)" by auto
  have "SD_ReadSector n s = Some (Inr (sectors_of s ! nat n, s4))" using s1(1) q s4(1,2) by (simp add: SD_ReadSector_def)
  moreover have "disk_ready s4" using s4(3-8) f by (simp add: disk_ready_def)
  moreover have "totalTicks (stats s) < totalTicks (stats s4)" using s1(9) s2(5) s4(9) by simp
  moreover have "sectors_of s4 = sectors_of s" using s4(8) by (simp add: sectors_of_def)
  ultimately show ?thesis by blast
qed

text \<open>Writing a sector of the file.\<close>

lemma write_file:
  assumes "length f = 131076" "length data = 128" "m < 1024"
  shows "\<exists>f'. stub_WriteAt f data (128 * int m + 4) = Inr f' \<and> length f' = 131076 \<and> take 4 f' = take 4 f \<and>
     map (\<lambda>i. take 128 (drop (128 * i + 4) f')) [0..<1024] = (map (\<lambda>i. take 128 (drop (128 * i + 4) f)) [0..<1024])[m := data]"
proof -
  let ?o = "128 * m + 4"
  let ?f = "take ?o f @ data @ drop (?o + 128) f"
  have "nat (128 * int m + 4) = ?o" by simp
  then have "stub_WriteAt f data (128 * int m + 4) = Inr ?f" using assms by (simp add: stub_WriteAt_def)
  moreover have "take 128 (drop (128 * i + 4) ?f) = (if i = m then data else take 128 (drop (128 * i + 4) f))" if "i < 1024" for i
  proof (rule nth_equalityI)
    have l: "128 * i + 132 \<le> 131076" using \<open>i < 1024\<close> by simp
    then have len: "length (take 128 (drop (128 * i + 4) X)) = 128" if "length X = 131076" for X :: bytes using that by simp
    have "length ?f = 131076" using assms by simp
    from len [OF this] show "length (take 128 (drop (128 * i + 4) ?f)) = length (if i = m then data else take 128 (drop (128 * i + 4) f))"
      using len [OF assms(1)] assms(2) by metis
    fix k assume "k < length (take 128 (drop (128 * i + 4) ?f))"
    then have k: "k < 128" using len [OF \<open>length ?f = 131076\<close>] by metis
    have "i = m \<or> 128 * i + 4 + k < ?o \<or> ?o + 128 \<le> 128 * i + 4 + k" using k by (cases "i < m") auto
    then show "take 128 (drop (128 * i + 4) ?f) ! k = (if i = m then data else take 128 (drop (128 * i + 4) f)) ! k"
      using k l assms by (auto simp: nth_append add.commute add.left_commute)
  qed
  then have "map (\<lambda>i. take 128 (drop (128 * i + 4) ?f)) [0..<1024] = (map (\<lambda>i. take 128 (drop (128 * i + 4) f)) [0..<1024])[m := data]"
    using assms(3) by (intro nth_equalityI) (auto simp: nth_list_update)
  ultimately show ?thesis using assms by (intro exI [of _ ?f]) simp
qed

lemma Write_ok:
  assumes "disk_ready s" "0 \<le> n" "n < 1024" "length data = 128"
  shows "\<exists>s'. SD_WriteSector n data s = Some (Inr s') \<and> disk_ready s' \<and> sectors_of s' = (sectors_of s)[nat n := data] \<and>
     totalTicks (stats s) < totalTicks (stats s')"
proof -
  note f = ready_file [OF assms(1)]
  let ?f = "dk_file (sd_disk (kern s))"
  obtain s1 where s1: "disk_Acquire s = Some (Inr s1)" "sys s1" "int_level s1 = IntOn" "at_rest s1" "sd_mutex (kern s1) = 0" "sd_held (kern s1)"
    "dk_file (sd_disk (kern s1)) = ?f" "\<not> active (sd_disk (kern s1))" "totalTicks (stats s) < totalTicks (stats s1)"
    by (rule ready_Acquire [OF assms(1)])
  let ?d = "sd_disk (kern s1)"
  obtain m where m: "n = int m" "m < 1024" using assms(2,3) by (metis nonneg_int_cases of_nat_less_iff of_nat_numeral)
  obtain f' where f': "stub_WriteAt ?f data (128 * n + 4) = Inr f'" "length f' = 131076" "take 4 f' = take 4 ?f"
    "map (\<lambda>i. take 128 (drop (128 * i + 4) f')) [0..<1024] = (map (\<lambda>i. take 128 (drop (128 * i + 4) ?f)) [0..<1024])[nat n := data]"
    using write_file [of ?f data m] f assms(4) m by auto
  let ?d' = "?d\<lparr>dk_file := f', active := True\<rparr>" and ?st = "(stats s1)\<lparr>numDiskWrites := numDiskWrites (stats s1) + 1\<rparr>"
  from request_flight [OF s1(2,4) assms(2) _ refl, of f' ?st True] s1(3) obtain s2 where
    s2: "Schedule DiskDone (ComputeLatency ?d (stats s1) n True) DiskInt ((put_disk (UpdateLast (stats s1) n ?d') s1)\<lparr>stats := ?st\<rparr>) = Inr s2"
      "sys s2" "int_level s2 = IntOn" "in_flight s2" "stats s2 = ?st" "kern s2 = (kern s1)\<lparr>sd_disk := UpdateLast (stats s1) n ?d'\<rparr>" by auto
  have q: "WriteRequest n data s1 = Inr s2"
    using f'(1) s1(7,8) assms(2,3) s2(1) by (simp add: WriteRequest_def Let_def put_disk_def)
  from request_completes [OF s2(2-4)] s2(6) s1(5-7) obtain s3 s4 where
    s4: "disk_P sd_sem (\<lambda>v k. k\<lparr>sd_sem := v\<rparr>) s2 = Some (Inr s3)" "disk_Release s3 = Some (Inr s4)" "sys s4" "int_level s4 = IntOn" "at_rest s4"
      "sd_mutex (kern s4) = 1" "\<not> sd_held (kern s4)" "dk_file (sd_disk (kern s4)) = f'" "totalTicks (stats s2) < totalTicks (stats s4)" by auto
  have "SD_WriteSector n data s = Some (Inr s4)" using s1(1) q s4(1,2) by (simp add: SD_WriteSector_def)
  moreover have "disk_ready s4" using s4(3-8) f f'(2,3) by (simp add: disk_ready_def)
  moreover have "totalTicks (stats s) < totalTicks (stats s4)" using s1(9) s2(5) s4(9) by simp
  moreover have "sectors_of s4 = (sectors_of s)[nat n := data]" using s4(8) f'(4) by (simp add: sectors_of_def)
  ultimately show ?thesis by blast
qed


section \<open>The interface of the file system to the disk\<close>

datatype request = Rd int | Wr int bytes

text \<open>A sequence of requests, on a device and on a list of sectors; the results of the reads are collected.\<close>

fun run_device :: "(int \<Rightarrow> 's \<Rightarrow> (bytes \<times> 's) result option) \<Rightarrow> (int \<Rightarrow> bytes \<Rightarrow> 's \<Rightarrow> 's result option) \<Rightarrow>
    request list \<Rightarrow> 's \<Rightarrow> (bytes list \<times> 's) result option" where
  "run_device rd wr [] s = Some (Inr ([], s))"
| "run_device rd wr (Rd n # rs) s =
     bindO (rd n s) (\<lambda>(data, s1). bindO (run_device rd wr rs s1) (\<lambda>(outs, s2). Some (Inr (data # outs, s2))))"
| "run_device rd wr (Wr n data # rs) s = bindO (wr n data s) (run_device rd wr rs)"

fun run_sectors :: "request list \<Rightarrow> sectors \<Rightarrow> (bytes list \<times> sectors) result" where
  "run_sectors [] d = Inr ([], d)"
| "run_sectors (Rd n # rs) d = bindE (ReadSector n d) (\<lambda>data. bindE (run_sectors rs d) (\<lambda>(outs, d'). Inr (data # outs, d')))"
| "run_sectors (Wr n data # rs) d = bindE (WriteSector n data d) (run_sectors rs)"

fun legal :: "request \<Rightarrow> bool" where
  "legal (Rd n) \<longleftrightarrow> 0 \<le> n \<and> n < 1024"
| "legal (Wr n data) \<longleftrightarrow> 0 \<le> n \<and> n < 1024 \<and> length data = 128"

locale sector_device =
  fixes rd :: "int \<Rightarrow> 's \<Rightarrow> (bytes \<times> 's) result option" and wr :: "int \<Rightarrow> bytes \<Rightarrow> 's \<Rightarrow> 's result option"
    and ok :: "'s \<Rightarrow> bool" and secs :: "'s \<Rightarrow> sectors" and clock :: "'s \<Rightarrow> int"
  assumes len: "length (secs s) = 1024"
    and rd_ok: "ok s \<Longrightarrow> 0 \<le> n \<Longrightarrow> n < 1024 \<Longrightarrow> \<exists>s'. rd n s = Some (Inr (secs s ! nat n, s')) \<and> ok s' \<and> secs s' = secs s \<and> clock s < clock s'"
    and wr_ok: "ok s \<Longrightarrow> 0 \<le> n \<Longrightarrow> n < 1024 \<Longrightarrow> length data = 128 \<Longrightarrow>
      \<exists>s'. wr n data s = Some (Inr s') \<and> ok s' \<and> secs s' = (secs s)[nat n := data] \<and> clock s < clock s'"
begin

lemma runs_as_sectors:
  assumes "ok s" "list_all legal rs"
  shows "\<exists>outs s'. run_device rd wr rs s = Some (Inr (outs, s')) \<and> ok s' \<and> run_sectors rs (secs s) = Inr (outs, secs s') \<and> clock s + int (length rs) \<le> clock s'"
  using assms
proof (induction rs arbitrary: s)
  case (Cons r rs)
  show ?case
  proof (cases r)
    case (Rd n)
    then obtain s1 where s1: "rd n s = Some (Inr (secs s ! nat n, s1))" "ok s1" "secs s1 = secs s" "clock s < clock s1" using rd_ok Cons.prems by force
    from Cons.IH [OF s1(2)] Cons.prems(2) obtain outs s2 where "run_device rd wr rs s1 = Some (Inr (outs, s2))" "ok s2"
      "run_sectors rs (secs s1) = Inr (outs, secs s2)" "clock s1 + int (length rs) \<le> clock s2" by auto
    then show ?thesis using Rd s1 Cons.prems(2) len by (simp add: ReadSector_def)
  next
    case (Wr n data)
    then obtain s1 where s1: "wr n data s = Some (Inr s1)" "ok s1" "secs s1 = (secs s)[nat n := data]" "clock s < clock s1" using wr_ok Cons.prems by force
    from Cons.IH [OF s1(2)] Cons.prems(2) obtain outs s2 where "run_device rd wr rs s1 = Some (Inr (outs, s2))" "ok s2"
      "run_sectors rs (secs s1) = Inr (outs, secs s2)" "clock s1 + int (length rs) \<le> clock s2" by auto
    then show ?thesis using Wr s1 Cons.prems(2) len by (simp add: WriteSector_def)
  qed
qed simp

end

interpretation sd: sector_device SD_ReadSector SD_WriteSector disk_ready sectors_of "\<lambda>s. totalTicks (stats s)"
  by unfold_locales (simp_all add: length_sectors_of Read_ok Write_ok)

text \<open>A new disk.\<close>

definition boot_disk :: "bytes option \<Rightarrow> disk_machine result" where
  "boot_disk f = bindE (new_SynchDisk f) (\<lambda>k. Inr ((new_Interrupt new_Statistics k)\<lparr>int_level := IntOn\<rparr>))"

lemma boot_fresh: "\<exists>s. boot_disk None = Inr s \<and> disk_ready s \<and> sectors_of s = replicate 1024 (replicate 128 0)"
proof -
  let ?f = "word_to_bytes 0x456789ab @ replicate 131072 0"
  have "stub_WriteAt (word_to_bytes 0x456789ab) (word_to_bytes 0) 131072 = Inr ?f"
  proof -
    have "word_to_bytes 0 = replicate 4 0" by (simp add: word_to_bytes_def numeral_eq_Suc)
    moreover have "take 131072 (word_to_bytes 0x456789ab @ replicate (131072 - 4) 0) @ replicate 4 0 = ?f" by (simp add: replicate_add [symmetric])
    ultimately show ?thesis by (simp add: stub_WriteAt_def)
  qed
  then have "new_Disk None = Inr \<lparr>dk_file = ?f, active = False, lastSector = 0, bufferInit = 0\<rparr>"
    by (simp add: new_Disk_def stub_WriteAt_def)
  then obtain s where s: "boot_disk None = Inr s" "dk_file (sd_disk (kern s)) = ?f" "disk_ready s"
    by (simp add: boot_disk_def new_SynchDisk_def disk_ready_def sys_def at_rest_def new_Interrupt_def new_Statistics_def int_inv_def disk_times_def)
  have "take 128 (drop (128 * i + 4) ?f) = replicate 128 0" if "i < 1024" for i
    using that by (simp add: min_def)
  then have "sectors_of s = replicate 1024 (replicate 128 0)" using s(2) by (intro nth_equalityI) (simp_all add: sectors_of_def)
  then show ?thesis using s by blast
qed


section \<open>Properties\<close>

text \<open>
  (C5) The synchronous disk behaves as the list of sectors that the file system is written against: for every sequence of legal requests all
  calls return, the reads return what the list of sectors returns, and the disk file then holds the sectors of the list. The clock advances with every request,
  the interrupt of each request is awaited and the device is idle again.
\<close>

theorem synch_disk_refines_sectors:
  assumes "disk_ready s" "list_all legal rs"
  shows "\<exists>outs s'. run_device SD_ReadSector SD_WriteSector rs s = Some (Inr (outs, s')) \<and> disk_ready s' \<and>
           run_sectors rs (sectors_of s) = Inr (outs, sectors_of s') \<and> totalTicks (stats s) + int (length rs) \<le> totalTicks (stats s')"
  using assms by (rule sd.runs_as_sectors)

theorem synch_disk_refines_sectors_witness:
  "\<exists>s s'. boot_disk None = Inr s \<and>
     run_device SD_ReadSector SD_WriteSector [Wr 7 (replicate 128 1), Rd 7, Rd 8] s = Some (Inr ([replicate 128 1, replicate 128 0], s'))"
proof -
  obtain s where s: "boot_disk None = Inr s" "disk_ready s" "sectors_of s = replicate 1024 (replicate 128 0)" using boot_fresh by blast
  have "list_all legal [Wr 7 (replicate 128 1), Rd 7, Rd 8]" by simp
  from synch_disk_refines_sectors [OF s(2) this] s(3) show ?thesis using s(1) by (auto simp: ReadSector_def WriteSector_def)
qed

lemma buffered_was_read:
  assumes "disk_times d st" "buffered d st n"
  shows "\<exists>t. passes (bufferInit d) 0 n t \<and> bufferInit d + t \<le> (totalTicks st + 499) div 500 * 500"
proof -
  obtain b where b: "bufferInit d = b * 500" using assms(1) by (auto simp: disk_times_def dvd_def mult.commute)
  define T where "T = (totalTicks st + 499) div 500"
  define r where "r = (n - b) mod 32"
  have r: "0 \<le> r" by (simp add: r_def)
  have lt: "((T - b) * 500) sdiv 500 > r" using assms(2) by (simp add: buffered_def b T_def r_def left_diff_distrib)
  then have "0 \<le> (T - b) * 500" using r by (auto simp: signed_divide_int_def sgn_if split: if_splits)
  then have "r < T - b" using lt by (simp add: sdiv_nonneg)
  moreover have "(b + r) mod 32 = n mod 32" by (simp add: r_def mod_add_right_eq)
  ultimately have "passes (bufferInit d) 0 n ((r + 1) * 500)" "bufferInit d + (r + 1) * 500 \<le> T * 500"
    using r by (simp_all add: passes_def b Let_def ring_distribs)
  then show ?thesis unfolding T_def by blast
qed

text \<open>
  (C38) The latency of a request is exact. A write, or a read that the track buffer cannot serve, takes the least time in which the head moves
  to the track and the sector then passes it completely. A read is served from the track buffer, in the time of one sector,
  only if its sector has passed the head since the buffer was started, by the next sector boundary.
\<close>

theorem ComputeLatency_least:
  assumes "disk_times d st" "0 \<le> n"
  shows "let t = ComputeLatency d st n writing; seek = \<bar>n div 32 - lastSector d div 32\<bar> * 500 in
     if \<not> writing \<and> buffered d st n
     then t = 500 \<and> seek = 0 \<and> (\<exists>b. passes (bufferInit d) 0 n b \<and> bufferInit d + b \<le> (totalTicks st + 499) div 500 * 500)
     else passes (totalTicks st) seek n t \<and> (\<forall>t'. passes (totalTicks st) seek n t' \<longrightarrow> t \<le> t')"
proof -
  let ?now = "totalTicks st" and ?seek = "\<bar>n div 32 - lastSector d div 32\<bar> * 500" and ?t = "ComputeLatency d st n writing"
  obtain q where q: "(q - 1) * 500 < ?now + ?seek" "?now + ?seek \<le> q * 500"
    "?t = (if \<not> writing \<and> buffered d st n then 500 else q * 500 + (n - q) mod 32 * 500 + 500 - ?now)" using ComputeLatency_eq [OF assms, of writing] by blast
  note w = wait_rotations [OF q(1,2), where n = n]
  show ?thesis
  proof (cases "\<not> writing \<and> buffered d st n")
    case True
    then have "?seek = 0" by (simp add: buffered_def)
    then show ?thesis using True q(3) buffered_was_read [OF assms(1)] by (simp add: Let_def)
  next
    case False
    define k where "k = q + (n - q) mod 32"
    have "?t = q * 500 + (n - q) mod 32 * 500 + 500 - ?now" using q(3) if_not_P [OF False] by metis
    then have t: "?now + ?t = (k + 1) * 500" by (simp add: k_def ring_distribs)
    have kq: "q \<le> k" by (simp add: k_def)
    then have "q * 500 \<le> k * 500" by simp
    then have "passes ?now ?seek n ?t" using t q(2) w(1) by (simp add: passes_def Let_def k_def [symmetric])
    moreover have "?t \<le> t'" if p: "passes ?now ?seek n t'" for t'
    proof -
      define j where "j = (?now + t') div 500 - 1"
      have j: "j mod 32 = n mod 32" "?now + ?seek \<le> j * 500" "?now + t' = (j + 1) * 500" using p by (auto simp: passes_def Let_def j_def)
      have "k \<le> j" using w(2) [OF j(1,2)] by (simp add: k_def)
      then have "(k + 1) * 500 \<le> (j + 1) * 500" by simp
      then show ?thesis using t j(3) by linarith
    qed
    ultimately show ?thesis unfolding Let_def using if_not_P [OF False] by metis
  qed
qed

theorem ComputeLatency_least_witness:
  "ComputeLatency \<lparr>dk_file = [], active = False, lastSector = 3, bufferInit = 0\<rparr> (new_Statistics\<lparr>totalTicks := 1220\<rparr>) 70 True = 2280 \<and>
   passes 1220 1000 70 2280"
proof -
  let ?d = "\<lparr>dk_file = [], active = False, lastSector = 3, bufferInit = 0\<rparr>" and ?st = "new_Statistics\<lparr>totalTicks := 1220\<rparr>"
  have "disk_times ?d ?st" by (simp add: disk_times_def)
  moreover have "ComputeLatency ?d ?st 70 True = 2280" by (simp add: ComputeLatency_def TimeToSeek_def ModuloDiff_def Let_def sdiv_nonneg smod_nonneg)
  ultimately show ?thesis using ComputeLatency_least [of ?d ?st 70 True] by (simp add: Let_def)
qed

end
