(* ===== verification/Post_Office.thy ===== *)
theory Post_Office
  imports Open_File Complex_Main "HOL-Library.Sublist"
begin

text \<open>
  Mail between Nachos machines: the network device of \<open>machine/network.cc\<close> and the post office of \<open>network/post.cc\<close>.

  Every machine has a UNIX datagram socket, named by its address; a socket is the queue of the packets that have been sent to it and not
  read. Packets are the 64 bytes on the wire. The operations of one machine are functions; \<open>net_step\<close> interleaves the calls
  of user threads, the postal worker and the interrupt handlers of all machines, with interrupts at any time. The lists of
  arrived messages are synchronised (\<open>Kernel_Threads\<close>), so \<open>Append\<close> and \<open>Remove\<close> on them are atomic here. Fields whose value
  the constructor does not set, and the padding of packets, are arbitrary.

  \<open>sent\<close>, \<open>lost\<close>, \<open>arrived\<close> and \<open>got\<close> record the history; no operation reads them.
\<close>

section \<open>Data\<close>

record PacketHeader =
  pk_to :: "32 word"
  pk_from :: "32 word"
  pk_length :: "32 word"

record MailHeader =
  ml_to :: "32 word"
  ml_from :: "32 word"
  ml_length :: "32 word"

record Mail =
  mail_pktHdr :: PacketHeader
  mail_mailHdr :: MailHeader
  mail_data :: bytes

record Network =
  ident :: "32 word"
  chanceToWork :: real
  sendBusy :: bool
  inHdr :: PacketHeader
  inbox :: bytes

record PostOffice =
  network :: Network
  netAddr :: "32 word"
  boxes :: "Mail list list"
  numBoxes :: int
  messageAvailable :: int
  messageSent :: int
  sendLock :: bool
  po_sending :: bool          \<comment> \<open>the interrupt that ends a transmission is pending\<close>
  po_buffer :: bytes          \<comment> \<open>the buffer of PostalDelivery\<close>
  po_awake :: bool            \<comment> \<open>the postal worker has passed messageAvailable->P()\<close>

type_synonym sockets = "32 word \<Rightarrow> bytes list option"

abbreviation (input) MaxWireSize :: int where "MaxWireSize \<equiv> 64"
abbreviation (input) MaxPacketSize :: int where "MaxPacketSize \<equiv> 52"
abbreviation (input) MaxMailSize :: int where "MaxMailSize \<equiv> 40"

text \<open>The headers in memory.\<close>

definition pkt_bytes :: "PacketHeader \<Rightarrow> bytes" where
  "pkt_bytes h = words_to_bytes [pk_to h, pk_from h, pk_length h]"

definition bytes_pkt :: "bytes \<Rightarrow> PacketHeader" where
  "bytes_pkt bs = (let ws = bytes_to_words bs in \<lparr>pk_to = ws ! 0, pk_from = ws ! 1, pk_length = ws ! 2\<rparr>)"

definition mailhdr_bytes :: "MailHeader \<Rightarrow> bytes" where
  "mailhdr_bytes h = words_to_bytes [ml_to h, ml_from h, ml_length h]"

definition bytes_mailhdr :: "bytes \<Rightarrow> MailHeader" where
  "bytes_mailhdr bs = (let ws = bytes_to_words bs in \<lparr>ml_to = ws ! 0, ml_from = ws ! 1, ml_length = ws ! 2\<rparr>)"

section \<open>The network device\<close>

definition new_Network :: "32 word \<Rightarrow> real \<Rightarrow> PacketHeader \<Rightarrow> bytes \<Rightarrow> Network" where
  "new_Network addr reliability h box =
     \<lparr>ident = addr, chanceToWork = (if reliability < 0 then 0 else if reliability > 1 then 1 else reliability),
      sendBusy = False, inHdr = h\<lparr>pk_length := 0\<rparr>, inbox = box\<rparr>"

definition SendToSocket :: "bytes \<Rightarrow> 32 word \<Rightarrow> sockets \<Rightarrow> sockets result" where
  "SendToSocket buffer toAddr ss =
     (case ss toAddr of None \<Rightarrow> Inl AssertFailed | Some q \<Rightarrow> Inr (ss(toAddr \<mapsto> q @ [buffer])))"

text \<open>\<open>rnd\<close> is the value of \<open>Random()\<close>, \<open>junk\<close> the contents of the new buffer.\<close>

definition Net_Send :: "nat \<Rightarrow> bytes \<Rightarrow> PacketHeader \<Rightarrow> bytes \<Rightarrow> Network \<Rightarrow> sockets \<Rightarrow> (bool \<times> sockets) result" where
  "Net_Send rnd junk hdr data n ss =
     bindE (ASSERT (\<not> sendBusy n \<and> uint (pk_length hdr) > 0 \<and> uint (pk_length hdr) \<le> MaxPacketSize \<and> pk_from hdr = ident n)) (\<lambda>_.
       if real (rnd mod 100) \<ge> chanceToWork n * 100 then Inr (False, ss)
       else
         bindE (bcopy (pkt_bytes hdr) junk 0) (\<lambda>buffer.
         bindE (slice data 0 (uint (pk_length hdr))) (\<lambda>d.
         bindE (bcopy d buffer 12) (\<lambda>buffer'.
         bindE (SendToSocket buffer' (pk_to hdr) ss) (\<lambda>ss'. Inr (True, ss'))))))"

text \<open>The result says whether the handler of the post office is called.\<close>

definition CheckPktAvail :: "Network \<Rightarrow> bytes list \<Rightarrow> (bool \<times> Network \<times> bytes list) result" where
  "CheckPktAvail n q =
     (if uint (pk_length (inHdr n)) \<noteq> 0 then Inr (False, n, q)
      else case q of
        [] \<Rightarrow> Inr (False, n, q)
      | buffer # q' \<Rightarrow>
          bindE (ASSERT (int (length buffer) = MaxWireSize)) (\<lambda>_.
          let h = bytes_pkt buffer in
          bindE (ASSERT (pk_to h = ident n \<and> uint (pk_length h) \<le> MaxPacketSize)) (\<lambda>_.
          bindE (slice buffer 12 (uint (pk_length h))) (\<lambda>d.
          bindE (bcopy d (inbox n) 0) (\<lambda>box. Inr (True, n\<lparr>inHdr := h, inbox := box\<rparr>, q'))))))"

definition SendDone :: "Network \<Rightarrow> Network" where
  "SendDone n = n\<lparr>sendBusy := False\<rparr>"

definition Net_Receive :: "bytes \<Rightarrow> Network \<Rightarrow> (PacketHeader \<times> bytes \<times> Network) result" where
  "Net_Receive data n =
     (let hdr = inHdr n; n' = n\<lparr>inHdr := hdr\<lparr>pk_length := 0\<rparr>\<rparr> in
      if uint (pk_length hdr) \<noteq> 0 then
        bindE (slice (inbox n) 0 (uint (pk_length hdr))) (\<lambda>d.
        bindE (bcopy d data 0) (\<lambda>data'. Inr (hdr, data', n')))
      else Inr (hdr, data, n'))"

section \<open>The post office\<close>

definition new_Mail :: "PacketHeader \<Rightarrow> MailHeader \<Rightarrow> bytes \<Rightarrow> Mail result" where
  "new_Mail pktH mailH msgData =
     bindE (ASSERT (uint (ml_length mailH) \<le> MaxMailSize)) (\<lambda>_.
     bindE (slice msgData 0 (uint (ml_length mailH))) (\<lambda>d. Inr \<lparr>mail_pktHdr = pktH, mail_mailHdr = mailH, mail_data = d\<rparr>))"

definition Put :: "PacketHeader \<Rightarrow> MailHeader \<Rightarrow> bytes \<Rightarrow> Mail list \<Rightarrow> Mail list result" where
  "Put pktHdr mailHdr data messages = bindE (new_Mail pktHdr mailHdr data) (\<lambda>mail. Inr (messages @ [mail]))"

text \<open>\<open>Get\<close> on a mailbox that has a message; \<open>data\<close> is the buffer of the caller.\<close>

definition Get :: "bytes \<Rightarrow> Mail list \<Rightarrow> (PacketHeader \<times> MailHeader \<times> bytes \<times> Mail list) result" where
  "Get data messages =
     bindE (deref (if messages = [] then None else Some (hd messages))) (\<lambda>mail.
     bindE (bcopy (mail_data mail) data 0) (\<lambda>data'. Inr (mail_pktHdr mail, mail_mailHdr mail, data', tl messages)))"

definition new_PostOffice :: "32 word \<Rightarrow> real \<Rightarrow> nat \<Rightarrow> PacketHeader \<Rightarrow> bytes \<Rightarrow> bytes \<Rightarrow> PostOffice" where
  "new_PostOffice addr reliability nBoxes h box buf =
     \<lparr>network = new_Network addr reliability h box, netAddr = addr, boxes = replicate nBoxes [], numBoxes = int nBoxes,
      messageAvailable = 0, messageSent = 0, sendLock = False, po_sending = False, po_buffer = buf, po_awake = False\<rparr>"

text \<open>\<open>Send\<close> up to \<open>messageSent->P()\<close>, and the rest of it.\<close>

definition PO_Send :: "nat \<Rightarrow> bytes \<Rightarrow> bytes \<Rightarrow> PacketHeader \<Rightarrow> MailHeader \<Rightarrow> bytes \<Rightarrow> PostOffice \<Rightarrow> sockets \<Rightarrow> (bool \<times> PostOffice \<times> sockets) result" where
  "PO_Send rnd junk buffer pktHdr mailHdr data p ss =
     bindE (ASSERT (uint (ml_length mailHdr) \<le> MaxMailSize)) (\<lambda>_.
     bindE (ASSERT (0 \<le> sint (ml_to mailHdr) \<and> sint (ml_to mailHdr) < numBoxes p)) (\<lambda>_.
     let pktHdr' = pktHdr\<lparr>pk_from := netAddr p, pk_length := ml_length mailHdr + 12\<rparr> in
     bindE (bcopy (mailhdr_bytes mailHdr) buffer 0) (\<lambda>b1.
     bindE (slice data 0 (uint (ml_length mailHdr))) (\<lambda>d.
     bindE (bcopy d b1 12) (\<lambda>b2.
     bindE (ASSERT (\<not> sendLock p)) (\<lambda>_.
     bindE (Net_Send rnd junk pktHdr' b2 (network p) ss) (\<lambda>(works, ss').
     Inr (works, p\<lparr>sendLock := True, po_sending := True\<rparr>, ss'))))))))"

definition PO_Send_rest :: "PostOffice \<Rightarrow> PostOffice" where
  "PO_Send_rest p = p\<lparr>messageSent := messageSent p - 1, sendLock := False\<rparr>"

definition PacketSent :: "PostOffice \<Rightarrow> PostOffice" where
  "PacketSent p = p\<lparr>messageSent := messageSent p + 1\<rparr>"

definition IncomingPacket :: "PostOffice \<Rightarrow> PostOffice" where
  "IncomingPacket p = p\<lparr>messageAvailable := messageAvailable p + 1\<rparr>"

text \<open>The body of the loop of \<open>PostalDelivery\<close> behind \<open>messageAvailable->P()\<close>.\<close>

definition PostalDelivery :: "PostOffice \<Rightarrow> PostOffice result" where
  "PostalDelivery p =
     bindE (Net_Receive (po_buffer p) (network p)) (\<lambda>(pktHdr, buffer, n').
     let mailHdr = bytes_mailhdr buffer in
     bindE (ASSERT (0 \<le> sint (ml_to mailHdr) \<and> sint (ml_to mailHdr) < numBoxes p)) (\<lambda>_.
     bindE (ASSERT (uint (ml_length mailHdr) \<le> MaxMailSize)) (\<lambda>_.
     bindE (arr_get (boxes p) (sint (ml_to mailHdr))) (\<lambda>messages.
     bindE (Put pktHdr mailHdr (drop 12 buffer) messages) (\<lambda>messages'.
     bindE (arr_set (boxes p) (sint (ml_to mailHdr)) messages') (\<lambda>bs.
     Inr (p\<lparr>network := n', po_buffer := buffer, boxes := bs, po_awake := False\<rparr>)))))))"

definition PO_Receive :: "int \<Rightarrow> bytes \<Rightarrow> PostOffice \<Rightarrow> (PacketHeader \<times> MailHeader \<times> bytes \<times> PostOffice) result" where
  "PO_Receive box data p =
     bindE (ASSERT (box \<ge> 0 \<and> box < numBoxes p)) (\<lambda>_.
     bindE (arr_get (boxes p) box) (\<lambda>messages.
     bindE (Get data messages) (\<lambda>(pktHdr, mailHdr, data', messages').
     bindE (arr_set (boxes p) box messages') (\<lambda>bs.
     bindE (ASSERT (uint (ml_length mailHdr) \<le> MaxMailSize)) (\<lambda>_.
     Inr (pktHdr, mailHdr, data', p\<lparr>boxes := bs\<rparr>))))))"

section \<open>Machines on a network\<close>

record net =
  offices :: "32 word \<Rightarrow> PostOffice option"
  socks :: sockets
  sent :: "32 word \<Rightarrow> Mail list"       \<comment> \<open>mails sent to an address, in the order of sending\<close>
  lost :: "32 word \<Rightarrow> nat"             \<comment> \<open>how many of them the network dropped\<close>
  arrived :: "32 word \<Rightarrow> Mail list"    \<comment> \<open>mails put into the mailboxes of a machine\<close>
  got :: "32 word \<Rightarrow> int \<Rightarrow> Mail list"  \<comment> \<open>mails taken out of a mailbox\<close>

definition put_office :: "32 word \<Rightarrow> PostOffice \<Rightarrow> net \<Rightarrow> net" where
  "put_office a p g = g\<lparr>offices := (offices g)(a \<mapsto> p)\<rparr>"

definition mail_of :: "32 word \<Rightarrow> PacketHeader \<Rightarrow> MailHeader \<Rightarrow> bytes \<Rightarrow> Mail" where
  "mail_of a pktHdr mailHdr data =
     \<lparr>mail_pktHdr = pktHdr\<lparr>pk_from := a, pk_length := ml_length mailHdr + 12\<rparr>, mail_mailHdr = mailHdr,
      mail_data = take (unat (ml_length mailHdr)) data\<rparr>"

inductive net_step :: "net \<Rightarrow> net \<Rightarrow> bool" where
  nsend: "offices g a = Some p \<Longrightarrow> length junk = 64 \<Longrightarrow> length buffer = 52 \<Longrightarrow>
    PO_Send rnd junk buffer h mh data p (socks g) = Inr (works, p', ss) \<Longrightarrow>
    net_step g ((put_office a p' g)\<lparr>socks := ss, sent := (sent g)(pk_to h := sent g (pk_to h) @ [mail_of a h mh data]),
                  lost := (lost g)(pk_to h := lost g (pk_to h) + (if works then 0 else 1))\<rparr>)"
| nsend_done: "offices g a = Some p \<Longrightarrow> po_sending p \<Longrightarrow>
    net_step g (put_office a (PacketSent (p\<lparr>network := SendDone (network p), po_sending := False\<rparr>)) g)"
| nsend_rest: "offices g a = Some p \<Longrightarrow> sendLock p \<Longrightarrow> messageSent p > 0 \<Longrightarrow> net_step g (put_office a (PO_Send_rest p) g)"
| npoll: "offices g a = Some p \<Longrightarrow> socks g a = Some q \<Longrightarrow> CheckPktAvail (network p) q = Inr (call, n', q') \<Longrightarrow>
    net_step g ((put_office a ((if call then IncomingPacket else id) (p\<lparr>network := n'\<rparr>)) g)\<lparr>socks := (socks g)(a \<mapsto> q')\<rparr>)"
| nwake: "offices g a = Some p \<Longrightarrow> \<not> po_awake p \<Longrightarrow> messageAvailable p > 0 \<Longrightarrow>
    net_step g (put_office a (p\<lparr>messageAvailable := messageAvailable p - 1, po_awake := True\<rparr>) g)"
| ndeliver: "offices g a = Some p \<Longrightarrow> po_awake p \<Longrightarrow> PostalDelivery p = Inr p' \<Longrightarrow>
    net_step g ((put_office a p' g)\<lparr>arrived := (arrived g)(a := arrived g a @
       [\<lparr>mail_pktHdr = inHdr (network p), mail_mailHdr = bytes_mailhdr (po_buffer p'),
         mail_data = take (unat (ml_length (bytes_mailhdr (po_buffer p')))) (drop 12 (po_buffer p'))\<rparr>])\<rparr>)"
| nreceive: "offices g a = Some p \<Longrightarrow> PO_Receive k data p = Inr (h, mh, data', p') \<Longrightarrow>
    net_step g ((put_office a p' g)\<lparr>got := (got g)(a := (got g a)(k := got g a k @
       [\<lparr>mail_pktHdr = h, mail_mailHdr = mh, mail_data = take (unat (ml_length mh)) data'\<rparr>]))\<rparr>)"

text \<open>The machines \<open>addrs\<close> start with the same number of mailboxes.\<close>

definition init_net :: "32 word list \<Rightarrow> nat \<Rightarrow> (32 word \<Rightarrow> real) \<Rightarrow> (32 word \<Rightarrow> PacketHeader \<times> bytes \<times> bytes) \<Rightarrow> net" where
  "init_net addrs nb rel junk =
     \<lparr>offices = (\<lambda>a. if a \<in> set addrs then Some (case junk a of (h, box, buf) \<Rightarrow> new_PostOffice a (rel a) nb h box buf) else None),
      socks = (\<lambda>a. if a \<in> set addrs then Some [] else None),
      sent = (\<lambda>_. []), lost = (\<lambda>_. 0), arrived = (\<lambda>_. []), got = (\<lambda>_ _. [])\<rparr>"

inductive net_reachable :: "32 word list \<Rightarrow> nat \<Rightarrow> (32 word \<Rightarrow> real) \<Rightarrow> net \<Rightarrow> bool" for addrs nb rel where
  net_init: "\<forall>a. length (fst (snd (junk a))) = 52 \<and> length (snd (snd (junk a))) = 52 \<Longrightarrow> net_reachable addrs nb rel (init_net addrs nb rel junk)"
| net_next: "net_reachable addrs nb rel g \<Longrightarrow> net_step g g' \<Longrightarrow> net_reachable addrs nb rel g'"


section \<open>Messages as bytes\<close>

lemma words3: "bytes_to_words (words_to_bytes [a, b, c] @ xs) = a # b # c # bytes_to_words xs"
proof -
  have "bytes_to_words (word_to_bytes w @ ys) = w # bytes_to_words ys" for w ys
    using bytes_to_words_to_bytes [of "[w]"] by (simp add: words_to_bytes_def word_to_bytes_def)
  then show ?thesis by (simp add: words_to_bytes_def)
qed

lemma bytes_pkt_app [simp]: "bytes_pkt (pkt_bytes h @ xs) = h"
  by (simp add: bytes_pkt_def pkt_bytes_def words3)

lemma bytes_mailhdr_app [simp]: "bytes_mailhdr (mailhdr_bytes h @ xs) = h"
  by (simp add: bytes_mailhdr_def mailhdr_bytes_def words3)

lemma length_hdrs [simp]: "length (pkt_bytes h) = 12" "length (mailhdr_bytes mh) = 12"
  by (simp_all add: pkt_bytes_def mailhdr_bytes_def)

lemma split_take: "take n bs = xs \<Longrightarrow> bs = xs @ drop n bs"
  by (metis append_take_drop_id)

abbreviation mlen :: "Mail \<Rightarrow> nat" where
  "mlen m \<equiv> unat (ml_length (mail_mailHdr m))"

definition mail_bytes :: "Mail \<Rightarrow> bytes" where
  "mail_bytes m = mailhdr_bytes (mail_mailHdr m) @ mail_data m"

text \<open>A well-formed mail for machine \<open>a\<close>, its packet, and the device that has received it.\<close>

definition good :: "nat \<Rightarrow> 32 word \<Rightarrow> Mail \<Rightarrow> bool" where
  "good nb a m \<longleftrightarrow> pk_to (mail_pktHdr m) = a \<and> pk_length (mail_pktHdr m) = ml_length (mail_mailHdr m) + 12 \<and> mlen m \<le> 40 \<and>
     0 \<le> sint (ml_to (mail_mailHdr m)) \<and> sint (ml_to (mail_mailHdr m)) < int nb \<and> length (mail_data m) = mlen m"

definition on_wire :: "bytes \<Rightarrow> Mail \<Rightarrow> bool" where
  "on_wire pkt m \<longleftrightarrow> length pkt = 64 \<and> take (24 + mlen m) pkt = pkt_bytes (mail_pktHdr m) @ mail_bytes m"

definition buffered :: "Network \<Rightarrow> Mail \<Rightarrow> bool" where
  "buffered n m \<longleftrightarrow> inHdr n = mail_pktHdr m \<and> take (12 + mlen m) (inbox n) = mail_bytes m"

lemma unat_le_40: "unat w \<le> 40 \<longleftrightarrow> uint w \<le> 40" for w :: "32 word"
  unfolding uint_nat by linarith

lemma good_length: "good nb a m \<Longrightarrow> uint (pk_length (mail_pktHdr m)) = int (12 + mlen m)"
proof -
  assume g: "good nb a m"
  then have "unat (pk_length (mail_pktHdr m)) = (mlen m + unat (12 :: 32 word)) mod 2 ^ 32" by (simp add: good_def unat_word_ariths)
  also have "\<dots> = mlen m + 12" using g by (simp add: good_def)
  finally have "int (unat (pk_length (mail_pktHdr m))) = int (12 + mlen m)" by simp
  then show ?thesis by (simp only: uint_nat)
qed

lemma length_mail_bytes: "good nb a m \<Longrightarrow> length (mail_bytes m) = 12 + mlen m"
  by (simp add: mail_bytes_def good_def)

lemma bcopy_0: "length from \<le> length buf \<Longrightarrow> bcopy from buf 0 = Inr (from @ drop (length from) buf)"
  by (simp add: bcopy_def)

section \<open>The operations on well-formed mails\<close>

lemma Net_Send_wire:
  assumes "Net_Send rnd junk (mail_pktHdr m) b n ss = Inr (works, ss')" "good nb a m" "take (12 + mlen m) b = mail_bytes m" "length b = 52" "length junk = 64"
  shows "if works then \<exists>q pkt. ss a = Some q \<and> ss' = ss(a \<mapsto> q @ [pkt]) \<and> on_wire pkt m else ss' = ss"
    "chanceToWork n = 1 \<Longrightarrow> works"
proof -
  note L = good_length [OF assms(2)]
  have l40: "mlen m \<le> 40" "pk_to (mail_pktHdr m) = a" using assms(2) by (simp_all add: good_def)
  let ?b1 = "pkt_bytes (mail_pktHdr m) @ drop 12 junk"
  have b1: "bcopy (pkt_bytes (mail_pktHdr m)) junk 0 = Inr ?b1" using bcopy_0 [of "pkt_bytes (mail_pktHdr m)" junk] assms(5) by simp
  have sl: "slice b 0 (uint (pk_length (mail_pktHdr m))) = Inr (mail_bytes m)"
    using slice_nat [of 0 "12 + mlen m" b] assms(3,4) l40(1) by (simp add: L)
  let ?b2 = "pkt_bytes (mail_pktHdr m) @ mail_bytes m @ drop (24 + mlen m) junk"
  have b2: "bcopy (mail_bytes m) ?b1 12 = Inr ?b2" using length_mail_bytes [OF assms(2)] assms(5) l40(1) unat_le_40 by (simp add: bcopy_def add.commute)
  have w: "on_wire ?b2 m" using length_mail_bytes [OF assms(2)] assms(5) l40(1) by (simp add: on_wire_def)
  show "if works then \<exists>q pkt. ss a = Some q \<and> ss' = ss(a \<mapsto> q @ [pkt]) \<and> on_wire pkt m else ss' = ss"
    using assms(1) b1 sl b2 w l40(2) by (auto simp: Net_Send_def bindE_eq_Inr SendToSocket_def split: if_splits option.splits)
  have "real (rnd mod 100) < 100" by (simp add: less_imp_of_nat_less [where 'a = real, of "rnd mod 100" 100, simplified])
  then show "works" if "chanceToWork n = 1" using assms(1) that by (auto simp: Net_Send_def bindE_eq_Inr split: if_splits)
qed

lemma PO_Send_ok:
  assumes "PO_Send rnd junk buffer h mh data p ss = Inr (works, p', ss')" "length junk = 64" "length buffer = 52" "numBoxes p = int nb" "netAddr p = a"
  shows "good nb (pk_to h) (mail_of a h mh data)" "p' = p\<lparr>sendLock := True, po_sending := True\<rparr>"
    "if works then \<exists>q pkt. ss (pk_to h) = Some q \<and> ss' = ss(pk_to h \<mapsto> q @ [pkt]) \<and> on_wire pkt (mail_of a h mh data) else ss' = ss"
    "chanceToWork (network p) = 1 \<Longrightarrow> works"
proof -
  let ?m = "mail_of a h mh data" and ?l = "unat (ml_length mh)"
  have A: "uint (ml_length mh) \<le> 40" "0 \<le> sint (ml_to mh)" "sint (ml_to mh) < numBoxes p" using assms(1) by (auto simp: PO_Send_def bindE_eq_Inr)
  have l: "?l \<le> 40" using A(1) unat_le_40 by blast
  have ul: "uint (ml_length mh) = int ?l" by simp
  obtain d where d: "slice data 0 (int ?l) = Inr d" using assms(1) by (auto simp: PO_Send_def bindE_eq_Inr Let_def)
  then have di: "int ?l \<le> int (length data)" "d = take ?l data" by (auto simp: slice_def split: if_splits)
  then have dl: "?l \<le> length data" "d = take ?l data" by (simp_all only: of_nat_le_iff)
  show g: "good nb (pk_to h) ?m" using A assms(4) dl(1) l by (simp add: good_def mail_of_def)
  let ?b2 = "mailhdr_bytes mh @ take ?l data @ drop (12 + ?l) buffer"
  have b1: "bcopy (mailhdr_bytes mh) buffer 0 = Inr (mailhdr_bytes mh @ drop 12 buffer)" using bcopy_0 [of "mailhdr_bytes mh" buffer] assms(3) by simp
  have b2: "bcopy (take ?l data) (mailhdr_bytes mh @ drop 12 buffer) 12 = Inr ?b2"
    using dl(1) assms(3) l A(1) by (simp add: bcopy_def add.commute)
  have tk: "take (12 + mlen ?m) ?b2 = mail_bytes ?m" "length ?b2 = 52" using dl(1) assms(3) l by (simp_all add: mail_of_def mail_bytes_def)
  have "\<exists>w. Net_Send rnd junk (mail_pktHdr ?m) ?b2 (network p) ss = Inr (w, ss') \<and> w = works \<and> p' = p\<lparr>sendLock := True, po_sending := True\<rparr>"
    using assms(1,5) A b1 d b2 dl(2) by (auto simp: PO_Send_def bindE_eq_Inr Let_def mail_of_def)
  then have ns: "Net_Send rnd junk (mail_pktHdr ?m) ?b2 (network p) ss = Inr (works, ss')" "p' = p\<lparr>sendLock := True, po_sending := True\<rparr>" by auto
  show "p' = p\<lparr>sendLock := True, po_sending := True\<rparr>" by (rule ns(2))
  show "if works then \<exists>q pkt. ss (pk_to h) = Some q \<and> ss' = ss(pk_to h \<mapsto> q @ [pkt]) \<and> on_wire pkt ?m else ss' = ss"
    "chanceToWork (network p) = 1 \<Longrightarrow> works"
    using Net_Send_wire [OF ns(1) g tk assms(2)] by blast+
qed

lemma CheckPktAvail_ok:
  assumes "on_wire pkt m" "good nb (ident n) m" "uint (pk_length (inHdr n)) = 0" "length (inbox n) = 52"
  shows "\<exists>n'. CheckPktAvail n (pkt # q) = Inr (True, n', q) \<and> buffered n' m \<and> ident n' = ident n \<and> sendBusy n' = sendBusy n \<and> length (inbox n') = 52 \<and>
    chanceToWork n' = chanceToWork n"
proof -
  have w: "length pkt = 64" "pkt = (pkt_bytes (mail_pktHdr m) @ mail_bytes m) @ drop (24 + mlen m) pkt" using assms(1) split_take [of "24 + mlen m" pkt] by (simp_all add: on_wire_def)
  have h: "bytes_pkt pkt = mail_pktHdr m" by (subst w(2)) simp
  note L = good_length [OF assms(2)] and LB = length_mail_bytes [OF assms(2)]
  have g: "pk_to (mail_pktHdr m) = ident n" "mlen m \<le> 40" using assms(2) by (simp_all add: good_def)
  have "take (12 + mlen m) (drop 12 pkt) = mail_bytes m" by (subst w(2)) (simp add: LB)
  then have sl: "slice pkt 12 (uint (pk_length (mail_pktHdr m))) = Inr (mail_bytes m)"
    using slice_nat [of 12 "12 + mlen m" pkt] w(1) g(2) by (simp add: L)
  have bc: "bcopy (mail_bytes m) (inbox n) 0 = Inr (mail_bytes m @ drop (12 + mlen m) (inbox n))"
    using bcopy_0 [of "mail_bytes m" "inbox n"] LB assms(4) g(2) by simp
  let ?n = "n\<lparr>inHdr := mail_pktHdr m, inbox := mail_bytes m @ drop (12 + mlen m) (inbox n)\<rparr>"
  have "CheckPktAvail n (pkt # q) = Inr (True, ?n, q)" using assms(3) w(1) h g sl bc L unat_le_40 by (simp add: CheckPktAvail_def Let_def)
  moreover have "buffered ?n m" "length (inbox ?n) = 52" using LB assms(4) g(2) by (simp_all add: buffered_def)
  ultimately show ?thesis by auto
qed

lemma PostalDelivery_ok:
  assumes "buffered (network p) m" "good nb a m" "length (inbox (network p)) = 52" "length (po_buffer p) = 52" "numBoxes p = int nb" "length (boxes p) = nb"
  shows "\<exists>buf. PostalDelivery p = Inr (p\<lparr>network := (network p)\<lparr>inHdr := (mail_pktHdr m)\<lparr>pk_length := 0\<rparr>\<rparr>, po_buffer := buf,
      boxes := (boxes p)[nat (sint (ml_to (mail_mailHdr m))) := boxes p ! nat (sint (ml_to (mail_mailHdr m))) @ [m]], po_awake := False\<rparr>) \<and>
    length buf = 52 \<and> bytes_mailhdr buf = mail_mailHdr m \<and> take (mlen m) (drop 12 buf) = mail_data m"
proof -
  let ?k = "sint (ml_to (mail_mailHdr m))"
  note L = good_length [OF assms(2)] and LB = length_mail_bytes [OF assms(2)]
  have g: "mlen m \<le> 40" "0 \<le> ?k" "?k < int nb" "length (mail_data m) = mlen m" using assms(2) by (simp_all add: good_def)
  let ?buf = "mail_bytes m @ drop (12 + mlen m) (po_buffer p)"
  have sl: "slice (inbox (network p)) 0 (uint (pk_length (mail_pktHdr m))) = Inr (mail_bytes m)"
    using slice_nat [of 0 "12 + mlen m" "inbox (network p)"] assms(1,3) g(1) by (simp add: L buffered_def)
  have bc: "bcopy (mail_bytes m) (po_buffer p) 0 = Inr ?buf" using bcopy_0 [of "mail_bytes m" "po_buffer p"] LB assms(4) g(1) by simp
  have nz: "uint (pk_length (mail_pktHdr m)) \<noteq> 0" using L by linarith
  have rc: "Net_Receive (po_buffer p) (network p) = Inr (mail_pktHdr m, ?buf, (network p)\<lparr>inHdr := (mail_pktHdr m)\<lparr>pk_length := 0\<rparr>\<rparr>)"
    using sl bc nz assms(1) by (simp add: Net_Receive_def Let_def buffered_def)
  have h: "bytes_mailhdr ?buf = mail_mailHdr m" by (simp add: mail_bytes_def)
  have tk: "take (mlen m) (drop 12 ?buf) = mail_data m" using g(4) by (simp add: mail_bytes_def)
  have "slice (drop 12 ?buf) 0 (uint (ml_length (mail_mailHdr m))) = Inr (mail_data m)"
    using slice_nat [of 0 "mlen m" "drop 12 ?buf"] tk g(4) by (simp add: mail_bytes_def)
  then have "new_Mail (mail_pktHdr m) (mail_mailHdr m) (drop 12 ?buf) = Inr m"
    using g(1) unat_le_40 by (simp add: new_Mail_def)
  then have "PostalDelivery p = Inr (p\<lparr>network := (network p)\<lparr>inHdr := (mail_pktHdr m)\<lparr>pk_length := 0\<rparr>\<rparr>, po_buffer := ?buf,
      boxes := (boxes p)[nat ?k := boxes p ! nat ?k @ [m]], po_awake := False\<rparr>)"
    using rc h g assms(5,6) unat_le_40 by (simp add: PostalDelivery_def Let_def Put_def)
  moreover have "length ?buf = 52" using LB assms(4) g(1) by simp
  ultimately show ?thesis using h tk by blast
qed


lemma PO_Receive_ok:
  assumes "PO_Receive k data p = Inr (h, mh, data', p')" "numBoxes p = int nb" "length (boxes p) = nb" "\<forall>m \<in> set (boxes p ! nat k). good nb a m"
  shows "0 \<le> k \<and> k < int nb \<and> (\<exists>m rest. boxes p ! nat k = m # rest \<and> p' = p\<lparr>boxes := (boxes p)[nat k := rest]\<rparr> \<and>
    m = \<lparr>mail_pktHdr = h, mail_mailHdr = mh, mail_data = take (unat (ml_length mh)) data'\<rparr>)"
proof -
  have k: "0 \<le> k" "k < int nb" using assms(1,2) by (auto simp: PO_Receive_def bindE_eq_Inr)
  obtain m rest where m: "boxes p ! nat k = m # rest"
    using assms(1-3) k by (cases "boxes p ! nat k") (auto simp: PO_Receive_def Get_def)
  have g: "length (mail_data m) = mlen m" using assms(4) m by (simp add: good_def)
  have bc: "bcopy (mail_data m) data 0 = Inr data'" "h = mail_pktHdr m" "mh = mail_mailHdr m" "p' = p\<lparr>boxes := (boxes p)[nat k := rest]\<rparr>"
    using assms(1,3) k m by (auto simp: PO_Receive_def Get_def bindE_eq_Inr)
  have "take (mlen m) data' = mail_data m" using bc(1) g by (auto simp: bcopy_def split: if_splits)
  then show ?thesis using k m bc by (intro conjI exI [of _ m] exI [of _ rest]) simp_all
qed

section \<open>The invariant\<close>

definition office_ok :: "nat \<Rightarrow> (32 word \<Rightarrow> real) \<Rightarrow> 32 word \<Rightarrow> PostOffice \<Rightarrow> bool" where
  "office_ok nb rel a p \<longleftrightarrow> ident (network p) = a \<and> netAddr p = a \<and> numBoxes p = int nb \<and> length (boxes p) = nb \<and> \<not> sendBusy (network p) \<and>
     length (inbox (network p)) = 52 \<and> length (po_buffer p) = 52 \<and> (1 \<le> rel a \<longrightarrow> chanceToWork (network p) = 1) \<and> 0 \<le> messageAvailable p"

text \<open>The mails on their way to a machine: the one in the device, if any, and those in the socket.\<close>

definition device_mail :: "PostOffice \<Rightarrow> Mail list \<Rightarrow> bool" where
  "device_mail p mid \<longleftrightarrow>
     (if uint (pk_length (inHdr (network p))) = 0 then mid = [] \<and> messageAvailable p = 0 \<and> \<not> po_awake p
      else \<exists>m. mid = [m] \<and> buffered (network p) m \<and> messageAvailable p = (if po_awake p then 0 else 1))"

definition flow_ok :: "nat \<Rightarrow> net \<Rightarrow> 32 word \<Rightarrow> PostOffice \<Rightarrow> bool" where
  "flow_ok nb g a p \<longleftrightarrow> (\<exists>q ms mid. socks g a = Some q \<and> list_all2 on_wire q ms \<and> device_mail p mid \<and>
     (\<forall>m \<in> set (arrived g a @ mid @ ms). good nb a m) \<and> subseq (arrived g a @ mid @ ms) (sent g a) \<and>
     length (arrived g a @ mid @ ms) + lost g a = length (sent g a))"

definition boxes_ok :: "nat \<Rightarrow> net \<Rightarrow> 32 word \<Rightarrow> PostOffice \<Rightarrow> bool" where
  "boxes_ok nb g a p \<longleftrightarrow> (\<forall>k. 0 \<le> k \<and> k < int nb \<longrightarrow>
     got g a k @ boxes p ! nat k = filter (\<lambda>m. sint (ml_to (mail_mailHdr m)) = k) (arrived g a))"

definition net_inv :: "32 word list \<Rightarrow> nat \<Rightarrow> (32 word \<Rightarrow> real) \<Rightarrow> net \<Rightarrow> bool" where
  "net_inv addrs nb rel g \<longleftrightarrow> (\<forall>a. offices g a = None \<longleftrightarrow> a \<notin> set addrs) \<and>
     (\<forall>a p. offices g a = Some p \<longrightarrow> office_ok nb rel a p \<and> flow_ok nb g a p \<and> boxes_ok nb g a p) \<and>
     ((\<forall>a. 1 \<le> rel a) \<longrightarrow> (\<forall>a. lost g a = 0))"

lemma net_invD: "net_inv addrs nb rel g \<Longrightarrow> offices g a = Some p \<Longrightarrow> office_ok nb rel a p \<and> flow_ok nb g a p \<and> boxes_ok nb g a p"
  by (simp add: net_inv_def)

text \<open>A step of machine \<open>a\<close> that leaves the histories and the sockets of the others alone.\<close>

lemma net_inv_local:
  assumes "net_inv addrs nb rel g" "offices g a = Some p" "office_ok nb rel a p'" "flow_ok nb g' a p'" "boxes_ok nb g' a p'"
    "offices g' = (offices g)(a \<mapsto> p')" "\<And>b. b \<noteq> a \<Longrightarrow> socks g' b = socks g b \<and> sent g' b = sent g b \<and> arrived g' b = arrived g b \<and> got g' b = got g b"
    "lost g' = lost g"
  shows "net_inv addrs nb rel g'"
proof -
  have "office_ok nb rel b x \<and> flow_ok nb g' b x \<and> boxes_ok nb g' b x" if "offices g' b = Some x" for b x
  proof (cases "b = a")
    case True
    then show ?thesis using that assms(3-6) by simp
  next
    case False
    then have "offices g b = Some x" using that assms(6) by simp
    then show ?thesis using net_invD [OF assms(1)] assms(7) [OF False] assms(8) by (simp add: flow_ok_def boxes_ok_def)
  qed
  moreover have "offices g' b = None \<longleftrightarrow> b \<notin> set addrs" for b
  proof -
    have "\<forall>c. offices g c = None \<longleftrightarrow> c \<notin> set addrs" using assms(1) by (simp add: net_inv_def)
    then show ?thesis using assms(2,6) by (metis fun_upd_apply option.distinct(1))
  qed
  ultimately show ?thesis using assms(1,8) by (simp add: net_inv_def)
qed

lemma net_inv_quiet:
  assumes "net_inv addrs nb rel g" "offices g a = Some p" "device_mail p' = device_mail p" "office_ok nb rel a p'" "boxes p' = boxes p"
  shows "net_inv addrs nb rel (put_office a p' g)"
proof (rule net_inv_local [OF assms(1,2,4)])
  have "flow_ok nb g a p" "boxes_ok nb g a p" using net_invD [OF assms(1,2)] by simp_all
  then show "flow_ok nb (put_office a p' g) a p'" "boxes_ok nb (put_office a p' g) a p'"
    by (simp_all add: flow_ok_def boxes_ok_def put_office_def assms(3,5))
qed (simp_all add: put_office_def)

lemma init_inv:
  assumes "\<forall>a. length (fst (snd (junk a))) = 52 \<and> length (snd (snd (junk a))) = 52"
  shows "net_inv addrs nb rel (init_net addrs nb rel junk)"
proof -
  have "office_ok nb rel a p \<and> flow_ok nb (init_net addrs nb rel junk) a p \<and> boxes_ok nb (init_net addrs nb rel junk) a p"
    if "offices (init_net addrs nb rel junk) a = Some p" for a p
  proof -
    obtain h box buf where j: "junk a = (h, box, buf)" by (cases "junk a")
    have len: "length box = 52" "length buf = 52" using assms [rule_format, of a] j by simp_all
    have p: "a \<in> set addrs" "p = new_PostOffice a (rel a) nb h box buf" using that j by (simp_all add: init_net_def split: if_splits)
    have "office_ok nb rel a p" using len by (auto simp: p(2) office_ok_def new_PostOffice_def new_Network_def)
    moreover have "flow_ok nb (init_net addrs nb rel junk) a p" using p(1)
      by (auto simp: flow_ok_def init_net_def device_mail_def p(2) new_PostOffice_def new_Network_def)
    moreover have "boxes_ok nb (init_net addrs nb rel junk) a p" by (auto simp: boxes_ok_def init_net_def p(2) new_PostOffice_def)
    ultimately show ?thesis by blast
  qed
  moreover have "offices (init_net addrs nb rel junk) a = None \<longleftrightarrow> a \<notin> set addrs" for a by (simp add: init_net_def)
  ultimately show ?thesis by (simp add: net_inv_def) (simp add: init_net_def)
qed


lemma send_inv:
  assumes inv: "net_inv addrs nb rel g" and p: "offices g a = Some p" and len: "length junk = 64" "length buffer = 52"
    and snd: "PO_Send rnd junk buffer h mh data p (socks g) = Inr (works, p', ss)"
  shows "net_inv addrs nb rel ((put_office a p' g)\<lparr>socks := ss, sent := (sent g)(pk_to h := sent g (pk_to h) @ [mail_of a h mh data]),
    lost := (lost g)(pk_to h := lost g (pk_to h) + (if works then 0 else 1))\<rparr>)" (is "net_inv addrs nb rel ?g")
proof -
  let ?m = "mail_of a h mh data" and ?t = "pk_to h"
  have ok: "office_ok nb rel a p" using net_invD [OF inv p] by simp
  then have np: "numBoxes p = int nb" "netAddr p = a" by (simp_all add: office_ok_def)
  note S = PO_Send_ok [OF snd len np]
  have off: "offices ?g = (offices g)(a \<mapsto> p')" by (simp add: put_office_def)
  have dev: "device_mail p' = device_mail p" "office_ok nb rel a p'" "boxes p' = boxes p" using ok by (simp_all add: fun_eq_iff S(2) device_mail_def office_ok_def)
  have each: "office_ok nb rel b x \<and> flow_ok nb ?g b x \<and> boxes_ok nb ?g b x" if b: "offices ?g b = Some x" for b x
  proof -
    obtain y where y: "offices g b = Some y" "device_mail x = device_mail y" "office_ok nb rel b x" "boxes x = boxes y"
      using b p dev net_invD [OF inv, of b x] by (cases "b = a") (auto simp: put_office_def)
    from net_invD [OF inv y(1)] obtain q ms mid where f: "socks g b = Some q" "list_all2 on_wire q ms" "device_mail y mid"
      "\<forall>m \<in> set (arrived g b @ mid @ ms). good nb b m" "subseq (arrived g b @ mid @ ms) (sent g b)" "length (arrived g b @ mid @ ms) + lost g b = length (sent g b)"
      "boxes_ok nb g b y" by (auto simp: flow_ok_def)
    have "flow_ok nb ?g b x"
    proof (cases "b = ?t")
      case False
      then have "ss b = socks g b" using S(3) by (auto split: if_splits)
      then show ?thesis using False f y(2) unfolding flow_ok_def by (intro exI [of _ q] exI [of _ ms] exI [of _ mid]) (simp add: put_office_def)
    next
      case True
      show ?thesis
      proof (cases works)
        case w: True
        then obtain pkt where pk: "ss b = Some (q @ [pkt])" "on_wire pkt ?m" using S(3) f(1) True by auto
        have "subseq ((arrived g b @ mid @ ms) @ [?m]) (sent g b @ [?m])" using f(5) by (simp only: list_emb_append_mono subseq_order.refl)
        then show ?thesis unfolding flow_ok_def using f pk S(1) True y(2) w
          by (intro exI [of _ "q @ [pkt]"] exI [of _ "ms @ [?m]"] exI [of _ mid]) (simp add: put_office_def list_all2_appendI)
      next
        case w: False
        then have "ss b = Some q" using S(3) f(1) True by simp
        moreover have "subseq (arrived g b @ mid @ ms) (sent g b @ [?m])" using f(5) list_emb_append2 by blast
        ultimately show ?thesis unfolding flow_ok_def using f True y(2) w
          by (intro exI [of _ q] exI [of _ ms] exI [of _ mid]) (simp add: put_office_def)
      qed
    qed
    moreover have "boxes_ok nb ?g b x" using f(7) y(4) by (simp add: boxes_ok_def put_office_def)
    ultimately show ?thesis using y(3) by blast
  qed
  have "offices ?g b = None \<longleftrightarrow> b \<notin> set addrs" for b
  proof -
    have "\<forall>c. offices g c = None \<longleftrightarrow> c \<notin> set addrs" using inv by (simp add: net_inv_def)
    then show ?thesis using off p by (metis fun_upd_apply option.distinct(1))
  qed
  moreover have "lost ?g b = 0" if "\<forall>a. 1 \<le> rel a" for b
  proof -
    have "chanceToWork (network p) = 1" using ok that by (simp add: office_ok_def)
    then have works using S(4) by blast
    then show ?thesis using inv that by (simp add: net_inv_def)
  qed
  ultimately show ?thesis using each unfolding net_inv_def by blast
qed

lemma step_inv:
  assumes "net_step g g'" "net_inv addrs nb rel g"
  shows "net_inv addrs nb rel g'"
  using assms
proof (induction rule: net_step.induct)
  case (nsend g a p junk buffer rnd h mh data works p' ss)
  then show ?case using send_inv by blast
next
  case (nsend_done g a p)
  have "device_mail (PacketSent (p\<lparr>network := SendDone (network p), po_sending := False\<rparr>)) = device_mail p"
    by (simp add: fun_eq_iff device_mail_def PacketSent_def SendDone_def buffered_def)
  then show ?case using net_invD [OF nsend_done(3,1)]
    by (intro net_inv_quiet [OF nsend_done(3,1)]) (simp_all add: PacketSent_def SendDone_def office_ok_def)
next
  case (nsend_rest g a p)
  have "device_mail (PO_Send_rest p) = device_mail p" by (simp add: fun_eq_iff device_mail_def PO_Send_rest_def)
  then show ?case using net_invD [OF nsend_rest(4,1)]
    by (intro net_inv_quiet [OF nsend_rest(4,1)]) (simp_all add: PO_Send_rest_def office_ok_def)
next
  case (npoll g a p q call n' q')
  from net_invD [OF npoll(4,1)] npoll(2) obtain ms mid where f: "list_all2 on_wire q ms" "device_mail p mid"
    "\<forall>m \<in> set (arrived g a @ mid @ ms). good nb a m" "subseq (arrived g a @ mid @ ms) (sent g a)" "length (arrived g a @ mid @ ms) + lost g a = length (sent g a)"
    "office_ok nb rel a p" "boxes_ok nb g a p" by (auto simp: flow_ok_def)
  let ?g = "(put_office a ((if call then IncomingPacket else id) (p\<lparr>network := n'\<rparr>)) g)\<lparr>socks := (socks g)(a \<mapsto> q')\<rparr>"
  show ?case
  proof (cases "uint (pk_length (inHdr (network p))) \<noteq> 0 \<or> q = []")
    case True
    then have "call = False" "n' = network p" "q' = q" using npoll(3) by (auto simp: CheckPktAvail_def split: if_splits)
    then have "?g = g" using npoll(1,2) by (simp add: put_office_def fun_upd_idem)
    then show ?thesis using npoll(4) by simp
  next
    case False
    then obtain pkt r where q: "q = pkt # r" by (cases q) auto
    then obtain m mr where ms: "ms = m # mr" "on_wire pkt m" "list_all2 on_wire r mr" using f(1) by (auto simp: list_all2_Cons1)
    have mid: "mid = []" "messageAvailable p = 0" "\<not> po_awake p" using f(2) False by (simp_all add: device_mail_def)
    have gm: "good nb (ident (network p)) m" using f(3,6) ms by (simp add: office_ok_def)
    have "length (inbox (network p)) = 52" using f(6) by (simp add: office_ok_def)
    from CheckPktAvail_ok [OF ms(2) gm _ this, of r] False npoll(3) q have c: "call" "q' = r" "buffered n' m" "ident n' = ident (network p)" "sendBusy n' = sendBusy (network p)"
      "length (inbox n') = 52" "chanceToWork n' = chanceToWork (network p)" by auto
    let ?p = "IncomingPacket (p\<lparr>network := n'\<rparr>)"
    have "uint (pk_length (mail_pktHdr m)) \<noteq> 0" using good_length [OF gm] by linarith
    then have "uint (pk_length (inHdr n')) \<noteq> 0" using c(3) by (simp add: buffered_def)
    then have d: "device_mail ?p [m]" using c(3) mid by (simp add: device_mail_def IncomingPacket_def)
    have "flow_ok nb ?g a ?p" unfolding flow_ok_def
      using f(3-5) ms(1,3) mid(1) d c(2) by (intro exI [of _ r] exI [of _ mr] exI [of _ "[m]"]) (simp add: put_office_def)
    moreover have "office_ok nb rel a ?p" using f(6) c(4-7) by (simp add: office_ok_def IncomingPacket_def)
    moreover have "boxes_ok nb ?g a ?p" using f(7) by (simp add: boxes_ok_def put_office_def IncomingPacket_def)
    ultimately show ?thesis using c(1) by (intro net_inv_local [OF npoll(4,1)]) (auto simp: put_office_def)
  qed
next
  case (nwake g a p)
  from net_invD [OF nwake(4,1)] obtain q ms mid where f: "socks g a = Some q" "list_all2 on_wire q ms" "device_mail p mid"
    "\<forall>m \<in> set (arrived g a @ mid @ ms). good nb a m" "subseq (arrived g a @ mid @ ms) (sent g a)" "length (arrived g a @ mid @ ms) + lost g a = length (sent g a)"
    "office_ok nb rel a p" "boxes_ok nb g a p" by (auto simp: flow_ok_def)
  let ?p = "p\<lparr>messageAvailable := messageAvailable p - 1, po_awake := True\<rparr>"
  have "device_mail ?p mid" using f(3) nwake(2,3) by (auto simp: device_mail_def split: if_splits)
  then have "flow_ok nb (put_office a ?p g) a ?p" unfolding flow_ok_def using f(1-6)
    by (intro exI [of _ q] exI [of _ ms] exI [of _ mid]) (simp add: put_office_def)
  moreover have "office_ok nb rel a ?p" "boxes_ok nb (put_office a ?p g) a ?p" using f(7,8) nwake(3) by (simp_all add: office_ok_def boxes_ok_def put_office_def)
  ultimately show ?case by (intro net_inv_local [OF nwake(4,1)]) (auto simp: put_office_def)
next
  case (ndeliver g a p p')
  from net_invD [OF ndeliver(4,1)] obtain q ms mid where f: "socks g a = Some q" "list_all2 on_wire q ms" "device_mail p mid"
    "\<forall>m \<in> set (arrived g a @ mid @ ms). good nb a m" "subseq (arrived g a @ mid @ ms) (sent g a)" "length (arrived g a @ mid @ ms) + lost g a = length (sent g a)"
    "office_ok nb rel a p" "boxes_ok nb g a p" by (auto simp: flow_ok_def)
  obtain m where m: "mid = [m]" "buffered (network p) m" "messageAvailable p = 0" using f(3) ndeliver(2) by (auto simp: device_mail_def split: if_splits)
  have o: "length (inbox (network p)) = 52" "length (po_buffer p) = 52" "numBoxes p = int nb" "length (boxes p) = nb" using f(7) by (simp_all add: office_ok_def)
  have gm: "good nb a m" using f(4) m(1) by simp
  let ?k = "sint (ml_to (mail_mailHdr m))"
  from PostalDelivery_ok [OF m(2) gm o] ndeliver(3) obtain buf where
    p': "p' = p\<lparr>network := (network p)\<lparr>inHdr := (mail_pktHdr m)\<lparr>pk_length := 0\<rparr>\<rparr>, po_buffer := buf, boxes := (boxes p)[nat ?k := boxes p ! nat ?k @ [m]], po_awake := False\<rparr>"
      "length buf = 52" "bytes_mailhdr buf = mail_mailHdr m" "take (mlen m) (drop 12 buf) = mail_data m" by auto
  have am: "\<lparr>mail_pktHdr = inHdr (network p), mail_mailHdr = bytes_mailhdr (po_buffer p'),
      mail_data = take (unat (ml_length (bytes_mailhdr (po_buffer p')))) (drop 12 (po_buffer p'))\<rparr> = m"
    using m(2) p' by (simp add: buffered_def)
  let ?g = "(put_office a p' g)\<lparr>arrived := (arrived g)(a := arrived g a @ [m])\<rparr>"
  have "device_mail p' []" using m(3) by (simp add: device_mail_def p'(1))
  then have "flow_ok nb ?g a p'" unfolding flow_ok_def using f(1,2,4-6) m(1)
    by (intro exI [of _ q] exI [of _ ms] exI [of _ "[]"]) (simp add: put_office_def)
  moreover have "office_ok nb rel a p'" using f(7) p'(2) by (simp add: office_ok_def p'(1))
  moreover have "boxes_ok nb ?g a p'" unfolding boxes_ok_def
  proof (intro allI impI)
    fix k assume k: "0 \<le> k \<and> k < int nb"
    then have old: "got g a k @ boxes p ! nat k = filter (\<lambda>m. sint (ml_to (mail_mailHdr m)) = k) (arrived g a)" using f(8) by (simp add: boxes_ok_def)
    have "boxes p' ! nat k = (if ?k = k then boxes p ! nat k @ [m] else boxes p ! nat k)"
      using k gm o(4) by (auto simp: p'(1) good_def nth_list_update eq_nat_nat_iff)
    then show "got ?g a k @ boxes p' ! nat k = filter (\<lambda>m. sint (ml_to (mail_mailHdr m)) = k) (arrived ?g a)"
      using old by (auto simp: put_office_def)
  qed
  ultimately show ?case unfolding am by (intro net_inv_local [OF ndeliver(4,1)]) (auto simp: put_office_def)
next
  case (nreceive g a p k data h mh data' p')
  from net_invD [OF nreceive(3,1)] obtain q ms mid where f: "socks g a = Some q" "list_all2 on_wire q ms" "device_mail p mid"
    "\<forall>m \<in> set (arrived g a @ mid @ ms). good nb a m" "subseq (arrived g a @ mid @ ms) (sent g a)" "length (arrived g a @ mid @ ms) + lost g a = length (sent g a)"
    "office_ok nb rel a p" "boxes_ok nb g a p" by (auto simp: flow_ok_def)
  have o: "numBoxes p = int nb" "length (boxes p) = nb" using f(7) by (simp_all add: office_ok_def)
  have k: "0 \<le> k" "k < int nb" using nreceive(2) o(1) by (auto simp: PO_Receive_def bindE_eq_Inr)
  then have fb: "got g a k @ boxes p ! nat k = filter (\<lambda>m. sint (ml_to (mail_mailHdr m)) = k) (arrived g a)" using f(8) by (simp add: boxes_ok_def)
  have "\<forall>m \<in> set (boxes p ! nat k). good nb a m"
  proof
    fix m assume "m \<in> set (boxes p ! nat k)"
    then have "m \<in> set (got g a k @ boxes p ! nat k)" by simp
    then show "good nb a m" unfolding fb using f(4) by simp
  qed
  from PO_Receive_ok [OF nreceive(2) o this] obtain m rest where
    m: "boxes p ! nat k = m # rest" "p' = p\<lparr>boxes := (boxes p)[nat k := rest]\<rparr>"
      "m = \<lparr>mail_pktHdr = h, mail_mailHdr = mh, mail_data = take (unat (ml_length mh)) data'\<rparr>" by blast
  let ?g = "(put_office a p' g)\<lparr>got := (got g)(a := (got g a)(k := got g a k @ [m]))\<rparr>"
  have "flow_ok nb ?g a p'" unfolding flow_ok_def using f(1-6)
    by (intro exI [of _ q] exI [of _ ms] exI [of _ mid]) (simp add: put_office_def device_mail_def m(2))
  moreover have "office_ok nb rel a p'" using f(7) by (simp add: office_ok_def m(2))
  moreover have "boxes_ok nb ?g a p'" unfolding boxes_ok_def
  proof (intro allI impI)
    fix j assume j: "0 \<le> j \<and> j < int nb"
    then have old: "got g a j @ boxes p ! nat j = filter (\<lambda>m. sint (ml_to (mail_mailHdr m)) = j) (arrived g a)" using f(8) by (simp add: boxes_ok_def)
    have "boxes p' ! nat j = (if j = k then rest else boxes p ! nat j)" using j k o(2) by (auto simp: m(2) nth_list_update eq_nat_nat_iff)
    then show "got ?g a j @ boxes p' ! nat j = filter (\<lambda>m. sint (ml_to (mail_mailHdr m)) = j) (arrived ?g a)"
      using old m(1) by (auto simp: put_office_def)
  qed
  ultimately show ?case unfolding m(3) [symmetric] by (intro net_inv_local [OF nreceive(3,1)]) (auto simp: put_office_def)
qed

lemma reachable_inv: "net_reachable addrs nb rel g \<Longrightarrow> net_inv addrs nb rel g"
  by (induction rule: net_reachable.induct) (auto intro: init_inv step_inv)


section \<open>A delivery\<close>

definition sample_hdr :: PacketHeader where "sample_hdr = \<lparr>pk_to = 2, pk_from = 0, pk_length = 0\<rparr>"

definition sample_mailhdr :: MailHeader where "sample_mailhdr = \<lparr>ml_to = 0, ml_from = 0, ml_length = 3\<rparr>"

definition sample_net :: net where
  "sample_net = init_net [1, 2] 1 (\<lambda>_. 1) (\<lambda>_. (sample_hdr, replicate 52 0, replicate 52 0))"

lemma sample_start: "net_reachable [1, 2] 1 (\<lambda>_. 1) sample_net"
  unfolding sample_net_def by (rule net_init) simp

text \<open>Machine 1 sends three bytes to mailbox 0 of machine 2, and the postal worker there is woken up.\<close>

lemma sample_woken:
  "\<exists>g p m. net_reachable [1, 2] 1 (\<lambda>_. 1) g \<and> offices g 2 = Some p \<and> po_awake p \<and> m = mail_of 1 sample_hdr sample_mailhdr [72, 105, 33] \<and>
     sent g 2 = [m] \<and> arrived g 2 = [] \<and> buffered (network p) m \<and> good 1 2 m \<and> boxes p = [[]] \<and> socks g 2 = Some [] \<and>
     length (inbox (network p)) = 52 \<and> length (po_buffer p) = 52 \<and> numBoxes p = 1"
proof -
  let ?m = "mail_of 1 sample_hdr sample_mailhdr [72, 105, 33]" and ?j = "replicate 64 0" and ?b = "replicate 52 0"
  let ?po = "\<lambda>a. new_PostOffice a 1 1 sample_hdr (replicate 52 0) (replicate 52 0)"
  have o: "offices sample_net 1 = Some (?po 1)" "offices sample_net 2 = Some (?po 2)" "socks sample_net = (\<lambda>a. if a = 1 \<or> a = 2 then Some [] else None)"
    "sent sample_net = (\<lambda>_. [])" "arrived sample_net = (\<lambda>_. [])" by (auto simp: sample_net_def init_net_def)
  have "\<exists>works p' ss. PO_Send 7 ?j ?b sample_hdr sample_mailhdr [72, 105, 33] (?po 1) (socks sample_net) = Inr (works, p', ss)"
    by (simp add: PO_Send_def sample_hdr_def sample_mailhdr_def new_PostOffice_def new_Network_def bcopy_def slice_def Net_Send_def Let_def SendToSocket_def o) blast
  then obtain works p' ss where s: "PO_Send 7 ?j ?b sample_hdr sample_mailhdr [72, 105, 33] (?po 1) (socks sample_net) = Inr (works, p', ss)" by blast
  have np: "numBoxes (?po 1) = int 1" "netAddr (?po 1) = 1" "chanceToWork (network (?po 1)) = 1" by (simp_all add: new_PostOffice_def new_Network_def)
  note S = PO_Send_ok [OF s _ _ np(1,2)]
  have works using S(4) np(3) by simp
  then obtain pkt where pk: "ss 2 = Some [pkt]" "on_wire pkt ?m" "good 1 2 ?m" using S(1,3) o(3) by (auto simp: sample_hdr_def)
  let ?g1 = "(put_office 1 p' sample_net)\<lparr>socks := ss, sent := (sent sample_net)(pk_to sample_hdr := sent sample_net (pk_to sample_hdr) @ [?m]),
      lost := (lost sample_net)(pk_to sample_hdr := lost sample_net (pk_to sample_hdr) + (if works then 0 else 1))\<rparr>"
  have r1: "net_reachable [1, 2] 1 (\<lambda>_. 1) ?g1" using nsend [OF o(1) _ _ s] by (intro net_next [OF sample_start]) simp
  have g1: "offices ?g1 2 = Some (?po 2)" "socks ?g1 2 = Some [pkt]" "sent ?g1 2 = [?m]" "arrived ?g1 2 = []"
    using o pk(1) by (simp_all add: put_office_def sample_hdr_def)
  let ?n = "network (?po 2)"
  have n: "ident ?n = 2" "uint (pk_length (inHdr ?n)) = 0" "length (inbox ?n) = 52" by (simp_all add: new_PostOffice_def new_Network_def)
  from CheckPktAvail_ok [OF pk(2) _ n(2,3), of 1 "[]"] pk(3) n(1) obtain n' where
    c: "CheckPktAvail ?n [pkt] = Inr (True, n', [])" "buffered n' ?m" "length (inbox n') = 52" by auto
  let ?p2 = "IncomingPacket ((?po 2)\<lparr>network := n'\<rparr>)"
  let ?g2 = "(put_office 2 ?p2 ?g1)\<lparr>socks := (socks ?g1)(2 \<mapsto> [])\<rparr>"
  have r2: "net_reachable [1, 2] 1 (\<lambda>_. 1) ?g2" using npoll [OF g1(1,2) c(1)] by (intro net_next [OF r1]) simp
  have g2: "offices ?g2 2 = Some ?p2" "\<not> po_awake ?p2" "messageAvailable ?p2 > 0" by (simp_all add: put_office_def IncomingPacket_def new_PostOffice_def)
  let ?p3 = "?p2\<lparr>messageAvailable := messageAvailable ?p2 - 1, po_awake := True\<rparr>"
  let ?g3 = "put_office 2 ?p3 ?g2"
  have r3: "net_reachable [1, 2] 1 (\<lambda>_. 1) ?g3" using nwake [OF g2] by (rule net_next [OF r2])
  have "offices ?g3 2 = Some ?p3" "sent ?g3 2 = [?m]" "arrived ?g3 2 = []" "socks ?g3 2 = Some []" "boxes ?p3 = [[]]" "length (po_buffer ?p3) = 52" "numBoxes ?p3 = 1"
    using g1(3,4) by (simp_all add: put_office_def IncomingPacket_def new_PostOffice_def)
  then show ?thesis using r3 c(2,3) pk(3) by (intro exI [of _ ?g3] exI [of _ ?p3] exI [of _ ?m]) (simp add: IncomingPacket_def)
qed

section \<open>Properties\<close>

text \<open>
  (C4) Mail arrives in order, at most once and unchanged: whatever the machines do, the messages a mailbox has received (those taken out followed by those still
  in it) are a subsequence of the messages sent to that mailbox, with the headers and the data the senders gave. On a network of reliability 1
  they are all of them, in the order of sending, as soon as nothing is left in the socket and in the device.
\<close>

theorem mail_in_order_at_most_once:
  assumes "net_reachable addrs nb rel g" "offices g b = Some p" "0 \<le> k" "k < int nb"
  shows "subseq (got g b k @ boxes p ! nat k) (filter (\<lambda>m. sint (ml_to (mail_mailHdr m)) = k) (sent g b)) \<and>
    ((\<forall>a. 1 \<le> rel a) \<and> socks g b = Some [] \<and> uint (pk_length (inHdr (network p))) = 0 \<longrightarrow>
      got g b k @ boxes p ! nat k = filter (\<lambda>m. sint (ml_to (mail_mailHdr m)) = k) (sent g b))"
proof -
  let ?P = "\<lambda>m. sint (ml_to (mail_mailHdr m)) = k"
  have inv: "net_inv addrs nb rel g" by (rule reachable_inv [OF assms(1)])
  from net_invD [OF inv assms(2)] obtain q ms mid where f: "socks g b = Some q" "list_all2 on_wire q ms" "device_mail p mid"
    "subseq (arrived g b @ mid @ ms) (sent g b)" "length (arrived g b @ mid @ ms) + lost g b = length (sent g b)" "boxes_ok nb g b p" by (auto simp: flow_ok_def)
  have bx: "got g b k @ boxes p ! nat k = filter ?P (arrived g b)" using f(6) assms(3,4) by (simp add: boxes_ok_def)
  have "subseq (arrived g b) (arrived g b @ mid @ ms)" by (rule list_emb_prefix) simp
  then have "subseq (arrived g b) (sent g b)" using f(4) by (rule subseq_order.order_trans)
  then have "subseq (filter ?P (arrived g b)) (filter ?P (sent g b))" by (rule subseq_filter)
  moreover have "arrived g b = sent g b" if "\<forall>a. 1 \<le> rel a" "socks g b = Some []" "uint (pk_length (inHdr (network p))) = 0"
  proof -
    have "ms = []" "mid = []" "lost g b = 0" using f(1-3) that inv by (auto simp: device_mail_def net_inv_def)
    then show ?thesis using f(4,5) subseq_same_length by auto
  qed
  ultimately show ?thesis unfolding bx by simp
qed

theorem mail_in_order_at_most_once_witness:
  "\<exists>g p. net_reachable [1, 2] 1 (\<lambda>_. 1) g \<and> offices g 2 = Some p \<and> sent g 2 \<noteq> [] \<and> got g 2 0 @ boxes p ! 0 = sent g 2"
proof -
  obtain g p m where g: "net_reachable [1, 2] 1 (\<lambda>_. 1) g" "offices g 2 = Some p" "po_awake p" "m = mail_of 1 sample_hdr sample_mailhdr [72, 105, 33]" "sent g 2 = [m]"
    "buffered (network p) m" "good 1 2 m" "boxes p = [[]]" "socks g 2 = Some []" "length (inbox (network p)) = 52" "length (po_buffer p) = 52" "numBoxes p = 1"
    using sample_woken by blast
  from PostalDelivery_ok [OF g(6,7,10,11)] g(8,12) obtain p' where p': "PostalDelivery p = Inr p'" "uint (pk_length (inHdr (network p'))) = 0" by auto
  let ?g = "(put_office 2 p' g)\<lparr>arrived := (arrived g)(2 := arrived g 2 @
       [\<lparr>mail_pktHdr = inHdr (network p), mail_mailHdr = bytes_mailhdr (po_buffer p'),
         mail_data = take (unat (ml_length (bytes_mailhdr (po_buffer p')))) (drop 12 (po_buffer p'))\<rparr>])\<rparr>"
  have r: "net_reachable [1, 2] 1 (\<lambda>_. 1) ?g" by (rule net_next [OF g(1) ndeliver [OF g(2,3) p'(1)]])
  have o: "offices ?g 2 = Some p'" "socks ?g 2 = Some []" "sent ?g 2 = [m]" using g(5,9) by (simp_all add: put_office_def)
  have "sint (ml_to (mail_mailHdr m)) = 0" by (simp add: g(4) mail_of_def sample_mailhdr_def)
  then have "got ?g 2 0 @ boxes p' ! 0 = sent ?g 2"
    using mail_in_order_at_most_once [OF r o(1), of 0] o(2,3) p'(2) by simp
  then show ?thesis using r o by (intro exI [of _ ?g] exI [of _ p']) simp
qed

text \<open>
  (C20) The checks on incoming mail never fail: when all machines have the same number of mailboxes, no reachable state makes the polling handler or the postal worker
  of any machine abort. When the worker has been woken there is a complete message in the device, and when a packet is read from the socket the device buffer is free.
\<close>

theorem post_office_never_aborts:
  assumes "net_reachable addrs nb rel g" "offices g b = Some p"
  shows "(\<exists>q r. socks g b = Some q \<and> CheckPktAvail (network p) q = Inr r) \<and> (po_awake p \<longrightarrow> (\<exists>p'. PostalDelivery p = Inr p'))"
proof -
  have inv: "net_inv addrs nb rel g" by (rule reachable_inv [OF assms(1)])
  from net_invD [OF inv assms(2)] obtain q ms mid where f: "socks g b = Some q" "list_all2 on_wire q ms" "device_mail p mid"
    "\<forall>m \<in> set (arrived g b @ mid @ ms). good nb b m" "office_ok nb rel b p" by (auto simp: flow_ok_def)
  have o: "ident (network p) = b" "length (inbox (network p)) = 52" "length (po_buffer p) = 52" "numBoxes p = int nb" "length (boxes p) = nb"
    using f(5) by (simp_all add: office_ok_def)
  have "\<exists>r. CheckPktAvail (network p) q = Inr r"
  proof (cases "uint (pk_length (inHdr (network p))) \<noteq> 0 \<or> q = []")
    case True
    then show ?thesis by (auto simp: CheckPktAvail_def)
  next
    case False
    then obtain pkt q' where q: "q = pkt # q'" by (cases q) auto
    then obtain m where "on_wire pkt m" "m \<in> set ms" using f(2) by (auto simp: list_all2_Cons1)
    then show ?thesis using CheckPktAvail_ok [of pkt m nb "network p" q'] f(4) o(1,2) False q by auto
  qed
  moreover have "\<exists>p'. PostalDelivery p = Inr p'" if aw: "po_awake p"
  proof -
    obtain m where "mid = [m]" "buffered (network p) m" using f(3) aw by (auto simp: device_mail_def split: if_splits)
    then show ?thesis using PostalDelivery_ok [of p m nb b] f(4) o by auto
  qed
  ultimately show ?thesis using f(1) by blast
qed


theorem post_office_never_aborts_witness:
  "\<exists>g p p'. net_reachable [1, 2] 1 (\<lambda>_. 1) g \<and> offices g 2 = Some p \<and> po_awake p \<and> PostalDelivery p = Inr p'"
proof -
  obtain g p where g: "net_reachable [1, 2] 1 (\<lambda>_. 1) g" "offices g 2 = Some p" "po_awake p" using sample_woken by blast
  then show ?thesis using post_office_never_aborts [OF g(1,2)] by blast
qed

end
