(* ===== verification/Open_Files_Table.thy ===== *)
theory Open_Files_Table
  imports Bit_Map
begin

text \<open>
  The table of \<open>userprog/openFilesTable.cc\<close>. One class serves three purposes: the open files of a
  process, its semaphores (the entries are then addresses of \<open>Semaphore\<close> objects) and the table of
  running threads. A bitmap says which of the 128 positions are in use.

  The storage returned by \<open>new\<close> is not initialised by the constructors; its contents are arguments.
  The entries (\<open>long\<close>, never used in arithmetic) are integers.
\<close>

section \<open>Data and operations\<close>

abbreviation (input) SIZE_OF_TABLE :: int where "SIZE_OF_TABLE \<equiv> 128"

record openFilesTable =
  openFiles :: "int list"
  oft_usage :: int
  openFilesMap :: BitMap
  openedByCurrentThread :: "bool list"

text \<open>The uninitialised storage the two \<open>new\<close> expressions and the bitmap get.\<close>

record garbage =
  g_words :: "nat \<Rightarrow> 32 word"
  g_longs :: "nat \<Rightarrow> int"
  g_bools :: "nat \<Rightarrow> bool"

definition alloc_table :: "garbage \<Rightarrow> openFilesTable result" where
  "alloc_table g =
     bindE (new_BitMap (g_words g) SIZE_OF_TABLE) (\<lambda>bm.
     Inr \<lparr>openFiles = map (g_longs g) [0..<128], oft_usage = 1, openFilesMap = bm,
          openedByCurrentThread = map (g_bools g) [0..<128]\<rparr>)"

definition new_openFilesTable :: "garbage \<Rightarrow> openFilesTable result" where
  "new_openFilesTable g =
     bindE (alloc_table g) (\<lambda>t.
     bindE (Mark (openFilesMap t) 0) (\<lambda>m0.
     bindE (Mark m0 1) (\<lambda>m1.
     bindE (Mark m1 2) (\<lambda>m2. Inr (t\<lparr>openFilesMap := m2\<rparr>)))))"

definition new_openFilesTable_threads :: "garbage \<Rightarrow> bool \<Rightarrow> openFilesTable result" where
  "new_openFilesTable_threads g isThreadsTable =
     bindE (alloc_table g) (\<lambda>t.
       if isThreadsTable then
         forE 0 SIZE_OF_TABLE
           (\<lambda>i t. bindE (arr_set (openFiles t) i (- 1)) (\<lambda>v. Inr (t\<lparr>openFiles := v\<rparr>))) t
       else Inr t)"

definition Open :: "openFilesTable \<Rightarrow> int \<Rightarrow> (int \<times> openFilesTable) result" where
  "Open t UnixFileID =
     bindE (Find (openFilesMap t)) (\<lambda>(nextFreePos, m).
     bindE (arr_set (openFiles t) nextFreePos UnixFileID) (\<lambda>fs.
     bindE (arr_set (openedByCurrentThread t) nextFreePos True) (\<lambda>bs.
     Inr (nextFreePos, t\<lparr>openFiles := fs, openFilesMap := m, openedByCurrentThread := bs\<rparr>))))"

definition Close :: "openFilesTable \<Rightarrow> int \<Rightarrow> (int \<times> openFilesTable) result" where
  "Close t NachosFileID =
     bindE (Clear (openFilesMap t) NachosFileID) (\<lambda>m. Inr (0, t\<lparr>openFilesMap := m\<rparr>))"

definition isOpen :: "openFilesTable \<Rightarrow> int \<Rightarrow> bool result" where
  "isOpen t NachosFileID = Test (openFilesMap t) NachosFileID"

definition getUnixFileID :: "openFilesTable \<Rightarrow> int \<Rightarrow> int result" where
  "getUnixFileID t NachosFileID = arr_get (openFiles t) NachosFileID"

definition storeSemAdress :: "openFilesTable \<Rightarrow> int \<Rightarrow> int \<Rightarrow> openFilesTable result" where
  "storeSemAdress t NachosSemID adress =
     bindE (arr_set (openFiles t) NachosSemID adress) (\<lambda>v. Inr (t\<lparr>openFiles := v\<rparr>))"

definition addThread :: "openFilesTable \<Rightarrow> openFilesTable" where
  "addThread t = t\<lparr>oft_usage := oft_usage t + 1\<rparr>"

definition delThread :: "openFilesTable \<Rightarrow> openFilesTable" where
  "delThread t = t\<lparr>oft_usage := oft_usage t - 1\<rparr>"

text \<open>\<open>Print\<close> writes one line per position; the model returns the printed triples.\<close>

definition Print_table :: "openFilesTable \<Rightarrow> (int \<times> bool \<times> int) list result" where
  "Print_table t =
     forE 0 SIZE_OF_TABLE
       (\<lambda>pos out. bindE (Test (openFilesMap t) pos) (\<lambda>b.
                  bindE (arr_get (openFiles t) pos) (\<lambda>v. Inr (out @ [(pos, b, v)])))) []"

definition initializeBoolTable :: "openFilesTable \<Rightarrow> openFilesTable result" where
  "initializeBoolTable t =
     forE 0 SIZE_OF_TABLE
       (\<lambda>i t. bindE (arr_set (openedByCurrentThread t) i False)
                (\<lambda>v. Inr (t\<lparr>openedByCurrentThread := v\<rparr>))) t"

definition copyTable_step :: "openFilesTable \<Rightarrow> int \<Rightarrow> openFilesTable \<Rightarrow> openFilesTable result" where
  "copyTable_step other i t =
     bindE (arr_get (openFiles other) i) (\<lambda>v.
     bindE (arr_set (openFiles t) i v) (\<lambda>fs.
     bindE (Test (openFilesMap other) i) (\<lambda>b.
     bindE (if b then Mark (openFilesMap t) i else Inr (openFilesMap t)) (\<lambda>m.
     bindE (arr_set (openedByCurrentThread t) i False) (\<lambda>bs.
     Inr (t\<lparr>openFiles := fs, openFilesMap := m, openedByCurrentThread := bs\<rparr>))))))"

definition copyTable :: "openFilesTable \<Rightarrow> openFilesTable \<Rightarrow> openFilesTable result" where
  "copyTable t otherTable = forE 0 SIZE_OF_TABLE (copyTable_step otherTable) t"

section \<open>Invariant\<close>

definition oft_inv :: "openFilesTable \<Rightarrow> bool" where
  "oft_inv t \<longleftrightarrow> bm_inv (openFilesMap t) \<and> numBits (openFilesMap t) = 128 \<and>
     length (openFiles t) = 128 \<and> length (openedByCurrentThread t) = 128"

definition oft_dom :: "openFilesTable \<Rightarrow> int set" where
  "oft_dom t = bm_used (openFilesMap t)"

lemma alloc_table_ok: "\<exists>t. alloc_table g = Inr t \<and> oft_inv t \<and> oft_dom t = {} \<and> oft_usage t = 1"
  using new_BitMap_eq [of 128 "g_words g"] by (auto simp: alloc_table_def oft_inv_def oft_dom_def)

lemma Mark_map_ok:
  assumes "oft_inv t" "0 \<le> i" "i < 128"
  shows "\<exists>m. Mark (openFilesMap t) i = Inr m \<and> oft_inv (t\<lparr>openFilesMap := m\<rparr>) \<and>
           oft_dom (t\<lparr>openFilesMap := m\<rparr>) = insert i (oft_dom t)"
  using Mark_eq [of "openFilesMap t" i] assms by (auto simp: oft_inv_def oft_dom_def)

lemma new_openFilesTable_ok:
  "\<exists>t. new_openFilesTable g = Inr t \<and> oft_inv t \<and> oft_dom t = {0, 1, 2} \<and> oft_usage t = 1"
proof -
  obtain t where t: "alloc_table g = Inr t" "oft_inv t" "oft_dom t = {}" "oft_usage t = 1"
    using alloc_table_ok by blast
  obtain m0 where m0: "Mark (openFilesMap t) 0 = Inr m0" "oft_inv (t\<lparr>openFilesMap := m0\<rparr>)"
    "oft_dom (t\<lparr>openFilesMap := m0\<rparr>) = {0}" using Mark_map_ok [OF t(2), of 0] t(3) by auto
  obtain m1 where m1: "Mark m0 1 = Inr m1" "oft_inv (t\<lparr>openFilesMap := m1\<rparr>)"
    "oft_dom (t\<lparr>openFilesMap := m1\<rparr>) = {0, 1}" using Mark_map_ok [OF m0(2), of 1] m0(3) by auto
  obtain m2 where m2: "Mark m1 2 = Inr m2" "oft_inv (t\<lparr>openFilesMap := m2\<rparr>)"
    "oft_dom (t\<lparr>openFilesMap := m2\<rparr>) = {0, 1, 2}" using Mark_map_ok [OF m1(2), of 2] m1(3) by auto
  show ?thesis using t m0(1) m1(1) m2 by (auto simp: new_openFilesTable_def)
qed

lemma new_openFilesTable_threads_ok:
  "\<exists>t. new_openFilesTable_threads g b = Inr t \<and> oft_inv t \<and> oft_dom t = {} \<and>
     (b \<longrightarrow> openFiles t = replicate 128 (- 1))"
proof -
  obtain t where t: "alloc_table g = Inr t" "oft_inv t" "oft_dom t = {}" using alloc_table_ok by blast
  let ?f = "\<lambda>i t. bindE (arr_set (openFiles t) i (- 1)) (\<lambda>v. Inr (t\<lparr>openFiles := v\<rparr>))"
  let ?P = "\<lambda>i t. oft_inv t \<and> oft_dom t = {} \<and> (\<forall>j. int j < i \<longrightarrow> openFiles t ! j = - 1)"
  have "\<exists>t'. forE 0 128 ?f t = Inr t' \<and> ?P 128 t'"
    using t by (intro forE_invariant [where P = ?P])
      (auto simp: oft_inv_def oft_dom_def nth_list_update)
  then obtain t' where t': "forE 0 128 ?f t = Inr t'" "?P 128 t'" by blast
  then have "openFiles t' = replicate 128 (- 1)" by (intro nth_equalityI) (auto simp: oft_inv_def)
  then show ?thesis using t t' by (auto simp: new_openFilesTable_threads_def)
qed

lemma isOpen_eq: "oft_inv t \<Longrightarrow> 0 \<le> i \<Longrightarrow> i < 128 \<Longrightarrow> isOpen t i = Inr (i \<in> oft_dom t)"
  using Test_eq [of "openFilesMap t" i] by (simp add: oft_inv_def isOpen_def oft_dom_def)

lemma Open_free:
  assumes "oft_inv t" "oft_dom t \<noteq> {0..<128}"
  shows "\<exists>k t'. Open t u = Inr (k, t') \<and> 0 \<le> k \<and> k < 128 \<and> k \<notin> oft_dom t \<and> oft_inv t' \<and>
           oft_dom t' = insert k (oft_dom t) \<and> openFiles t' = (openFiles t)[nat k := u] \<and>
           openedByCurrentThread t' = (openedByCurrentThread t)[nat k := True] \<and>
           oft_usage t' = oft_usage t"
  using Find_free [of "openFilesMap t"] assms by (fastforce simp: Open_def oft_inv_def oft_dom_def)

lemma Close_ok:
  assumes "oft_inv t" "0 \<le> k" "k < 128"
  shows "\<exists>t'. Close t k = Inr (0, t') \<and> oft_inv t' \<and> oft_dom t' = oft_dom t - {k} \<and>
           openFiles t' = openFiles t"
  using Clear_eq [of "openFilesMap t" k] assms by (auto simp: Close_def oft_inv_def oft_dom_def)

lemma copyTable_step_ok:
  assumes "oft_inv o'" "oft_inv t" "0 \<le> i" "i < 128"
  shows "\<exists>t'. copyTable_step o' i t = Inr t' \<and> oft_inv t' \<and> oft_usage t' = oft_usage t \<and>
           oft_dom t' = (if i \<in> oft_dom o' then insert i (oft_dom t) else oft_dom t) \<and>
           openFiles t' = (openFiles t)[nat i := openFiles o' ! nat i] \<and>
           openedByCurrentThread t' = (openedByCurrentThread t)[nat i := False]"
  using Mark_map_ok [OF assms(2-4)] isOpen_eq [OF assms(1,3,4)] assms
  by (auto simp: copyTable_step_def oft_inv_def oft_dom_def isOpen_def)

lemma copyTable_ok:
  assumes "oft_inv o'" "oft_inv t"
  shows "\<exists>t'. copyTable t o' = Inr t' \<and> oft_inv t' \<and> oft_usage t' = oft_usage t \<and>
           oft_dom t' = oft_dom t \<union> oft_dom o' \<and> openFiles t' = openFiles o' \<and>
           openedByCurrentThread t' = replicate 128 False"
proof -
  let ?P = "\<lambda>i t'. oft_inv t' \<and> oft_usage t' = oft_usage t \<and>
    oft_dom t' = oft_dom t \<union> (oft_dom o' \<inter> {0..<i}) \<and>
    (\<forall>j. int j < i \<longrightarrow> openFiles t' ! j = openFiles o' ! j \<and> \<not> openedByCurrentThread t' ! j)"
  have "\<exists>t'. forE 0 128 (copyTable_step o') t = Inr t' \<and> ?P 128 t'"
  proof (rule forE_invariant [where P = ?P])
    fix i s assume i: "(0::int) \<le> i" "i < 128" and P: "?P i s"
    obtain s' where s': "copyTable_step o' i s = Inr s'" "oft_inv s'" "oft_usage s' = oft_usage s"
      "oft_dom s' = (if i \<in> oft_dom o' then insert i (oft_dom s) else oft_dom s)"
      "openFiles s' = (openFiles s)[nat i := openFiles o' ! nat i]"
      "openedByCurrentThread s' = (openedByCurrentThread s)[nat i := False]"
      using copyTable_step_ok [OF assms(1) conjunct1 [OF P] i] by blast
    have "oft_dom s' = oft_dom t \<union> (oft_dom o' \<inter> {0..<i + 1})"
      using s'(4) P i by (auto simp: int_interval_Suc)
    moreover have "openFiles s' ! j = openFiles o' ! j \<and> \<not> openedByCurrentThread s' ! j"
      if "int j < i + 1" for j
      using s'(5,6) P i that by (cases "int j = i") (auto simp: oft_inv_def nth_list_update)
    ultimately show "\<exists>t'. copyTable_step o' i s = Inr t' \<and> ?P (i + 1) t'"
      using s'(1-3) P by auto
  qed (use assms in auto)
  then obtain t' where t': "copyTable t o' = Inr t'" "?P 128 t'" by (auto simp: copyTable_def)
  have "oft_dom o' \<inter> {0..<128} = oft_dom o'"
    using assms(1) bm_used_subset [of "openFilesMap o'"] by (auto simp: oft_dom_def oft_inv_def)
  moreover have "openFiles t' = openFiles o'" "openedByCurrentThread t' = replicate 128 False"
    using t'(2) assms by (auto intro!: nth_equalityI simp: oft_inv_def)
  ultimately show ?thesis using t' by auto
qed

lemma initializeBoolTable_ok:
  assumes "oft_inv t"
  shows "initializeBoolTable t = Inr (t\<lparr>openedByCurrentThread := replicate 128 False\<rparr>)"
proof -
  let ?f = "\<lambda>i t. bindE (arr_set (openedByCurrentThread t) i False) (\<lambda>v. Inr (t\<lparr>openedByCurrentThread := v\<rparr>))"
  let ?P = "\<lambda>i t'. \<exists>bs. t' = t\<lparr>openedByCurrentThread := bs\<rparr> \<and> length bs = 128 \<and> (\<forall>j. int j < i \<longrightarrow> \<not> bs ! j)"
  have "\<exists>t'. forE 0 128 ?f t = Inr t' \<and> ?P 128 t'"
  proof (rule forE_invariant [where P = ?P])
    show "?P 0 t" using assms by (intro exI [of _ "openedByCurrentThread t"]) (simp add: oft_inv_def)
  next
    fix i s assume i: "(0::int) \<le> i" "i < 128" and "?P i s"
    then obtain bs where bs: "s = t\<lparr>openedByCurrentThread := bs\<rparr>" "length bs = 128" "\<forall>j. int j < i \<longrightarrow> \<not> bs ! j"
      by blast
    then have "?f i s = Inr (t\<lparr>openedByCurrentThread := bs[nat i := False]\<rparr>)" using i by simp
    moreover have "?P (i + 1) (t\<lparr>openedByCurrentThread := bs[nat i := False]\<rparr>)"
      using bs i by (intro exI [of _ "bs[nat i := False]"]) (auto simp: nth_list_update)
    ultimately show "\<exists>t'. ?f i s = Inr t' \<and> ?P (i + 1) t'" by blast
  qed simp
  then obtain bs where bs: "forE 0 128 ?f t = Inr (t\<lparr>openedByCurrentThread := bs\<rparr>)" "length bs = 128"
    "\<forall>j. int j < 128 \<longrightarrow> \<not> bs ! j" by blast
  then have "bs = replicate 128 False" by (intro nth_equalityI) auto
  then show ?thesis using bs(1) by (simp add: initializeBoolTable_def)
qed

section \<open>Properties\<close>

text \<open>
  Opening a file in a table with a free position returns the number of a position that was not in
  use; afterwards that number is open and gives the registered Unix identifier, and every other
  position answers \<open>isOpen\<close> and \<open>getUnixFileID\<close> as before. Closing it again frees exactly that number.
\<close>

theorem Open_Close_roundtrip:
  assumes "oft_inv t" "isOpen t i = Inr False"
  shows "\<exists>k t' t''. Open t u = Inr (k, t') \<and> oft_inv t' \<and> isOpen t k = Inr False \<and>
           isOpen t' k = Inr True \<and> getUnixFileID t' k = Inr u \<and>
           (\<forall>j. j \<noteq> k \<longrightarrow> 0 \<le> j \<and> j < 128 \<longrightarrow>
              isOpen t' j = isOpen t j \<and> getUnixFileID t' j = getUnixFileID t j) \<and>
           Close t' k = Inr (0, t'') \<and> oft_inv t'' \<and> (\<forall>j. 0 \<le> j \<and> j < 128 \<longrightarrow> isOpen t'' j = isOpen t j)"
proof -
  have i: "0 \<le> i" "i < 128"
    using assms Test_bounds [of i "openFilesMap t"] by (force simp: isOpen_def oft_inv_def)+
  with assms have "oft_dom t \<noteq> {0..<128}" using isOpen_eq [OF assms(1) i] by auto
  from Open_free [OF assms(1) this, of u] obtain k t' where
    k: "Open t u = Inr (k, t')" "0 \<le> k" "k < 128" "k \<notin> oft_dom t" "oft_inv t'"
      "oft_dom t' = insert k (oft_dom t)" "openFiles t' = (openFiles t)[nat k := u]" by blast
  obtain t'' where c: "Close t' k = Inr (0, t'')" "oft_inv t''" "oft_dom t'' = oft_dom t' - {k}"
    using Close_ok [OF k(5,2,3)] by blast
  have ids: "getUnixFileID t' j = (if j = k then Inr u else getUnixFileID t j)" for j
    using k(2,3,7) assms(1) arr_get_arr_set [of "openFiles t" k u "openFiles t'" j]
    by (simp add: getUnixFileID_def oft_inv_def)
  show ?thesis
    using k c isOpen_eq [OF assms(1)] isOpen_eq [OF k(5)] isOpen_eq [OF c(2)] ids
    by (intro exI [of _ k] exI [of _ t'] exI [of _ t'']) auto
qed

theorem Open_Close_roundtrip_witness:
  "\<exists>t k t'. new_openFilesTable \<lparr>g_words = \<lambda>_. 7, g_longs = \<lambda>_. 0, g_bools = \<lambda>_. True\<rparr> = Inr t \<and>
     Open t 55 = Inr (k, t') \<and> isOpen t' k = Inr True \<and> getUnixFileID t' k = Inr 55"
proof -
  obtain t where t: "new_openFilesTable \<lparr>g_words = \<lambda>_. 7, g_longs = \<lambda>_. 0, g_bools = \<lambda>_. True\<rparr> = Inr t"
    "oft_inv t" "oft_dom t = {0, 1, 2}" using new_openFilesTable_ok by blast
  then have "isOpen t 3 = Inr False" using isOpen_eq [OF t(2), of 3] by simp
  from Open_Close_roundtrip [OF t(2) this, of 55] t(1) show ?thesis by blast
qed

text \<open>
  After \<open>copyTable\<close> into the new table of a child, the child has exactly the parent's open files
  (and its own three reserved ones) with the same Unix identifiers, and none of them is marked as
  opened by the child.
\<close>

theorem copyTable_inherits_files:
  assumes "oft_inv parent" "new_openFilesTable g = Inr child"
  shows "\<exists>child'. copyTable child parent = Inr child' \<and> oft_inv child' \<and> oft_usage child' = 1 \<and>
           openedByCurrentThread child' = replicate 128 False \<and>
           (\<forall>i. 0 \<le> i \<and> i < 128 \<longrightarrow> getUnixFileID child' i = getUnixFileID parent i \<and>
              isOpen child' i = (if i < 3 then Inr True else isOpen parent i))"
proof -
  have c: "oft_inv child" "oft_dom child = {0, 1, 2}" "oft_usage child = 1"
    using new_openFilesTable_ok [of g] assms(2) by auto
  obtain child' where c': "copyTable child parent = Inr child'" "oft_inv child'" "oft_usage child' = 1"
    "oft_dom child' = {0, 1, 2} \<union> oft_dom parent" "openFiles child' = openFiles parent"
    "openedByCurrentThread child' = replicate 128 False"
    using copyTable_ok [OF assms(1) c(1)] unfolding c(2,3) by blast
  have "isOpen child' i = (if i < 3 then Inr True else isOpen parent i)" if "0 \<le> i" "i < 128" for i
  proof -
    have "i \<in> {0, 1, 2} \<longleftrightarrow> i < 3" using that(1) by (simp; presburger)
    then show ?thesis
      unfolding isOpen_eq [OF assms(1) that] isOpen_eq [OF c'(2) that] c'(4) by (simp only: Un_iff) simp
  qed
  moreover have "getUnixFileID child' i = getUnixFileID parent i" for i using c'(5) by (simp add: getUnixFileID_def)
  ultimately show ?thesis using c'(1,2,3,6) by blast
qed

theorem copyTable_inherits_files_witness:
  "\<exists>t t' t''. new_openFilesTable \<lparr>g_words = \<lambda>_. 0, g_longs = \<lambda>_. 0, g_bools = \<lambda>_. True\<rparr> = Inr t \<and>
     new_openFilesTable \<lparr>g_words = \<lambda>_. 9, g_longs = \<lambda>_. 1, g_bools = \<lambda>_. True\<rparr> = Inr t' \<and>
     copyTable t' t = Inr t'' \<and> isOpen t'' 3 = isOpen t 3"
proof -
  obtain t where t: "new_openFilesTable \<lparr>g_words = \<lambda>_. 0, g_longs = \<lambda>_. 0, g_bools = \<lambda>_. True\<rparr> = Inr t"
    "oft_inv t" using new_openFilesTable_ok by blast
  obtain t' where t': "new_openFilesTable \<lparr>g_words = \<lambda>_. 9, g_longs = \<lambda>_. 1, g_bools = \<lambda>_. True\<rparr> = Inr t'"
    using new_openFilesTable_ok by blast
  from copyTable_inherits_files [OF t(2) t'] obtain t'' where
    "copyTable t' t = Inr t''"
    "\<forall>i. 0 \<le> i \<and> i < 128 \<longrightarrow> getUnixFileID t'' i = getUnixFileID t i \<and>
       isOpen t'' i = (if i < 3 then Inr True else isOpen t i)" by blast
  moreover from this(2) have "isOpen t'' 3 = isOpen t 3" by simp
  ultimately show ?thesis using t(1) t' by blast
qed

text \<open>
  \<open>Open\<close> does not check the result of \<open>Find\<close>: on a table whose 128 positions are all in use it
  writes outside the array \<open>openFiles\<close> (at index -1) instead of reporting an error.
\<close>

theorem Open_full_table_out_of_bounds:
  assumes "oft_inv t" "\<forall>i. 0 \<le> i \<and> i < 128 \<longrightarrow> isOpen t i = Inr True"
  shows "Open t u = Inl OutOfBounds"
proof -
  have "bm_used (openFilesMap t) = {0..<128}"
    using assms isOpen_eq [OF assms(1)] bm_used_subset [of "openFilesMap t"]
    by (auto simp: oft_dom_def oft_inv_def)
  then have "Find (openFilesMap t) = Inr (- 1, openFilesMap t)"
    using assms(1) by (intro Find_full) (auto simp: oft_inv_def)
  then show ?thesis by (simp add: Open_def arr_set_def)
qed

theorem Open_full_table_out_of_bounds_witness:
  "Open \<lparr>openFiles = replicate 128 0, oft_usage = 1,
      openFilesMap = \<lparr>numBits = 128, numWords = 4, bm_map = replicate 4 (- 1)\<rparr>,
      openedByCurrentThread = replicate 128 False\<rparr> 3 = Inl OutOfBounds"
proof -
  let ?t = "\<lparr>openFiles = replicate 128 0, oft_usage = 1,
      openFilesMap = \<lparr>numBits = 128, numWords = 4, bm_map = replicate 4 (- 1)\<rparr>,
      openedByCurrentThread = replicate 128 False\<rparr>"
  have inv: "oft_inv ?t" by (simp add: oft_inv_def bm_inv_def divRoundUp_nonneg)
  have "isOpen ?t i = Inr True" if "0 \<le> i" "i < 128" for i
  proof -
    have "nat (i div 32) < 4" "nat (i mod 32) < 32" using that by (auto simp: nat_less_iff)
    then have "bit_at (openFilesMap ?t) i" by (simp add: bit_at_def)
    then show ?thesis using isOpen_eq [OF inv that] that by (simp add: oft_dom_def bm_used_def)
  qed
  then show ?thesis using Open_full_table_out_of_bounds [OF inv] by blast
qed

end
