(* ===== verification/Processes.thy ===== *)
theory Processes
  imports Open_Files_Table Addr_Space
begin

text \<open>
  Processes: the system calls of \<open>userprog/exception.cc\<close> that create, join and end them and that work on their
  semaphores, with the constructors of \<open>threads/thread.cc\<close>.

  A \<open>Thread*\<close> is a number; \<open>thr\<close> has the existing threads, so a deleted thread is \<open>None\<close>. The address of a semaphore is a
  positive integer and \<open>sems\<close> gives value and queue of the existing ones; a pointer to a deleted object is an error
  (\<open>BadPointer\<close>). A thread that is in \<open>Semaphore::P\<close> has the semaphore in \<open>inP\<close>, and \<open>asleep\<close> from \<open>Sleep\<close> to \<open>ReadyToRun\<close>.
  The ready list is with \<open>Kernel_Threads\<close>: any thread that does not sleep may take the next step. A thread that has ended is deleted
  by the thread \<open>n\<close> that runs next. The flag \<open>vm\<close> says whether the kernel is compiled with \<open>VM\<close>.
  \<open>closed\<close> lists the UNIX descriptors that \<open>close\<close> was called for. \<open>r2\<close> is register 2 of the user program.
\<close>

section \<open>Data\<close>

datatype wait_call = JoinCall | SemWaitCall

record Thread =
  pid :: int
  fatherProcess :: "nat option"
  openedFilesTable :: openFilesTable
  associatedSemaphores :: openFilesTable
  space :: "AddrSpace option"
  inP :: "(wait_call \<times> int) option"
  asleep :: bool
  r2 :: int

record user_sem =
  us_value :: int
  us_queue :: "nat list"

record procs =
  thr :: "nat \<Rightarrow> Thread option"
  threadsTable :: openFilesTable
  sems :: "int \<Rightarrow> user_sem option"
  mainMemoryMap :: BitMap
  physMem :: bytes
  closed :: "int list"

definition put_thr :: "nat \<Rightarrow> Thread \<Rightarrow> procs \<Rightarrow> procs" where
  "put_thr t p s = s\<lparr>thr := (thr s)(t \<mapsto> p)\<rparr>"

section \<open>Semaphores\<close>

definition new_sem :: "int \<Rightarrow> int \<Rightarrow> procs \<Rightarrow> procs" where
  "new_sem a v s = s\<lparr>sems := (sems s)(a \<mapsto> \<lparr>us_value = v, us_queue = []\<rparr>)\<rparr>"

text \<open>One pass of the loop of \<open>P\<close> by thread \<open>t\<close>: it goes to sleep or takes the value; \<open>Join\<close> then returns 0.\<close>

definition sem_P :: "nat \<Rightarrow> procs \<Rightarrow> procs result" where
  "sem_P t s =
     bindE (deref (thr s t)) (\<lambda>cur.
     bindE (deref (inP cur)) (\<lambda>(call, a).
     bindE (deref (sems s a)) (\<lambda>m.
       if us_value m = 0 then Inr (put_thr t (cur\<lparr>asleep := True\<rparr>) (s\<lparr>sems := (sems s)(a \<mapsto> m\<lparr>us_queue := us_queue m @ [t]\<rparr>)\<rparr>))
       else Inr (put_thr t (cur\<lparr>inP := None, r2 := (if call = JoinCall then 0 else r2 cur)\<rparr>)
                   (s\<lparr>sems := (sems s)(a \<mapsto> m\<lparr>us_value := us_value m - 1\<rparr>)\<rparr>)))))"

definition wake :: "nat \<Rightarrow> procs \<Rightarrow> procs result" where
  "wake t s = bindE (deref (thr s t)) (\<lambda>p. Inr (put_thr t (p\<lparr>asleep := False\<rparr>) s))"

definition sem_V :: "int \<Rightarrow> procs \<Rightarrow> procs result" where
  "sem_V a s =
     bindE (deref (sems s a)) (\<lambda>m.
     bindE (case us_queue m of [] \<Rightarrow> Inr s | u # _ \<Rightarrow> wake u s) (\<lambda>s1.
     Inr (s1\<lparr>sems := (sems s1)(a \<mapsto> \<lparr>us_value = us_value m + 1, us_queue = tl (us_queue m)\<rparr>)\<rparr>)))"

primrec wake_all :: "nat list \<Rightarrow> procs \<Rightarrow> procs result" where
  "wake_all [] s = Inr s"
| "wake_all (u # us) s = bindE (wake u s) (wake_all us)"

definition sem_Destroy :: "int \<Rightarrow> procs \<Rightarrow> procs result" where
  "sem_Destroy a s =
     bindE (deref (sems s a)) (\<lambda>m.
     bindE (wake_all (us_queue m) s) (\<lambda>s1. Inr (s1\<lparr>sems := (sems s1)(a \<mapsto> m\<lparr>us_queue := []\<rparr>)\<rparr>)))"

text \<open>\<open>delete\<close>: the queue goes with the object, so a thread that still sleeps there is never made ready again.\<close>

definition sem_delete :: "int \<Rightarrow> procs \<Rightarrow> procs result" where
  "sem_delete a s = bindE (deref (sems s a)) (\<lambda>_. Inr (s\<lparr>sems := (sems s)(a := None)\<rparr>))"

section \<open>Threads\<close>

definition new_Thread :: "garbage \<Rightarrow> garbage \<Rightarrow> Thread result" where
  "new_Thread g1 g2 =
     bindE (new_openFilesTable g1) (\<lambda>files.
     bindE (new_openFilesTable_threads g2 False) (\<lambda>ss.
     Inr \<lparr>pid = - 1, fatherProcess = None, openedFilesTable = files, associatedSemaphores = ss, space = None, inP = None, asleep = False, r2 = 0\<rparr>))"

definition new_child_Thread :: "garbage \<Rightarrow> garbage \<Rightarrow> nat \<Rightarrow> openFilesTable \<Rightarrow> (Thread \<times> openFilesTable) result" where
  "new_child_Thread g1 g2 father table =
     bindE (new_openFilesTable g1) (\<lambda>files.
     bindE (new_openFilesTable_threads g2 False) (\<lambda>ss.
     bindE (Open table 0) (\<lambda>(k, table').
     Inr (\<lparr>pid = k, fatherProcess = Some father, openedFilesTable = files, associatedSemaphores = ss, space = None, inP = None, asleep = False, r2 = 0\<rparr>, table'))))"

text \<open>The destructor, while \<open>n\<close> runs. The destructor of the address space asks for the count of the running thread.\<close>

definition delete_thread :: "nat \<Rightarrow> nat \<Rightarrow> procs \<Rightarrow> procs result" where
  "delete_thread n t s =
     bindE (deref (thr s n)) (\<lambda>cur.
     bindE (deref (thr s t)) (\<lambda>p.
     bindE (ASSERT (t \<noteq> n)) (\<lambda>_.
     bindE (case space p of None \<Rightarrow> Inr (mainMemoryMap s)
            | Some sp \<Rightarrow> delete_AddrSpace (oft_usage (openedFilesTable cur)) sp (mainMemoryMap s)) (\<lambda>mm.
     Inr (s\<lparr>mainMemoryMap := mm, thr := (thr s)(t := None)\<rparr>)))))"

definition strcpy :: "bytes \<Rightarrow> bytes \<Rightarrow> bytes result" where
  "strcpy buffer str = (if length str < length buffer then Inr (str @ [0] @ drop (length str + 1) buffer) else Inl OutOfBounds)"

text \<open>The current thread \<open>t\<close> loads its program; \<open>junk\<close> and \<open>junkName\<close> are uninitialised storage.\<close>

definition load_program :: "bool \<Rightarrow> bytes \<Rightarrow> bytes \<Rightarrow> bytes \<Rightarrow> bytes \<Rightarrow> nat \<Rightarrow> procs \<Rightarrow> procs result" where
  "load_program vm junk junkName filename executable t s =
     bindE (deref (thr s t)) (\<lambda>cur.
     bindE (new_AddrSpace vm junk junkName executable (mainMemoryMap s) (physMem s)) (\<lambda>(sp, mm, mem).
     bindE (strcpy (executableFilename sp) filename) (\<lambda>nm.
     Inr (put_thr t (cur\<lparr>space := Some (sp\<lparr>executableFilename := nm\<rparr>)\<rparr>) (s\<lparr>mainMemoryMap := mm, physMem := mem\<rparr>)))))"

section \<open>System calls\<close>

text \<open>\<open>Fork\<close>: the new thread \<open>c\<close> inherits the tables, and the tables of the father count one more thread.\<close>

definition Nachos_Fork :: "bool \<Rightarrow> garbage \<Rightarrow> garbage \<Rightarrow> nat \<Rightarrow> nat \<Rightarrow> procs \<Rightarrow> procs result" where
  "Nachos_Fork vm g1 g2 t c s =
     bindE (deref (thr s t)) (\<lambda>cur.
     bindE (new_child_Thread g1 g2 t (threadsTable s)) (\<lambda>(new, table).
     bindE (copyTable (openedFilesTable new) (openedFilesTable cur)) (\<lambda>f1.
     bindE (copyTable (associatedSemaphores new) (associatedSemaphores cur)) (\<lambda>a1.
     bindE (initializeBoolTable f1) (\<lambda>f2.
     bindE (initializeBoolTable a1) (\<lambda>a2.
     let cur' = cur\<lparr>openedFilesTable := addThread (openedFilesTable cur), associatedSemaphores := addThread (associatedSemaphores cur)\<rparr> in
     bindE (deref (space cur)) (\<lambda>sp.
     bindE (copy_AddrSpace vm sp (mainMemoryMap s)) (\<lambda>(sp', mm).
     let new' = new\<lparr>openedFilesTable := f2, associatedSemaphores := a2, space := Some sp'\<rparr>
     in Inr (put_thr c new' (put_thr t cur' (s\<lparr>threadsTable := table, mainMemoryMap := mm\<rparr>)))))))))))"

text \<open>\<open>Exec\<close> returns the pid of the new thread \<open>c\<close>, which then loads its program.\<close>

definition Nachos_Exec :: "garbage \<Rightarrow> garbage \<Rightarrow> nat \<Rightarrow> nat \<Rightarrow> procs \<Rightarrow> procs result" where
  "Nachos_Exec g1 g2 t c s =
     bindE (deref (thr s t)) (\<lambda>cur.
     bindE (new_child_Thread g1 g2 t (threadsTable s)) (\<lambda>(new, table).
     Inr (put_thr c new (put_thr t (cur\<lparr>r2 := pid new\<rparr>) (s\<lparr>threadsTable := table\<rparr>)))))"

text \<open>What that thread does first. Without the executable it returns, so that the kernel ends the thread.\<close>

definition nachosExecThread :: "bool \<Rightarrow> bytes \<Rightarrow> bytes \<Rightarrow> bytes \<Rightarrow> bytes option \<Rightarrow> nat \<Rightarrow> nat \<Rightarrow> procs \<Rightarrow> procs result" where
  "nachosExecThread vm junk junkName filename executable n t s =
     (case executable of
        None \<Rightarrow> delete_thread n t s
      | Some e \<Rightarrow> load_program vm junk junkName filename e t s)"

text \<open>\<open>Join\<close> up to the \<open>P\<close> on the new semaphore \<open>a\<close>.\<close>

definition Nachos_Join :: "int \<Rightarrow> nat \<Rightarrow> int \<Rightarrow> procs \<Rightarrow> procs result" where
  "Nachos_Join a t childPID s =
     bindE (deref (thr s t)) (\<lambda>cur.
     bindE (isOpen (threadsTable s) childPID) (\<lambda>b.
       if b then
         bindE (storeSemAdress (threadsTable s) childPID a) (\<lambda>table.
         Inr (put_thr t (cur\<lparr>inP := Some (JoinCall, a)\<rparr>) (new_sem a 0 (s\<lparr>threadsTable := table\<rparr>))))
       else Inr (put_thr t (cur\<lparr>r2 := - 1\<rparr>) s)))"

text \<open>The two loops of \<open>Exit\<close> over the tables.\<close>

definition opened_here :: "openFilesTable \<Rightarrow> int \<Rightarrow> bool result" where
  "opened_here table i = bindE (isOpen table i) (\<lambda>b. if b then arr_get (openedByCurrentThread table) i else Inr False)"

definition close_file :: "nat \<Rightarrow> int \<Rightarrow> procs \<Rightarrow> procs result" where
  "close_file t i s =
     bindE (deref (thr s t)) (\<lambda>cur.
     bindE (opened_here (openedFilesTable cur) i) (\<lambda>b.
       if b then
         bindE (getUnixFileID (openedFilesTable cur) i) (\<lambda>UnixFileID.
         bindE (Close (openedFilesTable cur) i) (\<lambda>(_, table).
         Inr ((put_thr t (cur\<lparr>openedFilesTable := table\<rparr>) s)\<lparr>closed := closed s @ [UnixFileID]\<rparr>)))
       else Inr s))"

definition close_files :: "nat \<Rightarrow> procs \<Rightarrow> procs result" where
  "close_files t s = forE 3 SIZE_OF_TABLE (close_file t) s"

definition delete_own_sem :: "nat \<Rightarrow> int \<Rightarrow> procs \<Rightarrow> procs result" where
  "delete_own_sem t i s =
     bindE (deref (thr s t)) (\<lambda>cur.
     bindE (opened_here (associatedSemaphores cur) i) (\<lambda>b.
       if b then
         bindE (getUnixFileID (associatedSemaphores cur) i) (\<lambda>semaph.
         bindE (Close (associatedSemaphores cur) i) (\<lambda>(_, table).
         sem_delete semaph (put_thr t (cur\<lparr>associatedSemaphores := table\<rparr>) s)))
       else Inr s))"

definition delete_sems :: "nat \<Rightarrow> procs \<Rightarrow> procs result" where
  "delete_sems t s = forE 0 SIZE_OF_TABLE (delete_own_sem t) s"

text \<open>The loop at the start of \<open>Exit\<close> yields while this holds.\<close>

definition has_children :: "Thread \<Rightarrow> bool" where
  "has_children p \<longleftrightarrow> oft_usage (openedFilesTable p) > 1 \<and> oft_usage (associatedSemaphores p) > 1"

definition leave_father :: "Thread \<Rightarrow> procs \<Rightarrow> procs result" where
  "leave_father cur s =
     (case fatherProcess cur of
        None \<Rightarrow> Inr s
      | Some f \<Rightarrow>
          bindE (deref (thr s f)) (\<lambda>father.
          let s1 = put_thr f (father\<lparr>openedFilesTable := delThread (openedFilesTable father),
                                associatedSemaphores := delThread (associatedSemaphores father)\<rparr>) s in
          bindE (getUnixFileID (threadsTable s1) (pid cur)) (\<lambda>a. if a > 0 then sem_V a s1 else Inr s1)))"

text \<open>\<open>Exit\<close> behind that loop; \<open>Finish\<close> ends the thread, and the next thread to run deletes it.\<close>

definition Nachos_Exit :: "nat \<Rightarrow> nat \<Rightarrow> procs \<Rightarrow> procs result" where
  "Nachos_Exit n t s =
     bindE (close_files t s) (\<lambda>s1.
     bindE (delete_sems t s1) (\<lambda>s2.
     bindE (deref (thr s2 t)) (\<lambda>cur.
     bindE (leave_father cur s2) (\<lambda>s3.
     bindE (if pid cur \<ge> 0 \<and> pid cur \<le> SIZE_OF_TABLE
            then bindE (Close (threadsTable s3) (pid cur)) (\<lambda>(_, table). Inr (s3\<lparr>threadsTable := table\<rparr>)) else Inr s3) (\<lambda>s4.
     delete_thread n t s4)))))"

definition Nachos_SemCreate :: "int \<Rightarrow> int \<Rightarrow> nat \<Rightarrow> procs \<Rightarrow> procs result" where
  "Nachos_SemCreate a initialValueOfSemaphore t s =
     bindE (deref (thr s t)) (\<lambda>cur.
     bindE (Open (associatedSemaphores cur) a) (\<lambda>(semID, table).
     Inr (put_thr t (cur\<lparr>associatedSemaphores := table, r2 := semID\<rparr>) (new_sem a initialValueOfSemaphore s))))"

definition Nachos_SemDestroy :: "int \<Rightarrow> nat \<Rightarrow> procs \<Rightarrow> procs result" where
  "Nachos_SemDestroy semID t s =
     bindE (deref (thr s t)) (\<lambda>cur.
     bindE (getUnixFileID (associatedSemaphores cur) semID) (\<lambda>sem.
     bindE (Close (associatedSemaphores cur) semID) (\<lambda>(_, table).
     bindE (sem_Destroy sem (put_thr t (cur\<lparr>associatedSemaphores := table\<rparr>) s)) (sem_delete sem))))"

definition Nachos_SemSignal :: "int \<Rightarrow> nat \<Rightarrow> procs \<Rightarrow> procs result" where
  "Nachos_SemSignal semID t s =
     bindE (deref (thr s t)) (\<lambda>cur. bindE (getUnixFileID (associatedSemaphores cur) semID) (\<lambda>sem. sem_V sem s))"

text \<open>\<open>SemWait\<close> up to its \<open>P\<close>.\<close>

definition Nachos_SemWait :: "int \<Rightarrow> nat \<Rightarrow> procs \<Rightarrow> procs result" where
  "Nachos_SemWait semID t s =
     bindE (deref (thr s t)) (\<lambda>cur.
     bindE (getUnixFileID (associatedSemaphores cur) semID) (\<lambda>sem. Inr (put_thr t (cur\<lparr>inP := Some (SemWaitCall, sem)\<rparr>) s)))"

section \<open>Runs\<close>

text \<open>A running thread is not inside \<open>P\<close>; one inside \<open>P\<close> goes on when it is awake. A thread
  made by \<open>Exec\<close> runs its program when that is loaded. A run may use \<open>Fork\<close> only, or \<open>Exec\<close> of executables that exist, or of any.\<close>

datatype usage_kind = ForkOnly | ExecFound | ExecAny

definition running :: "nat \<Rightarrow> procs \<Rightarrow> bool" where
  "running t s = (case thr s t of None \<Rightarrow> False | Some p \<Rightarrow> inP p = None \<and> space p \<noteq> None)"

definition awake :: "nat \<Rightarrow> procs \<Rightarrow> bool" where
  "awake t s = (case thr s t of None \<Rightarrow> False | Some p \<Rightarrow> \<not> asleep p)"

inductive pstep :: "usage_kind \<Rightarrow> bool \<Rightarrow> procs \<Rightarrow> procs \<Rightarrow> bool" for x vm where
  pfork: "running t s \<Longrightarrow> thr s c = None \<Longrightarrow> Nachos_Fork vm g1 g2 t c s = Inr s' \<Longrightarrow> pstep x vm s s'"
| pexec: "x \<noteq> ForkOnly \<Longrightarrow> running t s \<Longrightarrow> thr s c = None \<Longrightarrow> Nachos_Exec g1 g2 t c s = Inr s' \<Longrightarrow> pstep x vm s s'"
| pstart: "thr s t = Some p \<Longrightarrow> space p = None \<Longrightarrow> executable \<noteq> None \<or> x = ExecAny \<Longrightarrow>
    nachosExecThread vm junk junkName filename executable n t s = Inr s' \<Longrightarrow> pstep x vm s s'"
| pjoin: "running t s \<Longrightarrow> 0 < a \<Longrightarrow> sems s a = None \<Longrightarrow> Nachos_Join a t k s = Inr s' \<Longrightarrow> pstep x vm s s'"
| pexit: "running t s \<Longrightarrow> thr s t = Some p \<Longrightarrow> \<not> has_children p \<Longrightarrow> Nachos_Exit n t s = Inr s' \<Longrightarrow> pstep x vm s s'"
| pcreate: "running t s \<Longrightarrow> 0 < a \<Longrightarrow> sems s a = None \<Longrightarrow> Nachos_SemCreate a v t s = Inr s' \<Longrightarrow> pstep x vm s s'"
| pdestroy: "running t s \<Longrightarrow> Nachos_SemDestroy k t s = Inr s' \<Longrightarrow> pstep x vm s s'"
| psignal: "running t s \<Longrightarrow> Nachos_SemSignal k t s = Inr s' \<Longrightarrow> pstep x vm s s'"
| pwait: "running t s \<Longrightarrow> Nachos_SemWait k t s = Inr s' \<Longrightarrow> pstep x vm s s'"
| pP: "awake t s \<Longrightarrow> sem_P t s = Inr s' \<Longrightarrow> pstep x vm s s'"

text \<open>The kernel starts with the main thread and \<open>StartProcess\<close> loads the first program.\<close>

definition init_procs :: "garbage \<Rightarrow> garbage \<Rightarrow> garbage \<Rightarrow> (nat \<Rightarrow> 32 word) \<Rightarrow> bytes \<Rightarrow> procs result" where
  "init_procs g1 g2 g3 gw mem =
     bindE (new_Thread g1 g2) (\<lambda>main.
     bindE (new_openFilesTable_threads g3 True) (\<lambda>table.
     bindE (new_BitMap gw NumPhysPages) (\<lambda>mm.
     Inr \<lparr>thr = [0 \<mapsto> main], threadsTable = table, sems = (\<lambda>_. None), mainMemoryMap = mm, physMem = mem, closed = []\<rparr>)))"

definition StartProcess :: "bool \<Rightarrow> bytes \<Rightarrow> bytes \<Rightarrow> bytes \<Rightarrow> bytes \<Rightarrow> procs \<Rightarrow> procs result" where
  "StartProcess vm junk junkName filename executable s = load_program vm junk junkName filename executable 0 s"

inductive preach :: "usage_kind \<Rightarrow> bool \<Rightarrow> procs \<Rightarrow> bool" for x vm where
  preach_boot: "init_procs g1 g2 g3 gw mem = Inr s0 \<Longrightarrow> StartProcess vm junk junkName filename executable s0 = Inr s \<Longrightarrow> preach x vm s"
| preach_step: "preach x vm s \<Longrightarrow> pstep x vm s s' \<Longrightarrow> preach x vm s'"

section \<open>Tables\<close>

lemma Open_Inr:
  assumes "Open t u = Inr (k, t')" "oft_inv t"
  shows "oft_inv t' \<and> oft_usage t' = oft_usage t \<and> 0 \<le> k \<and> k < 128 \<and> k \<notin> oft_dom t \<and> oft_dom t' = insert k (oft_dom t) \<and>
    openFiles t' = (openFiles t)[nat k := u]"
proof (cases "oft_dom t = {0..<128}")
  case True
  then have "Find (openFilesMap t) = Inr (- 1, openFilesMap t)" using assms(2) by (intro Find_full) (auto simp: oft_inv_def oft_dom_def)
  then show ?thesis using assms(1) by (simp add: Open_def arr_set_def)
next
  case False
  then show ?thesis using Open_free [OF assms(2) False, of u] assms(1) by auto
qed

lemma Close_frame: "Close t k = Inr (r, t') \<Longrightarrow> oft_usage t' = oft_usage t \<and> openFiles t' = openFiles t \<and> openedByCurrentThread t' = openedByCurrentThread t"
  by (auto simp: Close_def bindE_eq_Inr)

lemma Close_Inr:
  assumes "Close t k = Inr (r, t')" "oft_inv t"
  shows "oft_inv t' \<and> oft_dom t' = oft_dom t - {k}"
proof -
  have "0 \<le> k \<and> k < numBits (openFilesMap t)" using assms(1) by (simp add: Close_def Clear_def bindE_eq_Inr)
  then have "0 \<le> k" "k < 128" using assms(2) by (simp_all add: oft_inv_def)
  from Close_ok [OF assms(2) this] assms(1) show ?thesis by auto
qed

lemma storeSemAdress_Inr:
  assumes "storeSemAdress t k a = Inr t'" "oft_inv t"
  shows "oft_inv t' \<and> oft_dom t' = oft_dom t"
  using assms by (auto simp: storeSemAdress_def bindE_eq_Inr arr_set_eq_Inr oft_inv_def oft_dom_def)

lemma new_openFilesTable_Inr:
  "new_openFilesTable g = Inr t \<Longrightarrow> oft_inv t \<and> oft_dom t = {0, 1, 2} \<and> oft_usage t = 1"
  using new_openFilesTable_ok [of g] by auto

lemma new_openFilesTable_threads_Inr:
  assumes "new_openFilesTable_threads g b = Inr t"
  shows "oft_inv t \<and> oft_dom t = {}"
  using new_openFilesTable_threads_ok [of g b] assms by auto

lemma new_semaphores_Inr:
  assumes "new_openFilesTable_threads g False = Inr t"
  shows "oft_inv t \<and> oft_dom t = {} \<and> oft_usage t = 1"
  using alloc_table_ok [of g] assms by (auto simp: new_openFilesTable_threads_def)


section \<open>Fathers and children\<close>

text \<open>Of a thread: pid, father and the counts of its two tables.\<close>

type_synonym member = "int \<times> nat option \<times> int \<times> int"

definition fam :: "Thread \<Rightarrow> member" where
  "fam p = (pid p, fatherProcess p, oft_usage (openedFilesTable p), oft_usage (associatedSemaphores p))"

definition fams :: "procs \<Rightarrow> nat \<Rightarrow> member option" where
  "fams s t = map_option fam (thr s t)"

definition children :: "(nat \<Rightarrow> member option) \<Rightarrow> nat \<Rightarrow> nat set" where
  "children F t = {c. \<exists>k u v. F c = Some (k, Some t, u, v)}"

definition tables_ok :: "procs \<Rightarrow> bool" where
  "tables_ok s \<longleftrightarrow> oft_inv (threadsTable s) \<and> (\<forall>t p. thr s t = Some p \<longrightarrow> oft_inv (openedFilesTable p) \<and> oft_inv (associatedSemaphores p))"

text \<open>The calls that leave fathers, pids and counts alone.\<close>

definition same_family :: "procs \<Rightarrow> procs \<Rightarrow> bool" where
  "same_family s s' \<longleftrightarrow> fams s' = fams s \<and> (tables_ok s \<longrightarrow> tables_ok s' \<and> oft_dom (threadsTable s') = oft_dom (threadsTable s))"

lemma same_family_refl [simp]: "same_family s s"
  by (simp add: same_family_def)

lemma same_family_trans: "same_family s1 s2 \<Longrightarrow> same_family s2 s3 \<Longrightarrow> same_family s1 s3"
  by (simp add: same_family_def)

lemma fams_simps [simp]:
  "fams (s\<lparr>mainMemoryMap := mm\<rparr>) = fams s" "fams (s\<lparr>physMem := mem\<rparr>) = fams s" "fams (s\<lparr>sems := x\<rparr>) = fams s" "fams (s\<lparr>closed := y\<rparr>) = fams s" "fams (s\<lparr>threadsTable := z\<rparr>) = fams s"
  "fams (put_thr t p s) = (fams s)(t \<mapsto> fam p)" "fams (s\<lparr>thr := (thr s)(t := None)\<rparr>) = (fams s)(t := None)"
  by (auto simp: fams_def fun_eq_iff put_thr_def)

lemma put_thr_simps [simp]:
  "mainMemoryMap (put_thr t p s) = mainMemoryMap s" "physMem (put_thr t p s) = physMem s"
  "threadsTable (put_thr t p s) = threadsTable s" "sems (put_thr t p s) = sems s" "closed (put_thr t p s) = closed s"
  "thr (put_thr t p s) = (thr s)(t \<mapsto> p)"
  by (simp_all add: put_thr_def)

lemma put_thr_sems [simp]:
  "put_thr t p (s\<lparr>sems := x\<rparr>) = (put_thr t p s)\<lparr>sems := x\<rparr>" "put_thr t p (s\<lparr>mainMemoryMap := mm\<rparr>) = (put_thr t p s)\<lparr>mainMemoryMap := mm\<rparr>"
  "put_thr t p (s\<lparr>physMem := mem\<rparr>) = (put_thr t p s)\<lparr>physMem := mem\<rparr>"
  by (simp_all add: put_thr_def)

lemma same_family_put:
  assumes "thr s t = Some p" "fam p' = fam p"
    "oft_inv (openedFilesTable p) \<longrightarrow> oft_inv (openedFilesTable p')" "oft_inv (associatedSemaphores p) \<longrightarrow> oft_inv (associatedSemaphores p')"
  shows "same_family s (put_thr t p' s)"
  using assms by (auto simp: same_family_def tables_ok_def fams_def)

lemma same_family_upd [simp]:
  "same_family s (s'\<lparr>sems := x\<rparr>) = same_family s s'" "same_family s (s'\<lparr>closed := y\<rparr>) = same_family s s'"
  "same_family (s\<lparr>sems := x\<rparr>) s' = same_family s s'" "same_family s (s'\<lparr>mainMemoryMap := mm\<rparr>) = same_family s s'"
  "same_family s (s'\<lparr>physMem := mem\<rparr>) = same_family s s'"
  by (simp_all add: same_family_def tables_ok_def)

lemma wake_same: "wake t s = Inr s' \<Longrightarrow> same_family s s'"
  by (auto simp: wake_def bindE_eq_Inr intro!: same_family_put simp: fam_def)

lemma wake_all_same: "wake_all us s = Inr s' \<Longrightarrow> same_family s s'"
  by (induction us arbitrary: s) (auto simp: bindE_eq_Inr intro: same_family_trans wake_same)

lemma sem_V_same: "sem_V a s = Inr s' \<Longrightarrow> same_family s s'"
  by (cases "sems s a"; cases "us_queue (the (sems s a))") (auto simp: sem_V_def bindE_eq_Inr wake_same)

lemma sem_delete_same: "sem_delete a s = Inr s' \<Longrightarrow> same_family s s'"
  by (auto simp: sem_delete_def bindE_eq_Inr)

lemma sem_Destroy_same: "sem_Destroy a s = Inr s' \<Longrightarrow> same_family s s'"
  by (auto simp: sem_Destroy_def bindE_eq_Inr wake_all_same)

lemma Close_files_put:
  assumes "thr s t = Some cur" "Close (openedFilesTable cur) k = Inr (r, table)"
  shows "same_family s (put_thr t (cur\<lparr>openedFilesTable := table\<rparr>) s)"
  using Close_Inr [OF assms(2)] Close_frame [OF assms(2)] by (intro same_family_put [OF assms(1)]) (auto simp: fam_def)

lemma Close_sems_put:
  assumes "thr s t = Some cur" "Close (associatedSemaphores cur) k = Inr (r, table)"
  shows "same_family s (put_thr t (cur\<lparr>associatedSemaphores := table\<rparr>) s)"
  using Close_Inr [OF assms(2)] Close_frame [OF assms(2)] by (intro same_family_put [OF assms(1)]) (auto simp: fam_def)

lemma forE_rel:
  assumes "forE a b f s = Inr s'" "\<And>s. R s s" "\<And>s1 s2 s3. R s1 s2 \<Longrightarrow> R s2 s3 \<Longrightarrow> R s1 s3" "\<And>i s s'. f i s = Inr s' \<Longrightarrow> R s s'"
  shows "R s s'"
  using assms(1)
proof (induction "nat (b - a)" arbitrary: a s)
  case 0
  then show ?case using assms(2) by simp
next
  case (Suc n)
  then have "a < b" by simp
  then obtain s1 where s1: "f a s = Inr s1" "forE (a + 1) b f s1 = Inr s'" using Suc.prems by (auto simp: forE_step bindE_eq_Inr)
  have "n = nat (b - (a + 1))" using Suc.hyps(2) by simp
  then show ?case using Suc.hyps(1) [of "a + 1" s1] s1 assms(3,4) by blast
qed

lemma close_file_same: "close_file t i s = Inr s' \<Longrightarrow> same_family s s'"
  by (auto simp: close_file_def bindE_eq_Inr split: if_splits intro: Close_files_put)

lemma delete_own_sem_same: "delete_own_sem t i s = Inr s' \<Longrightarrow> same_family s s'"
  by (auto simp: delete_own_sem_def bindE_eq_Inr split: if_splits intro: same_family_trans Close_sems_put sem_delete_same)

lemma close_files_same: "close_files t s = Inr s' \<Longrightarrow> same_family s s'"
  unfolding close_files_def by (erule forE_rel) (auto intro: same_family_trans close_file_same)

lemma delete_sems_same: "delete_sems t s = Inr s' \<Longrightarrow> same_family s s'"
  unfolding delete_sems_def by (erule forE_rel) (auto intro: same_family_trans delete_own_sem_same)

lemma sem_P_same: "sem_P t s = Inr s' \<Longrightarrow> same_family s s'"
  by (auto simp: sem_P_def bindE_eq_Inr fam_def intro!: same_family_put split: if_split_asm)

lemma Join_same:
  assumes "Nachos_Join a t k s = Inr s'"
  shows "same_family s s'"
proof -
  obtain cur b where cb: "thr s t = Some cur" "isOpen (threadsTable s) k = Inr b"
    and s': "(if b then bindE (storeSemAdress (threadsTable s) k a) (\<lambda>table.
         Inr (put_thr t (cur\<lparr>inP := Some (JoinCall, a)\<rparr>) (new_sem a 0 (s\<lparr>threadsTable := table\<rparr>))))
       else Inr (put_thr t (cur\<lparr>r2 := - 1\<rparr>) s)) = Inr s'"
    using assms by (auto simp: Nachos_Join_def bindE_eq_Inr)
  show ?thesis
  proof (cases b)
    case True
    then obtain table where t: "storeSemAdress (threadsTable s) k a = Inr table"
      "s' = put_thr t (cur\<lparr>inP := Some (JoinCall, a)\<rparr>) (new_sem a 0 (s\<lparr>threadsTable := table\<rparr>))"
      using s' by (auto simp: bindE_eq_Inr)
    have "same_family s (s\<lparr>threadsTable := table\<rparr>)"
      using storeSemAdress_Inr [OF t(1)] by (auto simp: same_family_def tables_ok_def)
    moreover have "same_family (s\<lparr>threadsTable := table\<rparr>) s'"
      unfolding t(2) new_sem_def put_thr_sems same_family_upd by (rule same_family_put [where p = cur]) (use cb in \<open>auto simp: fam_def\<close>)
    ultimately show ?thesis by (rule same_family_trans)
  next
    case False
    then show ?thesis using s' cb(1) by (auto intro!: same_family_put [where p = cur] simp: fam_def)
  qed
qed

lemma SemCreate_same:
  assumes "Nachos_SemCreate a v t s = Inr s'"
  shows "same_family s s'"
proof -
  obtain cur k table where c: "thr s t = Some cur" "Open (associatedSemaphores cur) a = Inr (k, table)"
    "s' = put_thr t (cur\<lparr>associatedSemaphores := table, r2 := k\<rparr>) (new_sem a v s)"
    using assms by (auto simp: Nachos_SemCreate_def bindE_eq_Inr)
  have "oft_usage table = oft_usage (associatedSemaphores cur)" using c(2) by (auto simp: Open_def bindE_eq_Inr)
  then show ?thesis using c Open_Inr [OF c(2)] by (auto simp: new_sem_def fam_def intro!: same_family_put)
qed

lemma SemDestroy_same: "Nachos_SemDestroy k t s = Inr s' \<Longrightarrow> same_family s s'"
  by (auto simp: Nachos_SemDestroy_def bindE_eq_Inr) (blast intro: same_family_trans Close_sems_put sem_Destroy_same sem_delete_same)

lemma SemSignal_same: "Nachos_SemSignal k t s = Inr s' \<Longrightarrow> same_family s s'"
  by (auto simp: Nachos_SemSignal_def bindE_eq_Inr sem_V_same)

lemma SemWait_same: "Nachos_SemWait k t s = Inr s' \<Longrightarrow> same_family s s'"
  by (auto simp: Nachos_SemWait_def bindE_eq_Inr fam_def intro!: same_family_put)

lemma load_program_same: "load_program vm junk junkName filename executable t s = Inr s' \<Longrightarrow> same_family s s'"
  by (auto simp: load_program_def bindE_eq_Inr fam_def intro!: same_family_put)

lemma delete_thread_Inr:
  assumes "delete_thread n t s = Inr s'"
  shows "fams s' = (fams s)(t := None) \<and> threadsTable s' = threadsTable s \<and> (tables_ok s \<longrightarrow> tables_ok s')"
proof -
  obtain mm where "s' = s\<lparr>mainMemoryMap := mm, thr := (thr s)(t := None)\<rparr>" using assms by (auto simp: delete_thread_def bindE_eq_Inr)
  moreover have "fams (s\<lparr>mainMemoryMap := mm, thr := (thr s)(t := None)\<rparr>) = (fams s)(t := None)" by (auto simp: fams_def fun_eq_iff)
  ultimately show ?thesis by (auto simp: tables_ok_def)
qed

subsection \<open>Births and deaths\<close>

lemma new_child_Inr:
  assumes "new_child_Thread g1 g2 f table = Inr (p, table')" "oft_inv table"
  shows "fam p = (pid p, Some f, 1, 1) \<and> oft_inv (openedFilesTable p) \<and> oft_inv (associatedSemaphores p) \<and>
    oft_inv table' \<and> 0 \<le> pid p \<and> pid p < 128 \<and> pid p \<notin> oft_dom table \<and> oft_dom table' = insert (pid p) (oft_dom table)"
proof -
  obtain files ss k where c: "new_openFilesTable g1 = Inr files" "new_openFilesTable_threads g2 False = Inr ss" "Open table 0 = Inr (k, table')"
    "p = \<lparr>pid = k, fatherProcess = Some f, openedFilesTable = files, associatedSemaphores = ss, space = None, inP = None, asleep = False, r2 = 0\<rparr>"
    using assms(1) by (auto simp: new_child_Thread_def bindE_eq_Inr)
  show ?thesis using c(4) new_openFilesTable_Inr [OF c(1)] new_semaphores_Inr [OF c(2)] Open_Inr [OF c(3) assms(2)] by (simp add: fam_def)
qed

lemma Exec_family:
  assumes "Nachos_Exec g1 g2 t c s = Inr s'" "tables_ok s" "thr s c = None"
  shows "tables_ok s' \<and> (\<exists>k. 0 \<le> k \<and> k < 128 \<and> k \<notin> oft_dom (threadsTable s) \<and>
    oft_dom (threadsTable s') = insert k (oft_dom (threadsTable s)) \<and> fams s' = (fams s)(c \<mapsto> (k, Some t, 1, 1)))"
proof -
  obtain cur p table where c: "thr s t = Some cur" "new_child_Thread g1 g2 t (threadsTable s) = Inr (p, table)"
    "s' = put_thr c p (put_thr t (cur\<lparr>r2 := pid p\<rparr>) (s\<lparr>threadsTable := table\<rparr>))"
    using assms(1) by (auto simp: Nachos_Exec_def bindE_eq_Inr)
  have n: "fam p = (pid p, Some t, 1, 1)" "oft_inv (openedFilesTable p)" "oft_inv (associatedSemaphores p)" "oft_inv table"
    "0 \<le> pid p" "pid p < 128" "pid p \<notin> oft_dom (threadsTable s)" "oft_dom table = insert (pid p) (oft_dom (threadsTable s))"
    using new_child_Inr [OF c(2)] assms(2) by (auto simp: tables_ok_def)
  have "(fams s)(t \<mapsto> fam (cur\<lparr>r2 := pid p\<rparr>)) = fams s" using c(1) by (auto simp: fams_def fam_def)
  then have "fams s' = (fams s)(c \<mapsto> (pid p, Some t, 1, 1))" using c(3) n(1) by simp
  moreover have "tables_ok s'" using c(1,3) n(2-4) assms(2) by (auto simp: tables_ok_def)
  ultimately show ?thesis using c(3) n(5-8) by auto
qed

lemma inherit_table:
  assumes "copyTable t o' = Inr t1" "initializeBoolTable t1 = Inr t2" "oft_inv o'" "oft_inv t"
  shows "oft_inv t2 \<and> oft_usage t2 = oft_usage t \<and> oft_dom t2 = oft_dom t \<union> oft_dom o' \<and> openFiles t2 = openFiles o' \<and>
    openedByCurrentThread t2 = replicate 128 False"
proof -
  have 1: "oft_inv t1" "oft_usage t1 = oft_usage t" "oft_dom t1 = oft_dom t \<union> oft_dom o'" "openFiles t1 = openFiles o'"
    using copyTable_ok [OF assms(3,4)] assms(1) by auto
  then have "t2 = t1\<lparr>openedByCurrentThread := replicate 128 False\<rparr>" using initializeBoolTable_ok [OF 1(1)] assms(2) by simp
  then show ?thesis using 1 by (auto simp: oft_inv_def oft_dom_def)
qed

lemma addThread_simps [simp]:
  "oft_inv (addThread t) = oft_inv t" "oft_usage (addThread t) = oft_usage t + 1" "oft_inv (delThread t) = oft_inv t" "oft_usage (delThread t) = oft_usage t - 1"
  by (simp_all add: addThread_def delThread_def oft_inv_def)

lemma Fork_family:
  assumes "Nachos_Fork vm g1 g2 t c s = Inr s'" "tables_ok s" "thr s c = None"
  shows "tables_ok s' \<and> (\<exists>k kt ft u v. 0 \<le> k \<and> k < 128 \<and> k \<notin> oft_dom (threadsTable s) \<and>
    oft_dom (threadsTable s') = insert k (oft_dom (threadsTable s)) \<and> fams s t = Some (kt, ft, u, v) \<and>
    fams s' = (fams s)(t \<mapsto> (kt, ft, u + 1, v + 1), c \<mapsto> (k, Some t, 1, 1)))"
proof -
  obtain cur p table f1 f2 a1 a2 sp mm where c: "thr s t = Some cur" "new_child_Thread g1 g2 t (threadsTable s) = Inr (p, table)"
    "copyTable (openedFilesTable p) (openedFilesTable cur) = Inr f1" "initializeBoolTable f1 = Inr f2"
    "copyTable (associatedSemaphores p) (associatedSemaphores cur) = Inr a1" "initializeBoolTable a1 = Inr a2"
    "s' = put_thr c (p\<lparr>openedFilesTable := f2, associatedSemaphores := a2, space := Some sp\<rparr>)
       (put_thr t (cur\<lparr>openedFilesTable := addThread (openedFilesTable cur), associatedSemaphores := addThread (associatedSemaphores cur)\<rparr>)
         (s\<lparr>threadsTable := table, mainMemoryMap := mm\<rparr>))"
    using assms(1) by (auto simp: Nachos_Fork_def bindE_eq_Inr Let_def)
  have n: "fam p = (pid p, Some t, 1, 1)" "oft_inv (openedFilesTable p)" "oft_inv (associatedSemaphores p)" "oft_inv table"
    "0 \<le> pid p" "pid p < 128" "pid p \<notin> oft_dom (threadsTable s)" "oft_dom table = insert (pid p) (oft_dom (threadsTable s))"
    using new_child_Inr [OF c(2)] assms(2) by (auto simp: tables_ok_def)
  have o: "oft_inv (openedFilesTable cur)" "oft_inv (associatedSemaphores cur)" using c(1) assms(2) by (auto simp: tables_ok_def)
  note f = inherit_table [OF c(3,4) o(1) n(2)] and a = inherit_table [OF c(5,6) o(2) n(3)]
  have "fams s t = Some (pid cur, fatherProcess cur, oft_usage (openedFilesTable cur), oft_usage (associatedSemaphores cur))"
    using c(1) by (simp add: fams_def fam_def)
  moreover have "fams s' = (fams s)(t \<mapsto> (pid cur, fatherProcess cur, oft_usage (openedFilesTable cur) + 1, oft_usage (associatedSemaphores cur) + 1),
      c \<mapsto> (pid p, Some t, 1, 1))"
    using c(7) n(1) f a by (simp add: fam_def)
  moreover have "tables_ok s'" using c(1,7) n(4) f a o assms(2) by (auto simp: tables_ok_def)
  ultimately show ?thesis using c(7) n(5-8) by auto
qed

lemma leave_father_family:
  assumes "leave_father cur s = Inr s'" "fatherProcess cur = Some f"
  obtains kf ff u v where "fams s f = Some (kf, ff, u, v)" "fams s' = (fams s)(f \<mapsto> (kf, ff, u - 1, v - 1))"
    "tables_ok s \<Longrightarrow> tables_ok s' \<and> oft_dom (threadsTable s') = oft_dom (threadsTable s)"
proof -
  obtain p a where p: "thr s f = Some p" and s': "(if a > 0 then sem_V a
      (put_thr f (p\<lparr>openedFilesTable := delThread (openedFilesTable p), associatedSemaphores := delThread (associatedSemaphores p)\<rparr>) s)
      else Inr (put_thr f (p\<lparr>openedFilesTable := delThread (openedFilesTable p), associatedSemaphores := delThread (associatedSemaphores p)\<rparr>) s)) = Inr s'"
    using assms by (auto simp: leave_father_def bindE_eq_Inr Let_def)
  let ?s = "put_thr f (p\<lparr>openedFilesTable := delThread (openedFilesTable p), associatedSemaphores := delThread (associatedSemaphores p)\<rparr>) s"
  have same: "same_family ?s s'" using s' sem_V_same [of a ?s s'] by (auto split: if_split_asm)
  have "tables_ok s \<Longrightarrow> tables_ok ?s \<and> oft_dom (threadsTable ?s) = oft_dom (threadsTable s)" using p by (auto simp: tables_ok_def)
  moreover have "fams ?s = (fams s)(f \<mapsto> (pid p, fatherProcess p, oft_usage (openedFilesTable p) - 1, oft_usage (associatedSemaphores p) - 1))"
    by (simp add: fam_def)
  ultimately show ?thesis using that [of "pid p" "fatherProcess p" "oft_usage (openedFilesTable p)" "oft_usage (associatedSemaphores p)"] p same
    by (auto simp: fams_def fam_def same_family_def)
qed

lemma Exit_parts:
  assumes "Nachos_Exit n t s = Inr s'" "tables_ok s"
  obtains s2 s3 cur where "same_family s s2" "thr s2 t = Some cur" "leave_father cur s2 = Inr s3"
    "fams s' = (fams s3)(t := None)"
    "tables_ok s3 \<longrightarrow> tables_ok s' \<and> oft_dom (threadsTable s') = (if 0 \<le> pid cur \<and> pid cur \<le> 128 then oft_dom (threadsTable s3) - {pid cur} else oft_dom (threadsTable s3))"
proof -
  obtain s1 s2 s3 s4 cur where c: "close_files t s = Inr s1" "delete_sems t s1 = Inr s2" "thr s2 t = Some cur" "leave_father cur s2 = Inr s3"
    "(if pid cur \<ge> 0 \<and> pid cur \<le> 128
       then bindE (Close (threadsTable s3) (pid cur)) (\<lambda>(_, table). Inr (s3\<lparr>threadsTable := table\<rparr>)) else Inr s3) = Inr s4"
    "delete_thread n t s4 = Inr s'"
    using assms(1) unfolding Nachos_Exit_def bindE_eq_Inr by (auto simp only: deref_eq_Inr sum.inject)
  have "fams s4 = fams s3 \<and> (tables_ok s3 \<longrightarrow> tables_ok s4 \<and> oft_dom (threadsTable s4) = (if 0 \<le> pid cur \<and> pid cur \<le> 128 then oft_dom (threadsTable s3) - {pid cur} else oft_dom (threadsTable s3)))"
  proof (cases "pid cur \<ge> 0 \<and> pid cur \<le> 128")
    case True
    then obtain r table where t: "Close (threadsTable s3) (pid cur) = Inr (r, table)" "s4 = s3\<lparr>threadsTable := table\<rparr>"
      using c(5) by (auto simp: bindE_eq_Inr)
    then show ?thesis using Close_Inr [OF t(1)] True by (auto simp: tables_ok_def)
  next
    case False
    then show ?thesis using c(5) by auto
  qed
  moreover note delete_thread_Inr [OF c(6)]
  ultimately show ?thesis using that [of s2 cur s3] c(3,4) same_family_trans [OF close_files_same [OF c(1)] delete_sems_same [OF c(2)]] by auto
qed

lemma Exit_family:
  assumes "Nachos_Exit n t s = Inr s'" "tables_ok s" "fams s t = Some (k, f, u, v)"
  shows "tables_ok s' \<and>
    oft_dom (threadsTable s') = (if 0 \<le> k \<and> k \<le> 128 then oft_dom (threadsTable s) - {k} else oft_dom (threadsTable s)) \<and>
    (case f of None \<Rightarrow> fams s' = (fams s)(t := None)
     | Some g \<Rightarrow> \<exists>kg fg ug vg. fams s g = Some (kg, fg, ug, vg) \<and> fams s' = (fams s)(g \<mapsto> (kg, fg, ug - 1, vg - 1), t := None))"
proof -
  obtain s2 s3 cur where e: "same_family s s2" "thr s2 t = Some cur" "leave_father cur s2 = Inr s3" "fams s' = (fams s3)(t := None)"
    "tables_ok s3 \<longrightarrow> tables_ok s' \<and> oft_dom (threadsTable s') = (if 0 \<le> pid cur \<and> pid cur \<le> 128 then oft_dom (threadsTable s3) - {pid cur} else oft_dom (threadsTable s3))"
    by (rule Exit_parts [OF assms(1,2)])
  have F: "fams s2 = fams s" and T: "tables_ok s2" "oft_dom (threadsTable s2) = oft_dom (threadsTable s)"
    using e(1) assms(2) by (auto simp: same_family_def)
  have "fams s2 t = Some (fam cur)" using e(2) by (simp add: fams_def)
  then have cur: "pid cur = k" "fatherProcess cur = f" using assms(3) F by (auto simp: fam_def)
  show ?thesis
  proof (cases f)
    case None
    then have "s3 = s2" using e(3) cur by (simp add: leave_father_def)
    then show ?thesis using e(4,5) F T cur None by auto
  next
    case (Some g)
    obtain kf ff ug vg where l: "fams s2 g = Some (kf, ff, ug, vg)" "fams s3 = (fams s2)(g \<mapsto> (kf, ff, ug - 1, vg - 1))"
      "tables_ok s2 \<Longrightarrow> tables_ok s3 \<and> oft_dom (threadsTable s3) = oft_dom (threadsTable s2)"
      using leave_father_family [OF e(3), of g] cur Some by blast
    have "fams s' = (fams s)(g \<mapsto> (kf, ff, ug - 1, vg - 1), t := None)" using e(4) l(2) F by simp
    moreover have "tables_ok s' \<and> oft_dom (threadsTable s') = (if 0 \<le> k \<and> k \<le> 128 then oft_dom (threadsTable s) - {k} else oft_dom (threadsTable s))"
      using e(5) l(3) [OF T(1)] T(2) cur by simp
    ultimately show ?thesis using Some l(1) F by simp
  qed
qed

section \<open>Invariants\<close>

fun member_ok :: "(nat \<Rightarrow> member option) \<Rightarrow> nat \<Rightarrow> member \<Rightarrow> bool" where
  "member_ok F t (k, f, u, v) \<longleftrightarrow> u = 1 + int (card (children F t)) \<and> v = 1 + int (card (children F t)) \<and> (\<forall>g. f = Some g \<longrightarrow> g \<noteq> t \<and> g \<in> dom F)"

definition family_ok :: "(nat \<Rightarrow> member option) \<Rightarrow> bool" where
  "family_ok F \<longleftrightarrow> finite (dom F) \<and> (\<forall>t m. F t = Some m \<longrightarrow> member_ok F t m)"

definition has_pid :: "(nat \<Rightarrow> member option) \<Rightarrow> nat \<Rightarrow> int \<Rightarrow> bool" where
  "has_pid F t k \<longleftrightarrow> (\<exists>f u v. F t = Some (k, Some f, u, v))"

definition pids_ok :: "(nat \<Rightarrow> member option) \<Rightarrow> int set \<Rightarrow> bool" where
  "pids_ok F D \<longleftrightarrow> D \<subseteq> {0..<128} \<and> D = {k. \<exists>t. has_pid F t k} \<and>
     (\<forall>t t' k. has_pid F t k \<and> has_pid F t' k \<longrightarrow> t = t') \<and> (\<forall>t k u v. F t = Some (k, None, u, v) \<longrightarrow> k = - 1)"

lemma children_finite: "finite (dom F) \<Longrightarrow> finite (children F t)"
  by (rule finite_subset [of _ "dom F"]) (auto simp: children_def)

lemma family_okD: "family_ok F \<Longrightarrow> F t = Some m \<Longrightarrow> member_ok F t m"
  unfolding family_ok_def by blast

lemma family_okI: "finite (dom F) \<Longrightarrow> (\<And>t m. F t = Some m \<Longrightarrow> member_ok F t m) \<Longrightarrow> family_ok F"
  by (simp add: family_ok_def)

lemma family_fork:
  assumes "family_ok F" "F t = Some (k, f, u, v)" "F c = None"
  shows "family_ok (F(t \<mapsto> (k, f, u + 1, v + 1), c \<mapsto> (k', Some t, 1, 1)))" (is "family_ok ?F")
proof (rule family_okI)
  have ct: "c \<noteq> t" using assms by auto
  have fin: "finite (dom F)" using assms(1) by (simp add: family_ok_def)
  then show "finite (dom ?F)" by simp
  have nc: "c \<notin> children F x" for x using assms(3) by (simp add: children_def)
  have "F x \<noteq> Some (kx, Some c, ux, vx)" for x kx ux vx using family_okD [OF assms(1), of x "(kx, Some c, ux, vx)"] assms(3) by auto
  then have cc: "children F c = {}" by (simp add: children_def)
  have ch: "children ?F x = (if x = t then insert c (children F t) else children F x)" for x
    using assms(2,3) ct by (auto simp: children_def)
  have card: "card (children ?F x) = (if x = t then Suc (card (children F t)) else card (children F x))" for x
    using ch nc children_finite [OF fin] by simp
  have keep: "member_ok F x m \<Longrightarrow> x \<noteq> t \<Longrightarrow> member_ok ?F x m" for x m using card [of x] by (cases m) auto
  fix x m assume m: "?F x = Some m"
  consider "x = c" | "x = t" | "x \<noteq> c" "x \<noteq> t" by blast
  then show "member_ok ?F x m"
  proof cases
    case 1
    then have "m = (k', Some t, 1, 1)" using m by simp
    then show ?thesis using 1 card [of c] cc ct by simp
  next
    case 2
    then have "m = (k, f, u + 1, v + 1)" using m ct by simp
    then show ?thesis using 2 card [of t] family_okD [OF assms(1,2)] by simp
  next
    case 3
    then show ?thesis using keep family_okD [OF assms(1), of x m] m by simp
  qed
qed

lemma family_exit_root:
  assumes "family_ok F" "F t = Some (k, None, u, v)" "children F t = {}"
  shows "family_ok (F(t := None))"
proof (rule family_okI)
  show "finite (dom (F(t := None)))" using assms(1) by (simp add: family_ok_def)
  fix x m assume m: "(F(t := None)) x = Some m"
  have "children (F(t := None)) x = children F x" using assms(2) by (auto simp: children_def)
  moreover have "fx \<noteq> Some t" if "m = (kx, fx, ux, vx)" for kx fx ux vx using that m assms(3) by (auto simp: children_def split: if_split_asm)
  ultimately show "member_ok (F(t := None)) x m" using m family_okD [OF assms(1), of x m] by (cases m) (auto split: if_split_asm)
qed

lemma family_exit_child:
  assumes "family_ok F" "F t = Some (k, Some g, u, v)" "children F t = {}" "F g = Some (kg, fg, ug, vg)"
  shows "family_ok (F(g \<mapsto> (kg, fg, ug - 1, vg - 1), t := None))" (is "family_ok ?F")
proof (rule family_okI)
  have fin: "finite (dom F)" using assms(1) by (simp add: family_ok_def)
  then show "finite (dom ?F)" by simp
  have gt: "g \<noteq> t" using family_okD [OF assms(1,2)] by simp
  have tg: "t \<in> children F g" using assms(2) by (simp add: children_def)
  have ch: "children ?F x = (if x = g then children F g - {t} else children F x)" for x
    using assms(2,4) gt by (auto simp: children_def)
  have "0 < card (children F g)" using tg children_finite [OF fin, of g] card_gt_0_iff by blast
  then have card: "int (card (children ?F x)) = (if x = g then int (card (children F g)) - 1 else int (card (children F x)))" for x
    using ch tg by (simp add: of_nat_diff Suc_leI)
  have noF: "F x = Some (kx, fx, ux, vx) \<Longrightarrow> fx \<noteq> Some t" for x kx fx ux vx using assms(3) by (auto simp: children_def)
  fix x m assume m: "?F x = Some m"
  show "member_ok ?F x m"
  proof (cases "x = g")
    case True
    then have "m = (kg, fg, ug - 1, vg - 1)" using m gt by simp
    then show ?thesis using True card [of g] family_okD [OF assms(1,4)] noF [OF assms(4)] by auto
  next
    case False
    obtain kx fx ux vx where mx: "m = (kx, fx, ux, vx)" by (cases m)
    have Fx: "F x = Some (kx, fx, ux, vx)" using m mx False by (simp split: if_split_asm)
    have "g \<in> dom F" using assms(4) by blast
    then show ?thesis using mx False card [of x] family_okD [OF assms(1) Fx] noF [OF Fx] by auto
  qed
qed

lemma has_pid_upd:
  "has_pid (F(c \<mapsto> (k, Some f, u, v))) t k' \<longleftrightarrow> (if t = c then k' = k else has_pid F t k')"
  "has_pid (F(c := None)) t k' \<longleftrightarrow> t \<noteq> c \<and> has_pid F t k'"
  by (auto simp: has_pid_def)

lemma pids_new:
  assumes "pids_ok F D" "F c = None" "0 \<le> k" "k < 128" "k \<notin> D"
  shows "pids_ok (F(c \<mapsto> (k, Some t, 1, 1))) (insert k D)" (is "pids_ok ?F _")
proof -
  have D: "D = {k. \<exists>t. has_pid F t k}" using assms(1) by (simp add: pids_ok_def)
  have nc: "\<not> has_pid F c k'" for k' using assms(2) by (simp add: has_pid_def)
  have "(\<exists>x. has_pid ?F x k') \<longleftrightarrow> k' = k \<or> (\<exists>x. has_pid F x k')" for k' unfolding has_pid_upd using nc by metis
  then have "{k. \<exists>t. has_pid ?F t k} = insert k D" unfolding D by auto
  moreover have "x = x'" if "has_pid ?F x k'" "has_pid ?F x' k'" for x x' k'
  proof -
    have "\<not> has_pid F y k" for y using assms(5) D by blast
    moreover have "has_pid F x k' \<Longrightarrow> has_pid F x' k' \<Longrightarrow> x = x'" using assms(1) unfolding pids_ok_def by blast
    ultimately show ?thesis using that unfolding has_pid_upd by (metis (full_types))
  qed
  ultimately show ?thesis using assms by (auto simp: pids_ok_def split: if_split_asm)
qed

lemma pids_count:
  assumes "pids_ok F D" "F t = Some (k, f, u, v)"
  shows "pids_ok (F(t \<mapsto> (k, f, u', v'))) D"
proof -
  have "has_pid (F(t \<mapsto> (k, f, u', v'))) = has_pid F" using assms(2) by (auto simp: has_pid_def fun_eq_iff)
  moreover have "f = None \<longrightarrow> k = - 1" using assms unfolding pids_ok_def by blast
  ultimately show ?thesis using assms(1) by (auto simp: pids_ok_def split: if_split_asm)
qed

lemma pids_exit:
  assumes "pids_ok F D" "F t = Some (k, f, u, v)"
  shows "pids_ok (F(t := None)) (if 0 \<le> k \<and> k \<le> 128 then D - {k} else D)"
proof -
  have p: "D = {k. \<exists>t. has_pid F t k}" "D \<subseteq> {0..<128}" "\<And>x x' k'. has_pid F x k' \<Longrightarrow> has_pid F x' k' \<Longrightarrow> x = x'" "f = None \<longrightarrow> k = - 1"
    using assms unfolding pids_ok_def by blast+
  have t: "has_pid F t k' \<longleftrightarrow> f \<noteq> None \<and> k' = k" for k' using assms(2) by (auto simp: has_pid_def)
  have "{k. \<exists>t'. has_pid (F(t := None)) t' k} = (if f = None then D else D - {k})"
  proof -
    have "(\<exists>t'. has_pid (F(t := None)) t' k') \<longleftrightarrow> (\<exists>t'. has_pid F t' k') \<and> (f = None \<or> k' \<noteq> k)" for k'
      unfolding has_pid_upd using t p(3) by metis
    then show ?thesis unfolding p(1) by auto
  qed
  moreover have "f \<noteq> None \<longrightarrow> 0 \<le> k \<and> k \<le> 128" using p(1,2) t [of k] by fastforce
  ultimately have "{k. \<exists>t'. has_pid (F(t := None)) t' k} = (if 0 \<le> k \<and> k \<le> 128 then D - {k} else D)" using p(4) by auto
  then show ?thesis using assms(1) p(2) unfolding pids_ok_def has_pid_upd by (auto split: if_split_asm)
qed

section \<open>Reachable states\<close>

lemma boot_family:
  assumes "init_procs g1 g2 g3 gw mem = Inr s0" "StartProcess vm junk junkName filename executable s0 = Inr s"
  shows "tables_ok s \<and> fams s = [0 \<mapsto> (- 1, None, 1, 1)] \<and> oft_dom (threadsTable s) = {}"
proof -
  obtain files ss table mm where c: "new_openFilesTable g1 = Inr files" "new_openFilesTable_threads g2 False = Inr ss"
    "new_openFilesTable_threads g3 True = Inr table"
    "s0 = \<lparr>thr = [0 \<mapsto> \<lparr>pid = - 1, fatherProcess = None, openedFilesTable = files, associatedSemaphores = ss, space = None, inP = None, asleep = False, r2 = 0\<rparr>],
       threadsTable = table, sems = (\<lambda>_. None), mainMemoryMap = mm, physMem = mem, closed = []\<rparr>"
    using assms(1) by (auto simp: init_procs_def new_Thread_def bindE_eq_Inr)
  have "tables_ok s0 \<and> fams s0 = [0 \<mapsto> (- 1, None, 1, 1)] \<and> oft_dom (threadsTable s0) = {}"
    using new_openFilesTable_Inr [OF c(1)] new_semaphores_Inr [OF c(2)] new_openFilesTable_threads_Inr [OF c(3)] c(4)
    by (auto simp: tables_ok_def fams_def fam_def fun_eq_iff)
  moreover have "same_family s0 s" using load_program_same assms(2) by (auto simp: StartProcess_def)
  ultimately show ?thesis by (simp add: same_family_def)
qed

lemma pstep_cases_family:
  assumes "pstep x vm s s'" "tables_ok s"
  obtains (same) "same_family s s'"
  | (fork) g1 g2 t c where "thr s c = None" "Nachos_Fork vm g1 g2 t c s = Inr s'"
  | (exec) g1 g2 t c where "x \<noteq> ForkOnly" "thr s c = None" "Nachos_Exec g1 g2 t c s = Inr s'"
  | (gone) n t where "x = ExecAny" "delete_thread n t s = Inr s'"
  | (exit) n t p where "thr s t = Some p" "\<not> has_children p" "Nachos_Exit n t s = Inr s'"
  using assms(1)
proof (cases rule: pstep.cases)
  case (pstart t p executable junk junkName filename n)
  then show thesis using gone same load_program_same by (cases executable) (auto simp: nachosExecThread_def)
qed (blast intro: same fork exec exit dest: Join_same SemCreate_same SemDestroy_same SemSignal_same SemWait_same sem_P_same)+

lemma fams_None [simp]: "fams s t = None \<longleftrightarrow> thr s t = None"
  by (simp add: fams_def)

lemma pids_step:
  assumes "pstep x vm s s'" "x \<noteq> ExecAny" "tables_ok s" "pids_ok (fams s) (oft_dom (threadsTable s))"
  shows "tables_ok s' \<and> pids_ok (fams s') (oft_dom (threadsTable s'))"
  using assms(1,3)
proof (cases rule: pstep_cases_family)
  case same
  then show ?thesis using assms by (simp add: same_family_def)
next
  case (fork g1 g2 t c)
  obtain k kt ft u v where f: "tables_ok s'" "0 \<le> k" "k < 128" "k \<notin> oft_dom (threadsTable s)" "fams s t = Some (kt, ft, u, v)"
    "oft_dom (threadsTable s') = insert k (oft_dom (threadsTable s))" "fams s' = (fams s)(t \<mapsto> (kt, ft, u + 1, v + 1), c \<mapsto> (k, Some t, 1, 1))"
    using Fork_family [OF fork(2) assms(3) fork(1)] by blast
  have "((fams s)(t \<mapsto> (kt, ft, u + 1, v + 1))) c = None" using fork(1) f(5) by (metis fams_None fun_upd_apply option.distinct(1))
  from pids_new [OF pids_count [OF assms(4) f(5)] this f(2-4), of t] show ?thesis unfolding f(6,7) using f(1) by blast
next
  case (exec g1 g2 t c)
  obtain k where f: "tables_ok s'" "0 \<le> k" "k < 128" "k \<notin> oft_dom (threadsTable s)"
    "oft_dom (threadsTable s') = insert k (oft_dom (threadsTable s))" "fams s' = (fams s)(c \<mapsto> (k, Some t, 1, 1))"
    using Exec_family [OF exec(3) assms(3) exec(2)] by blast
  then show ?thesis using pids_new [OF assms(4), of c k t] exec(2) by simp
next
  case gone
  then show ?thesis using assms(2) by simp
next
  case (exit n t p)
  obtain k f u v where m: "fams s t = Some (k, f, u, v)" using exit(1) by (cases "fam p") (simp add: fams_def)
  note e = Exit_family [OF exit(3) assms(3) m]
  show ?thesis
  proof (cases f)
    case None
    then show ?thesis using e pids_exit [OF assms(4) m] by simp
  next
    case (Some g)
    then obtain kg fg ug vg where g: "fams s g = Some (kg, fg, ug, vg)" "fams s' = (fams s)(g \<mapsto> (kg, fg, ug - 1, vg - 1), t := None)"
      using e by auto
    obtain u' v' where "((fams s)(g \<mapsto> (kg, fg, ug - 1, vg - 1))) t = Some (k, f, u', v')" using m g(1) by (cases "g = t") auto
    from pids_exit [OF pids_count [OF assms(4) g(1)] this] show ?thesis using e unfolding g(2) by presburger
  qed
qed

lemma preach_pids: "preach x vm s \<Longrightarrow> x \<noteq> ExecAny \<Longrightarrow> tables_ok s \<and> pids_ok (fams s) (oft_dom (threadsTable s))"
proof (induction rule: preach.induct)
  case (preach_boot g1 g2 g3 gw mem s0 junk junkName filename executable s)
  then show ?case using boot_family [OF preach_boot(1,2)] by (auto simp: pids_ok_def has_pid_def split: if_split_asm)
next
  case (preach_step s s')
  then show ?case using pids_step by blast
qed

lemma family_step:
  assumes "pstep ForkOnly vm s s'" "tables_ok s" "family_ok (fams s)"
  shows "family_ok (fams s')"
  using assms(1,2)
proof (cases rule: pstep_cases_family)
  case same
  then show ?thesis using assms by (simp add: same_family_def)
next
  case (fork g1 g2 t c)
  then show ?thesis using Fork_family [OF fork(2) assms(2) fork(1)] family_fork [OF assms(3), of t _ _ _ _ c] by auto
next
  case (exit n t p)
  obtain k f u v where m: "fams s t = Some (k, f, u, v)" "fam p = (k, f, u, v)" using exit(1) by (cases "fam p") (simp add: fams_def)
  note e = Exit_family [OF exit(3) assms(2) m(1)]
  have "card (children (fams s) t) = 0" using exit(2) m(2) family_okD [OF assms(3) m(1)] by (auto simp: has_children_def fam_def)
  then have "children (fams s) t = {}" using children_finite [of "fams s" t] assms(3) by (simp add: family_ok_def)
  then show ?thesis
    using e m(1) family_exit_root [OF assms(3), of t] family_exit_child [OF assms(3), of t] by (cases f) auto
qed simp_all

lemma preach_family: "preach ForkOnly vm s \<Longrightarrow> family_ok (fams s)"
proof (induction rule: preach.induct)
  case (preach_boot g1 g2 g3 gw mem s0 junk junkName filename executable s)
  then have F: "fams s = [0 \<mapsto> (- 1, None, 1, 1)]" using boot_family [OF preach_boot(1,2)] by simp
  then have "children (fams s) t = {}" for t by (auto simp: children_def split: if_split_asm)
  moreover have "member_ok (fams s) t m" if "fams s t = Some m" for t m
    using that calculation [of t] unfolding F by (cases m) (simp split: if_split_asm)
  moreover have "finite (dom (fams s))" unfolding F by simp
  ultimately show ?case by (intro family_okI)
next
  case (preach_step s s')
  then show ?case using family_step preach_pids by blast
qed

section \<open>What Exit closes\<close>

definition own :: "openFilesTable \<Rightarrow> int \<Rightarrow> bool" where
  "own table i \<longleftrightarrow> i \<in> oft_dom table \<and> openedByCurrentThread table ! nat i"

text \<open>The descriptors of the positions from 3 to \<open>n - 1\<close> that the thread opened itself.\<close>

definition own_files :: "openFilesTable \<Rightarrow> int \<Rightarrow> int list" where
  "own_files table n = map (\<lambda>i. openFiles table ! nat i) (filter (own table) [3..n - 1])"

lemma own_files_3: "own_files table 3 = []"
  by (simp add: own_files_def)

lemma own_files_step:
  "3 \<le> i \<Longrightarrow> own_files table (i + 1) = own_files table i @ (if own table i then [openFiles table ! nat i] else [])"
  using upto_rec2 [of 3 i] by (simp add: own_files_def)

lemma opened_here_eq: "oft_inv t \<Longrightarrow> 0 \<le> i \<Longrightarrow> i < 128 \<Longrightarrow> opened_here t i = Inr (own t i)"
  by (simp add: opened_here_def isOpen_eq own_def) (simp add: oft_inv_def)

lemma close_file_eq:
  assumes "thr s t = Some p" "oft_inv (openedFilesTable p)" "0 \<le> i" "i < 128"
  obtains table where "close_file t i s = Inr ((put_thr t (p\<lparr>openedFilesTable := table\<rparr>) s)\<lparr>closed := closed s @
      (if own (openedFilesTable p) i then [openFiles (openedFilesTable p) ! nat i] else [])\<rparr>)"
    "oft_inv table" "openFiles table = openFiles (openedFilesTable p)" "openedByCurrentThread table = openedByCurrentThread (openedFilesTable p)"
    "oft_dom table = oft_dom (openedFilesTable p) - (if own (openedFilesTable p) i then {i} else {})"
proof (cases "own (openedFilesTable p) i")
  case True
  obtain table where t: "Close (openedFilesTable p) i = Inr (0, table)" "oft_inv table" "oft_dom table = oft_dom (openedFilesTable p) - {i}"
    using Close_ok [OF assms(2-4)] by blast
  have "getUnixFileID (openedFilesTable p) i = Inr (openFiles (openedFilesTable p) ! nat i)"
    using assms by (simp add: getUnixFileID_def oft_inv_def)
  then show ?thesis using that [of table] True t Close_frame [OF t(1)] opened_here_eq [OF assms(2-4)] assms(1) by (simp add: close_file_def)
next
  case False
  have "s = (put_thr t (p\<lparr>openedFilesTable := openedFilesTable p\<rparr>) s)\<lparr>closed := closed s\<rparr>" using assms(1) by (simp add: put_thr_def fun_upd_idem)
  then show ?thesis using that [of "openedFilesTable p"] False assms(1,2) opened_here_eq [OF assms(2-4)] by (simp add: close_file_def)
qed

lemma close_files_closed:
  assumes "thr s t = Some p" "oft_inv (openedFilesTable p)"
  shows "\<exists>s' p'. close_files t s = Inr s' \<and> thr s' t = Some p' \<and> associatedSemaphores p' = associatedSemaphores p \<and>
    fatherProcess p' = fatherProcess p \<and> pid p' = pid p \<and> sems s' = sems s \<and> threadsTable s' = threadsTable s \<and>
    (\<forall>u. u \<noteq> t \<longrightarrow> thr s' u = thr s u) \<and>
    closed s' = closed s @ own_files (openedFilesTable p) 128"
proof -
  let ?o = "own (openedFilesTable p)" and ?f = "openFiles (openedFilesTable p)"
  let ?P = "\<lambda>i (s' :: procs). \<exists>p'. thr s' t = Some p' \<and> associatedSemaphores p' = associatedSemaphores p \<and> oft_inv (openedFilesTable p') \<and>
    fatherProcess p' = fatherProcess p \<and> pid p' = pid p \<and> sems s' = sems s \<and> threadsTable s' = threadsTable s \<and>
    (\<forall>u. u \<noteq> t \<longrightarrow> thr s' u = thr s u) \<and> openFiles (openedFilesTable p') = ?f \<and> (\<forall>j\<ge>i. own (openedFilesTable p') j = ?o j) \<and>
    closed s' = closed s @ own_files (openedFilesTable p) i"
  have "\<exists>s'. forE 3 128 (close_file t) s = Inr s' \<and> ?P 128 s'"
  proof (rule forE_invariant [where P = ?P])
    show "?P 3 s" using assms by (simp add: own_files_3)
  next
    fix i and s1 :: procs assume i: "(3::int) \<le> i" "i < 128" and "?P i s1"
    then obtain p1 where p1: "thr s1 t = Some p1" "associatedSemaphores p1 = associatedSemaphores p" "oft_inv (openedFilesTable p1)"
      "fatherProcess p1 = fatherProcess p" "pid p1 = pid p" "sems s1 = sems s" "threadsTable s1 = threadsTable s"
      "\<forall>u. u \<noteq> t \<longrightarrow> thr s1 u = thr s u" "openFiles (openedFilesTable p1) = ?f" "\<forall>j\<ge>i. own (openedFilesTable p1) j = ?o j"
      "closed s1 = closed s @ own_files (openedFilesTable p) i" by blast
    have "0 \<le> i" using i by simp
    from close_file_eq [OF p1(1,3) this i(2)] obtain table where c: "close_file t i s1 = Inr ((put_thr t (p1\<lparr>openedFilesTable := table\<rparr>) s1)\<lparr>closed := closed s1 @
      (if own (openedFilesTable p1) i then [openFiles (openedFilesTable p1) ! nat i] else [])\<rparr>)"
      "oft_inv table" "openFiles table = openFiles (openedFilesTable p1)" "openedByCurrentThread table = openedByCurrentThread (openedFilesTable p1)"
      "oft_dom table = oft_dom (openedFilesTable p1) - (if own (openedFilesTable p1) i then {i} else {})" by blast
    have "own (openedFilesTable p1) i = ?o i" using p1(10) by simp
    moreover note own_files_step [OF i(1), of "openedFilesTable p"]
    moreover have "\<forall>j\<ge>i + 1. own table j = ?o j" using p1(10) c(4,5) by (auto simp: own_def)
    ultimately have "?P (i + 1) ((put_thr t (p1\<lparr>openedFilesTable := table\<rparr>) s1)\<lparr>closed := closed s1 @
      (if own (openedFilesTable p1) i then [openFiles (openedFilesTable p1) ! nat i] else [])\<rparr>)"
      using p1 c(2,3) by (intro exI [of _ "p1\<lparr>openedFilesTable := table\<rparr>"]) auto
    then show "\<exists>s'. close_file t i s1 = Inr s' \<and> ?P (i + 1) s'" using c(1) by blast
  qed simp
  then show ?thesis unfolding close_files_def by blast
qed

lemma put_thr_same: "thr s t = Some p \<Longrightarrow> put_thr t p s = s"
  by (simp add: put_thr_def fun_upd_idem)

lemma forE_idle:
  assumes "\<And>i. a \<le> i \<Longrightarrow> i < b \<Longrightarrow> f i s = Inr s" "a \<le> b"
  shows "forE a b f s = Inr s"
  using forE_invariant [where P = "\<lambda>_ s'. s' = s" and a = a and b = b and f = f and s = s] assms by auto

lemma close_files_none:
  assumes "thr s t = Some p" "oft_inv (openedFilesTable p)" "\<And>i. 3 \<le> i \<Longrightarrow> \<not> own (openedFilesTable p) i"
  shows "close_files t s = Inr s"
  unfolding close_files_def using assms opened_here_eq [OF assms(2)] by (intro forE_idle) (simp_all add: close_file_def)

lemma delete_sems_none:
  assumes "thr s t = Some p" "oft_inv (associatedSemaphores p)" "\<And>i. \<not> own (associatedSemaphores p) i"
  shows "delete_sems t s = Inr s"
  unfolding delete_sems_def using assms opened_here_eq [OF assms(2)] by (intro forE_idle) (simp_all add: delete_own_sem_def)

text \<open>\<open>Exit\<close> of a thread that opened no file and made no semaphore.\<close>

lemma Exit_owning_nothing:
  assumes "thr s t = Some p" "oft_inv (openedFilesTable p)" "oft_inv (associatedSemaphores p)"
    "\<And>i. 3 \<le> i \<Longrightarrow> \<not> own (openedFilesTable p) i" "\<And>i. \<not> own (associatedSemaphores p) i"
  shows "Nachos_Exit n t s =
     bindE (leave_father p s) (\<lambda>s3.
     bindE (if pid p \<ge> 0 \<and> pid p \<le> SIZE_OF_TABLE
            then bindE (Close (threadsTable s3) (pid p)) (\<lambda>(_, table). Inr (s3\<lparr>threadsTable := table\<rparr>)) else Inr s3) (delete_thread n t))"
  using assms close_files_none [OF assms(1,2,4)] delete_sems_none [OF assms(1,3,5)] by (simp add: Nachos_Exit_def)

lemma own_none:
  assumes "openedByCurrentThread t = replicate 128 False" "oft_inv t"
  shows "\<not> own t i"
proof
  assume "own t i"
  then have "i \<in> {0..<128}" using assms(2) bm_used_subset [of "openFilesMap t"] by (auto simp: own_def oft_dom_def oft_inv_def)
  then have "nat i < 128" by auto
  then show False using \<open>own t i\<close> assms(1) by (simp add: own_def)
qed

section \<open>A first program\<close>

lemma new_child_ok:
  assumes "oft_inv table" "oft_dom table \<noteq> {0..<128}"
  obtains p table' where "new_child_Thread g1 g2 f table = Inr (p, table')"
  using new_openFilesTable_ok [of g1] new_openFilesTable_threads_ok [of g2 False] Open_free [OF assms, of 0] by (auto simp: new_child_Thread_def)

lemma Fork_ok:
  assumes "tables_ok s" "thr s t = Some p" "oft_dom (threadsTable s) \<noteq> {0..<128}" "space p = Some sp" "copy_AddrSpace vm sp (mainMemoryMap s) = Inr (sp', mm)"
  shows "\<exists>s'. Nachos_Fork vm g1 g2 t c s = Inr s'"
proof -
  have o: "oft_inv (threadsTable s)" "oft_inv (openedFilesTable p)" "oft_inv (associatedSemaphores p)" using assms by (auto simp: tables_ok_def)
  obtain q table where n: "new_child_Thread g1 g2 t (threadsTable s) = Inr (q, table)" using new_child_ok [OF o(1) assms(3)] by blast
  then have q: "oft_inv (openedFilesTable q)" "oft_inv (associatedSemaphores q)" using new_child_Inr [OF n o(1)] by auto
  obtain f1 a1 where c: "copyTable (openedFilesTable q) (openedFilesTable p) = Inr f1" "oft_inv f1"
    "copyTable (associatedSemaphores q) (associatedSemaphores p) = Inr a1" "oft_inv a1"
    using copyTable_ok [OF o(2) q(1)] copyTable_ok [OF o(3) q(2)] by blast
  show ?thesis using assms(2,4,5) n c(1,3) initializeBoolTable_ok [OF c(2)] initializeBoolTable_ok [OF c(4)] by (simp add: Nachos_Fork_def Let_def)
qed

text \<open>The sample program is loaded and runs, without virtual memory.\<close>

lemma load_sample:
  assumes "thr s t = Some p" "bm_inv (mainMemoryMap s)" "numBits (mainMemoryMap s) = 32" "card (bm_used (mainMemoryMap s)) \<le> 22" "length (physMem s) = 4096"
  obtains sp mm mem where "load_program False (replicate 40 0) (replicate 32 0) [] sample_exe t s =
      Inr (put_thr t (p\<lparr>space := Some sp\<rparr>) (s\<lparr>mainMemoryMap := mm, physMem := mem\<rparr>))"
    "space_wf sp mm" "bm_inv mm" "numBits mm = 32" "card (bm_used mm) = card (bm_used (mainMemoryMap s)) + 10" "length mem = 4096"
proof -
  have pages: "exe_pages sample_exe \<le> 32 - int (card (bm_used (mainMemoryMap s)))" using assms(4) sample_exe_ok(2) by simp
  from new_AddrSpace_wf [OF sample_exe_ok(1) _ assms(5) assms(2,3) pages, of "replicate 40 0" "replicate 32 0"] obtain sp mm mem where
    n: "new_AddrSpace False (replicate 40 0) (replicate 32 0) sample_exe (mainMemoryMap s) (physMem s) = Inr (sp, mm, mem)" "space_wf sp mm"
      "bm_inv mm" "numBits mm = 32" "int (card (bm_used mm)) = int (card (bm_used (mainMemoryMap s))) + 10"
    using sample_exe_ok(2) by auto
  have j: "length (replicate 40 (0 :: 8 word)) = 40" by simp
  obtain sp2 mm2 mem2 where "new_AddrSpace False (replicate 40 0) (replicate 32 0) sample_exe (mainMemoryMap s) (physMem s) = Inr (sp2, mm2, mem2)" "length mem2 = 4096"
    using new_AddrSpace_eq [OF sample_exe_ok(1) j assms(5) assms(2,3) pages, of "replicate 32 0"] by blast
  then have l: "length mem = 4096" using n(1) by simp
  have e: "executableFilename sp = replicate 32 0" using n(1) by (auto simp: new_AddrSpace_def bindE_eq_Inr Let_def split: prod.splits)
  have "strcpy (executableFilename sp) [] = Inr (0 # replicate 31 0)" unfolding e strcpy_def by simp
  then show ?thesis using that [where sp = "sp\<lparr>executableFilename := 0 # replicate 31 0\<rparr>" and mm = mm and mem = mem] n l assms(1) by (simp add: load_program_def space_wf_def)
qed

lemma boot_sample:
  obtains s p sp where "preach x False s" "thr s 0 = Some p" "space p = Some sp" "inP p = None" "fatherProcess p = None" "pid p = - 1"
    "\<forall>t. t \<noteq> 0 \<longrightarrow> thr s t = None" "space_wf sp (mainMemoryMap s)" "bm_inv (mainMemoryMap s)" "numBits (mainMemoryMap s) = 32" "card (bm_used (mainMemoryMap s)) = 10"
    "oft_inv (openedFilesTable p)" "oft_dom (openedFilesTable p) = {0, 1, 2}" "oft_usage (openedFilesTable p) = 1"
    "oft_inv (associatedSemaphores p)" "oft_dom (associatedSemaphores p) = {}" "length (physMem s) = 4096"
    "oft_inv (threadsTable s)" "oft_dom (threadsTable s) = {}"
proof -
  let ?g = "\<lparr>g_words = \<lambda>_. 0, g_longs = \<lambda>_. 0, g_bools = \<lambda>_. False\<rparr>"
  obtain files where f: "new_openFilesTable ?g = Inr files" "oft_inv files" "oft_dom files = {0, 1, 2}" "oft_usage files = 1" using new_openFilesTable_ok by blast
  obtain ss where a: "new_openFilesTable_threads ?g False = Inr ss" "oft_inv ss" "oft_dom ss = {}" using new_openFilesTable_threads_ok [of ?g False] by blast
  obtain table where t: "new_openFilesTable_threads ?g True = Inr table" "oft_inv table" "oft_dom table = {}" using new_openFilesTable_threads_ok [of ?g True] by blast
  obtain mm where mm: "new_BitMap (\<lambda>_. 5) 32 = Inr mm" "bm_inv mm" "numBits mm = 32" "bm_used mm = {}" using new_BitMap_eq [of 32 "\<lambda>_. 5"] by auto
  let ?m = "\<lparr>pid = - 1, fatherProcess = None, openedFilesTable = files, associatedSemaphores = ss, space = None, inP = None, asleep = False, r2 = 0\<rparr>"
  define s0 where "s0 = \<lparr>thr = [0 \<mapsto> ?m], threadsTable = table, sems = (\<lambda>_. None), mainMemoryMap = mm, physMem = replicate 4096 1, closed = []\<rparr>"
  have i: "init_procs ?g ?g ?g (\<lambda>_. 5) (replicate 4096 1) = Inr s0" using f(1) a(1) t(1) mm(1) by (simp add: init_procs_def new_Thread_def s0_def)
  have "thr s0 0 = Some ?m" "bm_inv (mainMemoryMap s0)" "numBits (mainMemoryMap s0) = 32" "card (bm_used (mainMemoryMap s0)) \<le> 22" "length (physMem s0) = 4096"
    using mm by (simp_all add: s0_def)
  from load_sample [OF this] obtain sp mm' mem where l: "load_program False (replicate 40 0) (replicate 32 0) [] sample_exe 0 s0 =
      Inr (put_thr 0 (?m\<lparr>space := Some sp\<rparr>) (s0\<lparr>mainMemoryMap := mm', physMem := mem\<rparr>))"
    "space_wf sp mm'" "bm_inv mm'" "numBits mm' = 32" "card (bm_used mm') = card (bm_used (mainMemoryMap s0)) + 10" "length mem = 4096" by blast
  let ?s = "put_thr 0 (?m\<lparr>space := Some sp\<rparr>) (s0\<lparr>mainMemoryMap := mm', physMem := mem\<rparr>)"
  have "preach x False ?s" using preach_boot [OF i] l(1) unfolding StartProcess_def by blast
  then show ?thesis using that [of ?s "?m\<lparr>space := Some sp\<rparr>" sp] l(2-6) f(2-4) a(2,3) t(2,3) mm(4) by (simp add: s0_def)
qed

lemma boot_fork:
  obtains s0 s p q where "preach x False s0" "preach x False s" "thr s0 1 = None" "Nachos_Fork False g1 g2 0 1 s0 = Inr s" "thr s 0 = Some p" "thr s 1 = Some q"
    "fatherProcess q = Some 0" "\<not> has_children q"
proof -
  obtain s0 p sp where b: "preach x False s0" "thr s0 0 = Some p" "space p = Some sp" "inP p = None" "fatherProcess p = None" "pid p = - 1"
    "\<forall>t. t \<noteq> 0 \<longrightarrow> thr s0 t = None" "space_wf sp (mainMemoryMap s0)" "bm_inv (mainMemoryMap s0)" "numBits (mainMemoryMap s0) = 32" "card (bm_used (mainMemoryMap s0)) = 10"
    "oft_inv (openedFilesTable p)" "oft_dom (openedFilesTable p) = {0, 1, 2}" "oft_usage (openedFilesTable p) = 1"
    "oft_inv (associatedSemaphores p)" "oft_dom (associatedSemaphores p) = {}" "length (physMem s0) = 4096"
    "oft_inv (threadsTable s0)" "oft_dom (threadsTable s0) = {}"
    by (rule boot_sample [of x])
  have ok: "tables_ok s0" unfolding tables_ok_def
  proof (intro conjI allI impI)
    fix t q assume "thr s0 t = Some q"
    then have "q = p" using b(2,7) by (cases "t = 0") auto
    then show "oft_inv (openedFilesTable q)" "oft_inv (associatedSemaphores q)" using b(12,15) by auto
  qed (rule b(18))
  have "8 \<le> 32 - int (card (bm_used (mainMemoryMap s0)))" using b(11) by simp
  then obtain sp' mm where "copy_AddrSpace False sp (mainMemoryMap s0) = Inr (sp', mm)" by (rule copy_AddrSpace_eq [OF b(8-10)])
  moreover have "oft_dom (threadsTable s0) \<noteq> {0..<128}" unfolding b(19) by simp
  ultimately obtain s where s: "Nachos_Fork False g1 g2 0 1 s0 = Inr s" using Fork_ok [OF ok b(2) _ b(3)] by blast
  have n: "thr s0 1 = None" using b(7) by simp
  have "running 0 s0" using b(2-4) by (simp add: running_def)
  then have "pstep x False s0 s" using n s by (rule pfork)
  then have r: "preach x False s" using b(1) by (rule preach_step [rotated])
  obtain k m where "fams s 0 = Some m" "fams s 1 = Some (k, Some 0, 1, 1)" using Fork_family [OF s ok n] by auto
  then obtain p' q where "thr s 0 = Some p'" "thr s 1 = Some q" "fam q = (k, Some 0, 1, 1)" by (auto simp: fams_def)
  then show ?thesis using that [OF b(1) r n s, of p' q] by (simp add: fam_def has_children_def)
qed

section \<open>With virtual memory\<close>

lemma stack_entries_vm:
  "\<exists>r. forE 0 8 (\<lambda>k (pt, mm). bindE (new_entry True (b + k) False mm) (\<lambda>(e, mm'). Inr (pt @ [e], mm'))) (pt1, mm) = Inr r \<and>
     snd r = mm \<and> length (fst r) = length pt1 + 8 \<and> ((\<forall>e \<in> set pt1. physicalPage e = - 1) \<longrightarrow> (\<forall>e \<in> set (fst r). physicalPage e = - 1))"
proof -
  let ?P = "\<lambda>k r. snd r = mm \<and> int (length (fst r)) = int (length pt1) + k \<and> ((\<forall>e \<in> set pt1. physicalPage e = - 1) \<longrightarrow> (\<forall>e \<in> set (fst r). physicalPage e = - 1))"
  have "\<exists>r. forE 0 8 (\<lambda>k (pt, mm). bindE (new_entry True (b + k) False mm) (\<lambda>(e, mm'). Inr (pt @ [e], mm'))) (pt1, mm) = Inr r \<and> ?P 8 r"
    by (rule forE_invariant [where P = ?P]) (auto simp: new_entry_def)
  then show ?thesis by (elim exE conjE) (intro exI conjI, assumption, simp_all)
qed

text \<open>With virtual memory the copy and its deletion leave the map of main memory alone.\<close>

lemma copy_AddrSpace_vm:
  assumes "numPages sp = int (length (pageTable sp))" "8 \<le> numPages sp" "numPages sp < 2 ^ 32"
  shows "\<exists>child. copy_AddrSpace True sp mm = Inr (child, mm) \<and> (\<forall>u. delete_AddrSpace u child mm = Inr mm)"
proof -
  let ?n = "length (pageTable sp) - 8"
  have np: "numPages sp = int ?n + 8" "u32 (numPages sp - 8) = int ?n" using assms by (simp_all add: u32_def)
  have sh: "int ?n \<le> int (length (pageTable sp))" by simp
  let ?pt1 = "map (\<lambda>i. \<lparr>virtualPage = virtualPage (pageTable sp ! i), physicalPage = - 1, te_valid = False,
      readOnly = int i < u32 (numPagesCode sp - 1), te_use = False, te_dirty = False\<rparr>) [0..<?n]"
  obtain r where r: "forE 0 8 (\<lambda>k (pt, mm). bindE (new_entry True (int ?n + k) False mm) (\<lambda>(e, mm'). Inr (pt @ [e], mm'))) (?pt1, mm) = Inr r"
    "snd r = mm" "length (fst r) = length ?pt1 + 8" "(\<forall>e \<in> set ?pt1. physicalPage e = - 1) \<longrightarrow> (\<forall>e \<in> set (fst r). physicalPage e = - 1)"
    using stack_entries_vm [of "int ?n" ?pt1 mm] by blast
  have all: "\<forall>e \<in> set (fst r). physicalPage e = - 1" using r(4) by simp
  let ?c = "sp\<lparr>pageTable := fst r\<rparr>"
  have "copy_AddrSpace True sp mm = Inr (?c, mm)"
    using shared_entries [OF sh, of "\<lambda>_. - 1" False "\<lambda>i. i < u32 (numPagesCode sp - 1)"] r(1,2) np(2)
    by (cases r) (simp add: copy_AddrSpace_def Let_def)
  moreover have "delete_AddrSpace u ?c mm = Inr mm" for u
  proof -
    have "physicalPage (fst r ! nat i) = - 1" if "0 \<le> i" "i < numPages sp" for i
      using all nth_mem [of "nat i" "fst r"] r(3) np(1) that by simp
    then have get: "arr_get (fst r) i = Inr (fst r ! nat i) \<and> physicalPage (fst r ! nat i) = - 1" if "0 \<le> i" "i < numPages sp" for i
      using that r(3) np(1) by simp
    have a: "0 \<le> (if u > 1 then u32 (numPages ?c - 1024 div 128) else 0)" "(if u > 1 then u32 (numPages ?c - 1024 div 128) else 0) \<le> numPages sp"
      using np assms(2) by simp_all
    show ?thesis unfolding delete_AddrSpace_def using get a by (intro forE_idle) fastforce+
  qed
  ultimately show ?thesis by blast
qed

lemma new_AddrSpace_vm:
  assumes "exe_ok exe" "length junk = 40"
  shows "\<exists>sp. new_AddrSpace True junk nm exe mm mem = Inr (sp, mm, mem) \<and> numPages sp = exe_pages exe \<and> int (length (pageTable sp)) = exe_pages exe \<and>
    executableFilename sp = nm"
proof -
  note sz = exe_ok_sizes [OF assms(1)]
  have h: "read_noff junk exe = Inr (exe_hdr exe)" using assms by (intro read_noff_eq) (simp_all add: exe_ok_def)
  have m: "noffMagic (exe_hdr exe) = 0xbadfad" using assms(1) by (simp add: exe_ok_def)
  have np: "0 \<le> exe_pages exe" using sz(8-11) by simp
  let ?f = "\<lambda>i (pt, mm). bindE (new_entry True i (i < u32 (divRoundUp (seg_size (seg_code (exe_hdr exe))) 128 - 1)) mm) (\<lambda>(e, mm'). Inr (pt @ [e], mm'))"
  have "\<exists>r. forE 0 (exe_pages exe) ?f ([], mm) = Inr r \<and> snd r = mm \<and> int (length (fst r)) = exe_pages exe"
    by (rule forE_invariant [where P = "\<lambda>k r. snd r = mm \<and> int (length (fst r)) = k"]) (use np in \<open>auto simp: new_entry_def\<close>)
  then obtain pt where pt: "forE 0 (exe_pages exe) ?f ([], mm) = Inr (pt, mm)" "int (length pt) = exe_pages exe" by auto
  have "new_AddrSpace True junk nm exe mm mem = Inr (\<lparr>pageTable = pt, numPages = exe_pages exe,
      numPagesCode = divRoundUp (seg_size (seg_code (exe_hdr exe))) 128, numPagesInitData = divRoundUp (seg_size (seg_initData (exe_hdr exe))) 128,
      numPagesDataStack = divRoundUp (seg_size (seg_initData (exe_hdr exe)) + seg_size (seg_uninitData (exe_hdr exe)) + 1024) 128, executableFilename = nm\<rparr>, mm, mem)"
    using pt(1) m by (simp add: new_AddrSpace_def h sz(1-6) Let_def)
  then show ?thesis using pt(2) by simp
qed

lemma boot_vm:
  obtains s p sp where "preach x True s" "thr s 0 = Some p" "space p = Some sp" "numPages sp = int (length (pageTable sp))" "numPages sp = 10" "thr s 1 = None"
    "oft_dom (threadsTable s) \<noteq> {0..<128}" "running 0 s"
proof -
  let ?g = "\<lparr>g_words = \<lambda>_. 0, g_longs = \<lambda>_. 0, g_bools = \<lambda>_. False\<rparr>"
  have "\<exists>s0 p. init_procs ?g ?g ?g (\<lambda>_. 5) [] = Inr s0 \<and> thr s0 0 = Some p \<and> thr s0 1 = None \<and> inP p = None"
    using new_openFilesTable_ok [of ?g] new_openFilesTable_threads_ok [of ?g False] new_openFilesTable_threads_ok [of ?g True] new_BitMap_eq [of 32 "\<lambda>_. 5"]
    by (auto simp: init_procs_def new_Thread_def)
  then obtain s0 p where s0: "init_procs ?g ?g ?g (\<lambda>_. 5) [] = Inr s0" "thr s0 0 = Some p" "thr s0 1 = None" "inP p = None" by blast
  obtain sp where sp: "new_AddrSpace True (replicate 40 0) (replicate 32 0) sample_exe (mainMemoryMap s0) (physMem s0) = Inr (sp, mainMemoryMap s0, physMem s0)"
    "numPages sp = 10" "int (length (pageTable sp)) = 10" "executableFilename sp = replicate 32 0"
    using new_AddrSpace_vm [OF sample_exe_ok(1), of "replicate 40 0" "replicate 32 0"] sample_exe_ok(2) by auto
  let ?sp = "sp\<lparr>executableFilename := 0 # replicate 31 0\<rparr>"
  let ?s = "put_thr 0 (p\<lparr>space := Some ?sp\<rparr>) (s0\<lparr>mainMemoryMap := mainMemoryMap s0, physMem := physMem s0\<rparr>)"
  have S: "StartProcess True (replicate 40 0) (replicate 32 0) [] sample_exe s0 = Inr ?s"
    using s0(2) sp(1,4) by (simp add: StartProcess_def load_program_def strcpy_def)
  have "oft_dom (threadsTable ?s) \<noteq> {0..<128}" using boot_family [OF s0(1) S] by simp
  then show ?thesis using that [of ?s "p\<lparr>space := Some ?sp\<rparr>" ?sp] preach_boot [OF s0(1) S] s0(3,4) sp(2,3) by (simp add: running_def)
qed

lemma leave_father_Some:
  assumes "fatherProcess p = Some f" "thr s f = Some q" "getUnixFileID (threadsTable s) (pid p) = Inr 0"
  shows "leave_father p s = Inr (put_thr f (q\<lparr>openedFilesTable := delThread (openedFilesTable q), associatedSemaphores := delThread (associatedSemaphores q)\<rparr>) s)"
  using assms by (simp add: leave_father_def)

lemma add_del_Thread: "delThread (addThread t) = t"
  by (simp add: addThread_def delThread_def)

lemma fork_exit_eq:
  assumes ok: "tables_ok s" and "thr s t = Some cur" "space cur = Some sp" "numPages sp = int (length (pageTable sp))" "8 \<le> numPages sp" "numPages sp < 2 ^ 32"
    and "thr s c = None" "thr s n \<noteq> None" "Nachos_Fork True g1 g2 t c s = Inr s1"
  shows "\<exists>s2. Nachos_Exit n c s1 = Inr s2 \<and> closed s2 = closed s \<and> sems s2 = sems s \<and> thr s2 = thr s \<and> mainMemoryMap s2 = mainMemoryMap s \<and>
    (\<forall>k. 0 \<le> k \<and> k < 128 \<longrightarrow> isOpen (threadsTable s2) k = isOpen (threadsTable s) k)"
proof -
  have tt: "oft_inv (threadsTable s)" using ok by (simp add: tables_ok_def)
  obtain sp' where v: "copy_AddrSpace True sp (mainMemoryMap s) = Inr (sp', mainMemoryMap s)" "\<forall>u. delete_AddrSpace u sp' (mainMemoryMap s) = Inr (mainMemoryMap s)"
    using copy_AddrSpace_vm [OF assms(4-6)] by blast
  obtain files ss k table f1 f2 a1 a2 where c: "new_openFilesTable g1 = Inr files" "new_openFilesTable_threads g2 False = Inr ss"
    "Open (threadsTable s) 0 = Inr (k, table)"
    "copyTable files (openedFilesTable cur) = Inr f1" "initializeBoolTable f1 = Inr f2"
    "copyTable ss (associatedSemaphores cur) = Inr a1" "initializeBoolTable a1 = Inr a2"
    "s1 = put_thr c \<lparr>pid = k, fatherProcess = Some t, openedFilesTable = f2, associatedSemaphores = a2, space = Some sp', inP = None, asleep = False, r2 = 0\<rparr>
       (put_thr t (cur\<lparr>openedFilesTable := addThread (openedFilesTable cur), associatedSemaphores := addThread (associatedSemaphores cur)\<rparr>)
         (s\<lparr>threadsTable := table, mainMemoryMap := mainMemoryMap s\<rparr>))"
    using assms(2,3,9) v(1) by (auto simp: Nachos_Fork_def new_child_Thread_def bindE_eq_Inr Let_def)
  have ct: "c \<noteq> t" "c \<noteq> n" using assms(2,7,8) by auto
  have o: "oft_inv (openedFilesTable cur)" "oft_inv (associatedSemaphores cur)" using assms(2) ok by (auto simp: tables_ok_def)
  have f: "oft_inv f2" "openedByCurrentThread f2 = replicate 128 False"
    using inherit_table [OF c(4,5) o(1)] new_openFilesTable_Inr [OF c(1)] by auto
  have a: "oft_inv a2" "openedByCurrentThread a2 = replicate 128 False"
    using inherit_table [OF c(6,7) o(2)] new_semaphores_Inr [OF c(2)] by auto
  have k: "oft_inv table" "0 \<le> k" "k < 128" "k \<notin> oft_dom (threadsTable s)" "oft_dom table = insert k (oft_dom (threadsTable s))"
    "openFiles table = (openFiles (threadsTable s))[nat k := 0]" using Open_Inr [OF c(3) tt] by auto
  have u: "getUnixFileID table k = Inr 0" using k tt by (simp add: getUnixFileID_def oft_inv_def)
  obtain table' where t': "Close table k = Inr (0, table')" "oft_inv table'" "oft_dom table' = oft_dom table - {k}"
    using Close_ok [OF k(1-3)] by blast
  let ?p = "\<lparr>pid = k, fatherProcess = Some t, openedFilesTable = f2, associatedSemaphores = a2, space = Some sp', inP = None, asleep = False, r2 = 0\<rparr>"
  let ?q = "cur\<lparr>openedFilesTable := addThread (openedFilesTable cur), associatedSemaphores := addThread (associatedSemaphores cur)\<rparr>"
  let ?s = "(put_thr t cur s1)\<lparr>threadsTable := table'\<rparr>"
  have "leave_father ?p s1 = Inr (put_thr t cur s1)"
    using leave_father_Some [of ?p t s1 ?q] u c(8) ct by (simp add: add_del_Thread)
  then have "Nachos_Exit n c s1 = delete_thread n c ?s"
    using Exit_owning_nothing [of s1 c ?p n] own_none f a c(8) k(2,3) t'(1) by simp
  also obtain q where q: "thr ?s n = Some q" using assms(8) c(8) ct by (cases "n = t") auto
  then have "delete_thread n c ?s = Inr (?s\<lparr>mainMemoryMap := mainMemoryMap s, thr := (thr ?s)(c := None)\<rparr>)"
    using v(2) c(8) ct by (simp add: delete_thread_def)
  finally have "Nachos_Exit n c s1 = Inr (?s\<lparr>mainMemoryMap := mainMemoryMap s, thr := (thr ?s)(c := None)\<rparr>)" .
  moreover have "(thr ?s)(c := None) = thr s" using c(8) assms(2,7) ct by (auto simp: fun_eq_iff)
  moreover have "isOpen table' j = isOpen (threadsTable s) j" if "0 \<le> j" "j < 128" for j
    using isOpen_eq [OF t'(2) that] isOpen_eq [OF tt that] t'(3) k(4,5) by simp
  ultimately show ?thesis using c(8) by simp
qed

section \<open>Properties\<close>







lemma Exec_eq:
  assumes "thr s t = Some p" "oft_inv (threadsTable s)" "oft_dom (threadsTable s) \<noteq> {0..<128}" "thr s c = None"
  obtains q table where "Nachos_Exec g1 g2 t c s = Inr (put_thr c q (put_thr t (p\<lparr>r2 := pid q\<rparr>) (s\<lparr>threadsTable := table\<rparr>)))"
    "fatherProcess q = Some t" "space q = None" "inP q = None" "oft_inv (openedFilesTable q)" "oft_dom (openedFilesTable q) = {0, 1, 2}" "oft_usage (openedFilesTable q) = 1"
    "oft_inv (associatedSemaphores q)" "oft_dom (associatedSemaphores q) = {}" "oft_inv table" "oft_dom table = insert (pid q) (oft_dom (threadsTable s))"
    "0 \<le> pid q" "pid q < 128"
proof -
  obtain files where f: "new_openFilesTable g1 = Inr files" "oft_inv files" "oft_dom files = {0, 1, 2}" "oft_usage files = 1" using new_openFilesTable_ok by blast
  obtain ss where a: "new_openFilesTable_threads g2 False = Inr ss" "oft_inv ss" "oft_dom ss = {}" using new_openFilesTable_threads_ok [of g2 False] by blast
  obtain k table where o: "Open (threadsTable s) 0 = Inr (k, table)" "0 \<le> k" "k < 128" "oft_inv table" "oft_dom table = insert k (oft_dom (threadsTable s))"
    using Open_free [OF assms(2,3), of 0] by blast
  let ?q = "\<lparr>pid = k, fatherProcess = Some t, openedFilesTable = files, associatedSemaphores = ss, space = None, inP = None, asleep = False, r2 = 0\<rparr>"
  show ?thesis by (rule that [of ?q table]) (use assms(1) f a o in \<open>simp_all add: Nachos_Exec_def new_child_Thread_def\<close>)
qed

lemma delete_space_wf:
  assumes "space_wf sp mm0" "bm_used mm0 \<subseteq> {0..<32}" "bm_inv mm" "numBits mm = 32"
  shows "\<exists>mm'. delete_AddrSpace 1 sp mm = Inr mm'"
proof -
  have "physicalPage (pageTable sp ! nat i) < 32" if "0 \<le> i" "i < numPages sp" for i
  proof -
    have "nat i < length (pageTable sp)" using assms(1) that by (simp add: space_wf_def)
    then have "physicalPage (pageTable sp ! nat i) \<in> set (map physicalPage (pageTable sp))" by simp
    then show ?thesis using assms(1,2) unfolding space_wf_def by fastforce
  qed
  then show ?thesis using free_loop [OF assms(3), of 0 "numPages sp" "pageTable sp"] assms(1,4) by (auto simp: delete_AddrSpace_def space_wf_def)
qed

text \<open>
  \<open>Exec\<close> does not count the new process in the tables of its father, so the father does not wait for it. After a run in which
  the father has ended first, the \<open>Exit\<close> of the child follows the pointer to the deleted father.
\<close>

theorem exec_child_outlives_father:
  "\<exists>s p. preach ExecFound False s \<and> running 1 s \<and> thr s 1 = Some p \<and> \<not> has_children p \<and> (\<forall>n. Nachos_Exit n 1 s = Inl BadPointer)"
proof -
  let ?g = "\<lparr>g_words = \<lambda>_. 0, g_longs = \<lambda>_. 0, g_bools = \<lambda>_. False\<rparr>"
  obtain s0 p sp where b: "preach ExecFound False s0" "thr s0 0 = Some p" "space p = Some sp" "inP p = None" "fatherProcess p = None" "pid p = - 1"
    "\<forall>t. t \<noteq> 0 \<longrightarrow> thr s0 t = None" "space_wf sp (mainMemoryMap s0)" "bm_inv (mainMemoryMap s0)" "numBits (mainMemoryMap s0) = 32" "card (bm_used (mainMemoryMap s0)) = 10"
    "oft_inv (openedFilesTable p)" "oft_dom (openedFilesTable p) = {0, 1, 2}" "oft_usage (openedFilesTable p) = 1"
    "oft_inv (associatedSemaphores p)" "oft_dom (associatedSemaphores p) = {}" "length (physMem s0) = 4096"
    "oft_inv (threadsTable s0)" "oft_dom (threadsTable s0) = {}"
    by (rule boot_sample [of ExecFound])
  have n: "thr s0 1 = None" "oft_dom (threadsTable s0) \<noteq> {0..<128}" using b(7,19) by simp_all
  obtain q table where e: "Nachos_Exec ?g ?g 0 1 s0 = Inr (put_thr 1 q (put_thr 0 (p\<lparr>r2 := pid q\<rparr>) (s0\<lparr>threadsTable := table\<rparr>)))"
    "fatherProcess q = Some 0" "space q = None" "inP q = None" "oft_inv (openedFilesTable q)" "oft_dom (openedFilesTable q) = {0, 1, 2}" "oft_usage (openedFilesTable q) = 1"
    "oft_inv (associatedSemaphores q)" "oft_dom (associatedSemaphores q) = {}"
    by (rule Exec_eq [OF b(2,18) n(2,1)])
  define s1 where "s1 = put_thr 1 q (put_thr 0 (p\<lparr>r2 := pid q\<rparr>) (s0\<lparr>threadsTable := table\<rparr>))"
  have "pstep ExecFound False s0 s1" unfolding s1_def using b(2-4) n(1) by (intro pexec [OF _ _ _ e(1)]) (simp_all add: running_def)
  with b(1) have r1: "preach ExecFound False s1" by (rule preach_step)
  have "thr s1 1 = Some q" "bm_inv (mainMemoryMap s1)" "numBits (mainMemoryMap s1) = 32" "card (bm_used (mainMemoryMap s1)) \<le> 22" "length (physMem s1) = 4096"
    using b(9-11,17) by (simp_all add: s1_def)
  from load_sample [OF this] obtain sp1 mm mem where l: "load_program False (replicate 40 0) (replicate 32 0) [] sample_exe 1 s1 =
      Inr (put_thr 1 (q\<lparr>space := Some sp1\<rparr>) (s1\<lparr>mainMemoryMap := mm, physMem := mem\<rparr>))" "bm_inv mm" "numBits mm = 32" by blast
  define q1 where "q1 = q\<lparr>space := Some sp1\<rparr>"
  define s2 where "s2 = put_thr 1 q1 (s1\<lparr>mainMemoryMap := mm, physMem := mem\<rparr>)"
  have "nachosExecThread False (replicate 40 0) (replicate 32 0) [] (Some sample_exe) 0 1 s1 = Inr s2" using l(1) by (simp add: nachosExecThread_def s2_def q1_def)
  then have "pstep ExecFound False s1 s2" by (intro pstart [of s1 1 q]) (simp_all add: s1_def e(3))
  with r1 have r2: "preach ExecFound False s2" by (rule preach_step)
  have own: "\<not> own (openedFilesTable p) i" "\<not> own (openedFilesTable q) i" if "3 \<le> i" for i using that b(13) e(6) by (auto simp: own_def)
  have owns: "\<not> own (associatedSemaphores p) i" "\<not> own (associatedSemaphores q) i" for i using b(16) e(9) by (simp_all add: own_def)
  have t2: "thr s2 0 = Some (p\<lparr>r2 := pid q\<rparr>)" "thr s2 1 = Some q1" by (simp_all add: s2_def s1_def)
  obtain mm' where "delete_AddrSpace 1 sp mm = Inr mm'" using delete_space_wf [OF b(8) _ l(2,3)] bm_used_subset [of "mainMemoryMap s0"] b(10) by auto
  then have d: "delete_thread 1 0 s2 = Inr (s2\<lparr>mainMemoryMap := mm', thr := (thr s2)(0 := None)\<rparr>)"
    using t2 b(3) e(7) by (simp add: delete_thread_def q1_def s2_def)
  define s3 where "s3 = s2\<lparr>mainMemoryMap := mm', thr := (thr s2)(0 := None)\<rparr>"
  have "Nachos_Exit 1 0 s2 = Inr s3"
    using Exit_owning_nothing [OF t2(1), of 1] d b(5,6,12,15) own owns by (simp add: leave_father_def s3_def)
  then have "pstep ExecFound False s2 s3" using t2(1) b(3,4,14) by (intro pexit [of 0 s2 "p\<lparr>r2 := pid q\<rparr>"]) (simp_all add: running_def has_children_def)
  with r2 have r3: "preach ExecFound False s3" by (rule preach_step)
  have c: "thr s3 1 = Some q1" "thr s3 0 = None" using t2 by (simp_all add: s3_def)
  have "Nachos_Exit n 1 s3 = Inl BadPointer" for n
    using Exit_owning_nothing [OF c(1), of n] e own owns c(2) by (simp add: q1_def leave_father_def)
  then show ?thesis using r3 c e(4,7) by (intro exI [of _ s3] exI [of _ q1]) (simp add: running_def q1_def has_children_def)
qed

text \<open>
  When \<open>Exec\<close> names a file that does not exist, the new thread returns from its first procedure and is deleted without \<open>Exit\<close>:
  its pid stays in use although no thread has it, so that a \<open>Join\<close> on it sleeps and nobody wakes it.
\<close>

theorem exec_missing_file_leaks_pid:
  "\<exists>s k s'. preach ExecAny False s \<and> isOpen (threadsTable s) k = Inr True \<and> (\<nexists>t p. thr s t = Some p \<and> pid p = k) \<and>
     running 0 s \<and> Nachos_Join 9 0 k s = Inr s' \<and> \<not> running 0 s'"
proof -
  let ?g = "\<lparr>g_words = \<lambda>_. 0, g_longs = \<lambda>_. 0, g_bools = \<lambda>_. False\<rparr>"
  obtain s0 p sp where b: "preach ExecAny False s0" "thr s0 0 = Some p" "space p = Some sp" "inP p = None" "fatherProcess p = None" "pid p = - 1"
    "\<forall>t. t \<noteq> 0 \<longrightarrow> thr s0 t = None" "space_wf sp (mainMemoryMap s0)" "bm_inv (mainMemoryMap s0)" "numBits (mainMemoryMap s0) = 32" "card (bm_used (mainMemoryMap s0)) = 10"
    "oft_inv (openedFilesTable p)" "oft_dom (openedFilesTable p) = {0, 1, 2}" "oft_usage (openedFilesTable p) = 1"
    "oft_inv (associatedSemaphores p)" "oft_dom (associatedSemaphores p) = {}" "length (physMem s0) = 4096"
    "oft_inv (threadsTable s0)" "oft_dom (threadsTable s0) = {}"
    by (rule boot_sample [of ExecAny])
  have n: "thr s0 1 = None" "oft_dom (threadsTable s0) \<noteq> {0..<128}" using b(7,19) by simp_all
  obtain q table where e: "Nachos_Exec ?g ?g 0 1 s0 = Inr (put_thr 1 q (put_thr 0 (p\<lparr>r2 := pid q\<rparr>) (s0\<lparr>threadsTable := table\<rparr>)))"
    "fatherProcess q = Some 0" "space q = None" "inP q = None" "oft_inv (openedFilesTable q)" "oft_dom (openedFilesTable q) = {0, 1, 2}" "oft_usage (openedFilesTable q) = 1"
    "oft_inv (associatedSemaphores q)" "oft_dom (associatedSemaphores q) = {}" "oft_inv table" "oft_dom table = insert (pid q) (oft_dom (threadsTable s0))"
    "0 \<le> pid q" "pid q < 128"
    by (rule Exec_eq [OF b(2,18) n(2,1)])
  define s1 where "s1 = put_thr 1 q (put_thr 0 (p\<lparr>r2 := pid q\<rparr>) (s0\<lparr>threadsTable := table\<rparr>))"
  define s2 where "s2 = s1\<lparr>mainMemoryMap := mainMemoryMap s1, thr := (thr s1)(1 := None)\<rparr>"
  have "pstep ExecAny False s0 s1" unfolding s1_def using b(2-4) n(1) by (intro pexec [OF _ _ _ e(1)]) (simp_all add: running_def)
  with b(1) have r1: "preach ExecAny False s1" by (rule preach_step)
  have "nachosExecThread False [] [] [] None 0 1 s1 = Inr s2" using e(3) by (simp add: nachosExecThread_def delete_thread_def s1_def s2_def)
  then have "pstep ExecAny False s1 s2" by (intro pstart [of s1 1 q]) (simp_all add: s1_def e(3))
  with r1 have r2: "preach ExecAny False s2" by (rule preach_step)
  have t: "thr s2 0 = Some (p\<lparr>r2 := pid q\<rparr>)" "threadsTable s2 = table" by (simp_all add: s2_def s1_def)
  have gone: "pid p' \<noteq> pid q" if "thr s2 t = Some p'" for t p' using that b(6,7) e(12) by (auto simp: s2_def s1_def split: if_split_asm)
  have o: "isOpen (threadsTable s2) (pid q) = Inr True" using isOpen_eq [OF e(10,12,13)] e(11) t(2) by simp
  have "storeSemAdress table (pid q) 9 = Inr (table\<lparr>openFiles := (openFiles table)[nat (pid q) := 9]\<rparr>)"
    using e(10,12,13) by (simp add: storeSemAdress_def oft_inv_def)
  then obtain s3 where "Nachos_Join 9 0 (pid q) s2 = Inr s3" "\<not> running 0 s3"
    using t o by (auto simp: Nachos_Join_def running_def new_sem_def put_thr_def)
  then show ?thesis using r2 o gone t(1) b(3,4) by (intro exI [of _ s2] exI [of _ "pid q"] exI [of _ s3]) (simp add: running_def)
qed

lemma wake_all_eq:
  assumes "wake_all us s = Inr s'"
  shows "sems s' = sems s \<and> thr s' = (\<lambda>v. map_option (\<lambda>p. if v \<in> set us then p\<lparr>asleep := False\<rparr> else p) (thr s v))"
  using assms
proof (induction us arbitrary: s)
  case Nil
  then show ?case by (simp add: option.map_ident)
next
  case (Cons u us)
  then obtain q where q: "thr s u = Some q" "wake_all us (put_thr u (q\<lparr>asleep := False\<rparr>) s) = Inr s'" by (auto simp: wake_def bindE_eq_Inr)
  from Cons.IH [OF q(2)] show ?case using q(1) by (auto simp: fun_eq_iff option.map_comp intro!: map_option_cong)
qed

text \<open>
  \<open>SemDestroy\<close> wakes the threads that wait for the semaphore and deletes it. Each of them is still inside \<open>P\<close>: when it runs
  it reads the value of the deleted semaphore.
\<close>

theorem SemDestroy_waiter_uses_freed:
  assumes "thr s t = Some p" "getUnixFileID (associatedSemaphores p) k = Inr a" "sems s a = Some m" "u \<in> set (us_queue m)"
    "thr s u = Some q" "inP q = Some (call, a)" "Nachos_SemDestroy k t s = Inr s'"
  shows "awake u s' \<and> sem_P u s' = Inl BadPointer"
proof -
  obtain r table s1 where d: "Close (associatedSemaphores p) k = Inr (r, table)"
    "wake_all (us_queue m) (put_thr t (p\<lparr>associatedSemaphores := table\<rparr>) s) = Inr s1"
    "s' = s1\<lparr>sems := (sems s1)(a := None)\<rparr>"
    using assms(1-3,7) by (auto simp: Nachos_SemDestroy_def sem_Destroy_def sem_delete_def bindE_eq_Inr)
  have "\<exists>q'. thr s1 u = Some q' \<and> \<not> asleep q' \<and> inP q' = Some (call, a)"
    using wake_all_eq [OF d(2)] assms(1,4,5,6) by (cases "u = t") auto
  then show ?thesis using d(3) by (auto simp: awake_def sem_P_def)
qed

theorem SemDestroy_waiter_uses_freed_witness:
  "\<exists>s s'. thr s 1 \<noteq> None \<and> Nachos_SemDestroy 0 0 s = Inr s' \<and> awake 1 s' \<and> sem_P 1 s' = Inl BadPointer"
proof -
  let ?g = "\<lparr>g_words = \<lambda>_. 0, g_longs = \<lambda>_. 5, g_bools = \<lambda>_. False\<rparr>"
  obtain ss where a: "new_openFilesTable_threads ?g False = Inr ss" "oft_inv ss" using new_openFilesTable_threads_ok [of ?g False] by blast
  have "openFiles ss = map (\<lambda>_. 5) [0..<128]" using a(1) by (auto simp: new_openFilesTable_threads_def alloc_table_def bindE_eq_Inr)
  then have g: "getUnixFileID ss 0 = Inr 5" by (simp add: getUnixFileID_def del: upt_rec_numeral)
  obtain ss' where c: "Close ss 0 = Inr (0, ss')" using Close_ok [OF a(2), of 0] by auto
  let ?p = "\<lparr>pid = - 1, fatherProcess = None, openedFilesTable = ss, associatedSemaphores = ss, space = None, inP = None, asleep = False, r2 = 0\<rparr>"
  let ?q = "\<lparr>pid = 0, fatherProcess = Some 0, openedFilesTable = ss, associatedSemaphores = ss, space = None, inP = Some (SemWaitCall, 5), asleep = True, r2 = 0\<rparr>"
  let ?s = "\<lparr>thr = [0 \<mapsto> ?p, 1 \<mapsto> ?q], threadsTable = ss, sems = [5 \<mapsto> \<lparr>us_value = 0, us_queue = [1]\<rparr>], mainMemoryMap = openFilesMap ss, physMem = [], closed = []\<rparr>"
  obtain s' where s': "Nachos_SemDestroy 0 0 ?s = Inr s'"
    using g c by (simp add: Nachos_SemDestroy_def sem_Destroy_def sem_delete_def wake_def put_thr_def)
  have "awake 1 s' \<and> sem_P 1 s' = Inl BadPointer"
    by (rule SemDestroy_waiter_uses_freed [where p = ?p and k = 0 and a = 5 and m = "\<lparr>us_value = 0, us_queue = [1]\<rparr>" and q = ?q and call = SemWaitCall and t = 0])
      (use g s' in simp_all)
  then show ?thesis using s' by (intro exI [of _ ?s] exI [of _ s']) simp
qed

lemma wake_closed: "wake t s = Inr s' \<Longrightarrow> closed s' = closed s"
  by (auto simp: wake_def bindE_eq_Inr)

lemma sem_V_closed: "sem_V a s = Inr s' \<Longrightarrow> closed s' = closed s"
  by (cases "sems s a"; cases "us_queue (the (sems s a))") (auto simp: sem_V_def bindE_eq_Inr dest: wake_closed)

lemma delete_sems_closed:
  assumes "delete_sems t s = Inr s'"
  shows "closed s' = closed s"
  using assms unfolding delete_sems_def
proof (rule forE_rel)
  fix i s s'
  assume "delete_own_sem t i s = Inr s'"
  then show "closed s' = closed s" by (auto simp: delete_own_sem_def sem_delete_def bindE_eq_Inr split: if_split_asm)
qed simp_all

lemma leave_father_closed:
  assumes "leave_father p s = Inr s'"
  shows "closed s' = closed s"
proof (cases "fatherProcess p")
  case None
  then show ?thesis using assms by (simp add: leave_father_def)
next
  case (Some f)
  obtain q a where "thr s f = Some q" and s': "(if a > 0 then sem_V a
      (put_thr f (q\<lparr>openedFilesTable := delThread (openedFilesTable q), associatedSemaphores := delThread (associatedSemaphores q)\<rparr>) s)
      else Inr (put_thr f (q\<lparr>openedFilesTable := delThread (openedFilesTable q), associatedSemaphores := delThread (associatedSemaphores q)\<rparr>) s)) = Inr s'"
    using assms Some by (auto simp: leave_father_def bindE_eq_Inr Let_def)
  then show ?thesis using sem_V_closed by (fastforce split: if_split_asm)
qed

text \<open>
  \<open>Exit\<close> closes, in the order of their numbers, exactly the files that the thread opened itself (behind the three standard ones),
  once each, and no file that it inherited; the thread is gone afterwards.
\<close>

theorem Exit_closes_own_files:
  assumes "preach x vm s" "x \<noteq> ExecAny" "thr s t = Some p" "Nachos_Exit n t s = Inr s'"
  shows "closed s' = closed s @ own_files (openedFilesTable p) 128 \<and> thr s' t = None"
proof -
  have "oft_inv (openedFilesTable p)" using preach_pids [OF assms(1,2)] assms(3) by (auto simp: tables_ok_def)
  from close_files_closed [OF assms(3) this] obtain s1 where
    1: "close_files t s = Inr s1" "closed s1 = closed s @ own_files (openedFilesTable p) 128" by blast
  obtain s2 cur s3 s4 where e: "delete_sems t s1 = Inr s2" "thr s2 t = Some cur" "leave_father cur s2 = Inr s3"
    "(if pid cur \<ge> 0 \<and> pid cur \<le> 128
       then bindE (Close (threadsTable s3) (pid cur)) (\<lambda>(_, table). Inr (s3\<lparr>threadsTable := table\<rparr>)) else Inr s3) = Inr s4"
    "delete_thread n t s4 = Inr s'"
    using assms(4) 1(1) unfolding Nachos_Exit_def bindE_eq_Inr by (auto simp only: deref_eq_Inr sum.inject)
  have "closed s4 = closed s3" using e(4) by (auto simp: bindE_eq_Inr split: if_split_asm)
  moreover have "closed s' = closed s4 \<and> thr s' t = None" using e(5) by (auto simp: delete_thread_def bindE_eq_Inr)
  ultimately show ?thesis using 1(2) delete_sems_closed [OF e(1)] leave_father_closed [OF e(3)] by simp
qed

theorem Exit_closes_own_files_witness:
  "\<exists>s p n s'. preach ForkOnly True s \<and> thr s 1 = Some p \<and> Nachos_Exit n 1 s = Inr s' \<and> closed s' = closed s @ own_files (openedFilesTable p) 128"
proof -
  let ?g = "\<lparr>g_words = \<lambda>_. 7, g_longs = \<lambda>_. 0, g_bools = \<lambda>_. True\<rparr>"
  obtain s p sp where s: "preach ForkOnly True s" "thr s 0 = Some p" "space p = Some sp" "numPages sp = int (length (pageTable sp))" "numPages sp = 10" "thr s 1 = None"
    "oft_dom (threadsTable s) \<noteq> {0..<128}" "running 0 s" by (rule boot_vm)
  have n: "8 \<le> numPages sp" "numPages sp < 2 ^ 32" "thr s 0 \<noteq> None" using s(2,5) by auto
  have ok: "tables_ok s" using preach_pids [OF s(1)] by simp
  obtain sp' where "copy_AddrSpace True sp (mainMemoryMap s) = Inr (sp', mainMemoryMap s)" using copy_AddrSpace_vm [OF s(4) n(1,2)] by blast
  then obtain s1 where f: "Nachos_Fork True ?g ?g 0 1 s = Inr s1" using Fork_ok [OF ok s(2,7,3)] by blast
  have r: "preach ForkOnly True s1" using s(1) pfork [OF s(8,6) f] by (rule preach_step)
  obtain s2 where e: "Nachos_Exit 0 1 s1 = Inr s2" using fork_exit_eq [OF ok s(2-4) n(1,2) s(6) n(3) f] by blast
  obtain m where "fams s1 1 = Some m" using Fork_family [OF f ok s(6)] by auto
  then obtain q where "thr s1 1 = Some q" by (auto simp: fams_def)
  then show ?thesis using Exit_closes_own_files [OF r _ _ e] r e by blast
qed

end
