(* ===== verification/Syscalls.thy ===== *)
theory Syscalls
  imports Open_Files_Table Machine_Memory
begin

text \<open>
  The system calls on files and the entry of the kernel in \<open>userprog/exception.cc\<close>: \<open>returnFromSystemCall\<close>,
  \<open>readOrWriteVirtualMemory\<close>, \<open>Nachos_Create\<close>, \<open>Nachos_Open\<close>, \<open>Nachos_Read\<close>, \<open>Nachos_Write\<close>, \<open>Nachos_Close\<close> and the dispatch in
  \<open>ExceptionHandler\<close>. The calls for processes and semaphores are in \<open>Processes\<close>, the page fault in \<open>Virtual_Memory\<close>.

  The UNIX calls that the kernel makes are the functions of a record \<open>unix\<close> over an arbitrary state of the host. What
  \<open>ReadMem\<close> and \<open>WriteMem\<close> do on an exception is the argument \<open>trap\<close>. Both loops of \<open>readOrWriteVirtualMemory\<close> may run for ever,
  so that a call yields \<open>None\<close> when it does not return. \<open>new char[n]\<close> is uninitialised: \<open>junk\<close> is what the storage holds; for a
  negative \<open>n\<close> it throws, which nobody catches, and the kernel aborts like on a failed assertion. The console mutex is not in the
  state: it is taken and given back around host calls that do not switch threads, so that its value is 1 whenever it is asked for.
\<close>

type_synonym bytes = "8 word list"

section \<open>User memory\<close>

text \<open>\<open>while(!machine->ReadMem(a, 1, &temp));\<close> and the same for \<open>WriteMem\<close>.\<close>

partial_function (option) read_until :: "trap \<Rightarrow> 32 word \<Rightarrow> Machine \<Rightarrow> (32 word \<times> Machine) result option" where
  "read_until tr a m =
     (case ReadMem tr a 1 m of
        Inl e \<Rightarrow> Some (Inl e)
      | Inr (r, m') \<Rightarrow> (case r of None \<Rightarrow> read_until tr a m' | Some v \<Rightarrow> Some (Inr (v, m'))))"

partial_function (option) write_until :: "trap \<Rightarrow> 32 word \<Rightarrow> 32 word \<Rightarrow> Machine \<Rightarrow> Machine result option" where
  "write_until tr a v m =
     (case WriteMem tr a 1 v m of
        Inl e \<Rightarrow> Some (Inl e)
      | Inr (b, m') \<Rightarrow> if b then Some (Inr m') else write_until tr a v m')"

text \<open>\<open>readOrWriteVirtualMemory\<close> from index \<open>i\<close> of the array and address \<open>a\<close> on, reading and writing.\<close>

partial_function (option) readVirtual :: "trap \<Rightarrow> bytes \<Rightarrow> int \<Rightarrow> 32 word \<Rightarrow> Machine \<Rightarrow> (bytes \<times> Machine) result option" where
  "readVirtual tr array i a m =
     (case read_until tr a m of
        None \<Rightarrow> None
      | Some r \<Rightarrow>
         (case r of
            Inl e \<Rightarrow> Some (Inl e)
          | Inr (temp, m') \<Rightarrow>
             (case arr_set array i (ucast temp) of
                Inl e \<Rightarrow> Some (Inl e)
              | Inr array' \<Rightarrow> if temp \<noteq> 0 then readVirtual tr array' (i + 1) (a + 1) m' else Some (Inr (array', m')))))"

partial_function (option) writeVirtual :: "trap \<Rightarrow> bytes \<Rightarrow> int \<Rightarrow> 32 word \<Rightarrow> Machine \<Rightarrow> Machine result option" where
  "writeVirtual tr array i a m =
     (case arr_get array i of
        Inl e \<Rightarrow> Some (Inl e)
      | Inr c \<Rightarrow>
         if c = 0 then Some (Inr m)
         else
           (case write_until tr a (scast c) m of
              None \<Rightarrow> None
            | Some r \<Rightarrow> (case r of Inl e \<Rightarrow> Some (Inl e) | Inr m' \<Rightarrow> writeVirtual tr array (i + 1) (a + 1) m')))"

section \<open>State and system calls\<close>

text \<open>The calls of the host: \<open>creat\<close>, \<open>open\<close>, \<open>read\<close> (result and bytes stored), \<open>write\<close> and \<open>close\<close>.\<close>

record 'u unix =
  u_creat :: "bytes \<Rightarrow> 'u \<Rightarrow> 'u"
  u_open :: "bytes \<Rightarrow> 'u \<Rightarrow> int \<times> 'u"
  u_read :: "int \<Rightarrow> int \<Rightarrow> 'u \<Rightarrow> int \<times> bytes \<times> 'u"
  u_write :: "int \<Rightarrow> bytes \<Rightarrow> int \<Rightarrow> 'u \<Rightarrow> int \<times> 'u"
  u_close :: "int \<Rightarrow> 'u \<Rightarrow> 'u"

datatype console_out = Text bytes | Number int

record 'u sys =
  machine :: Machine
  files :: openFilesTable
  host :: 'u
  conIn :: bytes
  conOut :: "console_out list"

definition c_string :: "bytes \<Rightarrow> bytes" where
  "c_string bs = takeWhile (\<lambda>b. b \<noteq> 0) bs"

definition set_r2 :: "int \<Rightarrow> 'u sys \<Rightarrow> 'u sys result option" where
  "set_r2 v s = Some (bindE (WriteRegister 2 (word_of_int v) (machine s)) (\<lambda>m. Inr (s\<lparr>machine := m\<rparr>)))"

definition returnFromSystemCall :: "Machine \<Rightarrow> Machine result" where
  "returnFromSystemCall m =
     bindE (ReadRegister 34 m) (\<lambda>pc.
     bindE (ReadRegister 35 m) (\<lambda>npc.
     bindE (WriteRegister 36 pc m) (\<lambda>m1.
     bindE (WriteRegister 34 npc m1) (\<lambda>m2.
     WriteRegister 35 (npc + 4) m2))))"

text \<open>\<open>new char[n]\<close>\<close>

definition new_chars :: "(nat \<Rightarrow> 8 word) \<Rightarrow> int \<Rightarrow> bytes result" where
  "new_chars junk n = (if n < 0 then Inl AssertFailed else Inr (map junk [0..<nat n]))"

definition read_filename :: "trap \<Rightarrow> 'u sys \<Rightarrow> (bytes \<times> 'u sys) result option" where
  "read_filename tr s =
     bindO (Some (ReadRegister 4 (machine s))) (\<lambda>a.
     bindO (readVirtual tr (replicate 128 0) 0 a (machine s)) (\<lambda>(filename, m).
     Some (Inr (c_string filename, s\<lparr>machine := m\<rparr>))))"

definition Nachos_Create :: "trap \<Rightarrow> 'u unix \<Rightarrow> 'u sys \<Rightarrow> 'u sys result option" where
  "Nachos_Create tr u s =
     bindO (read_filename tr s) (\<lambda>(filename, s1). Some (Inr (s1\<lparr>host := u_creat u filename (host s1)\<rparr>)))"

definition Nachos_Open :: "trap \<Rightarrow> 'u unix \<Rightarrow> 'u sys \<Rightarrow> 'u sys result option" where
  "Nachos_Open tr u s =
     bindO (read_filename tr s) (\<lambda>(filename, s1).
     let (UnixFileID, h) = u_open u filename (host s1) in
     bindO (Some (Open (files s1) UnixFileID)) (\<lambda>(NachosFileID, t).
     set_r2 NachosFileID (s1\<lparr>host := h, files := t\<rparr>)))"

text \<open>\<open>scanf("%c", buffer + i)\<close>, which stores nothing at the end of the input.\<close>

primrec scan_chars :: "nat \<Rightarrow> bytes \<Rightarrow> bytes \<Rightarrow> bytes \<times> bytes" where
  "scan_chars 0 buffer inp = ([], inp)"
| "scan_chars (Suc n) buffer inp =
     (let (c, inp1) = (case inp of [] \<Rightarrow> (hd buffer, []) | x # xs \<Rightarrow> (x, xs)); (cs, inp2) = scan_chars n (tl buffer) inp1 in (c # cs, inp2))"

definition read_from :: "'u unix \<Rightarrow> int \<Rightarrow> bytes \<Rightarrow> int \<Rightarrow> 'u sys \<Rightarrow> (bytes \<times> 'u sys) result option" where
  "read_from u NachosFileID buffer bufferSize s =
     (if NachosFileID = 0 then
        let (cs, inp) = scan_chars (nat bufferSize) buffer (conIn s) in
        bindO (Some (arr_set (cs @ drop (length cs) buffer) bufferSize 0)) (\<lambda>buffer'.
        bindO (set_r2 0 (s\<lparr>conIn := inp\<rparr>)) (\<lambda>s'. Some (Inr (buffer', s'))))
      else if NachosFileID = 1 then bindO (set_r2 (- 1) s) (\<lambda>s'. Some (Inr (buffer, s')))
      else if NachosFileID = 2 then Some (Inr (buffer, s))
      else
        bindO (Some (isOpen (files s) NachosFileID)) (\<lambda>opened.
        if opened then
          bindO (Some (getUnixFileID (files s) NachosFileID)) (\<lambda>UnixFileID.
          let (result, bs, h) = u_read u UnixFileID bufferSize (host s) in
          if length bs > length buffer then Some (Inl OutOfBounds)
          else bindO (set_r2 result (s\<lparr>host := h\<rparr>)) (\<lambda>s'. Some (Inr (bs @ drop (length bs) buffer, s'))))
        else bindO (set_r2 (- 1) s) (\<lambda>s'. Some (Inr (buffer, s')))))"

definition Nachos_Read :: "trap \<Rightarrow> 'u unix \<Rightarrow> (nat \<Rightarrow> 8 word) \<Rightarrow> 'u sys \<Rightarrow> 'u sys result option" where
  "Nachos_Read tr u junk s =
     bindO (Some (ReadRegister 4 (machine s))) (\<lambda>a.
     bindO (Some (ReadRegister 5 (machine s))) (\<lambda>n.
     bindO (Some (ReadRegister 6 (machine s))) (\<lambda>f.
     bindO (Some (new_chars junk (sint (n + 1)))) (\<lambda>buffer.
     bindO (read_from u (sint f) buffer (sint n) s) (\<lambda>(buffer', s1).
     bindO (writeVirtual tr buffer' 0 a (machine s1)) (\<lambda>m. Some (Inr (s1\<lparr>machine := m\<rparr>))))))))"

definition write_to :: "'u unix \<Rightarrow> int \<Rightarrow> bytes \<Rightarrow> int \<Rightarrow> 'u sys \<Rightarrow> 'u sys result option" where
  "write_to u NachosFileID buffer bufferSize s =
     (if NachosFileID = 0 then set_r2 (- 1) s
      else if NachosFileID = 1 then
        bindO (Some (arr_set buffer bufferSize 0)) (\<lambda>buffer'.
        set_r2 0 (s\<lparr>conOut := conOut s @ [Text (c_string buffer')]\<rparr>))
      else if NachosFileID = 2 then
        bindO (Some (ReadRegister 4 (machine s))) (\<lambda>v. Some (Inr (s\<lparr>conOut := conOut s @ [Number (sint v)]\<rparr>)))
      else
        bindO (Some (isOpen (files s) NachosFileID)) (\<lambda>opened.
        if opened then
          bindO (Some (getUnixFileID (files s) NachosFileID)) (\<lambda>UnixFileID.
          let (result, h) = u_write u UnixFileID buffer bufferSize (host s) in set_r2 result (s\<lparr>host := h\<rparr>))
        else set_r2 (- 1) s))"

definition Nachos_Write :: "trap \<Rightarrow> 'u unix \<Rightarrow> (nat \<Rightarrow> 8 word) \<Rightarrow> 'u sys \<Rightarrow> 'u sys result option" where
  "Nachos_Write tr u junk s =
     bindO (Some (ReadRegister 5 (machine s))) (\<lambda>n.
     bindO (Some (ReadRegister 6 (machine s))) (\<lambda>f.
     bindO (Some (ReadRegister 4 (machine s))) (\<lambda>a.
     bindO (Some (new_chars junk (sint (n + 1)))) (\<lambda>buffer.
     bindO (readVirtual tr buffer 0 a (machine s)) (\<lambda>(buffer', m).
     write_to u (sint f) buffer' (sint n) (s\<lparr>machine := m\<rparr>))))))"

definition Nachos_Close :: "'u unix \<Rightarrow> 'u sys \<Rightarrow> 'u sys result option" where
  "Nachos_Close u s =
     bindO (Some (ReadRegister 4 (machine s))) (\<lambda>f.
     bindO (Some (isOpen (files s) (sint f))) (\<lambda>opened.
     if opened then
       bindO (Some (getUnixFileID (files s) (sint f))) (\<lambda>UnixFileID.
       bindO (Some (Close (files s) (sint f))) (\<lambda>(_, t).
       Some (Inr (s\<lparr>files := t, host := u_close u UnixFileID (host s)\<rparr>))))
     else Some (Inr s)))"

text \<open>\<open>ExceptionHandler\<close>: the other system calls and the page fault handler are arguments.\<close>

definition ExceptionHandler ::
  "trap \<Rightarrow> 'u unix \<Rightarrow> (nat \<Rightarrow> 8 word) \<Rightarrow> (int \<Rightarrow> 'u sys \<Rightarrow> 'u sys result option) \<Rightarrow> ('u sys \<Rightarrow> 'u sys result option) \<Rightarrow>
   ExceptionType \<Rightarrow> 'u sys \<Rightarrow> 'u sys result option" where
  "ExceptionHandler tr u junk process_call page_fault whichException s =
     bindO (Some (ReadRegister 2 (machine s))) (\<lambda>type.
       case whichException of
         SyscallException \<Rightarrow>
           bindO (if type = 4 then Nachos_Create tr u s
                  else if type = 5 then Nachos_Open tr u s
                  else if type = 6 then Nachos_Read tr u junk s
                  else if type = 7 then Nachos_Write tr u junk s
                  else if type = 8 then Nachos_Close u s
                  else if uint type \<le> 14 then process_call (uint type) s
                  else Some (Inl AssertFailed)) (\<lambda>s1.
           Some (bindE (returnFromSystemCall (machine s1)) (\<lambda>m. Inr (s1\<lparr>machine := m\<rparr>))))
       | PageFaultException \<Rightarrow> page_fault s
       | _ \<Rightarrow> Some (Inl AssertFailed))"

section \<open>The contract of user memory\<close>

lemma drop_Cons_nth: "drop i xs = y # ys \<Longrightarrow> i < length xs \<and> xs ! i = y \<and> drop (i + 1) xs = ys"
  by (cases "i < length xs") (auto simp: Cons_nth_drop_Suc [symmetric])

lemma char_int: "(ucast (scast c :: 32 word) :: 8 word) = c"
proof (rule bit_word_eqI)
  fix n assume "n < LENGTH(8)"
  then have "n < 7 \<or> n = 7" by auto
  then show "bit (ucast (scast c :: 32 word) :: 8 word) n = bit c n" by (auto simp: bit_unsigned_iff bit_signed_iff)
qed

lemma char_int_0: "(scast c :: 32 word) = 0 \<longleftrightarrow> c = (0 :: 8 word)"
  using char_int [of c] by (metis unsigned_0 signed_0)

text \<open>Memory with a string stored from an address on.\<close>

primrec put_bytes :: "(32 word \<Rightarrow> 8 word) \<Rightarrow> 32 word \<Rightarrow> bytes \<Rightarrow> 32 word \<Rightarrow> 8 word" where
  "put_bytes f a [] = f"
| "put_bytes f a (c # s) = put_bytes (f(a := c)) (a + 1) s"

text \<open>
  What the kernel relies on: a mapped byte can be read, a writable one written, and nothing else of the user's memory changes.
  \<open>ok\<close> is an invariant of the machine.
\<close>

locale user_memory =
  fixes tr :: trap and ok :: "Machine \<Rightarrow> bool" and mapped writable :: "Machine \<Rightarrow> 32 word \<Rightarrow> bool" and byte :: "Machine \<Rightarrow> 32 word \<Rightarrow> 8 word"
  assumes load: "ok m \<Longrightarrow> mapped m a \<Longrightarrow> \<exists>m'. read_until tr a m = Some (Inr (scast (byte m a), m')) \<and> ok m' \<and> mapped m' = mapped m \<and>
      writable m' = writable m \<and> byte m' = byte m \<and> registers m' = registers m"
    and store: "ok m \<Longrightarrow> writable m a \<Longrightarrow> \<exists>m'. write_until tr a (scast c) m = Some (Inr m') \<and> ok m' \<and> mapped m' = mapped m \<and>
      writable m' = writable m \<and> byte m' = (byte m)(a := c) \<and> registers m' = registers m"
begin

lemma readVirtual_step:
  assumes "ok m" "mapped m a" "0 \<le> i" "i < int (length buf)"
  obtains m' where "ok m'" "mapped m' = mapped m" "writable m' = writable m" "byte m' = byte m" "registers m' = registers m"
    "readVirtual tr buf i a m = (if byte m a \<noteq> 0 then readVirtual tr (buf[nat i := byte m a]) (i + 1) (a + 1) m' else Some (Inr (buf[nat i := byte m a], m')))"
  using load [OF assms(1,2)] assms(3,4) that by (subst (asm) readVirtual.simps) (auto simp: arr_set_def char_int char_int_0)

lemma readVirtual_string:
  assumes "ok m" "\<And>k. k \<le> length s \<Longrightarrow> mapped m (a + of_nat k)" "\<And>k. k < length s \<Longrightarrow> byte m (a + of_nat k) = s ! k"
    "byte m (a + of_nat (length s)) = 0" "0 \<notin> set s" "i + length s < length buf"
  shows "\<exists>m'. readVirtual tr buf (int i) a m = Some (Inr (take i buf @ s @ [0] @ drop (i + length s + 1) buf, m')) \<and> ok m' \<and> mapped m' = mapped m \<and>
    writable m' = writable m \<and> byte m' = byte m \<and> registers m' = registers m"
  using assms
proof (induction s arbitrary: buf i a m)
  case Nil
  then have c: "mapped m a" "byte m a = 0" "i < length buf" using Nil.prems(2) [of 0] by auto
  obtain m' where "ok m'" "mapped m' = mapped m" "writable m' = writable m" "byte m' = byte m" "registers m' = registers m"
    "readVirtual tr buf (int i) a m = (if byte m a \<noteq> 0 then readVirtual tr (buf[nat (int i) := byte m a]) (int i + 1) (a + 1) m' else Some (Inr (buf[nat (int i) := byte m a], m')))"
    by (rule readVirtual_step [OF Nil.prems(1) c(1), of "int i" buf]) (use c(3) in simp_all)
  then show ?case using c by (auto simp: upd_conv_take_nth_drop)
next
  case (Cons c s)
  have c: "mapped m a" "byte m a = c" "c \<noteq> 0" "i < length buf" using Cons.prems(2,3) [of 0] Cons.prems(5,6) by auto
  obtain m1 where m0: "ok m1" "mapped m1 = mapped m" "writable m1 = writable m" "byte m1 = byte m" "registers m1 = registers m"
    "readVirtual tr buf (int i) a m = (if byte m a \<noteq> 0 then readVirtual tr (buf[nat (int i) := byte m a]) (int i + 1) (a + 1) m1 else Some (Inr (buf[nat (int i) := byte m a], m1)))"
    by (rule readVirtual_step [OF Cons.prems(1) c(1), of "int i" buf]) (use c(4) in simp_all)
  then have m1: "ok m1" "mapped m1 = mapped m" "writable m1 = writable m"
    "byte m1 = byte m" "registers m1 = registers m" "readVirtual tr buf (int i) a m = readVirtual tr (buf[i := c]) (int i + 1) (a + 1) m1" using c by simp_all
  have "\<exists>m'. readVirtual tr (buf[i := c]) (int (i + 1)) (a + 1) m1 =
      Some (Inr (take (i + 1) (buf[i := c]) @ s @ [0] @ drop (i + 1 + length s + 1) (buf[i := c]), m')) \<and> ok m' \<and> mapped m' = mapped m1 \<and>
    writable m' = writable m1 \<and> byte m' = byte m1 \<and> registers m' = registers m1"
  proof (rule Cons.IH)
    show "mapped m1 (a + 1 + of_nat k)" if "k \<le> length s" for k using Cons.prems(2) [of "Suc k"] that m1(2) by (simp add: add.assoc)
    show "byte m1 (a + 1 + of_nat k) = s ! k" if "k < length s" for k using Cons.prems(3) [of "Suc k"] that m1(4) by (simp add: add.assoc)
    show "byte m1 (a + 1 + of_nat (length s)) = 0" using Cons.prems(4) m1(4) by (simp add: add.assoc)
  qed (use m1(1) Cons.prems(5,6) in auto)
  moreover have "take (i + 1) (buf[i := c]) = take i buf @ [c]" using c(4) by (simp add: take_Suc_conv_app_nth)
  ultimately show ?case using m1 by (auto simp: add.commute)
qed

text \<open>Without a NUL the loop runs out of the array.\<close>

lemma readVirtual_overrun:
  assumes "ok m" "\<And>k. k \<le> length buf - i \<Longrightarrow> mapped m (a + of_nat k)" "\<And>k. k < length buf - i \<Longrightarrow> byte m (a + of_nat k) \<noteq> 0" "i \<le> length buf"
  shows "readVirtual tr buf (int i) a m = Some (Inl OutOfBounds)"
  using assms
proof (induction "length buf - i" arbitrary: buf i a m)
  case 0
  then have "mapped m a" "int i = int (length buf)" using 0(3) [of 0] by auto
  then show ?case using load [OF 0(2), of a] by (subst readVirtual.simps) (auto simp: arr_set_def)
next
  case (Suc n)
  then have i: "i < length buf" "mapped m a" "byte m a \<noteq> 0" using Suc(4,5) [of 0] by auto
  obtain m1 where "ok m1" "mapped m1 = mapped m" "writable m1 = writable m" "byte m1 = byte m" "registers m1 = registers m"
    "readVirtual tr buf (int i) a m = (if byte m a \<noteq> 0 then readVirtual tr (buf[nat (int i) := byte m a]) (int i + 1) (a + 1) m1 else Some (Inr (buf[nat (int i) := byte m a], m1)))"
    by (rule readVirtual_step [OF Suc(3) i(2), of "int i" buf]) (use i(1) in simp_all)
  then have m1: "ok m1" "mapped m1 = mapped m" "byte m1 = byte m"
    "readVirtual tr buf (int i) a m = readVirtual tr (buf[i := byte m a]) (int i + 1) (a + 1) m1" using i(3) by simp_all
  have "readVirtual tr (buf[i := byte m a]) (int (i + 1)) (a + 1) m1 = Some (Inl OutOfBounds)"
  proof (rule Suc(1))
    show "mapped m1 (a + 1 + of_nat k)" if "k \<le> length (buf[i := byte m a]) - (i + 1)" for k using Suc(4) [of "Suc k"] that m1(2) i(1) by (simp add: add.assoc)
    show "byte m1 (a + 1 + of_nat k) \<noteq> 0" if "k < length (buf[i := byte m a]) - (i + 1)" for k using Suc(5) [of "Suc k"] that m1(3) i(1) by (simp add: add.assoc)
  qed (use m1(1) i Suc(2) in auto)
  then show ?case using m1(4) by (simp add: add.commute)
qed

lemma writeVirtual_string:
  assumes "ok m" "drop i buf = s @ 0 # rest" "0 \<notin> set s" "\<And>k. k < length s \<Longrightarrow> writable m (a + of_nat k)"
  shows "\<exists>m'. writeVirtual tr buf (int i) a m = Some (Inr m') \<and> ok m' \<and> mapped m' = mapped m \<and> writable m' = writable m \<and>
    byte m' = put_bytes (byte m) a s \<and> registers m' = registers m"
  using assms
proof (induction s arbitrary: i a m)
  case Nil
  then have "i < length buf" "buf ! i = 0" using drop_Cons_nth [of i buf 0 rest] by auto
  then have "writeVirtual tr buf (int i) a m = Some (Inr m)" by (subst writeVirtual.simps) (simp add: arr_get_def)
  then show ?case using Nil.prems(1) by simp
next
  case (Cons c s)
  then have c: "i < length buf" "buf ! i = c" "c \<noteq> 0" "drop (i + 1) buf = s @ 0 # rest" using drop_Cons_nth [of i buf c "s @ 0 # rest"] by auto
  obtain m1 where m1: "write_until tr a (scast c) m = Some (Inr m1)" "ok m1" "mapped m1 = mapped m" "writable m1 = writable m"
    "byte m1 = (byte m)(a := c)" "registers m1 = registers m" using store [OF Cons.prems(1), of a c] Cons.prems(4) [of 0] by auto
  have "\<exists>m'. writeVirtual tr buf (int (i + 1)) (a + 1) m1 = Some (Inr m') \<and> ok m' \<and> mapped m' = mapped m1 \<and> writable m' = writable m1 \<and>
    byte m' = put_bytes (byte m1) (a + 1) s \<and> registers m' = registers m1"
  proof (rule Cons.IH [OF m1(2) c(4)])
    show "writable m1 (a + 1 + of_nat k)" if "k < length s" for k using Cons.prems(4) [of "Suc k"] that m1(4) by (simp add: add.assoc)
  qed (use Cons.prems(3) in simp)
  moreover have "writeVirtual tr buf (int i) a m = writeVirtual tr buf (int i + 1) (a + 1) m1"
    using c m1(1) by (subst writeVirtual.simps) (simp add: arr_get_def)
  ultimately show ?case using m1 by (auto simp: add.commute)
qed

end

section \<open>Programs in a linear page table\<close>

text \<open>
  The machine of a build without virtual memory: all pages of the program are in frames of their own. No access to a mapped
  byte raises an exception, so the contract holds for every handler \<open>tr\<close>.
\<close>

definition lin_ok :: "Machine \<Rightarrow> bool" where
  "lin_ok m \<longleftrightarrow> machine_wf m \<and> tlb m = None \<and> (\<forall>e \<in> set (spaceTable m). te_valid e \<and> 0 \<le> physicalPage e \<and> physicalPage e < 32) \<and>
     distinct (map physicalPage (spaceTable m))"

definition lin_mapped :: "Machine \<Rightarrow> 32 word \<Rightarrow> bool" where
  "lin_mapped m a \<longleftrightarrow> uint a div 128 < int (length (spaceTable m))"

definition lin_entry :: "Machine \<Rightarrow> 32 word \<Rightarrow> TranslationEntry" where
  "lin_entry m a = spaceTable m ! nat (uint a div 128)"

definition lin_writable :: "Machine \<Rightarrow> 32 word \<Rightarrow> bool" where
  "lin_writable m a \<longleftrightarrow> lin_mapped m a \<and> \<not> readOnly (lin_entry m a)"

definition lin_byte :: "Machine \<Rightarrow> 32 word \<Rightarrow> 8 word" where
  "lin_byte m a = (if lin_mapped m a then mem_byte m (physicalPage (lin_entry m a) * 128 + uint a mod 128) else 0)"

lemma lin_idx: "lin_mapped m a \<Longrightarrow> nat (uint a div 128) < length (spaceTable m)"
  using pos_imp_zdiv_nonneg_iff [of 128 "uint a"] by (simp add: lin_mapped_def nat_less_iff)

lemma lin_same:
  assumes "same_tables m m'" "tlb m' = None"
  shows "lin_mapped m' = lin_mapped m" "lin_mapped m a \<Longrightarrow> same_map (lin_entry m a) (lin_entry m' a)"
    "lin_writable m' = lin_writable m" "lin_ok m \<Longrightarrow> machine_wf m' \<Longrightarrow> lin_ok m'"
proof -
  have t: "list_all2 same_map (spaceTable m) (spaceTable m')" using assms(1) by (simp add: same_tables_def)
  then have len: "length (spaceTable m') = length (spaceTable m)" by (simp add: list_all2_lengthD)
  show mp: "lin_mapped m' = lin_mapped m" by (rule ext) (simp add: lin_mapped_def len)
  show e: "same_map (lin_entry m a) (lin_entry m' a)" if "lin_mapped m a" for a
    using list_all2_nthD [OF t lin_idx [OF that]] by (simp add: lin_entry_def)
  show "lin_writable m' = lin_writable m" by (rule ext) (use e in \<open>auto simp: lin_writable_def mp same_map_def\<close>)
  have p: "map physicalPage (spaceTable m') = map physicalPage (spaceTable m)"
    using t by (induction rule: list_all2_induct) (auto simp: same_map_def)
  have ent: "te_valid e \<and> 0 \<le> physicalPage e \<and> physicalPage e < 32" if ok: "lin_ok m" and e: "e \<in> set (spaceTable m')" for e
  proof -
    obtain i where i: "i < length (spaceTable m)" "e = spaceTable m' ! i" using e len by (metis in_set_conv_nth)
    then have "same_map (spaceTable m ! i) e" using list_all2_nthD [OF t i(1)] by simp
    then show ?thesis using ok nth_mem [OF i(1)] by (auto simp: lin_ok_def same_map_def)
  qed
  show "lin_ok m'" if ok: "lin_ok m" and wf: "machine_wf m'"
  proof -
    have "distinct (map physicalPage (spaceTable m'))" unfolding p using ok by (simp add: lin_ok_def)
    then show ?thesis unfolding lin_ok_def using wf assms(2) ent [OF ok] by blast
  qed
qed

lemma lin_translate:
  assumes "lin_ok m" "lin_mapped m a" "wr \<longrightarrow> lin_writable m a"
  shows "\<exists>m'. Translate a 1 wr m = Inr (Inr (physicalPage (lin_entry m a) * 128 + uint a mod 128, m')) \<and> tlb m' = None"
proof -
  let ?v = "uint a div 128" and ?e = "lin_entry m a"
  have e: "te_valid ?e" "0 \<le> physicalPage ?e" "physicalPage ?e < 32" using assms(1) nth_mem [OF lin_idx [OF assms(2)]] by (auto simp: lin_ok_def lin_entry_def)
  have t: "tlb m = None" "0 \<le> ?v" "?v < int (length (spaceTable m))" "nat ?v < length (spaceTable m)"
    using assms(1,2) lin_idx [OF assms(2)] pos_imp_zdiv_nonneg_iff [of 128 "uint a"] by (simp_all add: lin_ok_def lin_mapped_def)
  have f: "find_entry ?v m = Inr (nat ?v)" "entry_at m (nat ?v) = ?e" using t e by (simp_all add: find_entry_def lin_entry_def entry_at_def)
  let ?m0 = "set_entry (nat ?v) (?e\<lparr>te_use := True\<rparr>) m"
  obtain m1 where m1: "mark_used ?v ?m0 = Inr m1" using mark_used_in_range [OF t(2), of ?m0] t(3) by auto
  have t1: "tlb m1 = None" using mark_used_ok [OF m1] t(1) by (auto simp: same_tables_def set_entry_def)
  have "physicalPage ?e mod 2 ^ 32 = physicalPage ?e" using e by simp
  moreover have "0 \<le> uint a mod 128" "uint a mod 128 < 128" by simp_all
  moreover have "\<not> (readOnly ?e \<and> wr)" using assms(3) by (auto simp: lin_writable_def)
  ultimately have "Translate a 1 wr m = Inr (Inr (physicalPage ?e * 128 + uint a mod 128, mark_dirty wr (nat ?v) m1))"
    using e m1 by (simp add: Translate_def Let_def f misaligned_def ASSERT_def)
  then show ?thesis using t1 by (auto simp: mark_dirty_def set_entry_def)
qed

lemma lin_read:
  assumes "lin_ok m" "lin_mapped m a"
  shows "\<exists>m'. read_until tr a m = Some (Inr (scast (lin_byte m a), m')) \<and> lin_ok m' \<and> lin_mapped m' = lin_mapped m \<and>
    lin_writable m' = lin_writable m \<and> lin_byte m' = lin_byte m \<and> registers m' = registers m"
proof -
  let ?pa = "physicalPage (lin_entry m a) * 128 + uint a mod 128"
  obtain m' where m': "Translate a 1 False m = Inr (Inr (?pa, m'))" "tlb m' = None" using lin_translate [OF assms, of False] by auto
  note t = Translate_Inr [OF m'(1), simplified]
  have f: "same_tables m m'" "mainMemory m' = mainMemory m" "registers m' = registers m" using t by auto
  have wf: "machine_wf m'" using f assms(1) by (simp add: lin_ok_def machine_wf_def)
  note s = lin_same(1,3) [OF f(1) m'(2)] lin_same(4) [OF f(1) m'(2) assms(1) wf] lin_same(2) [OF f(1) m'(2)]
  have b: "lin_byte m' = lin_byte m"
    by (rule ext) (use s(1,4) f(2) in \<open>auto simp: lin_byte_def same_map_def mem_byte_def\<close>)
  have "read_until tr a m = Some (Inr (scast (lin_byte m a), m'))"
    using m'(1) assms(2) f(2) by (subst read_until.simps) (simp add: ReadMem_def load_bytes_def lin_byte_def mem_byte_def)
  then show ?thesis using s b f by blast
qed

lemma page_offset_eq:
  assumes "q * 128 + x mod 128 = r * 128 + y mod (128 :: int)"
  shows "q = r" "x mod 128 = y mod 128"
proof -
  have "(q * 128 + x mod 128) div 128 = q" "(r * 128 + y mod 128) div 128 = r" by simp_all
  then show "q = r" using assms by simp
  then show "x mod 128 = y mod 128" using assms by simp
qed

lemma lin_disjoint:
  assumes "lin_ok m" "lin_mapped m a" "lin_mapped m b" "a \<noteq> b"
  shows "physicalPage (lin_entry m b) * 128 + uint b mod 128 \<noteq> physicalPage (lin_entry m a) * 128 + uint a mod 128"
proof
  assume eq: "physicalPage (lin_entry m b) * 128 + uint b mod 128 = physicalPage (lin_entry m a) * 128 + uint a mod 128"
  note o = page_offset_eq [OF eq]
  have "nat (uint b div 128) = nat (uint a div 128)"
    using assms(1) lin_idx [OF assms(2)] lin_idx [OF assms(3)] o(1)
      nth_eq_iff_index_eq [of "map physicalPage (spaceTable m)" "nat (uint b div 128)" "nat (uint a div 128)"] by (simp add: lin_ok_def lin_entry_def)
  then have "uint b div 128 = uint a div 128" by (simp add: eq_nat_nat_iff pos_imp_zdiv_nonneg_iff)
  then have "uint b = uint a" using o(2) by (metis mult_div_mod_eq)
  then show False using assms(4) by (simp add: word_uint_eq_iff)
qed

lemma lin_write:
  assumes "lin_ok m" "lin_writable m a"
  shows "\<exists>m'. write_until tr a (scast c) m = Some (Inr m') \<and> lin_ok m' \<and> lin_mapped m' = lin_mapped m \<and>
    lin_writable m' = lin_writable m \<and> lin_byte m' = (lin_byte m)(a := c) \<and> registers m' = registers m"
proof -
  let ?pa = "physicalPage (lin_entry m a) * 128 + uint a mod 128"
  have mp: "lin_mapped m a" using assms(2) by (simp add: lin_writable_def)
  obtain m1 where m1: "Translate a 1 True m = Inr (Inr (?pa, m1))" "tlb m1 = None" using lin_translate [OF assms(1) mp, of True] assms(2) by blast
  have f: "same_tables m m1" "mainMemory m1 = mainMemory m" "registers m1 = registers m" "0 \<le> ?pa" "?pa + 1 \<le> 4096"
    using Translate_Inr [OF m1(1)] by auto
  define m' where "m' = set_byte ?pa c m1"
  have t': "same_tables m m'" "tlb m' = None" "machine_wf m'" using f m1(2) assms(1) by (auto simp: m'_def set_byte_def lin_ok_def machine_wf_def same_tables_def)
  note s = lin_same(1,3) [OF t'(1,2)] lin_same(4) [OF t'(1,2) assms(1) t'(3)] lin_same(2) [OF t'(1,2)]
  have len: "nat ?pa < length (mainMemory m)" using f(4,5) assms(1) by (simp add: lin_ok_def machine_wf_def)
  have b: "lin_byte m' x = ((lin_byte m)(a := c)) x" for x
  proof (cases "lin_mapped m x")
    case True
    have pg: "physicalPage (lin_entry m' x) = physicalPage (lin_entry m x)" "physicalPage (lin_entry m' a) = physicalPage (lin_entry m a)"
      using s(4) [OF True] s(4) [OF mp] by (auto simp: same_map_def)
    have nn: "0 \<le> physicalPage (lin_entry m x) * 128 + uint x mod 128"
      using assms(1) nth_mem [OF lin_idx [OF True]] by (auto simp: lin_ok_def lin_entry_def)
    show ?thesis
    proof (cases "x = a")
      case True
      then show ?thesis using mp s(1) pg len f(2) by (simp add: lin_byte_def m'_def set_byte_def mem_byte_def)
    next
      case False
      then have "nat (physicalPage (lin_entry m x) * 128 + uint x mod 128) \<noteq> nat ?pa" using lin_disjoint [OF assms(1) mp True] nn f(4) by (simp add: eq_nat_nat_iff)
      then show ?thesis using False True s(1) pg f(2) by (simp add: lin_byte_def m'_def set_byte_def mem_byte_def)
    qed
  next
    case False
    then show ?thesis using mp s(1) by (auto simp: lin_byte_def)
  qed
  have "write_until tr a (scast c) m = Some (Inr m')"
    using m1(1) by (subst write_until.simps) (simp add: WriteMem_def store_bytes_def char_int m'_def)
  moreover have "registers m' = registers m" using f(3) by (simp add: m'_def)
  ultimately show ?thesis using s b by blast
qed

interpretation lin: user_memory tr lin_ok lin_mapped lin_writable lin_byte for tr
  by unfold_locales (blast intro: lin_read lin_write)+

section \<open>The calls on a linear page table\<close>

lemma ReadRegister_ok: "machine_wf m \<Longrightarrow> i < 40 \<Longrightarrow> ReadRegister (int i) m = Inr (reg m i)"
  by (simp add: ReadRegister_def machine_wf_def ASSERT_def arr_get_def)

lemma args_ok:
  assumes "lin_ok m"
  shows "ReadRegister 4 m = Inr (reg m 4)" "ReadRegister 5 m = Inr (reg m 5)" "ReadRegister 6 m = Inr (reg m 6)"
  using assms ReadRegister_ok [of m 4] ReadRegister_ok [of m 5] ReadRegister_ok [of m 6] by (auto simp: lin_ok_def)

lemma set_r2_ok: "machine_wf (machine s) \<Longrightarrow> set_r2 v s = Some (Inr (s\<lparr>machine := set_reg 2 (word_of_int v) (machine s)\<rparr>))"
  by (simp add: set_r2_def WriteRegister_def set_reg_def machine_wf_def ASSERT_def arr_set_def)

lemma lin_set_reg [simp]:
  "lin_ok (set_reg i v m) \<longleftrightarrow> lin_ok m" "lin_mapped (set_reg i v m) = lin_mapped m" "lin_writable (set_reg i v m) = lin_writable m" "lin_byte (set_reg i v m) = lin_byte m"
  by (auto simp: set_reg_def lin_ok_def lin_mapped_def lin_writable_def lin_byte_def lin_entry_def machine_wf_def mem_byte_def fun_eq_iff)

text \<open>A string of the user program: \<open>str\<close> and a NUL behind it, all of it mapped.\<close>

definition user_string :: "Machine \<Rightarrow> 32 word \<Rightarrow> bytes \<Rightarrow> bool" where
  "user_string m a str \<longleftrightarrow> (\<forall>k \<le> length str. lin_mapped m (a + of_nat k)) \<and> 0 \<notin> set str \<and>
     (\<forall>k \<le> length str. lin_byte m (a + of_nat k) = (str @ [0]) ! k)"

lemma user_string_read:
  assumes "lin_ok m" "user_string m a str" "length str < length buf"
  shows "\<exists>m'. readVirtual tr buf 0 a m = Some (Inr (str @ [0] @ drop (length str + 1) buf, m')) \<and> lin_ok m' \<and> lin_mapped m' = lin_mapped m \<and>
    lin_writable m' = lin_writable m \<and> lin_byte m' = lin_byte m \<and> registers m' = registers m"
  using lin.readVirtual_string [OF assms(1), where s = str and i = 0 and buf = buf and a = a and tr = tr] assms(2,3)
  by (auto simp: user_string_def nth_append)

lemma file_of:
  assumes "oft_inv t" "3 \<le> f" "f < 128" "f \<in> oft_dom t"
  shows "isOpen t f = Inr True" "getUnixFileID t f = Inr (openFiles t ! nat f)"
  using assms isOpen_eq [of t f] by (auto simp: getUnixFileID_def arr_get_def oft_inv_def)

lemma sint_Suc:
  assumes "0 \<le> sint n" "sint n < 2 ^ 31 - 1"
  shows "sint (n + 1 :: 32 word) = sint n + 1"
  using assms by (simp add: sint_word_ariths signed_take_bit_int_eq_self)

section \<open>Properties\<close>


text \<open>A program with one page in frame 5, whose memory and arguments are given, and a host that only logs what is written.\<close>

definition demo_sys :: "8 word list \<Rightarrow> 32 word \<Rightarrow> openFilesTable \<Rightarrow> (int \<times> bytes \<times> int) list sys" where
  "demo_sys mem f t = \<lparr>machine = one_page_machine\<lparr>mainMemory := mem, registers := (replicate 40 0)[4 := 16, 5 := 2, 6 := f]\<rparr>,
     files = t, host = [], conIn = [], conOut = []\<rparr>"

definition log_unix :: "(int \<times> bytes \<times> int) list unix" where
  "log_unix = \<lparr>u_creat = \<lambda>_ h. h, u_open = \<lambda>_ h. (3, h), u_read = \<lambda>_ _ h. (1, [65], h), u_write = \<lambda>f b n h. (n, (f, b, n) # h), u_close = \<lambda>_ h. h\<rparr>"

lemma log_unix_sel [simp]: "u_write log_unix f b n h = (n, (f, b, n) # h)" "u_read log_unix f n h = (1, [65], h)"
  by (simp_all add: log_unix_def)

lemma demo_regs [simp]:
  "reg (machine (demo_sys mem f t)) 4 = 16" "reg (machine (demo_sys mem f t)) 5 = 2" "reg (machine (demo_sys mem f t)) 6 = f"
  "files (demo_sys mem f t) = t" "host (demo_sys mem f t) = []"
  by (simp_all add: demo_sys_def)

lemma demo_mem [simp]:
  "length mem = 4096 \<Longrightarrow> lin_ok (machine (demo_sys mem f t))"
  "k < 112 \<Longrightarrow> lin_mapped (machine (demo_sys mem f t)) (16 + of_nat k)"
  "k < 112 \<Longrightarrow> lin_writable (machine (demo_sys mem f t)) (16 + of_nat k)"
  "k < 112 \<Longrightarrow> lin_byte (machine (demo_sys mem f t)) (16 + of_nat k) = mem ! (656 + k)"
proof -
  have u: "uint (16 + of_nat k :: 32 word) = int (16 + k)" if "k < 112" for k
    using that by (simp add: uint_word_ariths take_bit_int_eq_self unsigned_of_nat take_bit_nat_eq_self)
  show "length mem = 4096 \<Longrightarrow> lin_ok (machine (demo_sys mem f t))"
    by (simp add: lin_ok_def demo_sys_def one_page_machine_def new_Machine_def machine_wf_def)
  show m: "lin_mapped (machine (demo_sys mem f t)) (16 + of_nat k)" if "k < 112"
    using that unfolding lin_mapped_def u [OF that] by (simp add: demo_sys_def one_page_machine_def)
  have e: "lin_entry (machine (demo_sys mem f t)) (16 + of_nat k) = spaceTable one_page_machine ! 0" if "k < 112"
    using that unfolding lin_entry_def u [OF that] by (simp add: demo_sys_def)
  show "lin_writable (machine (demo_sys mem f t)) (16 + of_nat k)" if "k < 112"
    using m [OF that] e [OF that] by (simp add: lin_writable_def one_page_machine_def)
  show "lin_byte (machine (demo_sys mem f t)) (16 + of_nat k) = mem ! (656 + k)" if "k < 112"
    using m [OF that] e [OF that] that unfolding lin_byte_def u [OF that] by (simp add: one_page_machine_def mem_byte_def demo_sys_def nat_add_distrib)
qed

lemma demo_table:
  obtains t k where "oft_inv t" "3 \<le> k" "k < 128" "k \<in> oft_dom t" "sint (word_of_int k :: 32 word) = k"
proof -
  obtain t0 where t0: "oft_inv t0" "oft_dom t0 = {0, 1, 2}" using new_openFilesTable_ok by blast
  have "(3 :: int) \<in> {0..<128} \<and> 3 \<notin> oft_dom t0" by (simp add: t0(2))
  then have "oft_dom t0 \<noteq> {0..<128}" by blast
  then obtain k t where k: "0 \<le> k" "k < 128" "k \<notin> {0, 1, 2}" "oft_inv t" "oft_dom t = insert k {0, 1, 2}"
    using Open_free [OF t0(1), of 7] t0(2) by metis
  then have "sint (word_of_int k :: 32 word) = k" by (intro sint_in_range) simp_all
  then show ?thesis using that [of t k] k by auto
qed


text \<open>
  (C39) Write does not respect its size: whatever the file, when none of the first size + 1 bytes of the user's buffer is a NUL, the copy
  runs past the end of the kernel's buffer.
\<close>

theorem Write_overruns_kernel_buffer:
  assumes "lin_ok (machine s)" "0 \<le> sint (reg (machine s) 5)" "sint (reg (machine s) 5) < 2 ^ 31 - 1"
    and "\<forall>k \<le> nat (sint (reg (machine s) 5)) + 1. lin_mapped (machine s) (reg (machine s) 4 + of_nat k)"
    and "\<forall>k \<le> nat (sint (reg (machine s) 5)). lin_byte (machine s) (reg (machine s) 4 + of_nat k) \<noteq> 0"
  shows "Nachos_Write tr u junk s = Some (Inl OutOfBounds)"
proof -
  let ?m = "machine s" and ?n = "sint (reg (machine s) 5)"
  let ?j = "map junk [0..<nat (?n + 1)]"
  have nc: "new_chars junk (sint (reg ?m 5 + 1)) = Inr ?j" using assms(2,3) sint_Suc [of "reg ?m 5"] by (simp add: new_chars_def)
  have l: "length ?j = nat ?n + 1" using assms(2) by simp
  have "readVirtual tr ?j (int 0) (reg ?m 4) ?m = Some (Inl OutOfBounds)"
    by (rule lin.readVirtual_overrun [OF assms(1)]) (use assms(4,5) l in \<open>simp_all add: less_Suc_eq_le\<close>)
  then show ?thesis by (simp add: Nachos_Write_def args_ok [OF assms(1)] nc)
qed

theorem Write_overruns_kernel_buffer_witness:
  "\<exists>t. Nachos_Write no_trap log_unix (\<lambda>_. 9) (demo_sys (replicate 4096 7) 1 t) = Some (Inl OutOfBounds)"
  using Write_overruns_kernel_buffer [of "demo_sys (replicate 4096 7) 1 t" no_trap log_unix "\<lambda>_. 9" for t] by simp

text \<open>
  Read on an open file: register 2 gets the result of the host's read, but the program gets the bytes up to the first NUL of the kernel's
  buffer, which holds what was read and behind it what the storage happened to hold.
\<close>

theorem Read_copies_up_to_NUL:
  assumes "lin_ok (machine s)" "0 \<le> sint (reg (machine s) 5)" "sint (reg (machine s) 5) < 2 ^ 31 - 1"
    and "oft_inv (files s)" "3 \<le> sint (reg (machine s) 6)" "sint (reg (machine s) 6) < 128" "sint (reg (machine s) 6) \<in> oft_dom (files s)"
    and "u_read u (openFiles (files s) ! nat (sint (reg (machine s) 6))) (sint (reg (machine s) 5)) (host s) = (result, bs, h)"
    and "bs @ map junk [length bs..<nat (sint (reg (machine s) 5)) + 1] = str @ 0 # rest" "0 \<notin> set str" "length bs \<le> nat (sint (reg (machine s) 5))"
    and "\<forall>k < length str. lin_writable (machine s) (reg (machine s) 4 + of_nat k)"
  shows "\<exists>s'. Nachos_Read tr u junk s = Some (Inr s') \<and> reg (machine s') 2 = word_of_int result \<and> host s' = h \<and> files s' = files s \<and>
    lin_byte (machine s') = put_bytes (lin_byte (machine s)) (reg (machine s) 4) str"
proof -
  let ?m = "machine s" and ?n = "sint (reg (machine s) 5)"
  let ?j = "map junk [0..<nat (?n + 1)]" and ?m1 = "set_reg 2 (word_of_int result) (machine s)"
  have n1: "nat (?n + 1) = nat ?n + 1" using assms(2) by simp
  have nc: "new_chars junk (sint (reg ?m 5 + 1)) = Inr ?j" using assms(2,3) sint_Suc [of "reg ?m 5"] by (simp add: new_chars_def)
  have bf: "bs @ drop (length bs) ?j = str @ 0 # rest" using assms(9,11) unfolding n1 by (simp add: drop_map)
  obtain m' where m': "writeVirtual tr (str @ 0 # rest) (int 0) (reg ?m 4) ?m1 = Some (Inr m')" "lin_byte m' = put_bytes (lin_byte ?m) (reg ?m 4) str" "registers m' = registers ?m1"
    using lin.writeVirtual_string [where i = 0 and buf = "str @ 0 # rest" and s = str and m = ?m1 and tr = tr and a = "reg ?m 4"] assms(1,10,12) by auto
  have wf: "machine_wf ?m" "2 < length (registers ?m)" using assms(1) by (auto simp: lin_ok_def machine_wf_def)
  have f: "sint (reg ?m 6) \<noteq> 0" "sint (reg ?m 6) \<noteq> 1" "sint (reg ?m 6) \<noteq> 2" "\<not> length ?j < length bs" using assms(5,11) n1 by auto
  have "read_from u (sint (reg ?m 6)) ?j ?n s = Some (Inr (str @ 0 # rest, s\<lparr>host := h, machine := ?m1\<rparr>))"
    using wf f bf by (simp add: read_from_def file_of [OF assms(4-7)] assms(8) set_r2_ok)
  then have "Nachos_Read tr u junk s = Some (Inr (s\<lparr>host := h, machine := m'\<rparr>))"
    using m'(1) by (simp add: Nachos_Read_def args_ok [OF assms(1)] nc)
  then show ?thesis using m'(2,3) wf(2) by (simp add: set_reg_def)
qed

theorem Read_copies_up_to_NUL_witness:
  "\<exists>t k s'. Nachos_Read no_trap log_unix (\<lambda>_. 0) (demo_sys (replicate 4096 7) (word_of_int k) t) = Some (Inr s') \<and>
     reg (machine s') 2 = 1 \<and> lin_byte (machine s') 16 = 65 \<and> lin_byte (machine s') 17 = 7"
proof -
  obtain t k where t: "oft_inv t" "3 \<le> k" "k < 128" "k \<in> oft_dom t" "sint (word_of_int k :: 32 word) = k" by (rule demo_table)
  let ?s = "demo_sys (replicate 4096 7) (word_of_int k) t"
  obtain s' where s': "Nachos_Read no_trap log_unix (\<lambda>_. 0) ?s = Some (Inr s')" "reg (machine s') 2 = 1" "lin_byte (machine s') = put_bytes (lin_byte (machine ?s)) 16 [65]"
    using Read_copies_up_to_NUL [of ?s log_unix 1 "[65]" "[]" "\<lambda>_. 0" "[65]" "[0]" no_trap] t demo_mem(3) [of 0 "replicate 4096 7" "word_of_int k" t] by (auto simp: upt_rec)
  have "lin_byte (machine ?s) (16 + of_nat 1) = 7" by (subst demo_mem) simp_all
  then show ?thesis using s' by (intro exI [of _ t] exI [of _ k] exI [of _ s']) simp
qed

text \<open>
  Read from a file that is not open tells the program -1, and copies to it the uninitialised contents of the kernel's heap, up to a NUL.
\<close>

theorem Read_closed_leaks_heap:
  assumes "lin_ok (machine s)" "0 \<le> sint (reg (machine s) 5)" "sint (reg (machine s) 5) < 2 ^ 31 - 1"
    and "oft_inv (files s)" "3 \<le> sint (reg (machine s) 6)" "sint (reg (machine s) 6) < 128" "sint (reg (machine s) 6) \<notin> oft_dom (files s)"
    and "map junk [0..<nat (sint (reg (machine s) 5)) + 1] = str @ 0 # rest" "0 \<notin> set str"
    and "\<forall>k < length str. lin_writable (machine s) (reg (machine s) 4 + of_nat k)"
  shows "\<exists>s'. Nachos_Read tr u junk s = Some (Inr s') \<and> reg (machine s') 2 = - 1 \<and> host s' = host s \<and>
    lin_byte (machine s') = put_bytes (lin_byte (machine s)) (reg (machine s) 4) str"
proof -
  let ?m = "machine s" and ?n = "sint (reg (machine s) 5)"
  let ?m1 = "set_reg 2 (- 1) (machine s)"
  have n1: "nat (?n + 1) = nat ?n + 1" using assms(2) by simp
  have nc: "new_chars junk (sint (reg ?m 5 + 1)) = Inr (str @ 0 # rest)"
    using assms(2,3,8) sint_Suc [of "reg ?m 5"] n1 by (simp add: new_chars_def)
  obtain m' where m': "writeVirtual tr (str @ 0 # rest) (int 0) (reg ?m 4) ?m1 = Some (Inr m')" "lin_byte m' = put_bytes (lin_byte ?m) (reg ?m 4) str" "registers m' = registers ?m1"
    using lin.writeVirtual_string [where i = 0 and buf = "str @ 0 # rest" and s = str and m = ?m1 and tr = tr and a = "reg ?m 4"] assms(1,9,10) by auto
  have wf: "machine_wf ?m" "2 < length (registers ?m)" using assms(1) by (auto simp: lin_ok_def machine_wf_def)
  have f: "sint (reg ?m 6) \<noteq> 0" "sint (reg ?m 6) \<noteq> 1" "sint (reg ?m 6) \<noteq> 2" "isOpen (files s) (sint (reg ?m 6)) = Inr False"
    using assms(5-7) isOpen_eq [OF assms(4), of "sint (reg ?m 6)"] by auto
  have "read_from u (sint (reg ?m 6)) (str @ 0 # rest) ?n s = Some (Inr (str @ 0 # rest, s\<lparr>machine := ?m1\<rparr>))"
    using wf f by (simp add: read_from_def set_r2_ok)
  then have "Nachos_Read tr u junk s = Some (Inr (s\<lparr>machine := m'\<rparr>))"
    using m'(1) by (simp add: Nachos_Read_def args_ok [OF assms(1)] nc)
  then show ?thesis using m'(2,3) wf(2) by (simp add: set_reg_def)
qed

theorem Read_closed_leaks_heap_witness:
  "\<exists>t s'. Nachos_Read no_trap log_unix (\<lambda>i. if i = 0 then 83 else 0) (demo_sys (replicate 4096 7) 9 t) = Some (Inr s') \<and>
     reg (machine s') 2 = - 1 \<and> lin_byte (machine s') 16 = 83"
proof -
  obtain t where t: "oft_inv t" "oft_dom t = {0, 1, 2}" using new_openFilesTable_ok by blast
  let ?s = "demo_sys (replicate 4096 7) 9 t"
  obtain s' where "Nachos_Read no_trap log_unix (\<lambda>i. if i = 0 then 83 else 0) ?s = Some (Inr s')" "reg (machine s') 2 = - 1"
    "lin_byte (machine s') = put_bytes (lin_byte (machine ?s)) 16 [83]"
    using Read_closed_leaks_heap [of ?s "\<lambda>i. if i = 0 then 83 else 0" "[83]" "[0]" no_trap log_unix] t demo_mem(3) [of 0 "replicate 4096 7" 9 t] by (auto simp: upt_rec)
  then show ?thesis by (intro exI [of _ t] exI [of _ s']) simp
qed

section \<open>The registers across a call\<close>

text \<open>In a build without virtual memory every exception but a system call is unexpected and ends the kernel.\<close>

definition abort_trap :: trap where
  "abort_trap x m = Inl AssertFailed"

definition keeps_regs :: "Machine \<Rightarrow> Machine \<Rightarrow> bool" where
  "keeps_regs m m' \<longleftrightarrow> (machine_wf m \<longrightarrow> machine_wf m' \<and> registers m' = registers m)"

lemma keeps_regs_trans: "keeps_regs m m' \<Longrightarrow> keeps_regs m' m'' \<Longrightarrow> keeps_regs m m''"
  by (auto simp: keeps_regs_def)

lemma Translate_keeps: "Translate a 1 wr m = Inr (Inr (p, m')) \<Longrightarrow> keeps_regs m m'"
  using Translate_Inr [of a 1 wr m p m'] by (auto simp: keeps_regs_def machine_wf_def)

lemma abort_raise: "RaiseException abort_trap x a m \<noteq> Inr m'"
  by (auto simp: RaiseException_def abort_trap_def bindE_eq_Inr)

lemma read_until_keeps: "read_until abort_trap a m = Some (Inr (v, m')) \<Longrightarrow> keeps_regs m m'"
  by (subst (asm) read_until.simps) (auto simp: ReadMem_def bindE_def abort_raise dest: Translate_keeps split: sum.splits option.splits)

lemma write_until_keeps:
  assumes "write_until abort_trap a v m = Some (Inr m')"
  shows "keeps_regs m m'"
proof -
  obtain p m1 where t: "Translate a 1 True m = Inr (Inr (p, m1))" "store_bytes p 1 v m1 = Inr m'"
    using assms by (subst (asm) write_until.simps) (auto simp: WriteMem_def bindE_def abort_raise split: sum.splits if_splits)
  have "keeps_regs m1 m'" using t(2) by (auto simp: store_bytes_def keeps_regs_def machine_wf_def)
  then show ?thesis using Translate_keeps [OF t(1)] keeps_regs_trans by blast
qed

lemma readVirtual_keeps:
  assumes "readVirtual abort_trap buf i a m = Some (Inr (buf', m'))"
  shows "keeps_regs m m'"
proof -
  let ?P = "\<lambda>tr (buf :: bytes) (i :: int) (a :: 32 word) m (r :: (bytes \<times> Machine) result). tr = abort_trap \<longrightarrow> (\<forall>buf' m'. r = Inr (buf', m') \<longrightarrow> keeps_regs m m')"
  have "?P abort_trap buf i a m (Inr (buf', m'))"
  proof (rule readVirtual.raw_induct [where P = ?P, OF _ assms], goal_cases)
    case (1 rv tr buf i a m r)
    have "keeps_regs m m2" if t: "tr = abort_trap" "r = Inr (buf2, m2)" for buf2 m2
    proof -
      obtain temp m1 where x: "read_until abort_trap a m = Some (Inr (temp, m1))"
        "m2 = m1 \<or> (\<exists>buf1. rv abort_trap buf1 (i + 1) (a + 1) m1 = Some (Inr (buf2, m2)))"
        using 1(2) t by (auto split: option.splits sum.splits if_splits) blast+
      from x(2) have "m2 = m1 \<or> keeps_regs m1 m2" using 1(1) by blast
      then show ?thesis using read_until_keeps [OF x(1)] keeps_regs_trans by blast
    qed
    then show ?case by blast
  qed
  then show ?thesis by blast
qed

lemma writeVirtual_keeps:
  assumes "writeVirtual abort_trap buf i a m = Some (Inr m')"
  shows "keeps_regs m m'"
proof -
  let ?P = "\<lambda>tr (buf :: bytes) (i :: int) (a :: 32 word) m (r :: Machine result). tr = abort_trap \<longrightarrow> (\<forall>m'. r = Inr m' \<longrightarrow> keeps_regs m m')"
  have "?P abort_trap buf i a m (Inr m')"
  proof (rule writeVirtual.raw_induct [where P = ?P, OF _ assms], goal_cases)
    case (1 wv tr buf i a m r)
    have "keeps_regs m m2" if t: "tr = abort_trap" "r = Inr m2" for m2
    proof -
      obtain c where c: "arr_get buf i = Inr c" using 1(2) t by (cases "arr_get buf i") auto
      show ?thesis
      proof (cases "c = 0")
        case True
        then have "m2 = m" using 1(2) t c by simp
        then show ?thesis by (simp add: keeps_regs_def)
      next
        case False
        obtain m1 where m1: "write_until abort_trap a (scast c) m = Some (Inr m1)" "wv abort_trap buf (i + 1) (a + 1) m1 = Some (Inr m2)"
          using 1(2) t c False by (cases "write_until abort_trap a (scast c) m") (auto split: sum.splits)
        then have "keeps_regs m1 m2" using 1(1) by blast
        then show ?thesis using write_until_keeps [OF m1(1)] keeps_regs_trans by blast
      qed
    qed
    then show ?case by blast
  qed
  then show ?thesis by blast
qed

text \<open>A call that only changes register 2.\<close>

definition only_r2 :: "Machine \<Rightarrow> Machine \<Rightarrow> bool" where
  "only_r2 m m' \<longleftrightarrow> (machine_wf m \<longrightarrow> machine_wf m' \<and> (\<forall>i. i \<noteq> 2 \<longrightarrow> reg m' i = reg m i))"

lemma only_r2_trans: "only_r2 m m' \<Longrightarrow> only_r2 m' m'' \<Longrightarrow> only_r2 m m''"
  by (auto simp: only_r2_def)

lemma keeps_only_r2: "keeps_regs m m' \<Longrightarrow> only_r2 m m'"
  by (auto simp: only_r2_def keeps_regs_def)

lemma only_r2_refl [simp]: "only_r2 m m"
  by (simp add: only_r2_def)

lemma set_r2_only: "set_r2 v s = Some (Inr s') \<Longrightarrow> only_r2 (machine s) (machine s')"
  by (auto simp: set_r2_def WriteRegister_def only_r2_def machine_wf_def bindE_eq_Inr arr_set_def split: if_splits)

lemma read_filename_only: "read_filename abort_trap s = Some (Inr (n, s')) \<Longrightarrow> only_r2 (machine s) (machine s')"
  by (auto simp: read_filename_def bindO_Inr dest!: readVirtual_keeps keeps_only_r2)

lemma Create_only: "Nachos_Create abort_trap u s = Some (Inr s') \<Longrightarrow> only_r2 (machine s) (machine s')"
  by (auto simp: Nachos_Create_def bindO_Inr dest!: read_filename_only)

lemma Open_only: "Nachos_Open abort_trap u s = Some (Inr s') \<Longrightarrow> only_r2 (machine s) (machine s')"
  by (auto simp: Nachos_Open_def bindO_Inr split_beta Let_def dest!: read_filename_only set_r2_only intro: only_r2_trans)

lemma Close_only: "Nachos_Close u s = Some (Inr s') \<Longrightarrow> only_r2 (machine s) (machine s')"
  by (auto simp: Nachos_Close_def bindO_Inr split: if_splits)

lemma read_from_only: "read_from u f b n s = Some (Inr (b', s')) \<Longrightarrow> only_r2 (machine s) (machine s')"
  by (auto simp: read_from_def bindO_Inr split_beta Let_def dest!: set_r2_only split: if_splits)

lemma Read_only: "Nachos_Read abort_trap u junk s = Some (Inr s') \<Longrightarrow> only_r2 (machine s) (machine s')"
  by (auto simp: Nachos_Read_def bindO_Inr dest!: read_from_only writeVirtual_keeps keeps_only_r2 intro: only_r2_trans)

lemma write_to_only: "write_to u f b n s = Some (Inr s') \<Longrightarrow> only_r2 (machine s) (machine s')"
  by (auto simp: write_to_def bindO_Inr split_beta Let_def dest!: set_r2_only split: if_splits)

lemma Write_only: "Nachos_Write abort_trap u junk s = Some (Inr s') \<Longrightarrow> only_r2 (machine s) (machine s')"
  by (auto simp: Nachos_Write_def bindO_Inr dest!: write_to_only readVirtual_keeps keeps_only_r2 intro: only_r2_trans)

lemma returnFromSystemCall_ok:
  assumes "machine_wf m"
  shows "returnFromSystemCall m = Inr (set_reg 35 (reg m 35 + 4) (set_reg 34 (reg m 35) (set_reg 36 (reg m 34) m)))"
  using assms by (simp add: returnFromSystemCall_def ReadRegister_def WriteRegister_def machine_wf_def ASSERT_def arr_get_def arr_set_def set_reg_def)



end
