(* ===== verification/Console_Device.thy ===== *)
theory Console_Device
  imports Nachos_Prelude "HOL-Library.Sublist"
begin

text \<open>
  The terminal device of \<open>machine/console.cc\<close> and its test program \<open>ConsoleTest\<close> of \<open>userprog/progtest.cc\<close>.

  \<open>keyboard\<close> is what is still to be read from the UNIX file that stands for the keyboard, and \<open>display\<close> what was written to the one that
  stands for the display. \<open>PollFile\<close> tells whether a read would not block: its answer is an argument of the poll. At the end of a
  file a read does not block and returns nothing, which fails the assertion in \<open>Read\<close> of \<open>machine/sysdep.cc\<close>. Interrupts that are
  scheduled are counted; they occur at any later time. The interrupt handlers of the test program signal its two semaphores.
\<close>

section \<open>The device\<close>

abbreviation (input) EOF :: "8 word" where "EOF \<equiv> 255"

record Console =
  putBusy :: bool
  incoming :: "8 word"
  keyboard :: "8 word list"
  display :: "8 word list"
  readInts :: nat
  writeInts :: nat
  numConsoleCharsRead :: nat
  numConsoleCharsWritten :: nat

definition new_Console :: "8 word list \<Rightarrow> Console" where
  "new_Console kb = \<lparr>putBusy = False, incoming = EOF, keyboard = kb, display = [], readInts = 1, writeInts = 0,
     numConsoleCharsRead = 0, numConsoleCharsWritten = 0\<rparr>"

text \<open>\<open>CheckCharAvail\<close>, the handler of \<open>ConsoleReadInt\<close>; the result tells whether \<open>readHandler\<close> is called.\<close>

definition CheckCharAvail :: "bool \<Rightarrow> Console \<Rightarrow> (bool \<times> Console) result" where
  "CheckCharAvail PollFile c =
     (let c1 = c\<lparr>readInts := readInts c + 1\<rparr> in
      if incoming c1 \<noteq> EOF \<or> \<not> PollFile then Inr (False, c1)
      else case keyboard c1 of
          [] \<Rightarrow> Inl AssertFailed
        | x # xs \<Rightarrow> Inr (True, c1\<lparr>keyboard := xs, incoming := x, numConsoleCharsRead := numConsoleCharsRead c1 + 1\<rparr>))"

definition WriteDone :: "Console \<Rightarrow> Console" where
  "WriteDone c = c\<lparr>putBusy := False, numConsoleCharsWritten := numConsoleCharsWritten c + 1\<rparr>"

definition GetChar :: "Console \<Rightarrow> 8 word \<times> Console" where
  "GetChar c = (incoming c, c\<lparr>incoming := EOF\<rparr>)"

definition PutChar :: "8 word \<Rightarrow> Console \<Rightarrow> Console result" where
  "PutChar ch c =
     bindE (ASSERT (putBusy c = False)) (\<lambda>_.
     Inr (c\<lparr>display := display c @ [ch], putBusy := True, writeInts := writeInts c + 1\<rparr>))"

section \<open>The echo program\<close>

datatype cpc = WaitRead | Get | Put | WaitWrite | IfQuit | Returned

record ctest =
  console :: Console
  readAvail :: nat
  writeDone :: nat
  ch :: "8 word"
  cpc :: cpc

definition start_test :: "8 word list \<Rightarrow> ctest" where
  "start_test kb = \<lparr>console = new_Console kb, readAvail = 0, writeDone = 0, ch = 0, cpc = WaitRead\<rparr>"

datatype cevent = ReadInt bool | WriteInt | Thread

text \<open>An interrupt with its handler, or a statement of \<open>ConsoleTest\<close>; \<open>Inr None\<close> when it cannot happen.\<close>

fun cexec :: "cevent \<Rightarrow> ctest \<Rightarrow> ctest option result" where
  "cexec (ReadInt ready) s =
     (if readInts (console s) = 0 then Inr None
      else bindE (CheckCharAvail ready ((console s)\<lparr>readInts := readInts (console s) - 1\<rparr>)) (\<lambda>(signal, c).
           Inr (Some (s\<lparr>console := c, readAvail := readAvail s + (if signal then 1 else 0)\<rparr>))))"
| "cexec WriteInt s =
     (if writeInts (console s) = 0 then Inr None
      else Inr (Some (s\<lparr>console := WriteDone ((console s)\<lparr>writeInts := writeInts (console s) - 1\<rparr>), writeDone := writeDone s + 1\<rparr>)))"
| "cexec Thread s =
     (case cpc s of
        WaitRead \<Rightarrow> Inr (if readAvail s > 0 then Some (s\<lparr>readAvail := readAvail s - 1, cpc := Get\<rparr>) else None)
      | Get \<Rightarrow> (let (x, c) = GetChar (console s) in Inr (Some (s\<lparr>console := c, ch := x, cpc := Put\<rparr>)))
      | Put \<Rightarrow> bindE (PutChar (ch s) (console s)) (\<lambda>c. Inr (Some (s\<lparr>console := c, cpc := WaitWrite\<rparr>)))
      | WaitWrite \<Rightarrow> Inr (if writeDone s > 0 then Some (s\<lparr>writeDone := writeDone s - 1, cpc := IfQuit\<rparr>) else None)
      | IfQuit \<Rightarrow> Inr (Some (s\<lparr>cpc := (if ch s = 113 then Returned else WaitRead)\<rparr>))
      | Returned \<Rightarrow> Inr None)"

inductive cstep :: "ctest \<Rightarrow> ctest \<Rightarrow> bool" where
  "cexec e s = Inr (Some s') \<Longrightarrow> cstep s s'"

section \<open>Invariant\<close>

definition one :: "bool \<Rightarrow> nat" where
  "one b = (if b then 1 else 0)"

lemma one_simps [simp]: "one True = 1" "one False = 0"
  by (simp_all add: one_def)

text \<open>What was typed is on the display, in the hands of the program, in the device, or still to be read.\<close>

definition in_transit :: "ctest \<Rightarrow> 8 word list" where
  "in_transit s = (if cpc s = Put then [ch s] else []) @ (if incoming (console s) \<noteq> EOF then [incoming (console s)] else [])"

definition flow_ok :: "8 word list \<Rightarrow> ctest \<Rightarrow> bool" where
  "flow_ok kb s \<longleftrightarrow> display (console s) @ in_transit s @ keyboard (console s) = kb"

text \<open>The semaphores and interrupts agree with the buffer of the device and the place in the program.\<close>

definition counts_ok :: "ctest \<Rightarrow> bool" where
  "counts_ok s \<longleftrightarrow> readInts (console s) = 1 \<and> readAvail s + one (cpc s = Get) = one (incoming (console s) \<noteq> EOF) \<and>
     writeInts (console s) + writeDone s = one (cpc s = WaitWrite) \<and> putBusy (console s) = (writeInts (console s) = 1)"

text \<open>The program has not echoed a q, except as the last character.\<close>

definition quit_ok :: "ctest \<Rightarrow> bool" where
  "quit_ok s \<longleftrightarrow> (cpc s = Returned \<longrightarrow> ch s = 113) \<and>
     (if cpc s = WaitWrite \<or> cpc s = IfQuit \<or> cpc s = Returned then \<exists>ds. display (console s) = ds @ [ch s] \<and> 113 \<notin> set ds
      else 113 \<notin> set (display (console s)))"

definition echo_inv :: "8 word list \<Rightarrow> ctest \<Rightarrow> bool" where
  "echo_inv kb s \<longleftrightarrow> flow_ok kb s \<and> counts_ok s \<and> quit_ok s"

lemmas inv_defs = flow_ok_def counts_ok_def quit_ok_def in_transit_def

lemma ReadInt_cases:
  assumes "counts_ok s" "cexec (ReadInt ready) s = Inr (Some s')"
  obtains "s' = s"
  | x xs where "ready" "incoming (console s) = EOF" "keyboard (console s) = x # xs"
      "s' = s\<lparr>console := (console s)\<lparr>keyboard := xs, incoming := x, numConsoleCharsRead := numConsoleCharsRead (console s) + 1\<rparr>, readAvail := readAvail s + 1\<rparr>"
proof -
  obtain c ra wd x p where s: "s = \<lparr>console = c, readAvail = ra, writeDone = wd, ch = x, cpc = p\<rparr>" by (cases s)
  obtain pb i kb d ri wi nr nw where c: "c = \<lparr>putBusy = pb, incoming = i, keyboard = kb, display = d, readInts = ri, writeInts = wi,
    numConsoleCharsRead = nr, numConsoleCharsWritten = nw\<rparr>" by (cases c)
  have "ri = 1" using assms(1) by (simp add: counts_ok_def s c)
  then show ?thesis using assms(2) that unfolding s c by (cases kb) (auto simp: CheckCharAvail_def Let_def split: if_splits)
qed

lemma echo_ReadInt:
  assumes inv: "echo_inv kb s" and no: "255 \<notin> set kb" and x: "cexec (ReadInt ready) s = Inr (Some s')"
  shows "echo_inv kb s'"
proof -
  have c: "counts_ok s" using inv by (simp add: echo_inv_def)
  from c x show ?thesis
  proof (cases rule: ReadInt_cases)
    case (2 x xs)
    have "x \<in> set kb" using inv 2(3) by (auto simp: echo_inv_def flow_ok_def)
    then have "x \<noteq> 255" using no by metis
    then show ?thesis using inv 2 by (auto simp: echo_inv_def inv_defs)
  qed (use inv in simp)
qed

lemma WriteInt_cases:
  assumes "counts_ok s" "cexec WriteInt s = Inr (Some s')"
  shows "cpc s = WaitWrite" "writeInts (console s) = 1" "writeDone s = 0" "cpc s' = cpc s" "ch s' = ch s" "readAvail s' = readAvail s" "writeDone s' = 1"
    "keyboard (console s') = keyboard (console s)" "display (console s') = display (console s)" "incoming (console s') = incoming (console s)"
    "readInts (console s') = readInts (console s)" "writeInts (console s') = 0" "\<not> putBusy (console s')"
  using assms by (auto simp: counts_ok_def WriteDone_def one_def split: if_splits)

lemma echo_WriteInt:
  assumes "echo_inv kb s" "cexec WriteInt s = Inr (Some s')"
  shows "echo_inv kb s'"
proof -
  have c: "counts_ok s" "flow_ok kb s" "quit_ok s" using assms(1) by (auto simp: echo_inv_def)
  note w = WriteInt_cases [OF c(1) assms(2)]
  have "in_transit s' = in_transit s" unfolding in_transit_def w ..
  then have "flow_ok kb s'" using c(2) by (simp add: flow_ok_def w)
  moreover have "counts_ok s'" using c(1) by (simp add: counts_ok_def w)
  moreover have "quit_ok s'" using c(3) by (simp add: quit_ok_def w)
  ultimately show ?thesis by (simp add: echo_inv_def)
qed

lemma flow_Thread: "flow_ok kb s \<Longrightarrow> counts_ok s \<Longrightarrow> cexec Thread s = Inr (Some s') \<Longrightarrow> flow_ok kb s'"
  by (cases "cpc s") (auto simp: flow_ok_def counts_ok_def in_transit_def one_def GetChar_def PutChar_def ASSERT_def split: if_splits)

lemma counts_Thread: "counts_ok s \<Longrightarrow> cexec Thread s = Inr (Some s') \<Longrightarrow> counts_ok s'"
  by (cases "cpc s") (auto simp: counts_ok_def one_def GetChar_def PutChar_def ASSERT_def split: if_splits)

lemma quit_Thread: "quit_ok s \<Longrightarrow> cexec Thread s = Inr (Some s') \<Longrightarrow> quit_ok s'"
  by (cases "cpc s") (auto simp: quit_ok_def GetChar_def PutChar_def ASSERT_def split: if_splits)

lemma echo_Thread: "echo_inv kb s \<Longrightarrow> cexec Thread s = Inr (Some s') \<Longrightarrow> echo_inv kb s'"
  using flow_Thread counts_Thread quit_Thread by (auto simp: echo_inv_def simp del: cexec.simps)

lemma echo_start: "echo_inv kb (start_test kb)"
  by (simp add: echo_inv_def inv_defs start_test_def new_Console_def)

lemma echo_exec: "echo_inv kb s \<Longrightarrow> 255 \<notin> set kb \<Longrightarrow> cexec e s = Inr (Some s') \<Longrightarrow> echo_inv kb s'"
  by (cases e) (blast intro: echo_ReadInt echo_WriteInt echo_Thread)+

interpretation es: step_invariant "start_test kb" cstep "\<lambda>s. 255 \<notin> set kb \<longrightarrow> echo_inv kb s" for kb
  by unfold_locales (blast intro: echo_start echo_exec elim: cstep.cases)+

text \<open>Steps that a run needs at most, apart from polls that find nothing.\<close>

fun rank :: "cpc \<Rightarrow> nat" where
  "rank WaitRead = 0" | "rank Get = 6" | "rank Put = 5" | "rank WaitWrite = 3" | "rank IfQuit = 1" | "rank Returned = 0"

definition work :: "ctest \<Rightarrow> nat" where
  "work s = 9 * length (keyboard (console s)) + 8 * one (incoming (console s) \<noteq> EOF \<and> cpc s \<noteq> Get) + rank (cpc s) + writeInts (console s)"

lemma echo_progress:
  assumes inv: "echo_inv kb s" and no: "255 \<notin> set kb" and q: "113 \<in> set kb" and n: "cpc s \<noteq> Returned"
  shows "\<exists>e s'. cexec e s = Inr (Some s') \<and> work s' < work s"
proof -
  have c: "counts_ok s" "flow_ok kb s" "quit_ok s" using inv by (auto simp: echo_inv_def)
  show ?thesis
  proof (cases "cpc s")
    case WaitRead
    show ?thesis
    proof (cases "incoming (console s) = EOF")
      case True
      have "113 \<in> set (keyboard (console s))" using c(2,3) q True WaitRead by (auto simp: flow_ok_def quit_ok_def in_transit_def)
      then obtain x xs where "keyboard (console s) = x # xs" by (cases "keyboard (console s)") auto
      then show ?thesis using c(1) True WaitRead
        by (intro exI [of _ "ReadInt True"]) (auto simp: counts_ok_def CheckCharAvail_def Let_def work_def one_def)
    next
      case False
      then show ?thesis using c(1) WaitRead by (intro exI [of _ Thread]) (auto simp: counts_ok_def work_def one_def)
    qed
  next
    case Get
    then show ?thesis using c(1) by (intro exI [of _ Thread]) (auto simp: counts_ok_def work_def one_def GetChar_def)
  next
    case Put
    then show ?thesis using c(1) by (intro exI [of _ Thread]) (auto simp: counts_ok_def work_def one_def PutChar_def ASSERT_def)
  next
    case WaitWrite
    show ?thesis
    proof (cases "writeDone s = 0")
      case True
      then show ?thesis using c(1) WaitWrite by (intro exI [of _ WriteInt]) (auto simp: counts_ok_def work_def one_def WriteDone_def)
    next
      case False
      then show ?thesis using c(1) WaitWrite by (intro exI [of _ Thread]) (auto simp: counts_ok_def work_def one_def)
    qed
  next
    case IfQuit
    then show ?thesis using c(1) by (intro exI [of _ Thread]) (auto simp: counts_ok_def work_def one_def)
  qed (use n in simp)
qed

section \<open>Properties\<close>


text \<open>A schedule.\<close>

fun crun :: "cevent list \<Rightarrow> ctest \<Rightarrow> ctest option" where
  "crun [] s = Some s"
| "crun (e # es) s = (case cexec e s of Inr (Some s') \<Rightarrow> crun es s' | _ \<Rightarrow> None)"

lemma crun_reaches: "crun es s = Some s' \<Longrightarrow> cstep\<^sup>*\<^sup>* s s'"
proof (induction es arbitrary: s)
  case (Cons e es)
  then obtain s1 where s1: "cexec e s = Inr (Some s1)" "crun es s1 = Some s'" by (auto split: sum.splits option.splits simp del: cexec.simps)
  then show ?case using Cons.IH [OF s1(2)] cstep.intros [OF s1(1)] by (meson converse_rtranclp_into_rtranclp)
qed simp


text \<open>
  The byte 255 is taken for an empty buffer: typing it and then an A, the A overwrites it in the device, and the program echoes the A
  first and then the empty buffer.
\<close>

theorem byte_255_is_lost:
  "\<exists>s. cstep\<^sup>*\<^sup>* (start_test [255, 65]) s \<and> keyboard (console s) = [] \<and> display (console s) = [65, 255] \<and> \<not> prefix (display (console s)) [255, 65]"
proof -
  let ?es = "[ReadInt True, ReadInt True, Thread, Thread, Thread, WriteInt, Thread, Thread, Thread, Thread, Thread]"
  have "case crun ?es (start_test [255, 65]) of Some s \<Rightarrow> keyboard (console s) = [] \<and> display (console s) = [65, 255] | None \<Rightarrow> False" by code_simp
  then obtain s where s: "crun ?es (start_test [255, 65]) = Some s" "keyboard (console s) = []" "display (console s) = [65, 255]"
    by (auto split: option.splits simp del: crun.simps)
  then show ?thesis using crun_reaches [OF s(1)] by (intro exI [of _ s]) (simp del: crun.simps)
qed

end
