(* ===== verification/Thread_Labs.thy ===== *)
theory Thread_Labs
  imports Nachos_Prelude
begin

text \<open>
  The programs of the thread assignments: the monitor for the dining philosophers (\<open>threads/dinningph.cc\<close>, with the thread body
  \<open>Philo\<close> of \<open>threads/threadtest.cc\<close>) and the making of water (\<open>H\<close>, \<open>O\<close> and \<open>water\<close> of \<open>threads/threadtest.cc\<close>).

  Threads interleave between any two statements. A step relation runs one statement of one thread; a thread that waits for a
  semaphore or a lock has no step. \<open>P\<close> takes one unit of a positive semaphore and \<open>V\<close> gives one back, which is what
  \<open>Synch_Safety\<close> shows of \<open>Semaphore::P\<close> and \<open>Semaphore::V\<close> with the scheduler in place. A failing \<open>ASSERT\<close> is a result \<open>Inl\<close>.
  Output, \<open>sleep\<close>, \<open>Yield\<close> and the random times change nothing here and are left out.
\<close>

section \<open>Counting threads\<close>

definition cnt :: "('a \<Rightarrow> bool) \<Rightarrow> 'a list \<Rightarrow> nat" where
  "cnt P xs = length (filter P xs)"

lemma cnt_simps [simp]: "cnt P [] = 0" "cnt P (x # xs) = (if P x then 1 else 0) + cnt P xs" "cnt P (xs @ ys) = cnt P xs + cnt P ys"
  by (simp_all add: cnt_def)

lemma cnt_update: "i < length xs \<Longrightarrow> cnt P (xs[i := x]) + (if P (xs ! i) then 1 else 0) = cnt P xs + (if P x then 1 else 0)"
proof (induction xs arbitrary: i)
  case (Cons y ys)
  then show ?case using Cons.IH [of "i - 1"] by (cases i) (auto split: if_splits)
qed simp

lemma cnt_pos: "i < length xs \<Longrightarrow> P (xs ! i) \<Longrightarrow> 0 < cnt P xs"
  by (auto simp: cnt_def filter_empty_conv)

lemma cnt_0: "cnt P xs = 0 \<Longrightarrow> i < length xs \<Longrightarrow> \<not> P (xs ! i)"
  using cnt_pos by fastforce

lemma cnt_one_unique: "cnt P xs \<le> 1 \<Longrightarrow> i < length xs \<Longrightarrow> j < length xs \<Longrightarrow> P (xs ! i) \<Longrightarrow> P (xs ! j) \<Longrightarrow> i = j"
proof (induction xs arbitrary: i j)
  case (Cons x xs)
  then show ?case using cnt_pos [of "i - 1" xs P] cnt_pos [of "j - 1" xs P] by (cases i; cases j) (auto split: if_splits)
qed simp

lemma cnt_le: "cnt P xs \<le> length xs"
  by (simp add: cnt_def)

lemma cnt_all: "\<forall>x \<in> set xs. P x \<longrightarrow> Q x \<Longrightarrow> cnt P xs \<le> cnt Q xs"
  by (induction xs) auto

section \<open>Water\<close>

datatype atom = AtomH | AtomO

record water =
  HatomCount :: "32 word"
  OatomCount :: "32 word"
  H2OmoleculeCount :: "32 word"

text \<open>The statement that a thread is about to run.\<close>

datatype wpc = PH | PO | PA | Test | Make | Leave | VH | VO | VA | Ended

record wstate =
  semH :: nat
  semO :: nat
  semA :: nat
  wat :: water
  atoms :: "(atom \<times> wpc) list"

definition init_water :: wstate where
  "init_water = \<lparr>semH = 1, semO = 1, semA = 1, wat = \<lparr>HatomCount = 0, OatomCount = 0, H2OmoleculeCount = 0\<rparr>, atoms = []\<rparr>"

fun can_make :: "atom \<Rightarrow> water \<Rightarrow> bool" where
  "can_make AtomH w \<longleftrightarrow> 0 < HatomCount w \<and> 0 < OatomCount w"
| "can_make AtomO w \<longleftrightarrow> 1 < HatomCount w"

fun make_water :: "atom \<Rightarrow> water \<Rightarrow> water" where
  "make_water AtomH w = w\<lparr>HatomCount := HatomCount w - 1, OatomCount := OatomCount w - 1, H2OmoleculeCount := H2OmoleculeCount w + 1\<rparr>"
| "make_water AtomO w = w\<lparr>HatomCount := HatomCount w - 2, H2OmoleculeCount := H2OmoleculeCount w + 1\<rparr>"

fun leave :: "atom \<Rightarrow> water \<Rightarrow> water" where
  "leave AtomH w = w\<lparr>HatomCount := HatomCount w + 1\<rparr>"
| "leave AtomO w = w\<lparr>OatomCount := OatomCount w + 1\<rparr>"

definition goto :: "nat \<Rightarrow> wpc \<Rightarrow> wstate \<Rightarrow> wstate" where
  "goto i pc s = s\<lparr>atoms := (atoms s)[i := (fst (atoms s ! i), pc)]\<rparr>"

text \<open>One statement of thread \<open>i\<close>, \<open>None\<close> when the thread has to wait or has ended: the bodies of \<open>H\<close> and \<open>O\<close>.\<close>

definition wexec :: "nat \<Rightarrow> wstate \<Rightarrow> wstate option" where
  "wexec i s =
     (if i < length (atoms s) then
        let a = fst (atoms s ! i) in
        case snd (atoms s ! i) of
          PH \<Rightarrow> if semH s > 0 then Some (goto i PO (s\<lparr>semH := semH s - 1\<rparr>)) else None
        | PO \<Rightarrow> if semO s > 0 then Some (goto i PA (s\<lparr>semO := semO s - 1\<rparr>)) else None
        | PA \<Rightarrow> if semA s > 0 then Some (goto i Test (s\<lparr>semA := semA s - 1\<rparr>)) else None
        | Test \<Rightarrow> Some (goto i (if can_make a (wat s) then Make else Leave) s)
        | Make \<Rightarrow> Some (goto i VH (s\<lparr>wat := make_water a (wat s)\<rparr>))
        | Leave \<Rightarrow> Some (goto i VH (s\<lparr>wat := leave a (wat s)\<rparr>))
        | VH \<Rightarrow> Some (goto i VO (s\<lparr>semH := semH s + 1\<rparr>))
        | VO \<Rightarrow> Some (goto i VA (s\<lparr>semO := semO s + 1\<rparr>))
        | VA \<Rightarrow> Some (goto i Ended (s\<lparr>semA := semA s + 1\<rparr>))
        | Ended \<Rightarrow> None
      else None)"

text \<open>The loop of \<open>water\<close> forks up to twenty threads, each of either kind.\<close>

definition fork_atom :: "atom \<Rightarrow> wstate \<Rightarrow> wstate option" where
  "fork_atom a s = (if length (atoms s) < 20 then Some (s\<lparr>atoms := atoms s @ [(a, PH)]\<rparr>) else None)"

inductive wstep :: "wstate \<Rightarrow> wstate \<Rightarrow> bool" where
  fork: "fork_atom a s = Some s' \<Longrightarrow> wstep s s'"
| run: "wexec i s = Some s' \<Longrightarrow> wstep s s'"

subsection \<open>Invariant\<close>

definition holdsH :: "atom \<times> wpc \<Rightarrow> bool" where "holdsH t \<longleftrightarrow> snd t \<in> {PO, PA, Test, Make, Leave, VH}"
definition holdsO :: "atom \<times> wpc \<Rightarrow> bool" where "holdsO t \<longleftrightarrow> snd t \<in> {PA, Test, Make, Leave, VH, VO}"
definition holdsA :: "atom \<times> wpc \<Rightarrow> bool" where "holdsA t \<longleftrightarrow> snd t \<in> {Test, Make, Leave, VH, VO, VA}"
definition past :: "atom \<Rightarrow> atom \<times> wpc \<Rightarrow> bool" where "past a t \<longleftrightarrow> fst t = a \<and> snd t \<in> {VH, VO, VA, Ended}"

text \<open>Conservation of atoms, and no water is left to make.\<close>

definition balanced :: "nat \<Rightarrow> nat \<Rightarrow> water \<Rightarrow> bool" where
  "balanced nh no w \<longleftrightarrow> unat (HatomCount w) + 2 * unat (H2OmoleculeCount w) = nh \<and> unat (OatomCount w) + unat (H2OmoleculeCount w) = no \<and>
     (unat (HatomCount w) \<le> 1 \<or> OatomCount w = 0)"

definition water_inv :: "wstate \<Rightarrow> bool" where
  "water_inv s \<longleftrightarrow> length (atoms s) \<le> 20 \<and> semH s + cnt holdsH (atoms s) = 1 \<and> semO s + cnt holdsO (atoms s) = 1 \<and> semA s + cnt holdsA (atoms s) = 1 \<and>
     balanced (cnt (past AtomH) (atoms s)) (cnt (past AtomO) (atoms s)) (wat s) \<and>
     (\<forall>i < length (atoms s). (snd (atoms s ! i) = Make \<longrightarrow> can_make (fst (atoms s ! i)) (wat s)) \<and>
                            (snd (atoms s ! i) = Leave \<longrightarrow> \<not> can_make (fst (atoms s ! i)) (wat s)))"

lemmas pc_sets = holdsH_def holdsO_def holdsA_def past_def

lemma unat_plus1: "unat w < 2 ^ 32 - 1 \<Longrightarrow> unat (w + 1 :: 32 word) = unat w + 1"
  by (simp add: unat_word_ariths)

lemma balanced_make:
  assumes "balanced nh no w" "can_make a w" "nh + no < 2 ^ 32 - 1"
  shows "balanced (nh + (if a = AtomH then 1 else 0)) (no + (if a = AtomO then 1 else 0)) (make_water a w)"
proof -
  have m: "unat (H2OmoleculeCount w + 1) = unat (H2OmoleculeCount w) + 1"
    using assms(1,3) by (intro unat_plus1) (simp add: balanced_def)
  show ?thesis
  proof (cases a)
    case AtomH
    then have "unat (HatomCount w - 1) = unat (HatomCount w) - 1" "unat (OatomCount w - 1) = unat (OatomCount w) - 1" "0 < unat (HatomCount w)" "0 < unat (OatomCount w)"
      using assms(2) by (auto simp: unat_minus_one word_neq_0_conv unat_gt_0)
    then show ?thesis using assms(1) m AtomH by (auto simp: balanced_def unat_eq_zero)
  next
    case AtomO
    then have "1 < unat (HatomCount w)" using assms(2) by (simp add: word_less_nat_alt)
    moreover from this have "unat (HatomCount w - 2) = unat (HatomCount w) - 2" by (subst unat_sub) (simp_all add: word_le_nat_alt)
    ultimately show ?thesis using assms(1) m AtomO by (auto simp: balanced_def)
  qed
qed

lemma balanced_leave:
  assumes "balanced nh no w" "\<not> can_make a w" "nh + no < 2 ^ 32 - 1"
  shows "balanced (nh + (if a = AtomH then 1 else 0)) (no + (if a = AtomO then 1 else 0)) (leave a w)"
proof -
  have m: "unat (HatomCount w + 1) = unat (HatomCount w) + 1" "unat (OatomCount w + 1) = unat (OatomCount w) + 1"
    using assms(1,3) unat_plus1 [of "HatomCount w"] unat_plus1 [of "OatomCount w"] by (auto simp: balanced_def)
  show ?thesis using assms(1,2) m
    by (cases a) (auto simp: balanced_def word_less_nat_alt unat_eq_0)
qed

text \<open>A statement that leaves the counters alone keeps the invariant when it keeps the sums of the semaphores.\<close>

lemma water_moves:
  assumes inv: "water_inv s" and t: "i < length (atoms s)" "atoms s ! i = (a, pc)" and w: "wat s' = wat s" "atoms s' = (atoms s)[i := (a, pc')]"
    and p: "past a (a, pc') = past a (a, pc)" "pc' = Make \<Longrightarrow> can_make a (wat s)" "pc' = Leave \<Longrightarrow> \<not> can_make a (wat s)"
    and h: "semH s' + (if holdsH (a, pc') then 1 else 0) = semH s + (if holdsH (a, pc) then 1 else 0)"
      "semO s' + (if holdsO (a, pc') then 1 else 0) = semO s + (if holdsO (a, pc) then 1 else 0)"
      "semA s' + (if holdsA (a, pc') then 1 else 0) = semA s + (if holdsA (a, pc) then 1 else 0)"
  shows "water_inv s'"
proof -
  have c: "cnt P ((atoms s)[i := (a, pc')]) + (if P (a, pc) then 1 else 0) = cnt P (atoms s) + (if P (a, pc') then 1 else 0)" for P
    using cnt_update [OF t(1), of P "(a, pc')"] t(2) by simp
  have "cnt (past b) (atoms s') = cnt (past b) (atoms s)" for b
    using c [of "past b"] p(1) w(2) by (cases "b = a") (auto simp: past_def split: if_splits)
  moreover have "semH s' + cnt holdsH (atoms s') = semH s + cnt holdsH (atoms s)" "semO s' + cnt holdsO (atoms s') = semO s + cnt holdsO (atoms s)"
    "semA s' + cnt holdsA (atoms s') = semA s + cnt holdsA (atoms s)"
    using c [of holdsH] c [of holdsO] c [of holdsA] h w(2) by (auto split: if_splits)
  moreover have "(snd (atoms s' ! j) = Make \<longrightarrow> can_make (fst (atoms s' ! j)) (wat s')) \<and> (snd (atoms s' ! j) = Leave \<longrightarrow> \<not> can_make (fst (atoms s' ! j)) (wat s'))"
    if "j < length (atoms s')" for j
    using that inv p(2,3) w t by (cases "j = i") (auto simp: water_inv_def)
  ultimately show ?thesis using inv w unfolding water_inv_def by simp
qed

text \<open>A statement that changes the counters is run by the only thread that holds \<open>semA\<close>.\<close>

lemma water_reacts:
  assumes inv: "water_inv s" and t: "i < length (atoms s)" "atoms s ! i = (a, pc)" "pc = Make \<and> w = make_water a (wat s) \<or> pc = Leave \<and> w = leave a (wat s)"
  shows "water_inv (s\<lparr>wat := w, atoms := (atoms s)[i := (a, VH)]\<rparr>)"
proof -
  have I: "length (atoms s) \<le> 20" "cnt holdsA (atoms s) \<le> 1" "balanced (cnt (past AtomH) (atoms s)) (cnt (past AtomO) (atoms s)) (wat s)"
    "pc = Make \<Longrightarrow> can_make a (wat s)" "pc = Leave \<Longrightarrow> \<not> can_make a (wat s)" using inv t by (auto simp: water_inv_def)
  have c: "cnt P ((atoms s)[i := (a, VH)]) + (if P (a, pc) then 1 else 0) = cnt P (atoms s) + (if P (a, VH) then 1 else 0)" for P
    using cnt_update [OF t(1), of P "(a, VH)"] t(2) by simp
  have n: "cnt (past b) ((atoms s)[i := (a, VH)]) = cnt (past b) (atoms s) + (if a = b then 1 else 0)" for b
    using c [of "past b"] t(3) by (auto simp: past_def)
  have "cnt (past AtomH) (atoms s) + cnt (past AtomO) (atoms s) < 2 ^ 32 - 1"
    using cnt_le [of "past AtomH" "atoms s"] cnt_le [of "past AtomO" "atoms s"] I(1) by simp
  then have bal: "balanced (cnt (past AtomH) ((atoms s)[i := (a, VH)])) (cnt (past AtomO) ((atoms s)[i := (a, VH)])) w"
    unfolding n using t(3) I(3-5) balanced_make [of _ _ "wat s" a] balanced_leave [of _ _ "wat s" a] by auto
  have "\<not> holdsA (atoms s ! j)" if "j < length (atoms s)" "j \<noteq> i" for j
    using cnt_one_unique [OF I(2) that(1) t(1)] that(2) t(2,3) by (auto simp: holdsA_def)
  then have "snd ((atoms s)[i := (a, VH)] ! j) \<noteq> Make \<and> snd ((atoms s)[i := (a, VH)] ! j) \<noteq> Leave" if "j < length (atoms s)" for j
    using that t(1) by (cases "j = i") (auto simp: holdsA_def)
  then show ?thesis
    using inv bal c [of holdsH] c [of holdsO] c [of holdsA] t(3) by (auto simp: water_inv_def pc_sets)
qed

lemma water_wexec:
  assumes inv: "water_inv s" and step: "wexec i s = Some s'"
  shows "water_inv s'"
proof -
  obtain a pc where t: "i < length (atoms s)" "atoms s ! i = (a, pc)" using step by (cases "atoms s ! i") (auto simp: wexec_def split: if_splits)
  show ?thesis
  proof (cases "pc = Make \<or> pc = Leave")
    case True
    then show ?thesis using step t water_reacts [OF inv t] by (auto simp: wexec_def goto_def)
  next
    case False
    define pc' where "pc' = snd (atoms s' ! i)"
    from False have "atoms s' = (atoms s)[i := (a, pc')]" "wat s' = wat s" "past a (a, pc') = past a (a, pc)"
      "pc' = Make \<Longrightarrow> can_make a (wat s)" "pc' = Leave \<Longrightarrow> \<not> can_make a (wat s)"
      "semH s' + (if holdsH (a, pc') then 1 else 0) = semH s + (if holdsH (a, pc) then 1 else 0)"
      "semO s' + (if holdsO (a, pc') then 1 else 0) = semO s + (if holdsO (a, pc) then 1 else 0)"
      "semA s' + (if holdsA (a, pc') then 1 else 0) = semA s + (if holdsA (a, pc) then 1 else 0)"
      using step t unfolding pc'_def by (cases pc; auto simp: wexec_def goto_def pc_sets split: if_splits)+
    then show ?thesis by (intro water_moves [OF inv t])
  qed
qed

lemma water_fork: "water_inv s \<Longrightarrow> fork_atom a s = Some s' \<Longrightarrow> water_inv s'"
  by (auto simp: water_inv_def fork_atom_def pc_sets nth_append split: if_splits)

interpretation ws: step_invariant init_water wstep water_inv
proof
  show "water_inv init_water" by (simp add: water_inv_def init_water_def balanced_def)
  show "water_inv s'" if "water_inv s" "wstep s s'" for s s' using that(2,1) by cases (auto intro: water_wexec water_fork)
qed

subsection \<open>Progress\<close>

lemma holder: "0 < cnt P xs \<Longrightarrow> \<exists>i < length xs. P (xs ! i)"
  by (auto simp: cnt_def filter_empty_conv in_set_conv_nth)

lemma water_progress:
  assumes "water_inv s" "i < length (atoms s)" "snd (atoms s ! i) \<noteq> Ended"
  shows "\<exists>j s'. wexec j s = Some s'"
proof -
  have I: "semH s + cnt holdsH (atoms s) = 1" "semO s + cnt holdsO (atoms s) = 1" "semA s + cnt holdsA (atoms s) = 1" using assms(1) by (auto simp: water_inv_def)
  consider (a) "0 < cnt holdsA (atoms s)" | (o) "0 < cnt holdsO (atoms s)" "cnt holdsA (atoms s) = 0"
    | (h) "0 < cnt holdsH (atoms s)" "cnt holdsO (atoms s) = 0" | (none) "cnt holdsH (atoms s) = 0" "cnt holdsO (atoms s) = 0" "cnt holdsA (atoms s) = 0" by linarith
  then show ?thesis
  proof cases
    case a
    from holder [OF this] obtain j where "j < length (atoms s)" "holdsA (atoms s ! j)" by blast
    then have "wexec j s \<noteq> None" by (auto simp: wexec_def holdsA_def Let_def split: wpc.split)
    then show ?thesis by blast
  next
    case o
    from holder [OF this(1)] obtain j where "j < length (atoms s)" "holdsO (atoms s ! j)" by blast
    then have "wexec j s \<noteq> None" using cnt_0 [OF o(2)] I(3) o(2) by (auto simp: wexec_def holdsA_def holdsO_def Let_def split: wpc.split)
    then show ?thesis by blast
  next
    case h
    from holder [OF this(1)] obtain j where "j < length (atoms s)" "holdsH (atoms s ! j)" by blast
    then have "wexec j s \<noteq> None" using cnt_0 [OF h(2)] I(2) h(2) by (auto simp: wexec_def holdsH_def holdsO_def Let_def split: wpc.split)
    then show ?thesis by blast
  next
    case none
    have "wexec i s \<noteq> None" using assms(2,3) cnt_0 [OF none(1) assms(2)] cnt_0 [OF none(2) assms(2)] cnt_0 [OF none(3) assms(2)] I(1) none(1)
      by (cases "snd (atoms s ! i)") (auto simp: wexec_def pc_sets)
    then show ?thesis by blast
  qed
qed

text \<open>Statements that a thread has left, and steps that a run has left.\<close>

fun left :: "wpc \<Rightarrow> nat" where
  "left PH = 8" | "left PO = 7" | "left PA = 6" | "left Test = 5" | "left Make = 4" | "left Leave = 4" | "left VH = 3" | "left VO = 2" | "left VA = 1" | "left Ended = 0"

definition steps_left :: "wstate \<Rightarrow> nat" where
  "steps_left s = 9 * (20 - length (atoms s)) + sum_list (map (left \<circ> snd) (atoms s))"

lemma wexec_pc:
  assumes "wexec i s = Some s'"
  obtains a pc' where "i < length (atoms s)" "fst (atoms s ! i) = a" "atoms s' = (atoms s)[i := (a, pc')]" "left (snd (atoms s ! i)) = left pc' + 1"
  using assms by (auto simp: wexec_def goto_def Let_def split: if_splits wpc.splits)

lemma wstep_left: "wstep s s' \<Longrightarrow> steps_left s = steps_left s' + 1"
proof (induction rule: wstep.induct)
  case (fork a s s')
  then show ?case by (auto simp: fork_atom_def steps_left_def split: if_splits)
next
  case (run i s s')
  from wexec_pc [OF this] obtain a pc' where w: "i < length (atoms s)" "fst (atoms s ! i) = a" "atoms s' = (atoms s)[i := (a, pc')]"
    "left (snd (atoms s ! i)) = left pc' + 1" by metis
  have "sum_list (map (left \<circ> snd) (atoms s)) \<ge> left (snd (atoms s ! i))" using w(1) by (auto intro: member_le_sum_list)
  then show ?case using w sum_list_update [of i "map (left \<circ> snd) (atoms s)" "left pc'"] by (simp add: steps_left_def map_update)
qed

lemma wrun_left: "(wstep ^^ n) s s' \<Longrightarrow> steps_left s = steps_left s' + n"
  by (induction n arbitrary: s') (auto dest: wstep_left)

definition count_atoms :: "atom \<Rightarrow> wstate \<Rightarrow> nat" where
  "count_atoms a s = cnt (\<lambda>t. fst t = a) (atoms s)"

lemma min_molecules:
  assumes "balanced nh no w"
  shows "unat (H2OmoleculeCount w) = min (nh div 2) no" "unat (HatomCount w) = nh - 2 * min (nh div 2) no" "unat (OatomCount w) = no - min (nh div 2) no"
proof -
  have b: "nh = unat (HatomCount w) + 2 * unat (H2OmoleculeCount w)" "no = unat (OatomCount w) + unat (H2OmoleculeCount w)" "unat (HatomCount w) \<le> 1 \<or> unat (OatomCount w) = 0"
    using assms by (auto simp: balanced_def)
  have "nh div 2 = unat (HatomCount w) div 2 + unat (H2OmoleculeCount w)" using b(1) by simp
  then show m: "unat (H2OmoleculeCount w) = min (nh div 2) no" using b(2,3) by auto
  then show "unat (HatomCount w) = nh - 2 * min (nh div 2) no" "unat (OatomCount w) = no - min (nh div 2) no" using b(1,2) by linarith+
qed

subsection \<open>Properties\<close>

text \<open>
  (C18) The program that makes water is correct: however its threads interleave, a run that cannot go on has forked all twenty threads,
  all of them have ended, and as much water was made as the atoms allow, with the atoms that remain counted exactly.
\<close>

theorem water_makes_all_it_can:
  assumes "wstep\<^sup>*\<^sup>* init_water s" "\<nexists>s'. wstep s s'"
  shows "length (atoms s) = 20 \<and> snd ` set (atoms s) = {Ended} \<and>
    (let n = min (count_atoms AtomH s div 2) (count_atoms AtomO s) in
     unat (H2OmoleculeCount (wat s)) = n \<and> unat (HatomCount (wat s)) = count_atoms AtomH s - 2 * n \<and> unat (OatomCount (wat s)) = count_atoms AtomO s - n)"
proof -
  note inv = ws.inv_reachable [OF assms(1)]
  have "fork_atom AtomH s = None" using assms(2) wstep.fork [of AtomH s] by (cases "fork_atom AtomH s") auto
  then have len: "length (atoms s) = 20" using inv by (auto simp: fork_atom_def water_inv_def split: if_splits)
  have ended: "snd t = Ended" if t: "t \<in> set (atoms s)" for t
    using t water_progress [OF inv] assms(2) wstep.run by (metis in_set_conv_nth)
  then have "cnt (past a) (atoms s) = count_atoms a s" for a
    unfolding cnt_def count_atoms_def by (intro arg_cong [where f = length] filter_cong) (auto simp: past_def)
  then have "balanced (count_atoms AtomH s) (count_atoms AtomO s) (wat s)" using inv by (simp add: water_inv_def)
  from min_molecules [OF this] len ended show ?thesis unfolding Let_def by (cases "atoms s") (auto simp: image_iff)
qed

text \<open>A schedule, and the run of fourteen H threads and six O threads one after the other.\<close>

datatype wevent = Fork_atom atom | Run_thread nat

fun wfire :: "wevent \<Rightarrow> wstate \<Rightarrow> wstate option" where
  "wfire (Fork_atom a) s = fork_atom a s"
| "wfire (Run_thread i) s = wexec i s"

fun wrun :: "wevent list \<Rightarrow> wstate \<Rightarrow> wstate option" where
  "wrun [] s = Some s"
| "wrun (e # es) s = (case wfire e s of None \<Rightarrow> None | Some s' \<Rightarrow> wrun es s')"

lemma wrun_reaches: "wrun es s = Some s' \<Longrightarrow> wstep\<^sup>*\<^sup>* s s'"
proof (induction es arbitrary: s)
  case (Cons e es)
  then obtain s1 where s1: "wfire e s = Some s1" "wrun es s1 = Some s'" by (auto split: option.splits)
  then have "wstep s s1" by (cases e) (auto intro: wstep.intros)
  then show ?case using Cons.IH [OF s1(2)] by (rule converse_rtranclp_into_rtranclp)
qed simp

definition demo_atoms :: "atom list" where "demo_atoms = replicate 14 AtomH @ replicate 6 AtomO"

definition demo_events :: "wevent list" where
  "demo_events = map Fork_atom demo_atoms @ concat (map (\<lambda>i. replicate 8 (Run_thread i)) [0..<20])"

definition demo_end :: wstate where
  "demo_end = \<lparr>semH = 1, semO = 1, semA = 1, wat = \<lparr>HatomCount = 2, OatomCount = 0, H2OmoleculeCount = 6\<rparr>, atoms = map (\<lambda>a. (a, Ended)) demo_atoms\<rparr>"

lemma demo_run: "wrun demo_events init_water = Some demo_end"
  by code_simp

lemma all_ended_stuck:
  assumes "length (atoms s) = 20" "\<And>t. t \<in> set (atoms s) \<Longrightarrow> snd t = Ended"
  shows "\<not> wstep s s'"
proof
  assume "wstep s s'"
  then show False
  proof cases
    case (run i)
    then show False using assms(2) [of "atoms s ! i"] by (auto simp: wexec_def Let_def split: if_splits)
  qed (use assms(1) in \<open>simp add: fork_atom_def\<close>)
qed

theorem water_makes_all_it_can_witness:
  "count_atoms AtomH demo_end = 14 \<and> count_atoms AtomO demo_end = 6 \<and> unat (H2OmoleculeCount (wat demo_end)) = min (14 div 2) 6"
proof -
  have "count_atoms AtomH demo_end = 14 \<and> count_atoms AtomO demo_end = 6" by code_simp
  moreover have "length (atoms demo_end) = 20" "t \<in> set (atoms demo_end) \<Longrightarrow> snd t = Ended" for t by (auto simp: demo_end_def demo_atoms_def)
  then have "\<nexists>s'. wstep demo_end s'" using all_ended_stuck [of demo_end] by blast
  ultimately show ?thesis using water_makes_all_it_can [OF wrun_reaches [OF demo_run]] by (simp add: Let_def)
qed

text \<open>
  The program ends: every run has at most 180 steps, and in a state that a run reaches some thread can go on unless all have ended.
\<close>

theorem water_terminates:
  assumes "(wstep ^^ n) init_water s"
  shows "n \<le> 180 \<and> ((\<exists>t \<in> set (atoms s). snd t \<noteq> Ended) \<longrightarrow> (\<exists>i s'. wexec i s = Some s'))"
proof -
  have "water_inv s" using ws.inv_reachable relpowp_imp_rtranclp [OF assms] by blast
  then have "(\<exists>t \<in> set (atoms s). snd t \<noteq> Ended) \<longrightarrow> (\<exists>i s'. wexec i s = Some s')" using water_progress by (metis in_set_conv_nth)
  then show ?thesis using wrun_left [OF assms] by (simp add: steps_left_def init_water_def)
qed

theorem water_terminates_witness:
  "\<exists>s s'. (wstep ^^ 1) init_water s \<and> wexec 0 s = Some s' \<and> snd (atoms s' ! 0) = PO"
proof -
  let ?s = "init_water\<lparr>atoms := [(AtomH, PH)]\<rparr>"
  have "wstep init_water ?s" by (rule wstep.fork [of AtomH]) (simp add: fork_atom_def init_water_def)
  then have r: "(wstep ^^ 1) init_water ?s" by (simp only: relpowp_1)
  from water_terminates [OF this] obtain i s' where "wexec i ?s = Some s'" by auto
  then have "wexec 0 ?s = Some s' \<and> snd (atoms s' ! 0) = PO" by (auto simp: wexec_def goto_def init_water_def split: if_splits)
  then show ?thesis using r by blast
qed

section \<open>Dining philosophers\<close>

datatype ph_state = Thinking | Hungry | Eating

text \<open>
  Where a philosopher is: outside the monitor, in \<open>pickup\<close>, asleep in \<open>Condition::Wait\<close>, or in \<open>putdown\<close>. The calls that the
  monitor lock protects from interference from the append to the queue to the release in \<open>Wait\<close> are one step.
\<close>

datatype ppc = Think | PickAcquire | PickHungry | PickTest | PickIf | WaitP | WaitAcquire | PickRelease
  | Eat | PutAcquire | PutThinking | PutTestL | PutTestR | PutRelease | Gone

record DinningPh =
  state :: "nat \<Rightarrow> ph_state"
  dp :: "nat option"                  \<comment> \<open>the lock: its holder\<close>
  self :: "nat \<Rightarrow> nat list"           \<comment> \<open>the queues of the conditions: the waiting philosophers\<close>
  waiter :: "nat \<Rightarrow> nat"              \<comment> \<open>the value of the semaphore that a philosopher sleeps on\<close>
  pc :: "nat \<Rightarrow> ppc"
  meals :: "nat \<Rightarrow> nat"               \<comment> \<open>rounds of the loop of \<open>Philo\<close> that are complete\<close>

definition new_DinningPh :: DinningPh where
  "new_DinningPh = \<lparr>state = \<lambda>_. Thinking, dp = None, self = \<lambda>_. [], waiter = \<lambda>_. 0, pc = \<lambda>_. Think, meals = \<lambda>_. 0\<rparr>"

text \<open>\<open>Lock::Acquire\<close> (\<open>None\<close>: wait), \<open>Lock::Release\<close>, and the condition variable.\<close>

definition ph_Acquire :: "nat \<Rightarrow> DinningPh \<Rightarrow> DinningPh option" where
  "ph_Acquire who d = (if dp d = None then Some (d\<lparr>dp := Some who\<rparr>) else None)"

definition ph_Release :: "nat \<Rightarrow> DinningPh \<Rightarrow> DinningPh result" where
  "ph_Release who d = bindE (ASSERT (dp d = Some who)) (\<lambda>_. Inr (d\<lparr>dp := None\<rparr>))"

definition ph_Wait :: "nat \<Rightarrow> nat \<Rightarrow> DinningPh \<Rightarrow> DinningPh result" where
  "ph_Wait who i d =
     bindE (ASSERT (dp d = Some who)) (\<lambda>_.
     ph_Release who (d\<lparr>waiter := (waiter d)(who := 0), self := (self d)(i := self d i @ [who])\<rparr>))"

definition ph_Signal :: "nat \<Rightarrow> nat \<Rightarrow> DinningPh \<Rightarrow> DinningPh result" where
  "ph_Signal who i d =
     bindE (ASSERT (dp d = Some who)) (\<lambda>_.
     Inr (case self d i of [] \<Rightarrow> d | w # ws \<Rightarrow> d\<lparr>self := (self d)(i := ws), waiter := (waiter d)(w := waiter d w + 1)\<rparr>))"

definition ph_test :: "nat \<Rightarrow> nat \<Rightarrow> DinningPh \<Rightarrow> DinningPh result" where
  "ph_test who i d =
     (if state d ((i + 4) mod 5) \<noteq> Eating \<and> state d i = Hungry \<and> state d ((i + 1) mod 5) \<noteq> Eating
      then ph_Signal who i (d\<lparr>state := (state d)(i := Eating)\<rparr>)
      else Inr d)"

definition go :: "nat \<Rightarrow> ppc \<Rightarrow> DinningPh \<Rightarrow> DinningPh" where
  "go who p d = d\<lparr>pc := (pc d)(who := p)\<rparr>"

text \<open>One statement of philosopher \<open>who\<close>: \<open>Inr None\<close> when he has to wait, \<open>Inl\<close> when an assertion fails.\<close>

definition dexec :: "nat \<Rightarrow> DinningPh \<Rightarrow> DinningPh option result" where
  "dexec who d =
     (let acquire = (\<lambda>p. Inr (map_option (go who p) (ph_Acquire who d)));
          continue = (\<lambda>p r. bindE r (\<lambda>d'. Inr (Some (go who p d')))) in
      case pc d who of
        Think \<Rightarrow> continue (if meals d who < 10 then PickAcquire else Gone) (Inr d)
      | PickAcquire \<Rightarrow> acquire PickHungry
      | PickHungry \<Rightarrow> continue PickTest (Inr (d\<lparr>state := (state d)(who := Hungry)\<rparr>))
      | PickTest \<Rightarrow> continue PickIf (ph_test who who d)
      | PickIf \<Rightarrow> if state d who = Hungry then continue WaitP (ph_Wait who who d) else continue PickRelease (Inr d)
      | WaitP \<Rightarrow> if waiter d who > 0 then continue WaitAcquire (Inr (d\<lparr>waiter := (waiter d)(who := waiter d who - 1)\<rparr>)) else Inr None
      | WaitAcquire \<Rightarrow> acquire PickRelease
      | PickRelease \<Rightarrow> continue Eat (ph_Release who d)
      | Eat \<Rightarrow> continue PutAcquire (Inr d)
      | PutAcquire \<Rightarrow> acquire PutThinking
      | PutThinking \<Rightarrow> continue PutTestL (Inr (d\<lparr>state := (state d)(who := Thinking)\<rparr>))
      | PutTestL \<Rightarrow> continue PutTestR (ph_test who ((who + 4) mod 5) d)
      | PutTestR \<Rightarrow> continue PutRelease (ph_test who ((who + 1) mod 5) d)
      | PutRelease \<Rightarrow> continue Think (ph_Release who (d\<lparr>meals := (meals d)(who := meals d who + 1)\<rparr>))
      | Gone \<Rightarrow> Inr None)"

inductive dstep :: "DinningPh \<Rightarrow> DinningPh \<Rightarrow> bool" where
  "who < 5 \<Longrightarrow> dexec who d = Inr (Some d') \<Longrightarrow> dstep d d'"

subsection \<open>Invariant\<close>

definition adj :: "nat \<Rightarrow> nat \<Rightarrow> bool" where
  "adj i j \<longleftrightarrow> j = (i + 1) mod 5 \<or> j = (i + 4) mod 5"

lemma adj_sym:
  assumes "i < 5" "j < 5" "adj i j"
  shows "adj j i"
proof -
  have "i = 0 \<or> i = 1 \<or> i = 2 \<or> i = 3 \<or> i = 4" using assms(1) by linarith
  then show ?thesis using assms(3) by (elim disjE) (auto simp: adj_def)
qed

lemma adj_less: "adj i j \<Longrightarrow> j < 5"
  by (auto simp: adj_def)

lemma adj_neq: "i < 5 \<Longrightarrow> \<not> adj i i"
  unfolding adj_def by presburger

definition in_monitor :: "ppc \<Rightarrow> bool" where
  "in_monitor p \<longleftrightarrow> p \<in> {PickHungry, PickTest, PickIf, PickRelease, PutThinking, PutTestL, PutTestR, PutRelease}"

text \<open>Neighbour \<open>i\<close> is still to be tested by \<open>j\<close>.\<close>

definition pending :: "DinningPh \<Rightarrow> nat \<Rightarrow> nat \<Rightarrow> bool" where
  "pending d j i \<longleftrightarrow> pc d j = PutTestL \<and> adj j i \<or> pc d j = PutTestR \<and> i = (j + 1) mod 5"

text \<open>The state of a philosopher agrees with where he is, and he is in the queue of his condition exactly while he sleeps unsignalled.\<close>

definition local_ok :: "DinningPh \<Rightarrow> nat \<Rightarrow> bool" where
  "local_ok d i \<longleftrightarrow>
     (pc d i \<in> {Think, Gone, PickAcquire, PickHungry, PutTestL, PutTestR, PutRelease} \<longrightarrow> state d i = Thinking) \<and>
     (pc d i \<in> {WaitAcquire, PickRelease, Eat, PutAcquire, PutThinking} \<longrightarrow> state d i = Eating) \<and>
     (pc d i = PickTest \<longrightarrow> state d i = Hungry) \<and> (pc d i = PickIf \<longrightarrow> state d i \<noteq> Thinking) \<and>
     (pc d i = WaitP \<longrightarrow> (state d i = Hungry \<and> waiter d i = 0 \<and> self d i = [i]) \<or> (state d i = Eating \<and> waiter d i = 1 \<and> self d i = [])) \<and>
     (pc d i \<noteq> WaitP \<longrightarrow> self d i = [])"

definition wait_reason :: "DinningPh \<Rightarrow> nat \<Rightarrow> bool" where
  "wait_reason d i \<longleftrightarrow> (\<exists>j. adj i j \<and> (state d j = Eating \<or> pending d j i))"

definition dining_inv :: "DinningPh \<Rightarrow> bool" where
  "dining_inv d \<longleftrightarrow>
     (\<forall>i < 5. local_ok d i) \<and> (\<forall>i < 5. in_monitor (pc d i) \<longleftrightarrow> dp d = Some i) \<and> (\<forall>i. dp d = Some i \<longrightarrow> i < 5) \<and>
     (\<forall>i < 5. \<forall>j. adj i j \<longrightarrow> \<not> (state d i = Eating \<and> state d j = Eating)) \<and>
     (\<forall>i < 5. state d i = Hungry \<and> pc d i \<in> {PickIf, WaitP} \<longrightarrow> wait_reason d i)"

lemma dining_invD:
  assumes "dining_inv d" "i < 5"
  shows "local_ok d i" "in_monitor (pc d i) \<longleftrightarrow> dp d = Some i" "adj i j \<Longrightarrow> state d i = Eating \<Longrightarrow> state d j \<noteq> Eating"
    "state d i = Hungry \<Longrightarrow> pc d i = PickIf \<or> pc d i = WaitP \<Longrightarrow> wait_reason d i"
  using assms by (auto simp: dining_inv_def)

text \<open>A statement that lets nobody else eat: it changes what belongs to \<open>who\<close> and the lock.\<close>

lemma dining_own:
  assumes inv: "dining_inv d" and w: "who < 5"
    and f: "\<And>j. j \<noteq> who \<Longrightarrow> state d' j = state d j \<and> pc d' j = pc d j \<and> self d' j = self d j \<and> waiter d' j = waiter d j"
    and l: "local_ok d' who" "in_monitor (pc d' who) \<longleftrightarrow> dp d' = Some who" "dp d' = dp d \<or> {dp d, dp d'} \<subseteq> {None, Some who}"
    and e: "state d' who = Eating \<Longrightarrow> state d who = Eating"
    and k: "\<And>i. adj who i \<Longrightarrow> state d who = Eating \<or> pending d who i \<Longrightarrow> state d' who = Eating \<or> pending d' who i"
    and h: "state d' who = Hungry \<Longrightarrow> pc d' who = PickIf \<or> pc d' who = WaitP \<Longrightarrow> state d who = Hungry \<and> (pc d who = PickIf \<or> pc d who = WaitP)"
  shows "dining_inv d'"
proof -
  have loc: "local_ok d' i" if "i < 5" for i
    using that l(1) f [of i] dining_invD(1) [OF inv that] by (cases "i = who") (auto simp: local_ok_def)
  have mon: "in_monitor (pc d' i) \<longleftrightarrow> dp d' = Some i" if "i < 5" for i
    using that l(2,3) f [of i] dining_invD(2) [OF inv that] dining_invD(2) [OF inv w] by (cases "i = who") auto
  have ran: "\<forall>i. dp d' = Some i \<longrightarrow> i < 5" using l(3) w inv by (auto simp: dining_inv_def)
  have eat: "state d i = Eating" if "state d' i = Eating" for i using that e f [of i] by (cases "i = who") auto
  have saf: "\<not> (state d' i = Eating \<and> state d' j = Eating)" if "i < 5" "adj i j" for i j
    using eat [of i] eat [of j] dining_invD(3) [OF inv that(1) that(2)] by blast
  have rea: "wait_reason d' i" if i: "i < 5" "state d' i = Hungry" "pc d' i = PickIf \<or> pc d' i = WaitP" for i
  proof -
    have "state d i = Hungry \<and> (pc d i = PickIf \<or> pc d i = WaitP)" using i(2,3) h f [of i] by (cases "i = who") auto
    then obtain j where j: "adj i j" "state d j = Eating \<or> pending d j i" using dining_invD(4) [OF inv i(1)] by (auto simp: wait_reason_def)
    have "state d' j = Eating \<or> pending d' j i"
    proof (cases "j = who")
      case True
      then show ?thesis using j(2) k [of i] adj_sym [OF i(1) w] j(1) by blast
    next
      case False
      then show ?thesis using j(2) f [of j] by (auto simp: pending_def)
    qed
    then show ?thesis using j(1) by (auto simp: wait_reason_def)
  qed
  show ?thesis unfolding dining_inv_def using loc mon ran saf rea by auto
qed

text \<open>A call of \<open>test\<close>: either philosopher \<open>i\<close> may not eat, or he eats and, if he sleeps, is signalled.\<close>

lemma test_cases:
  assumes "ph_test who i d = Inr d'" "dining_inv d" "who < 5" "i < 5" "dp d = Some who"
  obtains (no) "d' = d" "state d i = Hungry \<longrightarrow> (\<exists>j. adj i j \<and> state d j = Eating)"
  | (yes) "state d i = Hungry" "\<And>j. adj i j \<Longrightarrow> state d j \<noteq> Eating" "state d' = (state d)(i := Eating)" "dp d' = dp d" "pc d' = pc d" "self d' = (self d)(i := [])"
      "waiter d' = (if pc d i = WaitP then (waiter d)(i := 1) else waiter d)"
proof (cases "state d ((i + 4) mod 5) \<noteq> Eating \<and> state d i = Hungry \<and> state d ((i + 1) mod 5) \<noteq> Eating")
  case True
  have l: "local_ok d i" using assms(2,4) by (rule dining_invD)
  then have q: "if pc d i = WaitP then self d i = [i] \<and> waiter d i = 0 else self d i = []" using True by (auto simp: local_ok_def)
  have "state d' = (state d)(i := Eating) \<and> dp d' = dp d \<and> pc d' = pc d \<and> self d' = (self d)(i := []) \<and>
      waiter d' = (if pc d i = WaitP then (waiter d)(i := 1) else waiter d)"
    using assms(1,5) True q by (auto simp: ph_test_def ph_Signal_def ASSERT_def fun_upd_idem split: if_splits)
  then show ?thesis using yes True by (auto simp: adj_def)
next
  case False
  then have "d' = d" using assms(1) by (auto simp: ph_test_def split: if_splits)
  moreover have "state d i = Hungry \<longrightarrow> (\<exists>j. adj i j \<and> state d j = Eating)" using False by (auto simp: adj_def)
  ultimately show ?thesis by (rule no)
qed

definition test_call :: "nat \<Rightarrow> ppc \<Rightarrow> nat \<Rightarrow> ppc \<Rightarrow> bool" where
  "test_call who p i p' \<longleftrightarrow> p = PickTest \<and> i = who \<and> p' = PickIf \<or> p = PutTestL \<and> i = (who + 4) mod 5 \<and> p' = PutTestR \<or>
     p = PutTestR \<and> i = (who + 1) mod 5 \<and> p' = PutRelease"

lemma pending_after:
  assumes "pending d j k" "pc d' = (pc d)(who := p')" "j \<noteq> who \<or> k \<noteq> i" "test_call who (pc d who) i p'"
  shows "pending d' j k"
  using assms by (auto simp: pending_def test_call_def adj_def)

lemma dining_test:
  assumes inv: "dining_inv d" and w: "who < 5" and t: "ph_test who i d = Inr e" and c: "test_call who (pc d who) i p'"
  shows "dining_inv (go who p' e)" (is "dining_inv ?d")
proof -
  have i: "i < 5" using c w by (auto simp: test_call_def)
  have mon: "in_monitor (pc d who)" "in_monitor p'" "p' \<noteq> WaitP" using c by (auto simp: test_call_def in_monitor_def)
  then have dp: "dp d = Some who" using dining_invD(2) [OF inv w] by blast
  have own: "local_ok d who" using inv w by (rule dining_invD)
  then have th: "state d who = Hungry \<Longrightarrow> i = who" using c unfolding test_call_def local_ok_def by (elim disjE) simp_all
  from t inv w i dp show ?thesis
  proof (cases rule: test_cases)
    case no
    have s: "state ?d = state d" "pc ?d = (pc d)(who := p')" "dp ?d = dp d" "self ?d = self d" "waiter ?d = waiter d" using no(1) by (auto simp: go_def)
    have "local_ok ?d who" unfolding local_ok_def s using c own unfolding test_call_def local_ok_def by (elim disjE) simp_all
    then have loc: "local_ok ?d k" if "k < 5" for k
      using dining_invD(1) [OF inv that] by (cases "k = who") (simp_all add: local_ok_def s)
    have rea: "wait_reason ?d k" if k: "k < 5" "state ?d k = Hungry" "pc ?d k = PickIf \<or> pc ?d k = WaitP" for k
    proof (cases "k = i")
      case True
      then show ?thesis using no(2) k(2) s(1) by (auto simp: wait_reason_def)
    next
      case False
      then have "k \<noteq> who" using k(2) th s(1) by auto
      then obtain j where j: "adj k j" "state d j = Eating \<or> pending d j k" using dining_invD(4) [OF inv k(1)] k(2,3) s by (auto simp: wait_reason_def)
      then have "state ?d j = Eating \<or> pending ?d j k" using pending_after [OF _ s(2) _ c, of j k] False s(1) by auto
      then show ?thesis using j(1) by (auto simp: wait_reason_def)
    qed
    show ?thesis unfolding dining_inv_def using loc rea inv mon s dp by (auto simp: dining_inv_def)
  next
    case yes
    have s: "state ?d = (state d)(i := Eating)" "pc ?d = (pc d)(who := p')" "dp ?d = dp d" "self ?d = (self d)(i := [])"
      "waiter ?d = (if pc d i = WaitP then (waiter d)(i := 1) else waiter d)" using yes by (auto simp: go_def)
    have sl: "pc d i = WaitP" if "i \<noteq> who"
      using that dining_invD(1,2) [OF inv i] dp yes(1) by (cases "pc d i") (auto simp: local_ok_def in_monitor_def)
    have ne: "i = who \<or> pc d who \<noteq> PickTest" "i \<noteq> who \<or> pc d who = PickTest" using c adj_neq [OF w] by (auto simp: test_call_def adj_def)
    have "local_ok ?d who" unfolding local_ok_def s using c own ne unfolding test_call_def local_ok_def by (elim disjE) simp_all
    moreover have "local_ok ?d i" if "i \<noteq> who" unfolding local_ok_def s using that sl [OF that] by simp
    ultimately have loc: "local_ok ?d k" if "k < 5" for k
      using dining_invD(1) [OF inv that] by (cases "k = who"; cases "k = i") (simp_all add: local_ok_def s)
    have saf: "\<not> (state ?d k = Eating \<and> state ?d j = Eating)" if "k < 5" "adj k j" for k j
      using that dining_invD(3) [OF inv that] yes(2) adj_sym [of k j] adj_less [OF that(2)] adj_neq [OF i] s(1) by auto
    have rea: "wait_reason ?d k" if k: "k < 5" "state ?d k = Hungry" "pc ?d k = PickIf \<or> pc ?d k = WaitP" for k
    proof -
      have "k \<noteq> i" using k(2) s(1) by auto
      moreover from this have "k \<noteq> who" using k(2) th s(1) by auto
      ultimately obtain j where j: "adj k j" "state d j = Eating \<or> pending d j k" using dining_invD(4) [OF inv k(1)] k(2,3) s by (auto simp: wait_reason_def)
      then have "state ?d j = Eating \<or> pending ?d j k" using pending_after [OF _ s(2) _ c, of j k] \<open>k \<noteq> i\<close> s(1) by auto
      then show ?thesis using j(1) by (auto simp: wait_reason_def)
    qed
    show ?thesis unfolding dining_inv_def using loc saf rea inv mon s dp by (auto simp: dining_inv_def)
  qed
qed

lemma ph_Acquire_Some: "ph_Acquire who d = Some d' \<longleftrightarrow> dp d = None \<and> d' = d\<lparr>dp := Some who\<rparr>"
  by (auto simp: ph_Acquire_def)

lemma ph_Release_ok: "dp d = Some who \<Longrightarrow> ph_Release who d = Inr (d\<lparr>dp := None\<rparr>)"
  by (simp add: ph_Release_def ASSERT_def)

lemma ph_Wait_ok:
  "dp d = Some who \<Longrightarrow> ph_Wait who i d = Inr (d\<lparr>waiter := (waiter d)(who := 0), self := (self d)(i := self d i @ [who]), dp := None\<rparr>)"
  by (simp add: ph_Wait_def ph_Release_ok ASSERT_def)

lemma ph_test_ok: "dp d = Some who \<Longrightarrow> \<exists>d'. ph_test who i d = Inr d'"
  by (auto simp: ph_test_def ph_Signal_def ASSERT_def)

definition own_step :: "nat \<Rightarrow> DinningPh \<Rightarrow> DinningPh \<Rightarrow> bool" where
  "own_step who d d' \<longleftrightarrow>
     (\<forall>j. j \<noteq> who \<longrightarrow> state d' j = state d j \<and> pc d' j = pc d j \<and> self d' j = self d j \<and> waiter d' j = waiter d j) \<and>
     local_ok d' who \<and> (in_monitor (pc d' who) \<longleftrightarrow> dp d' = Some who) \<and> (dp d' = dp d \<or> {dp d, dp d'} \<subseteq> {None, Some who}) \<and>
     (state d' who = Eating \<longrightarrow> state d who = Eating) \<and>
     (\<forall>i. adj who i \<longrightarrow> state d who = Eating \<or> pending d who i \<longrightarrow> state d' who = Eating \<or> pending d' who i) \<and>
     (state d' who = Hungry \<longrightarrow> pc d' who = PickIf \<or> pc d' who = WaitP \<longrightarrow> state d who = Hungry \<and> (pc d who = PickIf \<or> pc d who = WaitP))"

text \<open>Every statement succeeds or waits, and is either of the two kinds above.\<close>

lemma dexec_cases:
  assumes inv: "dining_inv d" and w: "who < 5"
  shows "dexec who d = Inr None \<or> (\<exists>d'. dexec who d = Inr (Some d') \<and>
    (own_step who d d' \<or> (\<exists>i e p'. ph_test who i d = Inr e \<and> test_call who (pc d who) i p' \<and> d' = go who p' e)))"
proof -
  have l: "local_ok d who" and m: "in_monitor (pc d who) \<longleftrightarrow> dp d = Some who" using dining_invD [OF inv w] by auto
  show ?thesis
  proof (cases "pc d who \<in> {PickTest, PutTestL, PutTestR}")
    case True
    then have dp: "dp d = Some who" using m by (auto simp: in_monitor_def)
    have "\<exists>i p'. test_call who (pc d who) i p' \<and> dexec who d = bindE (ph_test who i d) (\<lambda>d'. Inr (Some (go who p' d')))"
      using True by (auto simp: dexec_def test_call_def Let_def)
    then obtain i p' where t: "test_call who (pc d who) i p'" "dexec who d = bindE (ph_test who i d) (\<lambda>d'. Inr (Some (go who p' d')))" by blast
    obtain e where "ph_test who i d = Inr e" using ph_test_ok [OF dp] by blast
    then show ?thesis using t by auto
  next
    case False
    have "state d who \<noteq> Thinking \<Longrightarrow> state d who \<noteq> Hungry \<Longrightarrow> state d who = Eating" by (cases "state d who") auto
    then show ?thesis using False l m
      by (cases "pc d who") (auto simp: dexec_def own_step_def local_ok_def in_monitor_def pending_def go_def ph_Acquire_def ph_Release_ok ph_Wait_ok)
  qed
qed

lemma dining_dexec:
  assumes inv: "dining_inv d" and w: "who < 5" and x: "dexec who d = Inr (Some d')"
  shows "dining_inv d'"
  using dexec_cases [OF inv w]
proof (elim disjE exE conjE)
  fix d1 assume "dexec who d = Inr (Some d1)" "own_step who d d1"
  then show ?thesis using x by (intro dining_own [OF inv w]) (auto simp: own_step_def)
qed (use x dining_test [OF inv w] in auto)

lemma dining_start: "dining_inv new_DinningPh"
  by (auto simp: dining_inv_def new_DinningPh_def local_ok_def in_monitor_def)

interpretation ds: step_invariant new_DinningPh dstep dining_inv
  by unfold_locales (auto simp: dining_start elim!: dstep.cases intro: dining_dexec)

text \<open>Only a philosopher who sleeps unsignalled, or waits for a lock that is held, or has gone, has no step.\<close>

lemma dexec_blocked:
  assumes "dining_inv d" "who < 5" "dexec who d = Inr None"
  shows "pc d who = Gone \<or> pc d who = WaitP \<and> waiter d who = 0 \<or> dp d \<noteq> None \<and> \<not> in_monitor (pc d who)"
  using assms(3) dining_invD(2) [OF assms(1,2)] by (cases "pc d who") (auto simp: dexec_def ph_Acquire_def in_monitor_def bindE_eq_Inr Let_def split: if_splits)

lemma dining_progress:
  assumes inv: "dining_inv d" and w: "who < 5" "pc d who \<noteq> Gone"
  shows "\<exists>i < 5. \<exists>d'. dexec i d = Inr (Some d')"
proof -
  have go: "\<exists>d'. dexec i d = Inr (Some d')" if "i < 5" "dexec i d \<noteq> Inr None" for i using dexec_cases [OF inv that(1)] that(2) by blast
  show ?thesis
  proof (cases "dp d")
    case (Some i)
    then have i: "i < 5" "in_monitor (pc d i)" using inv dining_invD(2) [OF inv] by (auto simp: dining_inv_def)
    then have "dexec i d \<noteq> Inr None" using dexec_blocked [OF inv i(1)] by (auto simp: in_monitor_def)
    then show ?thesis using go i(1) by blast
  next
    case None
    have out: "\<not> in_monitor (pc d i)" if "i < 5" for i using dining_invD(2) [OF inv that] None by simp
    show ?thesis
    proof (cases "dexec who d = Inr None")
      case True
      then have s: "pc d who = WaitP" "waiter d who = 0" using dexec_blocked [OF inv w(1)] None w(2) by auto
      then have "state d who = Hungry" using dining_invD(1) [OF inv w(1)] by (auto simp: local_ok_def)
      then obtain j where j: "adj who j" "state d j = Eating \<or> pending d j who" using dining_invD(4) [OF inv w(1)] s(1) by (auto simp: wait_reason_def)
      have j5: "j < 5" using j(1) by (rule adj_less)
      then have "state d j = Eating" using j(2) out [OF j5] by (auto simp: pending_def in_monitor_def)
      then have "dexec j d \<noteq> Inr None" using dexec_blocked [OF inv j5] dining_invD(1) [OF inv j5] None by (auto simp: local_ok_def)
      then show ?thesis using go j5 by blast
    qed (use go w(1) in blast)
  qed
qed

subsection \<open>Properties\<close>

text \<open>
  (C17) The monitor of the dining philosophers is safe: in every interleaving no assertion of the lock or the conditions fails, two
  neighbours never eat at the same time, and a philosopher who has left \<open>pickup\<close> is eating.
\<close>

theorem neighbours_never_eat:
  assumes "dstep\<^sup>*\<^sup>* new_DinningPh d" "i < 5"
  shows "(\<exists>r. dexec i d = Inr r) \<and> (pc d i = Eat \<longrightarrow> state d i = Eating) \<and>
    \<not> (state d i = Eating \<and> (state d ((i + 1) mod 5) = Eating \<or> state d ((i + 4) mod 5) = Eating))"
proof -
  note inv = ds.inv_reachable [OF assms(1)]
  have "\<exists>r. dexec i d = Inr r" using dexec_cases [OF inv assms(2)] by blast
  moreover have "pc d i = Eat \<longrightarrow> state d i = Eating" using dining_invD(1) [OF inv assms(2)] by (auto simp: local_ok_def)
  ultimately show ?thesis using dining_invD(3) [OF inv assms(2)] by (auto simp: adj_def)
qed

text \<open>Philosopher 0 eats and philosopher 1 sleeps.\<close>

fun drun :: "nat list \<Rightarrow> DinningPh \<Rightarrow> DinningPh option" where
  "drun [] d = Some d"
| "drun (i # ks) d = (case dexec i d of Inr (Some d') \<Rightarrow> if i < 5 then drun ks d' else None | _ \<Rightarrow> None)"

lemma drun_reaches: "drun ks d = Some d' \<Longrightarrow> dstep\<^sup>*\<^sup>* d d'"
proof (induction ks arbitrary: d)
  case (Cons i ks)
  then obtain d1 where d1: "dexec i d = Inr (Some d1)" "i < 5" "drun ks d1 = Some d'" by (auto split: sum.splits option.splits if_splits)
  then have "dstep d d1" by (intro dstep.intros)
  then show ?case using Cons.IH [OF d1(3)] by (rule converse_rtranclp_into_rtranclp)
qed simp

lemma demo_dinner:
  obtains d where "dstep\<^sup>*\<^sup>* new_DinningPh d" "pc d 0 = Eat" "pc d 1 = WaitP" "waiter d 1 = 0"
proof -
  have "case drun (replicate 6 0 @ replicate 5 1) new_DinningPh of Some d \<Rightarrow> pc d 0 = Eat \<and> pc d 1 = WaitP \<and> waiter d 1 = 0 | None \<Rightarrow> False" by code_simp
  then show ?thesis using that drun_reaches by (auto split: option.splits)
qed

theorem neighbours_never_eat_witness:
  "\<exists>d. dstep\<^sup>*\<^sup>* new_DinningPh d \<and> pc d 0 = Eat \<and> state d 0 = Eating \<and> state d 1 \<noteq> Eating"
proof -
  obtain d where d: "dstep\<^sup>*\<^sup>* new_DinningPh d" "pc d 0 = Eat" by (rule demo_dinner)
  have "pc d 0 = Eat \<and> state d 0 = Eating \<and> state d 1 \<noteq> Eating" using neighbours_never_eat [OF d(1), of 0] d(2) by simp
  then show ?thesis using d(1) by blast
qed

text \<open>
  (C31) The philosophers do not deadlock: while one of them has not finished, one of them can go on; and one who sleeps unsignalled
  has a neighbour who eats, or who is about to test him on the way out of \<open>putdown\<close>.
\<close>

theorem philosophers_progress:
  assumes "dstep\<^sup>*\<^sup>* new_DinningPh d" "i < 5" "pc d i \<noteq> Gone"
  shows "(\<exists>k < 5. \<exists>d'. dexec k d = Inr (Some d')) \<and>
    (pc d i = WaitP \<and> waiter d i = 0 \<longrightarrow> (\<exists>j \<in> {(i + 1) mod 5, (i + 4) mod 5}. state d j = Eating \<or> pc d j = PutTestL \<or> pc d j = PutTestR))"
proof -
  note inv = ds.inv_reachable [OF assms(1)]
  have r: "wait_reason d i" if "pc d i = WaitP \<and> waiter d i = 0"
    using that dining_invD(1,4) [OF inv assms(2)] by (auto simp: local_ok_def)
  have "wait_reason d i \<Longrightarrow> \<exists>j \<in> {(i + 1) mod 5, (i + 4) mod 5}. state d j = Eating \<or> pc d j = PutTestL \<or> pc d j = PutTestR"
    unfolding wait_reason_def pending_def adj_def by blast
  then show ?thesis using dining_progress [OF inv assms(2,3)] r by blast
qed

theorem philosophers_progress_witness:
  "\<exists>d j. dstep\<^sup>*\<^sup>* new_DinningPh d \<and> pc d 1 = WaitP \<and> waiter d 1 = 0 \<and> j \<in> {2, 0} \<and> (state d j = Eating \<or> pc d j = PutTestL \<or> pc d j = PutTestR)"
proof -
  obtain d where d: "dstep\<^sup>*\<^sup>* new_DinningPh d" "pc d 1 = WaitP" "waiter d 1 = 0" by (rule demo_dinner)
  have p: "(1::nat) < 5" "pc d 1 \<noteq> Gone" using d(2) by simp_all
  have "\<exists>j \<in> {(1 + 1) mod 5, (1 + 4) mod 5}. state d j = Eating \<or> pc d j = PutTestL \<or> pc d j = PutTestR"
    by (rule philosophers_progress [OF d(1) p, THEN conjunct2, THEN mp]) (use d(2,3) in simp)
  then obtain j where "j \<in> {(1 + 1) mod 5, (1 + 4) mod 5}" "state d j = Eating \<or> pc d j = PutTestL \<or> pc d j = PutTestR" by (elim bexE)
  then show ?thesis using d by (intro exI [of _ d] exI [of _ j] conjI) (simp_all add: numeral_2_eq_2)
qed

end
