(* ===== verification/Spec2Isabelle.thy ===== *)
theory Spec2Isabelle
  imports Linked_List Bit_Map Interrupts Synch_Safety Mips_Exec File_System_Test Paging Coff_Noff Disk_Device Post_Office Processes Syscalls Console_Device Thread_Labs
begin

text \<open>
  A verification development for the Nachos instructional operating system (\<open>src/nachos64/code\<close>).
\<close>

end
